(* ===== verification/Relay_Prelude.thy ===== *)
theory Relay_Prelude
  imports Complex_Main "HOL-Library.AList"
begin

text \<open>
  Shared vocabulary of the development. A Go map is an association list with
  pairwise distinct keys; the order of the list stands for the order in which a
  \<^verbatim>\<open>range\<close> loop visits the map, which Go leaves unspecified, so a theorem
  about every list is a theorem about every visiting order. Reading an absent key
  gives the zero value, written \<open>mget0\<close> for integer maps.

  The collections \<open>gomap_simps\<close> and \<open>invariant_intros\<close> gather the rewrite rules for
  maps and the preservation lemmas of the component invariants.
\<close>

named_theorems gomap_simps \<open>rewrite rules for Go maps\<close>
named_theorems invariant_intros \<open>operations keep the invariant of their component\<close>

type_synonym ('k, 'v) gomap = "('k \<times> 'v) list"

abbreviation mput :: "'k \<Rightarrow> 'v \<Rightarrow> ('k, 'v) gomap \<Rightarrow> ('k, 'v) gomap" where
  "mput k v m \<equiv> AList.update k v m"

abbreviation mdel :: "'k \<Rightarrow> ('k, 'v) gomap \<Rightarrow> ('k, 'v) gomap" where
  "mdel k m \<equiv> AList.delete k m"

definition mkeep :: "('k \<Rightarrow> 'v \<Rightarrow> bool) \<Rightarrow> ('k, 'v) gomap \<Rightarrow> ('k, 'v) gomap" where
  "mkeep P m = filter (\<lambda>(k, v). P k v) m"

definition mhas :: "('k, 'v) gomap \<Rightarrow> 'k \<Rightarrow> bool" where
  "mhas m k = (map_of m k \<noteq> None)"

definition mget0 :: "('k, int) gomap \<Rightarrow> 'k \<Rightarrow> int" where
  "mget0 m k = (case map_of m k of None \<Rightarrow> 0 | Some v \<Rightarrow> v)"

abbreviation mkeys :: "('k, 'v) gomap \<Rightarrow> 'k set" where
  "mkeys m \<equiv> fst ` set m"

definition mwf :: "('k, 'v) gomap \<Rightarrow> bool" where
  "mwf m = distinct (map fst m)"

definition msum :: "('k, int) gomap \<Rightarrow> int" where
  "msum m = sum_list (map snd m)"

subsection \<open>Lookup after an update\<close>

lemma mget0_mput [simp]: "mget0 (mput k v m) k' = (if k' = k then v else mget0 m k')"
  by (simp add: mget0_def update_conv')

lemma mget0_mdel [simp]: "mget0 (mdel k m) k' = (if k' = k then 0 else mget0 m k')"
  by (simp add: mget0_def delete_conv')

lemma mget0_Nil [simp]: "mget0 [] k = 0"
  by (simp add: mget0_def)

lemma mhas_mput [simp]: "mhas (mput k v m) k' = (k' = k \<or> mhas m k')"
  by (auto simp: mhas_def update_conv')

lemma mhas_mdel [simp]: "mhas (mdel k m) k' = (k' \<noteq> k \<and> mhas m k')"
  by (auto simp: mhas_def delete_conv')

lemma mhas_Nil [simp]: "\<not> mhas [] k"
  by (simp add: mhas_def)

lemma mhas_keys: "mhas m k \<longleftrightarrow> k \<in> mkeys m"
  by (simp add: mhas_def map_of_eq_None_iff)

lemma map_of_mput [simp]: "map_of (mput k v m) k' = (if k' = k then Some v else map_of m k')"
  by (simp add: update_conv')

lemma map_of_mdel [simp]: "map_of (mdel k m) k' = (if k' = k then None else map_of m k')"
  by (simp add: delete_conv')

lemma mget0_not_has: "\<not> mhas m k \<Longrightarrow> mget0 m k = 0"
  by (simp add: mhas_def mget0_def)

lemma mget0_pos_has: "0 < mget0 m k \<Longrightarrow> mhas m k"
  by (auto simp: mhas_def mget0_def split: option.splits)

lemma mget0_Some: "map_of m k = Some v \<Longrightarrow> mget0 m k = v"
  by (simp add: mget0_def)

lemma map_of_mkeep:
  "mwf m \<Longrightarrow> map_of (mkeep P m) k =
    (case map_of m k of None \<Rightarrow> None | Some v \<Rightarrow> if P k v then Some v else None)"
proof (induction m)
  case Nil
  show ?case by (simp add: mkeep_def)
next
  case (Cons p m)
  then show ?case
    by (cases p) (auto simp: mkeep_def mwf_def map_of_eq_None_iff split: option.splits
        dest: map_of_SomeD)
qed

lemma mhas_mkeep: "mwf m \<Longrightarrow> mhas (mkeep P m) k \<longleftrightarrow> (\<exists>v. map_of m k = Some v \<and> P k v)"
  by (simp add: mhas_def map_of_mkeep split: option.splits)

lemma mhas_mkeepD: "mhas (mkeep P m) k \<Longrightarrow> mhas m k"
  by (auto simp: mhas_keys mkeep_def)

lemma mkeep_subset: "set (mkeep P m) \<subseteq> set m"
  by (auto simp: mkeep_def)

lemma mget0_mkeep_key:
  "mwf m \<Longrightarrow> mget0 (mkeep (\<lambda>k v. Q k) m) k = (if Q k then mget0 m k else 0)"
  by (simp add: mget0_def map_of_mkeep split: option.splits)

subsection \<open>Distinct keys\<close>

lemma mwf_Nil [simp, intro]: "mwf []"
  by (simp add: mwf_def)

lemma mwf_mput [simp, intro]: "mwf m \<Longrightarrow> mwf (mput k v m)"
  by (simp add: mwf_def distinct_update)

lemma mwf_mdel [simp, intro]: "mwf m \<Longrightarrow> mwf (mdel k m)"
  by (simp add: mwf_def distinct_delete)

lemma mwf_mkeep [simp, intro]: "mwf m \<Longrightarrow> mwf (mkeep P m)"
  by (auto simp: mwf_def mkeep_def distinct_map intro: inj_on_subset)

lemma mwf_map_value [simp]: "mwf (map (\<lambda>(k, v). (k, f k v)) m) = mwf m"
  by (simp add: mwf_def case_prod_unfold comp_def)

lemma mwf_card_keys: "mwf m \<Longrightarrow> card (mkeys m) = length m"
  unfolding mwf_def by (metis distinct_card length_map list.set_map)

subsection \<open>Number of entries\<close>

lemma length_mput: "length (mput k v m) = (if mhas m k then length m else Suc (length m))"
  by (induction m) (auto simp: mhas_def)

lemma length_mdel_le: "length (mdel k m) \<le> length m"
  by (simp add: AList.delete_eq)

lemma mdel_absent: "\<not> mhas m k \<Longrightarrow> mdel k m = m"
  by (auto simp: mhas_keys AList.delete_eq filter_id_conv image_iff)

lemma length_mdel_wf: "mwf m \<Longrightarrow> mhas m k \<Longrightarrow> Suc (length (mdel k m)) = length m"
proof (induction m)
  case (Cons p m)
  show ?case
  proof (cases "fst p = k")
    case True
    with Cons.prems have "\<not> mhas m k"
      by (auto simp: mwf_def mhas_keys)
    then have "mdel k m = m" by (rule mdel_absent)
    with True show ?thesis by (simp add: AList.delete_eq case_prod_unfold)
  next
    case False
    with Cons.prems have "mwf m" "mhas m k"
      by (auto simp: mwf_def mhas_keys)
    with Cons.IH False show ?thesis by (simp add: AList.delete_eq case_prod_unfold)
  qed
qed simp

lemma length_mkeep_le: "length (mkeep P m) \<le> length m"
  by (simp add: mkeep_def)

subsection \<open>Sums of integer maps\<close>

lemma msum_Nil [simp]: "msum [] = 0"
  by (simp add: msum_def)

lemma msum_mput: "msum (mput k v m) = msum m - mget0 m k + v"
  by (induction m) (auto simp: msum_def mget0_def)

lemma msum_mdel: "mwf m \<Longrightarrow> msum (mdel k m) = msum m - mget0 m k"
proof (induction m)
  case (Cons p m)
  show ?case
  proof (cases "fst p = k")
    case True
    with Cons.prems have "\<not> mhas m k"
      by (auto simp: mwf_def mhas_keys)
    then have "mdel k m = m" by (rule mdel_absent)
    with True show ?thesis
      by (cases p) (simp add: msum_def mget0_def AList.delete_eq case_prod_unfold)
  next
    case False
    with Cons show ?thesis
      by (cases p) (auto simp: msum_def mget0_def mwf_def AList.delete_eq case_prod_unfold)
  qed
qed simp

lemma msum_mkeep_le:
  "\<forall>v \<in> snd ` set m. 0 \<le> v \<Longrightarrow> msum (mkeep P m) \<le> msum m"
  by (induction m) (auto simp: msum_def mkeep_def)

lemma msum_nonneg: "\<forall>v \<in> snd ` set m. 0 \<le> v \<Longrightarrow> 0 \<le> msum m"
  by (induction m) (auto simp: msum_def)

lemma msum_pos: "\<forall>v \<in> snd ` set m. 0 < v \<Longrightarrow> m \<noteq> [] \<Longrightarrow> 0 < msum m"
proof (induction m)
  case (Cons p m)
  then have "0 \<le> msum m" by (intro msum_nonneg) auto
  with Cons.prems show ?case by (auto simp: msum_def)
qed simp

lemma set_mput_subset: "set (mput k v m) \<subseteq> insert (k, v) (set m)"
  by (induction m) auto

lemma set_mdel_subset: "set (mdel k m) \<subseteq> set m"
  by (auto simp: AList.delete_eq)

lemma mget0_in_set: "mhas m k \<Longrightarrow> (k, mget0 m k) \<in> set m"
  by (auto simp: mhas_def mget0_def dest: map_of_SomeD)

lemmas gomap_basic [gomap_simps] =
  mget0_mput mget0_mdel mhas_mput mhas_mdel map_of_mput map_of_mdel length_mput msum_mput msum_mdel

subsection \<open>Go strings and lists\<close>

lemma find_SomeD: "find P xs = Some x \<Longrightarrow> x \<in> set xs \<and> P x"
  by (induction xs) (auto split: if_splits)

text \<open>\<open>last_n\<close> keeps the last \<open>n\<close> elements, Go's \<^verbatim>\<open>xs[len(xs)-n:]\<close> for \<open>n \<le> len(xs)\<close>.\<close>

definition last_n :: "nat \<Rightarrow> 'a list \<Rightarrow> 'a list" where
  "last_n n xs = drop (length xs - n) xs"

lemma length_last_n [simp]: "length (last_n n xs) = min n (length xs)"
  by (simp add: last_n_def)

lemma last_n_all: "length xs \<le> n \<Longrightarrow> last_n n xs = xs"
  by (simp add: last_n_def)

lemma last_n_snoc: "0 < n \<Longrightarrow> last_n n (xs @ [x]) = last_n (n - 1) xs @ [x]"
  by (cases n) (auto simp: last_n_def)

text \<open>\<^verbatim>\<open>strings.Contains(s, sub)\<close>\<close>

fun contains :: "string \<Rightarrow> string \<Rightarrow> bool" where
  "contains [] sub = (sub = [])"
| "contains (c # cs) sub = (take (length sub) (c # cs) = sub \<or> contains cs sub)"

lemma contains_iff: "contains s sub \<longleftrightarrow> (\<exists>pre post. s = pre @ sub @ post)"
proof
  show "contains s sub \<Longrightarrow> \<exists>pre post. s = pre @ sub @ post"
  proof (induction s sub rule: contains.induct)
    case (2 c cs sub)
    show ?case
    proof (cases "contains cs sub")
      case True
      with 2 obtain pre post where "cs = pre @ sub @ post" by blast
      then have "c # cs = (c # pre) @ sub @ post" by simp
      then show ?thesis by blast
    next
      case False
      with 2 have "take (length sub) (c # cs) = sub" by simp
      then have "c # cs = [] @ sub @ drop (length sub) (c # cs)" by (metis append_Nil append_take_drop_id)
      then show ?thesis by blast
    qed
  qed simp
next
  have "contains (pre @ sub @ post) sub" for pre post
  proof (induction pre)
    case Nil
    have "take (length sub) (sub @ post) = sub" by simp
    then show ?case by (cases "sub @ post") (auto simp del: take_append)
  qed simp
  then show "\<exists>pre post. s = pre @ sub @ post \<Longrightarrow> contains s sub" by blast
qed

text \<open>Go's integer conversion of a byte count: \<^verbatim>\<open>strconv.Itoa\<close> of an integer, in decimal.\<close>

fun nat_digits :: "nat \<Rightarrow> string" where
  "nat_digits n = (if n < 10 then [char_of (48 + n)] else nat_digits (n div 10) @ [char_of (48 + n mod 10)])"

declare nat_digits.simps [simp del]

definition Itoa :: "int \<Rightarrow> string" where
  "Itoa i = (if i < 0 then CHR ''-'' # nat_digits (nat (- i)) else nat_digits (nat i))"

definition is_digit :: "char \<Rightarrow> bool" where
  "is_digit c = (48 \<le> (of_char c :: nat) \<and> (of_char c :: nat) \<le> 57)"

lemma nat_digits_digit: "c \<in> set (nat_digits n) \<Longrightarrow> is_digit c"
proof (induction n rule: nat_digits.induct)
  case (1 n)
  then show ?case
    by (cases "n < 10") (auto simp: nat_digits.simps [of n] is_digit_def)
qed

lemma nat_digits_nonempty [simp]: "nat_digits n \<noteq> []"
  by (simp add: nat_digits.simps [of n])

fun digits_val :: "string \<Rightarrow> nat" where
  "digits_val [] = 0"
| "digits_val (c # cs) = (of_char c - 48) * 10 ^ length cs + digits_val cs"

lemma digits_val_append:
  "digits_val (xs @ ys) = digits_val xs * 10 ^ length ys + digits_val ys"
  by (induction xs) (auto simp: algebra_simps power_add)

lemma digits_val_nat_digits [simp]: "digits_val (nat_digits n) = n"
proof (induction n rule: nat_digits.induct)
  case (1 n)
  show ?case
  proof (cases "n < 10")
    case True
    then show ?thesis by (simp add: nat_digits.simps [of n])
  next
    case False
    with 1 have "digits_val (nat_digits (n div 10)) = n div 10" by simp
    with False show ?thesis
      by (simp add: nat_digits.simps [of n] digits_val_append)
  qed
qed

lemma nat_digits_inject: "nat_digits m = nat_digits n \<longleftrightarrow> m = n"
  by (metis digits_val_nat_digits)

lemma Itoa_inject: "0 \<le> i \<Longrightarrow> 0 \<le> j \<Longrightarrow> Itoa i = Itoa j \<longleftrightarrow> i = j"
  by (auto simp: Itoa_def nat_digits_inject)

lemma Itoa_digits: "0 \<le> i \<Longrightarrow> c \<in> set (Itoa i) \<Longrightarrow> is_digit c"
  by (auto simp: Itoa_def dest: nat_digits_digit)

end
