(* ===== verification/Group_Model.thy ===== *)
theory Group_Model
  imports Relay_Prelude
begin

text \<open>
  The configuration data of \<^verbatim>\<open>internal/model/group.go\<close> and \<^verbatim>\<open>internal/model/channel.go\<close>
  that the relay reads: groups, their members, the relay configuration of a group with its
  defaults and normalisation, channels and channel keys.

  Field prefixes name the record: \<open>g_\<close> a group, \<open>it_\<close> a group member, \<open>cm_\<close> a channel
  model, \<open>ch_\<close> a channel, \<open>ck_\<close> a channel key. Of the channel structs the fields the
  modelled code reads are kept. \<^verbatim>\<open>float64\<close> settings are exact rationals.
\<close>

datatype GroupMode = GroupModeManual | GroupModeFailover

record GroupRelayConfig =
  MemberMaxAttempts :: int
  MemberInfraMaxRetries :: int
  MemberRetryIntervalSeconds :: rat
  MemberNonStreamResponseTimeoutSeconds :: int
  MemberStreamFirstEventTimeoutSeconds :: int
  MemberStreamIdleTimeoutSeconds :: int
  MemberStreamMaxBytes :: int
  MemberStreamMaxEvents :: int
  MemberCooldownSeconds :: int
  MemberAffinitySeconds :: int
  MaxRequestRounds :: int
  MaxRequestSeconds :: int
  SessionStickyEnabled :: bool
  SessionStickySeconds :: int
  CooldownBackoffMultiplier :: rat
  CooldownMaxSeconds :: int
  AllCooldownRetryBaseSeconds :: int
  AllCooldownRetryMaxSeconds :: int
  BackgroundProbeEnabled :: bool
  BackgroundProbeIntervalSeconds :: int
  EmergencyItemID :: int
  PreferPassthrough :: bool
  MaskEnabled :: bool
  AutoMatchModels :: bool
  EchoResponseModel :: bool
  ContextFitEnabled :: bool
  RejectTitleRequests :: bool

text \<open>The zero value of the struct, \<^verbatim>\<open>GroupRelayConfig{}\<close>.\<close>

definition zero_GroupRelayConfig :: GroupRelayConfig where
  "zero_GroupRelayConfig = \<lparr>
     MemberMaxAttempts = 0, MemberInfraMaxRetries = 0, MemberRetryIntervalSeconds = 0,
     MemberNonStreamResponseTimeoutSeconds = 0, MemberStreamFirstEventTimeoutSeconds = 0,
     MemberStreamIdleTimeoutSeconds = 0, MemberStreamMaxBytes = 0, MemberStreamMaxEvents = 0,
     MemberCooldownSeconds = 0, MemberAffinitySeconds = 0, MaxRequestRounds = 0,
     MaxRequestSeconds = 0, SessionStickyEnabled = False, SessionStickySeconds = 0,
     CooldownBackoffMultiplier = 0, CooldownMaxSeconds = 0, AllCooldownRetryBaseSeconds = 0,
     AllCooldownRetryMaxSeconds = 0, BackgroundProbeEnabled = False,
     BackgroundProbeIntervalSeconds = 0, EmergencyItemID = 0, PreferPassthrough = False,
     MaskEnabled = False, AutoMatchModels = False, EchoResponseModel = False,
     ContextFitEnabled = False, RejectTitleRequests = False \<rparr>"

definition DefaultGroupRelayConfig :: GroupRelayConfig where
  "DefaultGroupRelayConfig = \<lparr>
     MemberMaxAttempts = 3, MemberInfraMaxRetries = 3, MemberRetryIntervalSeconds = 2,
     MemberNonStreamResponseTimeoutSeconds = 1200, MemberStreamFirstEventTimeoutSeconds = 60,
     MemberStreamIdleTimeoutSeconds = 120, MemberStreamMaxBytes = 0, MemberStreamMaxEvents = 0,
     MemberCooldownSeconds = 60, MemberAffinitySeconds = 300, MaxRequestRounds = 600,
     MaxRequestSeconds = 0, SessionStickyEnabled = True, SessionStickySeconds = 300,
     CooldownBackoffMultiplier = 2, CooldownMaxSeconds = 1800, AllCooldownRetryBaseSeconds = 3,
     AllCooldownRetryMaxSeconds = 60, BackgroundProbeEnabled = False,
     BackgroundProbeIntervalSeconds = 60, EmergencyItemID = 0, PreferPassthrough = False,
     MaskEnabled = False, AutoMatchModels = False, EchoResponseModel = False,
     ContextFitEnabled = False, RejectTitleRequests = False \<rparr>"

text \<open>One field of the normalisation: a value below the minimum takes the default.\<close>

definition at_least :: "'a::linorder \<Rightarrow> 'a \<Rightarrow> 'a \<Rightarrow> 'a" where
  "at_least lo dflt x = (if x < lo then dflt else x)"

definition NormalizeGroupRelayConfig :: "GroupRelayConfig \<Rightarrow> GroupRelayConfig" where
  "NormalizeGroupRelayConfig config =
    (let d = DefaultGroupRelayConfig in
     if config = zero_GroupRelayConfig then d
     else config\<lparr>
       MemberMaxAttempts := at_least 1 (MemberMaxAttempts d) (MemberMaxAttempts config),
       MemberInfraMaxRetries := at_least 0 (MemberInfraMaxRetries d) (MemberInfraMaxRetries config),
       MemberRetryIntervalSeconds :=
         at_least 0 (MemberRetryIntervalSeconds d) (MemberRetryIntervalSeconds config),
       MemberNonStreamResponseTimeoutSeconds :=
         at_least 1 (MemberNonStreamResponseTimeoutSeconds d) (MemberNonStreamResponseTimeoutSeconds config),
       MemberStreamFirstEventTimeoutSeconds :=
         at_least 1 (MemberStreamFirstEventTimeoutSeconds d) (MemberStreamFirstEventTimeoutSeconds config),
       MemberStreamIdleTimeoutSeconds :=
         at_least 0 (MemberStreamIdleTimeoutSeconds d) (MemberStreamIdleTimeoutSeconds config),
       MemberStreamMaxBytes := at_least 0 (MemberStreamMaxBytes d) (MemberStreamMaxBytes config),
       MemberStreamMaxEvents := at_least 0 (MemberStreamMaxEvents d) (MemberStreamMaxEvents config),
       MemberCooldownSeconds := at_least 1 (MemberCooldownSeconds d) (MemberCooldownSeconds config),
       MemberAffinitySeconds := at_least 0 (MemberAffinitySeconds d) (MemberAffinitySeconds config),
       MaxRequestRounds := at_least 1 (MaxRequestRounds d) (MaxRequestRounds config),
       MaxRequestSeconds := at_least 0 (MaxRequestSeconds d) (MaxRequestSeconds config),
       SessionStickySeconds := at_least 1 (SessionStickySeconds d) (SessionStickySeconds config),
       CooldownBackoffMultiplier :=
         at_least 1 (CooldownBackoffMultiplier d) (CooldownBackoffMultiplier config),
       CooldownMaxSeconds := at_least 1 (CooldownMaxSeconds d) (CooldownMaxSeconds config),
       AllCooldownRetryBaseSeconds :=
         at_least 0 (AllCooldownRetryBaseSeconds d) (AllCooldownRetryBaseSeconds config),
       AllCooldownRetryMaxSeconds :=
         at_least 1 (AllCooldownRetryMaxSeconds d) (AllCooldownRetryMaxSeconds config),
       BackgroundProbeIntervalSeconds :=
         at_least 1 (BackgroundProbeIntervalSeconds d) (BackgroundProbeIntervalSeconds config),
       EmergencyItemID := at_least 0 0 (EmergencyItemID config) \<rparr>)"

text \<open>The ranges the \<^verbatim>\<open>binding\<close> tags of the struct ask for.\<close>

definition valid_config :: "GroupRelayConfig \<Rightarrow> bool" where
  "valid_config c \<longleftrightarrow>
     1 \<le> MemberMaxAttempts c \<and> 0 \<le> MemberInfraMaxRetries c \<and> 0 \<le> MemberRetryIntervalSeconds c \<and>
     1 \<le> MemberNonStreamResponseTimeoutSeconds c \<and> 1 \<le> MemberStreamFirstEventTimeoutSeconds c \<and>
     0 \<le> MemberStreamIdleTimeoutSeconds c \<and> 0 \<le> MemberStreamMaxBytes c \<and>
     0 \<le> MemberStreamMaxEvents c \<and> 1 \<le> MemberCooldownSeconds c \<and> 0 \<le> MemberAffinitySeconds c \<and>
     1 \<le> MaxRequestRounds c \<and> 0 \<le> MaxRequestSeconds c \<and> 1 \<le> SessionStickySeconds c \<and>
     1 \<le> CooldownBackoffMultiplier c \<and> 1 \<le> CooldownMaxSeconds c \<and>
     0 \<le> AllCooldownRetryBaseSeconds c \<and> 1 \<le> AllCooldownRetryMaxSeconds c \<and>
     1 \<le> BackgroundProbeIntervalSeconds c \<and> 0 \<le> EmergencyItemID c"

lemma at_least_ge: "lo \<le> dflt \<Longrightarrow> lo \<le> at_least lo dflt x"
  by (auto simp: at_least_def)

lemma at_least_id: "lo \<le> x \<Longrightarrow> at_least lo dflt x = x"
  by (auto simp: at_least_def)

lemma valid_default: "valid_config DefaultGroupRelayConfig"
  by (simp add: valid_config_def DefaultGroupRelayConfig_def)

lemma valid_not_zero: "valid_config c \<Longrightarrow> c \<noteq> zero_GroupRelayConfig"
  by (auto simp: valid_config_def zero_GroupRelayConfig_def)

lemma normalize_valid: "valid_config (NormalizeGroupRelayConfig c)"
proof (cases "c = zero_GroupRelayConfig")
  case True
  then show ?thesis by (simp add: NormalizeGroupRelayConfig_def valid_default)
next
  case False
  then show ?thesis
    by (simp add: NormalizeGroupRelayConfig_def Let_def valid_config_def at_least_ge
        DefaultGroupRelayConfig_def)
qed

lemma normalize_id: "valid_config c \<Longrightarrow> NormalizeGroupRelayConfig c = c"
  by (frule valid_not_zero)
    (simp add: NormalizeGroupRelayConfig_def Let_def valid_config_def at_least_id)

text \<open>
  \<^verbatim>\<open>NormalizeGroupRelayConfig\<close> returns a configuration inside every range the struct's
  binding tags ask for, leaves a configuration that is already inside them unchanged, and is
  therefore idempotent; the empty configuration becomes the default one.
\<close>

lemma normalize_config_correct:
  "valid_config (NormalizeGroupRelayConfig c) \<and>
   NormalizeGroupRelayConfig (NormalizeGroupRelayConfig c) = NormalizeGroupRelayConfig c \<and>
   NormalizeGroupRelayConfig zero_GroupRelayConfig = DefaultGroupRelayConfig \<and>
   (NormalizeGroupRelayConfig c = c) = valid_config c"
proof -
  have "NormalizeGroupRelayConfig c = c \<Longrightarrow> valid_config c"
    using normalize_valid [of c] by simp
  moreover have "NormalizeGroupRelayConfig zero_GroupRelayConfig = DefaultGroupRelayConfig"
    by (simp only: NormalizeGroupRelayConfig_def Let_def if_True refl)
  ultimately show ?thesis
    using normalize_valid [of c] normalize_id [OF normalize_valid [of c]] normalize_id [of c] by blast
qed

subsection \<open>Channels, members and groups\<close>

record ChannelKey =
  ck_ID :: string
  ck_Key :: string
  ck_Remark :: string

record ChannelModel =
  cm_ID :: int
  cm_ChannelID :: int
  cm_Name :: string
  cm_Source :: string
  cm_UpstreamProtocol :: string
  cm_ContextWindow :: int
  cm_MaxOutput :: int
  cm_Reasoning :: bool
  cm_ToolCall :: bool
  cm_InputModalities :: string
  cm_MaxReasoningEffort :: string

record ChannelModelLimit =
  ml_MaxOutput :: "int option"
  ml_ThinkingLevel :: string
  ml_ContextWindow :: "int option"

record Channel =
  ch_ID :: int
  ch_Name :: string
  ch_Type :: string
  ch_Enabled :: bool
  ch_IsFree :: bool
  ch_Builtin :: bool
  ch_BaseURL :: string
  ch_Key :: string
  ch_Keys :: "ChannelKey list"
  ch_FixedReply :: string
  ch_Proxy :: bool
  ch_AutoSync :: bool
  ch_OpencodeCompat :: bool
  ch_OpencodeLane :: string
  ch_Keyed :: bool
  ch_CustomHeader :: "(string \<times> string) list"
  ch_ParamOverride :: "string option"
  ch_MatchRegex :: "string option"
  ch_Tags :: "string list"
  ch_Sort :: int
  ch_PassThroughBodyEnabled :: bool
  ch_ChannelProxy :: "string option"
  ch_ModelLimits :: "(string, ChannelModelLimit) gomap"
  ch_RateLimitRPM :: int
  ch_MaxConcurrent :: int

definition PrimaryKey :: "Channel \<Rightarrow> string" where
  "PrimaryKey c =
    (case ch_Keys c of
       [] \<Rightarrow> ch_Key c
     | k # _ \<Rightarrow> if ck_Key k \<noteq> [] then ck_Key k else ch_Key c)"

record GroupItem =
  it_ID :: int
  it_GroupID :: int
  it_ChannelModelID :: int
  it_RefGroupName :: string
  it_ChannelModel :: "ChannelModel option"
  it_Priority :: int

text \<open>The zero value \<^verbatim>\<open>model.GroupItem{}\<close>, which selection returns for "no member".\<close>

definition zero_GroupItem :: GroupItem where
  "zero_GroupItem = \<lparr>it_ID = 0, it_GroupID = 0, it_ChannelModelID = 0, it_RefGroupName = [],
     it_ChannelModel = None, it_Priority = 0\<rparr>"

definition IsGroupRef :: "GroupItem \<Rightarrow> bool" where
  "IsGroupRef i \<longleftrightarrow> it_ChannelModelID i = 0 \<and> it_RefGroupName i \<noteq> []"

definition MaxGroupRefDepth :: nat where
  "MaxGroupRefDepth = 8"

record Group =
  g_ID :: int
  g_Name :: string
  g_Mode :: GroupMode
  g_ActiveItemID :: int
  g_RelayConfig :: GroupRelayConfig
  g_DisplayOrder :: int
  g_Items :: "GroupItem list"

lemma zero_item_ID [simp]: "it_ID zero_GroupItem = 0"
  by (simp add: zero_GroupItem_def)

lemma zero_item_not_ref [simp]: "\<not> IsGroupRef zero_GroupItem"
  by (simp add: zero_GroupItem_def IsGroupRef_def)

definition itemOf :: "Group \<Rightarrow> int \<Rightarrow> GroupItem" where
  "itemOf g itemID =
    (case find (\<lambda>item. it_ID item = itemID) (g_Items g) of
       Some item \<Rightarrow> item | None \<Rightarrow> zero_GroupItem)"

lemma itemOf_found: "it_ID (itemOf g i) \<noteq> 0 \<Longrightarrow> it_ID (itemOf g i) = i \<and> itemOf g i \<in> set (g_Items g)"
  by (auto simp: itemOf_def split: option.splits dest: find_SomeD)

end
