(* ===== verification/Rate_Window.thy ===== *)
theory Rate_Window
  imports Relay_Prelude
begin

text \<open>
  The contract of a sliding-window rate limiter, shared by \<^verbatim>\<open>internal/keylimit\<close>
  (\<^verbatim>\<open>AcquireRPMPermit\<close>) and \<^verbatim>\<open>internal/relay/channellimit.go\<close> (\<^verbatim>\<open>tryChannelRPMPermit\<close>):
  a limiter keeps the admission times of the last window and admits a call while fewer than
  the limit remain. Times are nanoseconds.

  \<open>admissions\<close> runs a limiter over a sequence of call times and collects the times it admits.
  The locale proves once that no interval of one window length holds more admissions than the
  limit.
\<close>

fun admissions :: "(int \<Rightarrow> int list \<Rightarrow> bool \<times> int list) \<Rightarrow> int list \<Rightarrow> int list \<Rightarrow> int list" where
  "admissions admit w [] = []"
| "admissions admit w (now # ts) =
    (case admit now w of
       (ok, w') \<Rightarrow> (if ok then [now] else []) @ admissions admit w' ts)"

definition in_window :: "int \<Rightarrow> int \<Rightarrow> int list \<Rightarrow> int list" where
  "in_window W t xs = filter (\<lambda>x. t - W < x \<and> x \<le> t) xs"

text \<open>\<^verbatim>\<open>for start < len(window) && !window[start].After(cutoff) { start++ }\<close>, on a sorted list.\<close>

lemma dropWhile_sorted_filter:
  "sorted xs \<Longrightarrow> dropWhile (\<lambda>t. \<not> cutoff < t) xs = filter (\<lambda>t. cutoff < t) (xs :: int list)"
proof (induction xs)
  case (Cons x xs)
  show ?case
  proof (cases "cutoff < x")
    case True
    with Cons.prems have "filter (\<lambda>t. cutoff < t) xs = xs"
      by (auto simp: filter_id_conv)
    with True show ?thesis by simp
  next
    case False
    with Cons show ?thesis by simp
  qed
qed simp

locale sliding_window =
  fixes W :: int
    and admit :: "int \<Rightarrow> int \<Rightarrow> int list \<Rightarrow> bool \<times> int list"
  assumes window_pos: "0 \<le> W"
    and admit_iff: "sorted w \<Longrightarrow> fst (admit rpm now w) \<longleftrightarrow>
          int (length (filter (\<lambda>t. now - W < t) w)) < rpm"
    and admit_window: "sorted w \<Longrightarrow> snd (admit rpm now w) =
          filter (\<lambda>t. now - W < t) w @ (if fst (admit rpm now w) then [now] else [])"
begin

lemma window_sorted:
  "sorted w \<Longrightarrow> \<forall>t \<in> set w. t \<le> now \<Longrightarrow> sorted (snd (admit rpm now w))"
  by (auto simp: admit_window sorted_append sorted_filter [where f = id, simplified])

lemma window_length:
  "sorted w \<Longrightarrow> int (length w) \<le> rpm \<Longrightarrow> int (length (snd (admit rpm now w))) \<le> rpm"
proof -
  assume "sorted w" and le: "int (length w) \<le> rpm"
  have "length (filter (\<lambda>t. now - W < t) w) \<le> length w" by (rule length_filter_le)
  with le have "int (length (filter (\<lambda>t. now - W < t) w)) \<le> rpm" by linarith
  with \<open>sorted w\<close> show ?thesis by (auto simp: admit_window admit_iff)
qed

text \<open>
  The invariant of a run: \<open>h\<close> is everything admitted so far, the stored window holds every
  element of \<open>h\<close> younger than one window, and no interval holds more than \<open>rpm\<close>.
\<close>

lemma admissions_bound_from:
  assumes "sorted (last_now # ts)" and "sorted w" and "\<forall>t \<in> set h. t \<le> last_now"
    and "\<forall>t \<in> set w. t \<le> last_now"
    and "filter (\<lambda>x. last_now - W < x) h = filter (\<lambda>x. last_now - W < x) w"
    and "\<And>t. int (length (in_window W t h)) \<le> rpm"
  shows "int (length (in_window W t (h @ admissions (admit rpm) w ts))) \<le> rpm"
  using assms
proof (induction ts arbitrary: last_now w h)
  case Nil
  then show ?case by simp
next
  case (Cons now ts)
  let ?f = "\<lambda>x. now - W < x"
  let ?ok = "fst (admit rpm now w)" and ?w' = "snd (admit rpm now w)"
  let ?h' = "h @ (if ?ok then [now] else [])"
  have le: "last_now \<le> now" using Cons.prems(1) by simp
  have weaken: "filter ?f xs = filter ?f (filter (\<lambda>x. last_now - W < x) xs)" for xs
    using le by (simp add: filter_filter) (rule filter_cong, auto)
  have same: "filter ?f h = filter ?f w"
    by (subst (1 2) weaken) (simp only: Cons.prems(5))
  have w': "?w' = filter ?f w @ (if ?ok then [now] else [])"
    using Cons.prems(2) by (simp add: admit_window)
  have bound: "int (length (in_window W t ?h')) \<le> rpm" for t
  proof (cases "?ok \<and> now \<le> t")
    case False
    then show ?thesis using Cons.prems(6) [of t] by (auto simp: in_window_def)
  next
    case True
    have "length (in_window W t h) \<le> length (filter ?f h)"
      using True by (induction h) (auto simp: in_window_def)
    moreover have "int (length (filter ?f w)) < rpm"
      using True Cons.prems(2) by (simp add: admit_iff)
    ultimately show ?thesis using True same by (simp add: in_window_def)
  qed
  have "int (length (in_window W t (?h' @ admissions (admit rpm) ?w' ts))) \<le> rpm"
  proof (rule Cons.IH)
    show "sorted (now # ts)" using Cons.prems(1) by simp
    show "sorted ?w'" using Cons.prems(2,4) le by (intro window_sorted) auto
    show "\<forall>t \<in> set ?h'. t \<le> now" using Cons.prems(3) le by auto
    show "\<forall>t \<in> set ?w'. t \<le> now" using Cons.prems(4) le by (auto simp: w')
    show "filter ?f ?h' = filter ?f ?w'"
      by (simp add: w' same filter_filter)
    show "\<And>t. int (length (in_window W t ?h')) \<le> rpm" by (rule bound)
  qed
  then show ?case by (auto simp: case_prod_unfold)
qed

theorem admissions_bound:
  assumes "sorted ts" and "0 \<le> rpm"
  shows "int (length (in_window W t (admissions (admit rpm) [] ts))) \<le> rpm"
proof (cases ts)
  case Nil
  with assms show ?thesis by (simp add: in_window_def)
next
  case (Cons now ts')
  have "int (length (in_window W t ([] @ admissions (admit rpm) [] ts))) \<le> rpm"
    by (rule admissions_bound_from [where last_now = now])
      (use assms Cons in \<open>auto simp: in_window_def\<close>)
  then show ?thesis by simp
qed

end

end
