(* ===== verification/Counter_Heap.thy ===== *)
theory Counter_Heap
  imports Relay_Prelude
begin

text \<open>
  Concurrency counters held by reference. \<^verbatim>\<open>keylimit.concurrencyState\<close> and
  \<^verbatim>\<open>relay.channelConcurrencyState\<close> are heap objects with an \<^verbatim>\<open>active\<close> field; the function
  returned to a caller closes over one object and runs its \<^verbatim>\<open>release\<close> at most once
  (\<^verbatim>\<open>sync.Once\<close>). A registry may drop an object while released-later closures still point to
  it, so the objects live in an explicit heap: \<open>hp_active\<close> holds the counter of each object,
  \<open>hp_leases\<close> the object of each issued closure and whether it has fired.

  The locale \<open>slot_admission\<close> is the contract of a limiter that issues such leases.
\<close>

record counter_heap =
  hp_active :: "int list"
  hp_leases :: "(nat \<times> bool) list"

definition empty_heap :: counter_heap where
  "empty_heap = \<lparr>hp_active = [], hp_leases = []\<rparr>"

text \<open>\<^verbatim>\<open>&concurrencyState{}\<close>: a fresh object with a zero counter.\<close>

definition new_state :: "counter_heap \<Rightarrow> nat \<times> counter_heap" where
  "new_state h = (length (hp_active h), h\<lparr>hp_active := hp_active h @ [0]\<rparr>)"

text \<open>\<^verbatim>\<open>if st.active > 0 { st.active-- }\<close>\<close>

definition release_active :: "nat \<Rightarrow> counter_heap \<Rightarrow> counter_heap" where
  "release_active st h =
    (if 0 < hp_active h ! st
     then h\<lparr>hp_active := (hp_active h)[st := hp_active h ! st - 1]\<rparr> else h)"

text \<open>\<^verbatim>\<open>st.active++\<close> and the closure \<^verbatim>\<open>func() { once.Do(st.release) }\<close>; the result is its number.\<close>

definition issue_lease :: "nat \<Rightarrow> counter_heap \<Rightarrow> nat \<times> counter_heap" where
  "issue_lease st h =
    (length (hp_leases h),
     h\<lparr>hp_active := (hp_active h)[st := hp_active h ! st + 1],
       hp_leases := hp_leases h @ [(st, False)]\<rparr>)"

text \<open>Calling the closure: \<^verbatim>\<open>once.Do\<close> runs \<^verbatim>\<open>st.release\<close> on the first call only.\<close>

definition fire_lease :: "nat \<Rightarrow> counter_heap \<Rightarrow> counter_heap" where
  "fire_lease l h =
    (if l < length (hp_leases h) \<and> \<not> snd (hp_leases h ! l)
     then release_active (fst (hp_leases h ! l))
            (h\<lparr>hp_leases := (hp_leases h)[l := (fst (hp_leases h ! l), True)]\<rparr>)
     else h)"

definition outstanding :: "nat \<Rightarrow> counter_heap \<Rightarrow> nat" where
  "outstanding st h = length (filter (\<lambda>p. p = (st, False)) (hp_leases h))"

text \<open>Every counter equals the number of leases of its object that have not been released.\<close>

definition heap_ok :: "counter_heap \<Rightarrow> bool" where
  "heap_ok h \<longleftrightarrow>
     (\<forall>st < length (hp_active h). hp_active h ! st = int (outstanding st h)) \<and>
     (\<forall>(st, fired) \<in> set (hp_leases h). st < length (hp_active h))"

lemma heap_ok_active: "heap_ok h \<Longrightarrow> st < length (hp_active h) \<Longrightarrow> hp_active h ! st = int (outstanding st h)"
  by (simp add: heap_ok_def)

lemma heap_ok_empty [simp, intro]: "heap_ok empty_heap"
  by (simp add: heap_ok_def empty_heap_def)

lemma heap_ok_new_state [intro]: "heap_ok h \<Longrightarrow> heap_ok (snd (new_state h))"
proof -
  assume ok: "heap_ok h"
  have "outstanding (length (hp_active h)) h = 0"
    using ok by (auto simp: heap_ok_def outstanding_def filter_empty_conv)
  with ok show ?thesis
    by (auto simp: heap_ok_def new_state_def outstanding_def nth_append less_Suc_eq)
qed

lemma heap_ok_issue [intro]:
  "heap_ok h \<Longrightarrow> st < length (hp_active h) \<Longrightarrow> heap_ok (snd (issue_lease st h))"
  by (auto simp: heap_ok_def issue_lease_def outstanding_def nth_list_update)

lemma length_filter_update:
  "i < length xs \<Longrightarrow> xs ! i = a \<Longrightarrow> a \<noteq> b \<Longrightarrow>
   length (filter (\<lambda>p. p = c) (xs[i := b])) + (if c = a then 1 else 0)
   = length (filter (\<lambda>p. p = c) xs) + (if c = b then 1 else 0)"
proof (induction xs arbitrary: i)
  case (Cons x xs)
  then show ?case by (cases i) auto
qed simp

lemma heap_ok_fire [intro]: "heap_ok h \<Longrightarrow> heap_ok (fire_lease l h)"
proof (cases "l < length (hp_leases h) \<and> \<not> snd (hp_leases h ! l)")
  case False
  then show "heap_ok h \<Longrightarrow> heap_ok (fire_lease l h)" unfolding fire_lease_def by auto
next
  case True
  assume ok: "heap_ok h"
  obtain st where st: "hp_leases h ! l = (st, False)"
    using True by (cases "hp_leases h ! l") auto
  with True have mem: "(st, False) \<in> set (hp_leases h)" by (metis nth_mem)
  with ok have lt: "st < length (hp_active h)" by (auto simp: heap_ok_def)
  let ?ls = "(hp_leases h)[l := (st, True)]"
  have count: "length (filter (\<lambda>p. p = (s, False)) ?ls) + (if s = st then 1 else 0)
      = length (filter (\<lambda>p. p = (s, False)) (hp_leases h))" for s
    using length_filter_update [of l "hp_leases h" "(st, False)" "(st, True)" "(s, False)"] True st
    by auto
  have pos: "0 < outstanding st h"
    using mem by (auto simp: outstanding_def filter_empty_conv)
  have act: "hp_active h ! st = int (outstanding st h)" using ok lt by (simp add: heap_ok_def)
  have eq: "fire_lease l h = h\<lparr>hp_active := (hp_active h)[st := hp_active h ! st - 1], hp_leases := ?ls\<rparr>"
    using True st pos act by (simp add: fire_lease_def release_active_def)
  have refs: "\<forall>(s, f) \<in> set ?ls. s < length (hp_active h)"
    using ok lt set_update_subset_insert [of "hp_leases h" l "(st, True)"]
    by (fastforce simp: heap_ok_def)
  show ?thesis
    unfolding heap_ok_def eq
  proof (intro conjI allI impI)
    fix s assume "s < length (hp_active (h\<lparr>hp_active := (hp_active h)[st := hp_active h ! st - 1], hp_leases := ?ls\<rparr>))"
    then have s: "s < length (hp_active h)" by simp
    then show "hp_active (h\<lparr>hp_active := (hp_active h)[st := hp_active h ! st - 1], hp_leases := ?ls\<rparr>) ! s
      = int (outstanding s (h\<lparr>hp_active := (hp_active h)[st := hp_active h ! st - 1], hp_leases := ?ls\<rparr>))"
      using count [of s] heap_ok_active [OF ok s] lt
      by (cases "s = st") (auto simp: outstanding_def)
  qed (use refs in simp)
qed

lemma fire_idem: "fire_lease l (fire_lease l h) = fire_lease l h"
proof -
  have "hp_leases (release_active st h') = hp_leases h'" for st h'
    by (simp add: release_active_def)
  then show ?thesis
    by (cases "l < length (hp_leases h) \<and> \<not> snd (hp_leases h ! l)")
      (auto simp: fire_lease_def)
qed

lemma issue_outstanding:
  "outstanding s (snd (issue_lease st h)) = outstanding s h + (if s = st then 1 else 0)"
  by (simp add: issue_lease_def outstanding_def)

lemma length_fire [simp]: "length (hp_active (fire_lease l h)) = length (hp_active h)"
  by (simp add: fire_lease_def release_active_def)

lemma length_issue [simp]: "length (hp_active (snd (issue_lease st h))) = length (hp_active h)"
  by (simp add: issue_lease_def)

text \<open>
  The contract of a limiter over a registry of counters: \<open>acq\<close> either refuses, leaving every
  counter as it was, because the counter of the key has reached the limit, or issues a lease on
  the key's object.
\<close>

locale slot_admission =
  fixes heap_of :: "'w \<Rightarrow> counter_heap"
    and object_of :: "'w \<Rightarrow> 'k \<Rightarrow> nat option"
    and acq :: "'k \<Rightarrow> int \<Rightarrow> 'w \<Rightarrow> nat option \<times> 'w"
    and invar :: "'w \<Rightarrow> bool"
  assumes invar_heap: "invar w \<Longrightarrow> heap_ok (heap_of w)"
    and invar_object: "invar w \<Longrightarrow> object_of w k = Some st \<Longrightarrow> st < length (hp_active (heap_of w))"
    and acq_invar: "invar w \<Longrightarrow> invar (snd (acq k limit w))"
    and acq_object: "invar w \<Longrightarrow> object_of (snd (acq k limit w)) k \<noteq> None"
    and acq_granted: "invar w \<Longrightarrow> acq k limit w = (Some l, w') \<Longrightarrow> object_of w' k = Some st \<Longrightarrow>
          hp_active (heap_of w') ! st \<le> limit"
    and acq_refused: "invar w \<Longrightarrow> acq k limit w = (None, w') \<Longrightarrow> object_of w' k = Some st \<Longrightarrow>
          limit \<le> hp_active (heap_of w') ! st"
begin

lemma after_acq: "invar w \<Longrightarrow> acq k limit w = (r, w') \<Longrightarrow> object_of w' k = Some st \<Longrightarrow>
    hp_active (heap_of w') ! st = int (outstanding st (heap_of w'))"
  by (metis acq_invar heap_ok_active invar_heap invar_object snd_conv)

text \<open>Admission is exact: granted within the limit, refused only at the limit.\<close>

lemma admission_exact:
  assumes "invar w" and "acq k limit w = (r, w')"
  shows "\<exists>st. object_of w' k = Some st \<and>
    (r \<noteq> None \<longrightarrow> int (outstanding st (heap_of w')) \<le> limit) \<and>
    (r = None \<longrightarrow> limit \<le> int (outstanding st (heap_of w')))"
proof -
  obtain st where st: "object_of w' k = Some st"
    using acq_object [OF assms(1), of k limit] assms(2) by auto
  with assms show ?thesis
    using after_acq [OF assms st] acq_granted [OF assms(1)] acq_refused [OF assms(1)]
    by (metis not_None_eq)
qed

end

end
