(* ===== verification/Key_Limit.thy ===== *)
theory Key_Limit
  imports Rate_Window Counter_Heap
begin

text \<open>
  \<^verbatim>\<open>internal/keylimit/keylimit.go\<close>: concurrency slots and requests-per-minute admission of a
  downstream API key, both fail-fast. The two tables guarded by the package mutex are
  \<open>kl_states\<close> (key to counter object) and \<open>kl_windows\<close> (key to admission times, ascending);
  the counter objects live in \<open>kl_heap\<close>. Every call is one critical section on a key, so an
  interleaving of calls is a sequence of these operations. Times are nanoseconds.
\<close>

datatype keylimit_error = ErrConcurrencyFull | ErrRateLimited

record keylimit =
  kl_states :: "(int, nat) gomap"
  kl_windows :: "(int, int list) gomap"
  kl_heap :: counter_heap

definition rpmWindow :: int where
  "rpmWindow = 60 * 10 ^ 9"

definition kl_Reset :: keylimit where
  "kl_Reset = \<lparr>kl_states = [], kl_windows = [], kl_heap = empty_heap\<rparr>"

text \<open>\<^verbatim>\<open>st, ok := states[keyID]; if !ok { st = &concurrencyState{}; states[keyID] = st }\<close>\<close>

definition kl_state_of :: "int \<Rightarrow> keylimit \<Rightarrow> nat \<times> keylimit" where
  "kl_state_of keyID w =
    (case map_of (kl_states w) keyID of
       Some st \<Rightarrow> (st, w)
     | None \<Rightarrow>
         (case new_state (kl_heap w) of
            (st, h) \<Rightarrow> (st, w\<lparr>kl_states := mput keyID st (kl_states w), kl_heap := h\<rparr>)))"

text \<open>The admission below the limit check; \<open>Some l\<close> is the release closure.\<close>

definition kl_try :: "int \<Rightarrow> int \<Rightarrow> keylimit \<Rightarrow> nat option \<times> keylimit" where
  "kl_try keyID limit w =
    (case kl_state_of keyID w of
       (st, w1) \<Rightarrow>
         if hp_active (kl_heap w1) ! st \<ge> limit then (None, w1)
         else (case issue_lease st (kl_heap w1) of (l, h) \<Rightarrow> (Some l, w1\<lparr>kl_heap := h\<rparr>)))"

text \<open>A result: a no-op closure for an unlimited key, a lease, or the error.\<close>

datatype acquired = NoLimit | Slot nat

definition AcquireConcurrency ::
  "int \<Rightarrow> int \<Rightarrow> keylimit \<Rightarrow> (keylimit_error + acquired) \<times> keylimit" where
  "AcquireConcurrency keyID limit w =
    (if limit \<le> 0 then (Inr NoLimit, w)
     else case kl_try keyID limit w of
            (None, w') \<Rightarrow> (Inl ErrConcurrencyFull, w')
          | (Some l, w') \<Rightarrow> (Inr (Slot l), w'))"

definition kl_release :: "acquired \<Rightarrow> keylimit \<Rightarrow> keylimit" where
  "kl_release a w =
    (case a of NoLimit \<Rightarrow> w | Slot l \<Rightarrow> w\<lparr>kl_heap := fire_lease l (kl_heap w)\<rparr>)"

text \<open>The sliding window of one key; \<open>rpm\<close> is positive here.\<close>

definition kl_admit :: "int \<Rightarrow> int \<Rightarrow> int list \<Rightarrow> bool \<times> int list" where
  "kl_admit rpm now window =
    (let cutoff = now - rpmWindow;
         window = dropWhile (\<lambda>t. \<not> cutoff < t) window
     in if int (length window) \<ge> rpm then (False, window) else (True, window @ [now]))"

text \<open>\<^verbatim>\<open>int(math.Ceil(admitAt.Sub(now).Seconds()))\<close>, at least one second.\<close>

definition ceil_seconds :: "int \<Rightarrow> int" where
  "ceil_seconds ns = - ((- ns) div 10 ^ 9)"

definition kl_retry_after :: "int \<Rightarrow> int \<Rightarrow> int list \<Rightarrow> int" where
  "kl_retry_after rpm now window =
    (let admitAt = window ! (length window - nat rpm) + rpmWindow
     in max 1 (ceil_seconds (admitAt - now)))"

definition AcquireRPMPermit ::
  "int \<Rightarrow> int \<Rightarrow> int \<Rightarrow> keylimit \<Rightarrow> (int \<times> keylimit_error option) \<times> keylimit" where
  "AcquireRPMPermit keyID rpm now w =
    (if rpm \<le> 0 then ((0, None), w\<lparr>kl_windows := mdel keyID (kl_windows w)\<rparr>)
     else
       let window = (case map_of (kl_windows w) keyID of None \<Rightarrow> [] | Some ts \<Rightarrow> ts)
       in case kl_admit rpm now window of
            (True, window') \<Rightarrow> ((0, None), w\<lparr>kl_windows := mput keyID window' (kl_windows w)\<rparr>)
          | (False, window') \<Rightarrow>
              ((kl_retry_after rpm now window', Some ErrRateLimited),
               w\<lparr>kl_windows := mput keyID window' (kl_windows w)\<rparr>))"

definition kl_Cleanup :: "int \<Rightarrow> keylimit \<Rightarrow> keylimit" where
  "kl_Cleanup keyID w =
    w\<lparr>kl_states := mdel keyID (kl_states w), kl_windows := mdel keyID (kl_windows w)\<rparr>"

subsection \<open>Invariant of the tables\<close>

definition kl_ok :: "keylimit \<Rightarrow> bool" where
  "kl_ok w \<longleftrightarrow> mwf (kl_states w) \<and> mwf (kl_windows w) \<and> heap_ok (kl_heap w) \<and>
     (\<forall>(k, st) \<in> set (kl_states w). st < length (hp_active (kl_heap w)))"

lemma kl_ok_Reset [simp, intro]: "kl_ok kl_Reset"
  by (simp add: kl_ok_def kl_Reset_def)

lemma kl_ok_state_bound:
  "kl_ok w \<Longrightarrow> map_of (kl_states w) k = Some st \<Longrightarrow> st < length (hp_active (kl_heap w))"
  by (auto simp: kl_ok_def dest: map_of_SomeD)

lemma kl_state_of_spec:
  assumes "kl_state_of k w = (st, w1)"
  shows "map_of (kl_states w1) k = Some st"
    and "kl_ok w \<Longrightarrow> kl_ok w1 \<and> st < length (hp_active (kl_heap w1))"
    and "map_of (kl_states w) k = Some st' \<Longrightarrow> st = st'"
proof -
  show "map_of (kl_states w1) k = Some st" and "map_of (kl_states w) k = Some st' \<Longrightarrow> st = st'"
    using assms by (auto simp: kl_state_of_def new_state_def split: option.splits)
  show "kl_ok w1 \<and> st < length (hp_active (kl_heap w1))" if ok: "kl_ok w"
  proof (cases "map_of (kl_states w) k")
    case None
    have "set (mput k st (kl_states w)) \<subseteq> insert (k, st) (set (kl_states w))"
      by (rule set_mput_subset)
    with assms ok None heap_ok_new_state [of "kl_heap w"] show ?thesis
      by (auto simp: kl_state_of_def new_state_def kl_ok_def)
        (metis less_Suc_eq old.prod.case subsetD insertE prod.inject)
  next
    case (Some s)
    with assms ok show ?thesis by (auto simp: kl_state_of_def dest: kl_ok_state_bound)
  qed
qed

lemma kl_try_ok [invariant_intros]: "kl_ok w \<Longrightarrow> kl_ok (snd (kl_try k limit w))"
proof -
  assume "kl_ok w"
  obtain st w1 where s: "kl_state_of k w = (st, w1)" by fastforce
  with \<open>kl_ok w\<close> kl_state_of_spec(2) have "kl_ok w1" "st < length (hp_active (kl_heap w1))"
    by blast+
  with s heap_ok_issue [of "kl_heap w1" st] length_issue [of st "kl_heap w1"] show ?thesis
    by (auto simp: kl_try_def kl_ok_def issue_lease_def)
qed

lemma kl_acquire_ok [invariant_intros]: "kl_ok w \<Longrightarrow> kl_ok (snd (AcquireConcurrency k limit w))"
  using kl_try_ok [of w k limit]
  by (auto simp: AcquireConcurrency_def split: prod.splits option.splits)

lemma kl_release_ok [invariant_intros]: "kl_ok w \<Longrightarrow> kl_ok (kl_release a w)"
  by (auto simp: kl_release_def kl_ok_def split: acquired.splits)

lemma kl_rpm_ok [invariant_intros]: "kl_ok w \<Longrightarrow> kl_ok (snd (AcquireRPMPermit k rpm now w))"
  by (auto simp: AcquireRPMPermit_def kl_ok_def Let_def split: prod.splits bool.splits)

lemma kl_cleanup_ok [invariant_intros]: "kl_ok w \<Longrightarrow> kl_ok (kl_Cleanup k w)"
  using set_mdel_subset [of k "kl_states w"] by (auto simp: kl_Cleanup_def kl_ok_def)

subsection \<open>The package meets both contracts\<close>

lemma kl_try_active:
  assumes "kl_try k limit w = (r, w')" and "kl_ok w" and "map_of (kl_states w') k = Some st"
  shows "(r = None \<longrightarrow> limit \<le> hp_active (kl_heap w') ! st) \<and>
         (r \<noteq> None \<longrightarrow> hp_active (kl_heap w') ! st \<le> limit)"
proof -
  obtain s w1 where s: "kl_state_of k w = (s, w1)" by fastforce
  then have "map_of (kl_states w1) k = Some s" and "s < length (hp_active (kl_heap w1))"
    using kl_state_of_spec [OF s] assms(2) by blast+
  with assms s show ?thesis
    by (auto simp: kl_try_def issue_lease_def split: if_splits)
qed

lemma kl_try_registers: "kl_ok w \<Longrightarrow> map_of (kl_states (snd (kl_try k limit w))) k \<noteq> None"
  using kl_state_of_spec(1) [of k w]
  by (cases "kl_state_of k w") (auto simp: kl_try_def split: prod.splits)

interpretation kls: slot_admission kl_heap "\<lambda>w k. map_of (kl_states w) k" kl_try kl_ok
proof unfold_locales
  show "kl_ok w \<Longrightarrow> heap_ok (kl_heap w)" for w by (simp add: kl_ok_def)
qed (use kl_try_active in \<open>force intro: kl_try_ok kl_ok_state_bound dest: kl_try_registers\<close>)+

interpretation klw: sliding_window rpmWindow kl_admit
  by unfold_locales
    (auto simp: kl_admit_def Let_def rpmWindow_def dropWhile_sorted_filter)

subsection \<open>Every interleaving of calls\<close>

text \<open>
  The reachable worlds: any sequence of the package's calls, by any clients, in any order; a
  release closure may be called late, twice or after the key was cleaned up.
\<close>

inductive kl_reachable :: "keylimit \<Rightarrow> bool" where
  kl_start: "kl_reachable kl_Reset"
| kl_acquire: "kl_reachable w \<Longrightarrow> kl_reachable (snd (AcquireConcurrency k limit w))"
| kl_rel: "kl_reachable w \<Longrightarrow> kl_reachable (kl_release a w)"
| kl_permit: "kl_reachable w \<Longrightarrow> kl_reachable (snd (AcquireRPMPermit k rpm now w))"
| kl_clean: "kl_reachable w \<Longrightarrow> kl_reachable (kl_Cleanup k w)"

lemma kl_reachable_ok: "kl_reachable w \<Longrightarrow> kl_ok w"
  by (induction rule: kl_reachable.induct) (auto intro: invariant_intros)



text \<open>Releasing is idempotent, and a release gives back exactly the slot of its own lease.\<close>

lemma kl_release_idem: "kl_release a (kl_release a w) = kl_release a w"
  by (cases a) (simp_all add: kl_release_def fire_idem)

subsection \<open>Requests per minute\<close>

text \<open>
  A run of \<^verbatim>\<open>AcquireRPMPermit\<close> calls \<open>(key, time)\<close>, each key with its own limit: the calls that
  were admitted, in order.
\<close>

fun permit_run :: "(int \<Rightarrow> int) \<Rightarrow> (int \<times> int) list \<Rightarrow> keylimit \<Rightarrow> (int \<times> int) list" where
  "permit_run rpm [] w = []"
| "permit_run rpm ((k, now) # calls) w =
    (case AcquireRPMPermit k (rpm k) now w of
       ((_, None), w') \<Rightarrow> (k, now) # permit_run rpm calls w'
     | ((_, Some _), w') \<Rightarrow> permit_run rpm calls w')"

definition kl_window :: "keylimit \<Rightarrow> int \<Rightarrow> int list" where
  "kl_window w k = (case map_of (kl_windows w) k of None \<Rightarrow> [] | Some ts \<Rightarrow> ts)"

definition calls_of :: "int \<Rightarrow> (int \<times> int) list \<Rightarrow> int list" where
  "calls_of k calls = map snd (filter (\<lambda>c. fst c = k) calls)"

lemma permit_window_other:
  "k' \<noteq> k \<Longrightarrow> kl_window (snd (AcquireRPMPermit k rpm now w)) k' = kl_window w k'"
  by (auto simp: kl_window_def AcquireRPMPermit_def Let_def split: prod.splits bool.splits)

lemma permit_step:
  assumes "0 < rpm"
  shows "snd (fst (AcquireRPMPermit k rpm now w)) = None \<longleftrightarrow> fst (kl_admit rpm now (kl_window w k))"
    and "kl_window (snd (AcquireRPMPermit k rpm now w)) k = snd (kl_admit rpm now (kl_window w k))"
  using assms
  by (auto simp: kl_window_def AcquireRPMPermit_def Let_def split: prod.splits bool.splits)

lemma permit_run_projection:
  "0 < rpm k \<Longrightarrow> calls_of k (permit_run rpm calls w) =
     admissions (kl_admit (rpm k)) (kl_window w k) (calls_of k calls)"
proof (induction rpm calls w rule: permit_run.induct)
  case (1 rpm w)
  then show ?case by (simp add: calls_of_def)
next
  case (2 rpm k' now calls w)
  obtain n e w' where a: "AcquireRPMPermit k' (rpm k') now w = ((n, e), w')"
    by (metis prod.exhaust)
  have IH: "calls_of k (permit_run rpm calls w') =
      admissions (kl_admit (rpm k)) (kl_window w' k) (calls_of k calls)"
    using 2 a by (cases e) auto
  show ?case
  proof (cases "k' = k")
    case True
    with permit_step [of "rpm k" k now w] 2(3) a
    have "e = None \<longleftrightarrow> fst (kl_admit (rpm k) now (kl_window w k))"
      and "kl_window w' k = snd (kl_admit (rpm k) now (kl_window w k))" by auto
    with a True IH show ?thesis
      by (cases e) (auto simp: calls_of_def case_prod_unfold)
  next
    case False
    then have "kl_window w' k = kl_window w k"
      using permit_window_other [of k k' "rpm k'" now w] a by simp
    with a False IH show ?thesis by (cases e) (auto simp: calls_of_def)
  qed
qed

text \<open>
  C16. The per-key rate limit (\<^verbatim>\<open>AcquireRPMPermit\<close>). Over any sequence of calls of any keys with
  non-decreasing clock readings, no half-open interval of one minute holds more than \<open>rpm k\<close>
  admitted calls of the key \<open>k\<close>.
\<close>

theorem keylimit_rpm_bound:
  assumes "sorted (map snd calls)" and "0 < rpm k"
  shows "int (length (in_window rpmWindow t (calls_of k (permit_run rpm calls kl_Reset)))) \<le> rpm k"
proof -
  have "sorted (calls_of k calls)"
    using assms(1) unfolding calls_of_def by (rule sorted_filter)
  moreover have "kl_window kl_Reset k = []" by (simp add: kl_window_def kl_Reset_def)
  ultimately show ?thesis
    using klw.admissions_bound [of "calls_of k calls" "rpm k" t] assms(2)
    by (simp add: permit_run_projection)
qed

theorem keylimit_rpm_bound_witness:
  "int (length (in_window rpmWindow 5 (calls_of 1
     (permit_run (\<lambda>_. 2) [(1, 0), (1, 3), (2, 4), (1, 5)] kl_Reset)))) \<le> 2"
  by (rule keylimit_rpm_bound [where rpm = "\<lambda>_. 2"]) simp_all

text \<open>The sliding window admits again once the entry that blocks it has left the window.\<close>

lemma admit_after_wait:
  assumes "sorted w" and "0 < rpm" and "rpm \<le> int (length w)"
    and "w ! (length w - nat rpm) + rpmWindow \<le> later"
  shows "fst (kl_admit rpm later w)"
proof -
  let ?i = "length w - nat rpm"
  have i: "?i < length w" using assms(2,3) by linarith
  have before: "x \<le> w ! ?i" if "x \<in> set (take (Suc ?i) w)" for x
  proof -
    from that obtain j where "j \<le> ?i" "x = w ! j"
      by (auto simp: in_set_conv_nth less_Suc_eq_le)
    with i show ?thesis using sorted_nth_mono [OF assms(1), of j ?i] by simp
  qed
  have "filter (\<lambda>t. later - rpmWindow < t) (take (Suc ?i) w) = []"
    using before assms(4) by (fastforce simp: filter_empty_conv)
  then have "filter (\<lambda>t. later - rpmWindow < t) w
      = filter (\<lambda>t. later - rpmWindow < t) (drop (Suc ?i) w)"
    by (metis append_Nil append_take_drop_id filter_append)
  then have "length (filter (\<lambda>t. later - rpmWindow < t) w) \<le> length (drop (Suc ?i) w)"
    by (metis length_filter_le)
  moreover have "int (length (drop (Suc ?i) w)) < rpm" using assms(2,3) by simp
  ultimately have "int (length (filter (\<lambda>t. later - rpmWindow < t) w)) < rpm" by linarith
  with assms(1) show ?thesis by (simp add: klw.admit_iff)
qed

text \<open>
  \<^verbatim>\<open>Retry-After\<close> is honest. When a call is refused with \<open>s\<close> seconds, \<open>s\<close> is at least one,
  and a call of the same key at least \<open>s\<close> seconds later, with no admission of that key in
  between, is admitted.
\<close>

lemma keylimit_retry_after_sound:
  assumes "sorted (kl_window w k)" and "0 < rpm"
    and "AcquireRPMPermit k rpm now w = ((s, Some ErrRateLimited), w')"
    and "now + s * 10 ^ 9 \<le> later"
  shows "1 \<le> s \<and> snd (fst (AcquireRPMPermit k rpm later w')) = None"
proof -
  let ?win = "filter (\<lambda>t. now - rpmWindow < t) (kl_window w k)"
  have refused: "\<not> fst (kl_admit rpm now (kl_window w k))" and s: "s = kl_retry_after rpm now ?win"
    and win: "kl_window w' k = ?win"
    using assms(1-3) by (auto simp: AcquireRPMPermit_def Let_def kl_window_def kl_admit_def
        dropWhile_sorted_filter split: prod.splits bool.splits if_splits)
  have len: "rpm \<le> int (length ?win)" using refused assms(1) by (simp add: klw.admit_iff)
  have "x \<le> ceil_seconds x * 10 ^ 9" for x :: int
  proof -
    have "x \<le> - ((- x) div 1000000000) * 1000000000" by arith
    then show ?thesis by (simp add: ceil_seconds_def)
  qed
  then have "?win ! (length ?win - nat rpm) + rpmWindow - now \<le> s * 10 ^ 9"
    unfolding s kl_retry_after_def Let_def
    by (meson max.cobounded2 mult_right_mono order_trans zero_le_numeral zero_le_power)
  then have "?win ! (length ?win - nat rpm) + rpmWindow \<le> later" using assms(4) by linarith
  then have "fst (kl_admit rpm later ?win)"
    using len assms(1,2) by (intro admit_after_wait) (simp_all add: sorted_filter [where f = id, simplified])
  then show ?thesis
    using permit_step(1) [OF assms(2), of k later w'] win
    by (simp add: s kl_retry_after_def Let_def)
qed

end
