(* ===== verification/Channel_Limit.thy ===== *)
theory Channel_Limit
  imports Key_Limit
begin

text \<open>
  \<^verbatim>\<open>internal/relay/channellimit.go\<close>: blocking concurrency slots per channel and the per-key
  requests-per-minute gate. Unlike \<^verbatim>\<open>keylimit\<close>, a full channel makes the caller wait: it
  remembers the current wake generation of the counter object, and a release closes that
  generation (a Go channel) and opens the next. \<open>cl_wake\<close> counts the generations of each object,
  so "the generation a waiter holds was closed" is "the number has grown".

  The loops of \<^verbatim>\<open>acquireChannelConcurrency\<close> and \<^verbatim>\<open>waitChannelRPM\<close> take the list of their waiting
  rounds: what the other goroutines did while the caller slept, and which \<^verbatim>\<open>select\<close> case woke it.
\<close>

type_synonym keyRef = "int \<times> string"

record channellimit =
  cl_states :: "(int, nat) gomap"
  cl_windows :: "(keyRef, int list) gomap"
  cl_heap :: counter_heap
  cl_wake :: "nat list"

definition resetChannelLimits :: channellimit where
  "resetChannelLimits = \<lparr>cl_states = [], cl_windows = [], cl_heap = empty_heap, cl_wake = []\<rparr>"

definition cl_state_of :: "int \<Rightarrow> channellimit \<Rightarrow> nat \<times> channellimit" where
  "cl_state_of channelID w =
    (case map_of (cl_states w) channelID of
       Some st \<Rightarrow> (st, w)
     | None \<Rightarrow>
         (case new_state (cl_heap w) of
            (st, h) \<Rightarrow> (st, w\<lparr>cl_states := mput channelID st (cl_states w), cl_heap := h,
                             cl_wake := cl_wake w @ [0]\<rparr>)))"

text \<open>One pass of the loop body under \<^verbatim>\<open>st.mu\<close>.\<close>

definition cl_enter :: "nat \<Rightarrow> int \<Rightarrow> channellimit \<Rightarrow> nat option \<times> channellimit" where
  "cl_enter st limit w =
    (if hp_active (cl_heap w) ! st < limit
     then (case issue_lease st (cl_heap w) of (l, h) \<Rightarrow> (Some l, w\<lparr>cl_heap := h\<rparr>))
     else (None, w))"

definition cl_try :: "int \<Rightarrow> int \<Rightarrow> channellimit \<Rightarrow> nat option \<times> channellimit" where
  "cl_try channelID limit w = (case cl_state_of channelID w of (st, w1) \<Rightarrow> cl_enter st limit w1)"

text \<open>\<^verbatim>\<open>once.Do(st.release)\<close>: decrement, close the wake generation, open the next.\<close>

definition cl_release :: "nat \<Rightarrow> channellimit \<Rightarrow> channellimit" where
  "cl_release l w =
    (if l < length (hp_leases (cl_heap w)) \<and> \<not> snd (hp_leases (cl_heap w) ! l)
     then let st = fst (hp_leases (cl_heap w) ! l)
          in w\<lparr>cl_heap := fire_lease l (cl_heap w), cl_wake := (cl_wake w)[st := Suc (cl_wake w ! st)]\<rparr>
     else w)"

definition channelRPMWindow :: int where
  "channelRPMWindow = 60 * 10 ^ 9"

definition ch_admit :: "int \<Rightarrow> int \<Rightarrow> int list \<Rightarrow> bool \<times> int list" where
  "ch_admit rpm now window =
    (let cutoff = now - channelRPMWindow;
         window = dropWhile (\<lambda>t. \<not> cutoff < t) window
     in if int (length window) \<ge> rpm then (False, window) else (True, window @ [now]))"

definition cl_window :: "channellimit \<Rightarrow> keyRef \<Rightarrow> int list" where
  "cl_window w ref = (case map_of (cl_windows w) ref of None \<Rightarrow> [] | Some ts \<Rightarrow> ts)"

definition tryChannelRPMPermit ::
  "keyRef \<Rightarrow> int \<Rightarrow> int \<Rightarrow> channellimit \<Rightarrow> (int \<times> bool) \<times> channellimit" where
  "tryChannelRPMPermit ref rpm now w =
    (case ch_admit rpm now (cl_window w ref) of
       (True, window') \<Rightarrow> ((0, True), w\<lparr>cl_windows := mput ref window' (cl_windows w)\<rparr>)
     | (False, window') \<Rightarrow>
         ((window' ! (length window' - nat rpm) + channelRPMWindow - now, False),
          w\<lparr>cl_windows := mput ref window' (cl_windows w)\<rparr>))"

definition cleanupChannelLimits :: "int \<Rightarrow> channellimit \<Rightarrow> nat \<times> channellimit" where
  "cleanupChannelLimits channelID w =
    (let kept = mkeep (\<lambda>ref ts. fst ref \<noteq> channelID) (cl_windows w)
     in (length (cl_windows w) - length kept,
         w\<lparr>cl_states := mdel channelID (cl_states w), cl_windows := kept\<rparr>))"

text \<open>What another goroutine may do between two passes of a waiting loop.\<close>

datatype cl_op =
    OpTry int int
  | OpRelease nat
  | OpPermit keyRef int int
  | OpCleanup int

fun cl_apply :: "cl_op \<Rightarrow> channellimit \<Rightarrow> channellimit" where
  "cl_apply (OpTry c limit) w = snd (cl_try c limit w)"
| "cl_apply (OpRelease l) w = cl_release l w"
| "cl_apply (OpPermit ref rpm now) w = snd (tryChannelRPMPermit ref rpm now w)"
| "cl_apply (OpCleanup c) w = snd (cleanupChannelLimits c w)"

definition cl_run :: "cl_op list \<Rightarrow> channellimit \<Rightarrow> channellimit" where
  "cl_run ops w = fold cl_apply ops w"

datatype wait_end = Woken | CtxDone | TimerFired | StopClosed

datatype conc_result = ConcNoLimit | ConcSlot nat | ConcFull | ConcCtx | ConcWaiting

record wait_round =
  wr_remaining :: int
  wr_others :: "cl_op list"
  wr_end :: wait_end

text \<open>The \<^verbatim>\<open>for\<close> loop; an empty list of rounds means the caller is still asleep.\<close>

fun acquire_loop :: "nat \<Rightarrow> int \<Rightarrow> wait_round list \<Rightarrow> channellimit \<Rightarrow> conc_result \<times> channellimit" where
  "acquire_loop st limit rounds w =
    (case cl_enter st limit w of
       (Some l, w') \<Rightarrow> (ConcSlot l, w')
     | (None, w') \<Rightarrow>
         (case rounds of
            [] \<Rightarrow> (ConcWaiting, w')
          | r # rs \<Rightarrow>
              if wr_remaining r \<le> 0 then (ConcFull, w')
              else (case wr_end r of
                      Woken \<Rightarrow> acquire_loop st limit rs (cl_run (wr_others r) w')
                    | CtxDone \<Rightarrow> (ConcCtx, cl_run (wr_others r) w')
                    | _ \<Rightarrow> (ConcFull, cl_run (wr_others r) w'))))"

declare acquire_loop.simps [simp del]

definition acquireChannelConcurrency ::
  "int \<Rightarrow> int \<Rightarrow> wait_round list \<Rightarrow> channellimit \<Rightarrow> conc_result \<times> channellimit" where
  "acquireChannelConcurrency channelID limit rounds w =
    (if limit \<le> 0 then (ConcNoLimit, w)
     else case cl_state_of channelID w of (st, w1) \<Rightarrow> acquire_loop st limit rounds w1)"

datatype rpm_result = RpmOK | RpmCtx | RpmStopped | RpmWaiting

text \<open>The rounds of \<^verbatim>\<open>waitChannelRPM\<close>: the clock at the attempt, then how the wait ended.\<close>

fun waitChannelRPM ::
  "keyRef \<Rightarrow> int \<Rightarrow> (int \<times> wait_end) list \<Rightarrow> channellimit \<Rightarrow> rpm_result \<times> channellimit" where
  "waitChannelRPM ref rpm rounds w =
    (if rpm \<le> 0 then (RpmOK, w\<lparr>cl_windows := mdel ref (cl_windows w)\<rparr>)
     else case rounds of
       [] \<Rightarrow> (RpmWaiting, w)
     | (now, e) # rs \<Rightarrow>
         (case tryChannelRPMPermit ref rpm now w of
            ((_, True), w') \<Rightarrow> (RpmOK, w')
          | ((wait, False), w') \<Rightarrow>
              (case e of
                 CtxDone \<Rightarrow> (RpmCtx, w')
               | StopClosed \<Rightarrow> (RpmStopped, w')
               | _ \<Rightarrow> waitChannelRPM ref rpm rs w')))"

declare waitChannelRPM.simps [simp del]

subsection \<open>Invariant and contracts\<close>

definition cl_ok :: "channellimit \<Rightarrow> bool" where
  "cl_ok w \<longleftrightarrow> mwf (cl_states w) \<and> mwf (cl_windows w) \<and> heap_ok (cl_heap w) \<and>
     length (cl_wake w) = length (hp_active (cl_heap w)) \<and>
     (\<forall>(k, st) \<in> set (cl_states w). st < length (hp_active (cl_heap w)))"

lemma cl_ok_reset [simp, intro]: "cl_ok resetChannelLimits"
  by (simp add: cl_ok_def resetChannelLimits_def empty_heap_def heap_ok_def)

lemma cl_ok_bound: "cl_ok w \<Longrightarrow> map_of (cl_states w) k = Some st \<Longrightarrow> st < length (hp_active (cl_heap w))"
  by (auto simp: cl_ok_def dest: map_of_SomeD)

lemma cl_state_of_spec:
  assumes "cl_state_of k w = (st, w1)"
  shows "map_of (cl_states w1) k = Some st"
    and "cl_ok w \<Longrightarrow> cl_ok w1 \<and> st < length (hp_active (cl_heap w1))"
    and "hp_leases (cl_heap w1) = hp_leases (cl_heap w)"
    and "s < length (hp_active (cl_heap w)) \<Longrightarrow> hp_active (cl_heap w1) ! s = hp_active (cl_heap w) ! s"
    and "cl_ok w \<Longrightarrow> s < length (hp_active (cl_heap w)) \<Longrightarrow> cl_wake w1 ! s = cl_wake w ! s"
    and "length (hp_active (cl_heap w)) \<le> length (hp_active (cl_heap w1))"
proof -
  show "map_of (cl_states w1) k = Some st" "hp_leases (cl_heap w1) = hp_leases (cl_heap w)"
    "s < length (hp_active (cl_heap w)) \<Longrightarrow> hp_active (cl_heap w1) ! s = hp_active (cl_heap w) ! s"
    "cl_ok w \<Longrightarrow> s < length (hp_active (cl_heap w)) \<Longrightarrow> cl_wake w1 ! s = cl_wake w ! s"
    "length (hp_active (cl_heap w)) \<le> length (hp_active (cl_heap w1))"
    using assms
    by (auto simp: cl_state_of_def new_state_def nth_append cl_ok_def split: option.splits)
  show "cl_ok w1 \<and> st < length (hp_active (cl_heap w1))" if ok: "cl_ok w"
  proof (cases "map_of (cl_states w) k")
    case None
    have "set (mput k st (cl_states w)) \<subseteq> insert (k, st) (set (cl_states w))"
      by (rule set_mput_subset)
    with assms ok None heap_ok_new_state [of "cl_heap w"] show ?thesis
      by (auto simp: cl_state_of_def new_state_def cl_ok_def)
        (metis less_Suc_eq old.prod.case subsetD insertE prod.inject)
  next
    case (Some s)
    with assms ok show ?thesis by (auto simp: cl_state_of_def dest: cl_ok_bound)
  qed
qed

lemma cl_enter_ok: "cl_ok w \<Longrightarrow> st < length (hp_active (cl_heap w)) \<Longrightarrow> cl_ok (snd (cl_enter st limit w))"
  using heap_ok_issue [of "cl_heap w" st] length_issue [of st "cl_heap w"]
  by (auto simp: cl_enter_def cl_ok_def case_prod_unfold)

lemma cl_try_ok [invariant_intros]: "cl_ok w \<Longrightarrow> cl_ok (snd (cl_try k limit w))"
  using cl_state_of_spec(2) [of k w] cl_enter_ok by (cases "cl_state_of k w") (auto simp: cl_try_def)

lemma cl_release_ok [invariant_intros]: "cl_ok w \<Longrightarrow> cl_ok (cl_release l w)"
  using heap_ok_fire [of "cl_heap w" l] by (auto simp: cl_release_def cl_ok_def Let_def)

lemma cl_permit_ok [invariant_intros]: "cl_ok w \<Longrightarrow> cl_ok (snd (tryChannelRPMPermit ref rpm now w))"
  by (auto simp: tryChannelRPMPermit_def cl_ok_def split: prod.splits bool.splits)

lemma cl_cleanup_ok [invariant_intros]: "cl_ok w \<Longrightarrow> cl_ok (snd (cleanupChannelLimits c w))"
  using set_mdel_subset [of c "cl_states w"]
  by (auto simp: cleanupChannelLimits_def cl_ok_def Let_def)

lemma cl_apply_ok [invariant_intros]: "cl_ok w \<Longrightarrow> cl_ok (cl_apply op w)"
  by (cases op) (auto intro: invariant_intros)

lemma cl_run_ok [invariant_intros]: "cl_ok w \<Longrightarrow> cl_ok (cl_run ops w)"
  by (induction ops arbitrary: w) (auto simp: cl_run_def intro: cl_apply_ok)

interpretation cls: slot_admission cl_heap "\<lambda>w k. map_of (cl_states w) k" cl_try cl_ok
proof unfold_locales
  fix w k limit l w' st
  assume ok: "cl_ok w"
  obtain s w1 where s: "cl_state_of k w = (s, w1)" by fastforce
  note spec = cl_state_of_spec [OF s]
  show "heap_ok (cl_heap w)" using ok by (simp add: cl_ok_def)
  show "cl_ok (snd (cl_try k limit w))" using ok by (rule cl_try_ok)
  show "map_of (cl_states (snd (cl_try k limit w))) k \<noteq> None"
    using s spec(1) by (auto simp: cl_try_def cl_enter_def split: prod.splits)
  show "hp_active (cl_heap w') ! st \<le> limit"
    if "cl_try k limit w = (Some l, w')" and "map_of (cl_states w') k = Some st"
    using that s spec(1) spec(2) ok
    by (auto simp: cl_try_def cl_enter_def issue_lease_def split: if_splits)
  show "limit \<le> hp_active (cl_heap w') ! st"
    if "cl_try k limit w = (None, w')" and "map_of (cl_states w') k = Some st"
    using that s spec(1) by (auto simp: cl_try_def cl_enter_def split: if_splits prod.splits)
qed (rule cl_ok_bound)

interpretation clw: sliding_window channelRPMWindow ch_admit
  by unfold_locales
    (auto simp: ch_admit_def Let_def channelRPMWindow_def dropWhile_sorted_filter)

subsection \<open>Waiting for a slot\<close>

lemma cl_state_run_length:
  "cl_ok w \<Longrightarrow> length (hp_active (cl_heap w)) \<le> length (hp_active (cl_heap (cl_apply op w)))"
proof (cases op)
  case (OpTry c limit)
  obtain s w1 where s: "cl_state_of c w = (s, w1)" by fastforce
  show ?thesis
    using cl_state_of_spec(6) [OF s] s OpTry by (simp add: cl_try_def cl_enter_def case_prod_unfold)
qed (auto simp: cl_release_def Let_def tryChannelRPMPermit_def cleanupChannelLimits_def
      split: prod.splits bool.splits)

lemma cl_run_length:
  "cl_ok w \<Longrightarrow> length (hp_active (cl_heap w)) \<le> length (hp_active (cl_heap (cl_run ops w)))"
proof (induction ops arbitrary: w)
  case (Cons op ops)
  then show ?case
    using cl_state_run_length [of w op] Cons.IH [of "cl_apply op w"] cl_apply_ok [of w op]
    by (simp add: cl_run_def) (meson order_trans)
qed (simp add: cl_run_def)

lemma cl_enter_granted:
  assumes "cl_ok w" and "st < length (hp_active (cl_heap w))" and "cl_enter st limit w = (Some l, w')"
  shows "int (outstanding st (cl_heap w')) \<le> limit \<and> l < length (hp_leases (cl_heap w')) \<and>
    hp_leases (cl_heap w') ! l = (st, False)"
proof -
  have "hp_active (cl_heap w) ! st < limit" and w': "cl_heap w' = snd (issue_lease st (cl_heap w))"
    and l: "l = fst (issue_lease st (cl_heap w))"
    using assms(3) by (auto simp: cl_enter_def case_prod_unfold split: if_splits)
  moreover have "hp_active (cl_heap w) ! st = int (outstanding st (cl_heap w))"
    using assms(1,2) by (auto simp: cl_ok_def intro: heap_ok_active)
  ultimately show ?thesis
    using issue_outstanding [of st st "cl_heap w"] by (simp add: issue_lease_def)
qed

lemma cl_enter_refused: "cl_enter st limit w = (None, v) \<Longrightarrow> v = w"
  by (simp add: cl_enter_def case_prod_unfold split: if_splits)

lemma acquire_loop_spec:
  assumes "cl_ok w" and "st < length (hp_active (cl_heap w))"
    and "acquire_loop st limit rounds w = (r, w')"
  shows "(case r of
      ConcSlot l \<Rightarrow> int (outstanding st (cl_heap w')) \<le> limit \<and> l < length (hp_leases (cl_heap w')) \<and>
                    hp_leases (cl_heap w') ! l = (st, False)
    | _ \<Rightarrow> \<exists>ops. w' = cl_run ops w)"
  using assms
proof (induction rounds arbitrary: w)
  case Nil
  have none: "w = cl_run [] w" by (simp add: cl_run_def)
  obtain g v where e: "cl_enter st limit w = (g, v)" by fastforce
  show ?case
  proof (cases g)
    case None
    with e cl_enter_refused have "v = w" by blast
    with e None Nil(3) none show ?thesis by (auto simp: acquire_loop.simps)
  next
    case (Some l)
    with e Nil(3) cl_enter_granted [OF Nil(1,2)] show ?thesis by (auto simp: acquire_loop.simps)
  qed
next
  case (Cons x rs)
  let ?w = "cl_run (wr_others x) w"
  obtain g v where e: "cl_enter st limit w = (g, v)" by fastforce
  have none: "w = cl_run [] w" by (simp add: cl_run_def)
  consider (granted) l where "g = Some l" | (ended) "g = None" "\<not> (0 < wr_remaining x \<and> wr_end x = Woken)"
    | (woken) "g = None" "0 < wr_remaining x" "wr_end x = Woken" by blast
  then show ?case
  proof cases
    case granted
    with e Cons.prems cl_enter_granted [OF Cons.prems(1,2)] show ?thesis
      by (auto simp: acquire_loop.simps)
  next
    case ended
    with e cl_enter_refused have "v = w" by blast
    with e ended Cons.prems(3) none show ?thesis
      by (auto simp: acquire_loop.simps [of st limit "x # rs"] split: if_splits wait_end.splits)
  next
    case woken
    with e cl_enter_refused have "v = w" by blast
    with e woken Cons.prems(3) have "acquire_loop st limit rs ?w = (r, w')"
      by (simp add: acquire_loop.simps [of st limit "x # rs"])
    moreover have "cl_ok ?w" using Cons.prems(1) by (rule cl_run_ok)
    moreover have "st < length (hp_active (cl_heap ?w))"
      using cl_run_length [OF Cons.prems(1), of "wr_others x"] Cons.prems(2) by simp
    moreover have "cl_run ops ?w = cl_run (wr_others x @ ops) w" for ops by (simp add: cl_run_def)
    ultimately show ?thesis using Cons.IH [of ?w] by (auto split: conc_result.splits)
  qed
qed



subsection \<open>No lost wake-up\<close>

lemma fire_active:
  assumes "st < length (hp_active h)" and "fst (hp_leases h ! l) \<noteq> st"
  shows "hp_active (fire_lease l h) ! st = hp_active h ! st"
  using assms by (simp add: fire_lease_def release_active_def)

text \<open>A step that does not close the wake generation of an object does not lower its counter.\<close>

lemma cl_apply_wake:
  assumes ok: "cl_ok w" and st: "st < length (hp_active (cl_heap w))"
  shows "cl_wake w ! st \<le> cl_wake (cl_apply op w) ! st \<and>
    (cl_wake (cl_apply op w) ! st = cl_wake w ! st \<longrightarrow>
     hp_active (cl_heap w) ! st \<le> hp_active (cl_heap (cl_apply op w)) ! st)"
proof (cases op)
  case (OpTry c limit)
  obtain s w1 where s: "cl_state_of c w = (s, w1)" by fastforce
  note spec = cl_state_of_spec [OF s]
  have "hp_active (cl_heap w1) ! st \<le> hp_active (cl_heap (snd (cl_enter s limit w1))) ! st"
    using spec(2) [OF ok]
    by (cases "s = st") (auto simp: cl_enter_def issue_lease_def case_prod_unfold)
  moreover have "cl_wake (snd (cl_enter s limit w1)) = cl_wake w1"
    by (simp add: cl_enter_def case_prod_unfold)
  ultimately show ?thesis using spec(4,5) ok st s OpTry by (simp add: cl_try_def)
next
  case (OpRelease l)
  have "st < length (cl_wake w)" using ok st by (simp add: cl_ok_def)
  then show ?thesis
    using OpRelease st fire_active [of st "cl_heap w" l]
    by (cases "fst (hp_leases (cl_heap w) ! l) = st") (auto simp: cl_release_def Let_def)
qed (auto simp: tryChannelRPMPermit_def cleanupChannelLimits_def Let_def split: prod.splits bool.splits)

lemma cl_run_wake:
  "cl_ok w \<Longrightarrow> st < length (hp_active (cl_heap w)) \<Longrightarrow>
    cl_wake w ! st \<le> cl_wake (cl_run ops w) ! st \<and>
    (cl_wake (cl_run ops w) ! st = cl_wake w ! st \<longrightarrow>
     hp_active (cl_heap w) ! st \<le> hp_active (cl_heap (cl_run ops w)) ! st)"
proof (induction ops arbitrary: w)
  case (Cons op ops)
  have "st < length (hp_active (cl_heap (cl_apply op w)))"
    using cl_state_run_length [OF Cons.prems(1), of op] Cons.prems(2) by simp
  with Cons.IH [of "cl_apply op w"] cl_apply_ok [OF Cons.prems(1), of op]
    cl_apply_wake [OF Cons.prems, of op]
  show ?case by (simp add: cl_run_def) linarith
qed (simp add: cl_run_def)

text \<open>
  C18. No lost wake-up. A caller that found the counter full under the lock has read the wake
  generation under the same lock; whatever the other requests do afterwards, if the counter ever
  drops below the limit the generation it holds has been closed, so its \<^verbatim>\<open>select\<close> can fire.
\<close>

theorem channel_no_lost_wakeup:
  assumes "w = cl_run before resetChannelLimits" and "st < length (hp_active (cl_heap w))"
    and "fst (cl_enter st limit w) = None"
    and "hp_active (cl_heap (cl_run ops w)) ! st < limit"
  shows "cl_wake w ! st < cl_wake (cl_run ops w) ! st"
proof -
  have "cl_ok w" unfolding assms(1) by (auto intro: cl_run_ok)
  moreover have "limit \<le> hp_active (cl_heap w) ! st"
    using assms(3) by (auto simp: cl_enter_def case_prod_unfold split: if_splits)
  ultimately show ?thesis using cl_run_wake [of w st ops] assms(2,4) by linarith
qed

theorem channel_no_lost_wakeup_witness:
  "let w = cl_run [OpTry 3 1] resetChannelLimits
   in cl_wake w ! 0 < cl_wake (cl_run [OpRelease 0] w) ! 0"
  unfolding Let_def
  by (rule channel_no_lost_wakeup [where limit = 1, OF refl])
    (simp_all add: cl_run_def cl_try_def cl_state_of_def cl_enter_def new_state_def issue_lease_def
      cl_release_def fire_lease_def release_active_def resetChannelLimits_def empty_heap_def)

subsection \<open>The requests-per-minute gate\<close>

lemma permit_refused:
  assumes "sorted (cl_window w ref)" and "0 < rpm"
    and "tryChannelRPMPermit ref rpm now w = ((wait, False), w')"
  shows "0 < wait \<and> fst (ch_admit rpm (now + wait) (cl_window w' ref))"
proof -
  let ?win = "filter (\<lambda>t. now - channelRPMWindow < t) (cl_window w ref)"
  have r: "ch_admit rpm now (cl_window w ref) = (False, ?win)"
    and wait: "wait = ?win ! (length ?win - nat rpm) + channelRPMWindow - now"
    and w': "cl_window w' ref = ?win"
    using assms by (auto simp: tryChannelRPMPermit_def ch_admit_def Let_def dropWhile_sorted_filter
        cl_window_def split: prod.splits bool.splits if_splits)
  have len: "rpm \<le> int (length ?win)" using r assms(1) clw.admit_iff [of "cl_window w ref" rpm now] by simp
  then have "?win ! (length ?win - nat rpm) \<in> set ?win" using assms(2) by (intro nth_mem) linarith
  then have "0 < wait" unfolding wait by auto
  moreover have "ch_admit rpm t win = kl_admit rpm t win" for t win
    by (simp add: ch_admit_def kl_admit_def rpmWindow_def channelRPMWindow_def)
  ultimately show ?thesis
    using admit_after_wait [of ?win rpm "now + wait"] len assms(1,2) wait w'
    by (simp add: sorted_filter [where f = id, simplified] rpmWindow_def channelRPMWindow_def)
qed

text \<open>
  The channel gate never spins and never starves (\<^verbatim>\<open>waitChannelRPM\<close>). With a positive limit
  and an ascending window, a caller that is not admitted is told a strictly positive wait, and if
  its timer fires after exactly that wait and no other request of the same key was admitted
  meanwhile, the second attempt is admitted: the loop returns after at most two attempts.
\<close>

lemma channel_rpm_wait_suffices:
  assumes "sorted (cl_window w ref)" and "0 < rpm"
    and "tryChannelRPMPermit ref rpm now w = ((wait, False), w')"
  shows "0 < wait \<and>
    fst (waitChannelRPM ref rpm [(now, TimerFired), (now + wait, e)] w) = RpmOK"
proof -
  have "fst (ch_admit rpm (now + wait) (cl_window w' ref))" and pos: "0 < wait"
    using permit_refused [OF assms] by blast+
  then have "snd (fst (tryChannelRPMPermit ref rpm (now + wait) w'))"
    by (auto simp: tryChannelRPMPermit_def split: prod.splits bool.splits)
  then show ?thesis
    using assms(2,3) pos
    by (auto simp: waitChannelRPM.simps [of ref rpm "(now, TimerFired) # _"]
        waitChannelRPM.simps [of ref rpm "[(now + wait, e)]"] split: prod.splits bool.splits)
qed

end
