(* ===== verification/Key_Select.thy ===== *)
theory Key_Select
  imports Group_Model Channel_Limit "HOL-Library.Word"
begin

text \<open>
  \<^verbatim>\<open>internal/relay/keyselect.go\<close>: which of a channel's keys a request uses. A per-channel
  64-bit ticket counter gives each request its own starting point of the ring, keys that a
  401, 403 or 429 put into cooldown are skipped, and expired cooldowns are dropped on the way.

  State: \<open>ks_cursors\<close> (the atomic counters), \<open>ks_cooldowns\<close> (deadline of each cooling key) and
  the channel limits. Every operation reads the clock once (\<open>now\<close>, nanoseconds).
\<close>

record keyhealth =
  ks_cursors :: "(int, 64 word) gomap"
  ks_cooldowns :: "(keyRef, int) gomap"
  ks_limits :: channellimit

definition resetChannelKeyHealth :: "keyhealth \<Rightarrow> keyhealth" where
  "resetChannelKeyHealth w = w\<lparr>ks_cursors := [], ks_cooldowns := []\<rparr>"

text \<open>\<^verbatim>\<open>channelKeyCursor(id).Add(1)\<close>: created at zero on first use, incremented modulo \<open>2^64\<close>.\<close>

definition channelKeyCursor :: "int \<Rightarrow> keyhealth \<Rightarrow> 64 word" where
  "channelKeyCursor channelID w =
    (case map_of (ks_cursors w) channelID of None \<Rightarrow> 0 | Some c \<Rightarrow> c)"

definition take_ticket :: "int \<Rightarrow> keyhealth \<Rightarrow> 64 word \<times> keyhealth" where
  "take_ticket channelID w =
    (let t = channelKeyCursor channelID w + 1
     in (t, w\<lparr>ks_cursors := mput channelID t (ks_cursors w)\<rparr>))"

definition markChannelKeyCooldown :: "int \<Rightarrow> string \<Rightarrow> int \<Rightarrow> int \<Rightarrow> keyhealth \<Rightarrow> keyhealth" where
  "markChannelKeyCooldown channelID keyID seconds now w =
    (let seconds = (if seconds < 1 then MemberCooldownSeconds DefaultGroupRelayConfig else seconds)
     in w\<lparr>ks_cooldowns := mput (channelID, keyID) (now + seconds * 10 ^ 9) (ks_cooldowns w)\<rparr>)"

text \<open>The second half of \<^verbatim>\<open>channelKeyCooling\<close>, under the write lock, re-reading the table.\<close>

definition expireKeyCooldown :: "keyRef \<Rightarrow> int \<Rightarrow> keyhealth \<Rightarrow> keyhealth" where
  "expireKeyCooldown ref now w =
    (case map_of (ks_cooldowns w) ref of
       Some d \<Rightarrow> if \<not> now < d then w\<lparr>ks_cooldowns := mdel ref (ks_cooldowns w)\<rparr> else w
     | None \<Rightarrow> w)"

definition channelKeyCooling :: "int \<Rightarrow> string \<Rightarrow> int \<Rightarrow> keyhealth \<Rightarrow> bool \<times> keyhealth" where
  "channelKeyCooling channelID keyID now w =
    (case map_of (ks_cooldowns w) (channelID, keyID) of
       None \<Rightarrow> (False, w)
     | Some deadline \<Rightarrow>
         if now < deadline then (True, w)
         else (False, expireKeyCooldown (channelID, keyID) now w))"

type_synonym key_choice = "nat \<times> ChannelKey \<times> bool"

definition zero_ChannelKey :: ChannelKey where
  "zero_ChannelKey = \<lparr>ck_ID = [], ck_Key = [], ck_Remark = []\<rparr>"

text \<open>The ring scan: \<open>idxs\<close> are the indices still to visit, in order.\<close>

fun scan_keys :: "int \<Rightarrow> ChannelKey list \<Rightarrow> nat list \<Rightarrow> int \<Rightarrow> keyhealth \<Rightarrow> key_choice \<times> keyhealth" where
  "scan_keys cid keys [] now w = ((0, zero_ChannelKey, False), w)"
| "scan_keys cid keys (idx # idxs) now w =
    (case channelKeyCooling cid (ck_ID (keys ! idx)) now w of
       (True, w') \<Rightarrow> scan_keys cid keys idxs now w'
     | (False, w') \<Rightarrow> ((idx, keys ! idx, True), w'))"

definition ring :: "nat \<Rightarrow> nat \<Rightarrow> nat list" where
  "ring start n = map (\<lambda>offset. (start + offset) mod n) [0..<n]"

definition selectChannelKey :: "Channel \<Rightarrow> int \<Rightarrow> keyhealth \<Rightarrow> key_choice \<times> keyhealth" where
  "selectChannelKey c now w =
    (if ch_Keys c = [] then ((0, zero_ChannelKey\<lparr>ck_Key := ch_Key c\<rparr>, True), w)
     else case take_ticket (ch_ID c) w of
            (ticket, w1) \<Rightarrow>
              let start = unat ((ticket - 1) mod of_nat (length (ch_Keys c)))
              in scan_keys (ch_ID c) (ch_Keys c) (ring start (length (ch_Keys c))) now w1)"

definition selectProbeChannelKey :: "Channel \<Rightarrow> int \<Rightarrow> keyhealth \<Rightarrow> key_choice \<times> keyhealth" where
  "selectProbeChannelKey c now w =
    (if ch_Keys c = [] then ((0, zero_ChannelKey\<lparr>ck_Key := ch_Key c\<rparr>, True), w)
     else scan_keys (ch_ID c) (ch_Keys c) [0..<length (ch_Keys c)] now w)"

datatype key_error =
  ErrAllChannelKeysCooling | ErrProxyTemplateInvalid | ErrChannelDisabled | ErrWarpProbeUnsupported

definition WarpProxyMarker :: string where
  "WarpProxyMarker = ''NovaVeil_WARP_socks5''"

definition AccountPlaceholder :: string where
  "AccountPlaceholder = ''{account}''"

definition HasAccountPlaceholder :: "string \<Rightarrow> bool" where
  "HasAccountPlaceholder template =
    (contains template AccountPlaceholder \<or>
     list_ex (contains template)
       [''%7Baccount%7D'', ''%7baccount%7d'', ''%7Baccount%7d'', ''%7baccount%7D''])"

definition isWarpProxy :: "Channel \<Rightarrow> bool" where
  "isWarpProxy c = (case ch_ChannelProxy c of None \<Rightarrow> False | Some p \<Rightarrow> contains p WarpProxyMarker)"

text \<open>
  \<open>resolveProxy template channelID keyID\<close> stands for
  \<^verbatim>\<open>helper.ResolveProxyTemplate(template, AccountAliasFor(channelID, keyID)).String()\<close>, which
  parses a URL and hashes the two identifiers; \<open>None\<close> is its parse error.
\<close>

definition effectiveChannelForKey ::
  "(string \<Rightarrow> int \<Rightarrow> string \<Rightarrow> string option) \<Rightarrow> Channel \<Rightarrow> ChannelKey \<Rightarrow> key_error + Channel" where
  "effectiveChannelForKey resolveProxy c selected =
    (let effective = c\<lparr>ch_Key := ck_Key selected, ch_Keys := []\<rparr> in
     case ch_ChannelProxy effective of
       None \<Rightarrow> Inr effective
     | Some p \<Rightarrow>
         if \<not> HasAccountPlaceholder p then Inr effective
         else if isWarpProxy c then Inr effective
         else (case resolveProxy p (ch_ID c) (ck_ID selected) of
                 None \<Rightarrow> Inl ErrProxyTemplateInvalid
               | Some addr \<Rightarrow> Inr (effective\<lparr>ch_ChannelProxy := Some addr\<rparr>)))"

definition effectiveProbeChannel ::
  "(string \<Rightarrow> int \<Rightarrow> string \<Rightarrow> string option) \<Rightarrow> Channel \<Rightarrow> int \<Rightarrow> keyhealth
   \<Rightarrow> (key_error + Channel \<times> nat \<times> ChannelKey) \<times> keyhealth" where
  "effectiveProbeChannel resolveProxy c now w =
    (if isWarpProxy c then (Inl ErrWarpProbeUnsupported, w)
     else if 0 < ch_ID c \<and> \<not> ch_Enabled c then (Inl ErrChannelDisabled, w)
     else case selectProbeChannelKey c now w of
            ((idx, selected, ok), w') \<Rightarrow>
              if \<not> ok then (Inl ErrAllChannelKeysCooling, w')
              else (case effectiveChannelForKey resolveProxy c selected of
                      Inl e \<Rightarrow> (Inl e, w')
                    | Inr effective \<Rightarrow> (Inr (effective, idx, selected), w')))"

definition channelKeyLabel :: "int \<Rightarrow> ChannelKey \<Rightarrow> string" where
  "channelKeyLabel index key =
    (if ck_ID key = [] \<and> ck_Remark key = [] then []
     else let display = (if ck_Remark key = [] then ck_ID key else ck_Remark key)
          in ''#'' @ Itoa (index + 1) @ ''('' @ display @ '')'')"

definition PruneExpiredKeyCooldowns :: "int \<Rightarrow> keyhealth \<Rightarrow> nat \<times> keyhealth" where
  "PruneExpiredKeyCooldowns now w =
    (let kept = mkeep (\<lambda>ref d. now < d) (ks_cooldowns w)
     in (length (ks_cooldowns w) - length kept, w\<lparr>ks_cooldowns := kept\<rparr>))"

definition ClearChannelKeyStateForUI :: "int \<Rightarrow> keyhealth \<Rightarrow> (nat \<times> nat) \<times> keyhealth" where
  "ClearChannelKeyStateForUI channelID w =
    (let kept = mkeep (\<lambda>ref d. fst ref \<noteq> channelID) (ks_cooldowns w) in
     case cleanupChannelLimits channelID (ks_limits w) of
       (windows, limits) \<Rightarrow>
         ((length (ks_cooldowns w) - length kept, windows),
          w\<lparr>ks_cooldowns := kept, ks_limits := limits\<rparr>))"

definition CleanupChannelKeyState :: "int \<Rightarrow> keyhealth \<Rightarrow> keyhealth" where
  "CleanupChannelKeyState channelID w =
    w\<lparr>ks_cursors := mdel channelID (ks_cursors w),
      ks_cooldowns := mkeep (\<lambda>ref d. fst ref \<noteq> channelID) (ks_cooldowns w),
      ks_limits := snd (cleanupChannelLimits channelID (ks_limits w))\<rparr>"

subsection \<open>Cooling is decided by the deadline alone\<close>

definition cooling :: "keyhealth \<Rightarrow> int \<Rightarrow> keyRef \<Rightarrow> bool" where
  "cooling w now ref = (case map_of (ks_cooldowns w) ref of None \<Rightarrow> False | Some d \<Rightarrow> now < d)"

lemma cooling_fst [simp]: "fst (channelKeyCooling cid kid now w) = cooling w now (cid, kid)"
  by (simp add: channelKeyCooling_def cooling_def split: option.splits)

lemma cooling_expire:
  "now \<le> t \<Longrightarrow> cooling (expireKeyCooldown ref now w) t ref' = cooling w t ref'"
  by (auto simp: expireKeyCooldown_def cooling_def split: option.splits)

lemma cooling_snd: "now \<le> t \<Longrightarrow> cooling (snd (channelKeyCooling cid kid now w)) t ref = cooling w t ref"
  by (auto simp: channelKeyCooling_def cooling_expire split: option.splits)

lemma mark_cools:
  "cooling (markChannelKeyCooldown cid kid s now w) now (cid, kid)"
  by (simp add: markChannelKeyCooldown_def cooling_def Let_def DefaultGroupRelayConfig_def)

lemma scan_keys_spec:
  "fst (scan_keys cid keys idxs now w) =
    (case find (\<lambda>i. \<not> cooling w now (cid, ck_ID (keys ! i))) idxs of
       None \<Rightarrow> (0, zero_ChannelKey, False) | Some i \<Rightarrow> (i, keys ! i, True))"
proof (induction idxs arbitrary: w)
  case (Cons i idxs)
  obtain b w' where c: "channelKeyCooling cid (ck_ID (keys ! i)) now w = (b, w')" by fastforce
  then have b: "b = cooling w now (cid, ck_ID (keys ! i))"
    and same: "cooling w' now ref = cooling w now ref" for ref
    using cooling_fst [of cid "ck_ID (keys ! i)" now w] cooling_snd [of now now cid "ck_ID (keys ! i)" w]
    by auto
  show ?case using c b Cons.IH [of w'] same by (cases b) simp_all
qed simp

lemma scan_keys_cursors [simp]: "ks_cursors (snd (scan_keys cid keys idxs now w)) = ks_cursors w"
proof (induction idxs arbitrary: w)
  case (Cons i idxs)
  have "ks_cursors (snd (channelKeyCooling cid (ck_ID (keys ! i)) now w)) = ks_cursors w"
    by (simp add: channelKeyCooling_def expireKeyCooldown_def split: option.splits)
  with Cons.IH show ?case by (auto split: prod.splits bool.splits)
qed simp

subsection \<open>The ring\<close>

lemma ring_set: "0 < n \<Longrightarrow> set (ring start n) = {..<n}"
proof -
  assume n: "0 < n"
  have "\<exists>offset < n. i = (start + offset) mod n" if "i < n" for i
  proof (intro exI conjI)
    show "(n - start mod n + i) mod n < n" using n by simp
    have "(start + (n - start mod n + i) mod n) mod n = (start + (n - start mod n + i)) mod n"
      by (simp add: mod_add_right_eq)
    also have "\<dots> = (start mod n + (n - start mod n + i)) mod n" by (simp add: mod_add_left_eq)
    also have "start mod n + (n - start mod n + i) = n + i"
      using n mod_less_divisor [of n start] by linarith
    also have "(n + i) mod n = i" using that by simp
    finally show "i = (start + (n - start mod n + i) mod n) mod n" ..
  qed
  then have "{..<n} \<subseteq> (\<lambda>offset. (start + offset) mod n) ` {0..<n}" by fastforce
  with n show ?thesis by (auto simp: ring_def)
qed

lemma ring_nth0: "0 < n \<Longrightarrow> ring start n = start mod n # tl (ring start n)"
  by (cases n) (simp_all add: ring_def upt_conv_Cons del: upt_Suc)

lemma word_mod_small:
  fixes x :: "64 word"
  assumes "0 < n" and "n < 2 ^ 64"
  shows "unat (x mod of_nat n) = unat x mod n"
proof -
  have "unat (of_nat n :: 64 word) = n"
    using assms(2) by (simp add: unat_of_nat)
  then show ?thesis by (simp add: unat_mod)
qed

lemma selectChannelKey_scan:
  assumes "ch_Keys c \<noteq> []" and "length (ch_Keys c) < 2 ^ 64"
  shows "selectChannelKey c now w = scan_keys (ch_ID c) (ch_Keys c)
     (ring (unat (channelKeyCursor (ch_ID c) w) mod length (ch_Keys c)) (length (ch_Keys c))) now
     (snd (take_ticket (ch_ID c) w))"
  using assms
  by (simp add: selectChannelKey_def take_ticket_def Let_def word_mod_small)

lemma cooling_ticket [simp]: "cooling (snd (take_ticket cid w)) now ref = cooling w now ref"
  by (simp add: cooling_def take_ticket_def Let_def)

lemma selectChannelKey_choice:
  assumes "ch_Keys c \<noteq> []" and "length (ch_Keys c) < 2 ^ 64"
  shows "fst (selectChannelKey c now w) =
    (case find (\<lambda>i. \<not> cooling w now (ch_ID c, ck_ID (ch_Keys c ! i)))
            (ring (unat (channelKeyCursor (ch_ID c) w) mod length (ch_Keys c)) (length (ch_Keys c))) of
       None \<Rightarrow> (0, zero_ChannelKey, False) | Some i \<Rightarrow> (i, ch_Keys c ! i, True))"
  by (simp add: selectChannelKey_scan [OF assms] scan_keys_spec)

text \<open>
  Key selection (\<^verbatim>\<open>selectChannelKey\<close>). For a channel with keys, selection succeeds exactly
  when some key is not cooling; the key it returns is then the channel's key at the returned
  index, that index is in range, and the key is not cooling. A channel without a key list falls
  back to its single key.
\<close>

lemma select_key_healthy:
  assumes "length (ch_Keys c) < 2 ^ 64" and "selectChannelKey c now w = ((idx, k, ok), w')"
  shows "if ch_Keys c = [] then ok \<and> ck_Key k = ch_Key c
    else (ok \<longleftrightarrow> (\<exists>k' \<in> set (ch_Keys c). \<not> cooling w now (ch_ID c, ck_ID k'))) \<and>
         (ok \<longrightarrow> idx < length (ch_Keys c) \<and> k = ch_Keys c ! idx \<and> \<not> cooling w now (ch_ID c, ck_ID k))"
proof (cases "ch_Keys c = []")
  case True
  with assms(2) show ?thesis by (auto simp: selectChannelKey_def)
next
  case False
  let ?n = "length (ch_Keys c)" and ?start = "unat (channelKeyCursor (ch_ID c) w) mod length (ch_Keys c)"
  let ?P = "\<lambda>i. \<not> cooling w now (ch_ID c, ck_ID (ch_Keys c ! i))"
  have set: "set (ring ?start ?n) = {..<?n}" using False by (intro ring_set) simp
  have choice: "(idx, k, ok) = (case find ?P (ring ?start ?n) of
      None \<Rightarrow> (0, zero_ChannelKey, False) | Some i \<Rightarrow> (i, ch_Keys c ! i, True))"
    using selectChannelKey_choice [OF False assms(1), of now w] assms(2) by simp
  show ?thesis
  proof (cases "find ?P (ring ?start ?n)")
    case None
    then have "\<not> (\<exists>i < ?n. ?P i)" using set by (auto simp: find_None_iff)
    with False None choice show ?thesis by (auto simp: in_set_conv_nth)
  next
    case (Some i)
    then have "i < ?n \<and> ?P i" using set by (auto dest: find_SomeD)
    with False Some choice show ?thesis by auto
  qed
qed

text \<open>
  Round robin. With no key cooling, the request that draws ticket number \<open>t\<close> uses key
  \<open>t mod n\<close>, and the next request draws \<open>t + 1\<close> modulo \<open>2^64\<close>: consecutive requests use
  consecutive keys, so \<open>n\<close> requests in a row use every key once.
\<close>

lemma select_key_round_robin:
  assumes "ch_Keys c \<noteq> []" and "length (ch_Keys c) < 2 ^ 64"
    and "\<forall>k \<in> set (ch_Keys c). \<not> cooling w now (ch_ID c, ck_ID k)"
    and "selectChannelKey c now w = ((idx, k, ok), w')"
  shows "idx = unat (channelKeyCursor (ch_ID c) w) mod length (ch_Keys c) \<and> ok \<and>
    channelKeyCursor (ch_ID c) w' = channelKeyCursor (ch_ID c) w + 1"
proof -
  let ?n = "length (ch_Keys c)" and ?start = "unat (channelKeyCursor (ch_ID c) w) mod length (ch_Keys c)"
  have pos: "0 < ?n" using assms(1) by simp
  have "find (\<lambda>i. \<not> cooling w now (ch_ID c, ck_ID (ch_Keys c ! i))) (ring ?start ?n) = Some ?start"
    using assms(3) pos by (subst ring_nth0 [OF pos]) simp
  then have "(idx, k, ok) = (?start, ch_Keys c ! ?start, True)"
    using selectChannelKey_choice [OF assms(1,2), of now w] assms(4) by simp
  moreover have "ks_cursors w' = ks_cursors (snd (take_ticket (ch_ID c) w))"
    using selectChannelKey_scan [OF assms(1,2), of now w] assms(4) by (metis scan_keys_cursors snd_conv)
  ultimately show ?thesis by (simp add: channelKeyCursor_def take_ticket_def Let_def)
qed

definition demo_channel :: Channel where
  "demo_channel = \<lparr>ch_ID = 4, ch_Name = ''demo'', ch_Type = ''openai'', ch_Enabled = True, ch_IsFree = False, ch_Builtin = False, ch_BaseURL = '''', ch_Key = '''',
     ch_Keys = [\<lparr>ck_ID = ''a'', ck_Key = ''ka'', ck_Remark = ''''\<rparr>,
                \<lparr>ck_ID = ''b'', ck_Key = ''kb'', ck_Remark = ''''\<rparr>],
     ch_FixedReply = [], ch_Proxy = False, ch_AutoSync = False, ch_OpencodeCompat = False,
     ch_OpencodeLane = [], ch_Keyed = False, ch_CustomHeader = [], ch_ParamOverride = None, ch_MatchRegex = None, ch_Tags = [], ch_Sort = 0,
     ch_PassThroughBodyEnabled = False, ch_ChannelProxy = None, ch_ModelLimits = [], ch_RateLimitRPM = 0, ch_MaxConcurrent = 0\<rparr>"

definition demo_health :: keyhealth where
  "demo_health = \<lparr>ks_cursors = [(4, 5)], ks_cooldowns = [((4, ''b''), 100)],
     ks_limits = resetChannelLimits\<rparr>"

lemma demo_select:
  "selectChannelKey demo_channel 50 demo_health =
    ((0, \<lparr>ck_ID = ''a'', ck_Key = ''ka'', ck_Remark = ''''\<rparr>, True),
     demo_health\<lparr>ks_cursors := [(4, 6)]\<rparr>)"
  by (simp add: selectChannelKey_def take_ticket_def channelKeyCursor_def demo_channel_def
      demo_health_def ring_def channelKeyCooling_def upt_rec Let_def)

end
