(* ===== verification/Broadcast.thy ===== *)
theory Broadcast
  imports Relay_Prelude
begin

text \<open>
  The non-blocking fan-out that \<^verbatim>\<open>internal/relay/route.go\<close> (\<^verbatim>\<open>publishRouteLocked\<close>) and
  \<^verbatim>\<open>internal/relay/state.go\<close> (\<^verbatim>\<open>publishRequestLocked\<close>) share: every open stream is a buffered
  channel; a publish appends to each buffer that has room and closes the streams that are full.

  A registry maps a stream (its number) to the messages buffered and not yet read. A closed
  stream leaves the registry. The locale \<open>broadcaster\<close> is the contract of a component that
  publishes this way; its lemmas are proved once and used for both publishers.
\<close>

type_synonym 'm streams = "(nat, 'm list) gomap"

text \<open>\<^verbatim>\<open>for stream := range watchers { select { case stream <- msg: default: delete; close } }\<close>\<close>

fun publish :: "nat \<Rightarrow> 'm \<Rightarrow> 'm streams \<Rightarrow> 'm streams" where
  "publish cap msg [] = []"
| "publish cap msg ((s, buf) # ws) =
     (if length buf < cap then (s, buf @ [msg]) # publish cap msg ws else publish cap msg ws)"

definition open_stream :: "'m streams \<Rightarrow> nat \<times> 'm streams" where
  "open_stream ws = (let s = Suc (foldr max (map fst ws) 0) in (s, ws @ [(s, [])]))"

definition close_stream :: "nat \<Rightarrow> 'm streams \<Rightarrow> 'm streams" where
  "close_stream s ws = (if mhas ws s then mdel s ws else ws)"

text \<open>The reader of a stream takes the oldest buffered message.\<close>

definition read_stream :: "nat \<Rightarrow> 'm streams \<Rightarrow> 'm option \<times> 'm streams" where
  "read_stream s ws =
    (case map_of ws s of
       Some (m # buf) \<Rightarrow> (Some m, mput s buf ws)
     | _ \<Rightarrow> (None, ws))"

definition streams_ok :: "nat \<Rightarrow> 'm streams \<Rightarrow> bool" where
  "streams_ok cap ws \<longleftrightarrow> mwf ws \<and> (\<forall>(s, buf) \<in> set ws. length buf \<le> cap)"

lemma fst_publish: "(s, buf) \<in> set (publish cap msg ws) \<Longrightarrow> s \<in> mkeys ws"
  by (induction cap msg ws rule: publish.induct) (auto split: if_splits)

lemma publish_wf: "mwf ws \<Longrightarrow> mwf (publish cap msg ws)"
  by (induction cap msg ws rule: publish.induct) (fastforce simp: mwf_def dest: fst_publish)+

lemma publish_bound: "(s, buf) \<in> set (publish cap msg ws) \<Longrightarrow> length buf \<le> cap"
  by (induction cap msg ws rule: publish.induct) (auto split: if_splits)

lemma publish_ok [intro]: "streams_ok cap ws \<Longrightarrow> streams_ok cap (publish cap msg ws)"
  by (auto simp: streams_ok_def publish_wf dest: publish_bound)

lemma map_of_publish:
  "mwf ws \<Longrightarrow> map_of (publish cap msg ws) s =
    (case map_of ws s of
       None \<Rightarrow> None
     | Some buf \<Rightarrow> if length buf < cap then Some (buf @ [msg]) else None)"
proof (induction cap msg ws rule: publish.induct)
  case (2 cap msg s' buf ws)
  then have "s' \<notin> fst ` set (publish cap msg ws)" and wf: "mwf ws"
    by (fastforce simp: mwf_def dest: fst_publish)+
  then have "map_of (publish cap msg ws) s' = None" by (simp add: map_of_eq_None_iff)
  with 2 wf show ?case by (auto split: option.splits)
qed simp

lemma open_stream_fresh: "fst (open_stream ws) \<notin> fst ` set ws"
proof -
  have "x \<in> set xs \<Longrightarrow> x \<le> foldr max xs 0" for x :: nat and xs
    by (induction xs) auto
  then have "x \<in> mkeys ws \<Longrightarrow> x \<le> foldr max (map fst ws) 0" for x by simp
  then show ?thesis unfolding open_stream_def Let_def fst_conv by (metis not_less_eq_eq order_refl)
qed

lemma open_stream_ok [intro]: "streams_ok cap ws \<Longrightarrow> streams_ok cap (snd (open_stream ws))"
  using open_stream_fresh [of ws] by (auto simp: streams_ok_def mwf_def open_stream_def Let_def)

lemma close_stream_ok [intro]: "streams_ok cap ws \<Longrightarrow> streams_ok cap (close_stream s ws)"
  using set_mdel_subset [of s ws] by (auto simp: streams_ok_def close_stream_def)

lemma read_stream_ok [intro]: "streams_ok cap ws \<Longrightarrow> streams_ok cap (snd (read_stream s ws))"
proof -
  assume ok: "streams_ok cap ws"
  show ?thesis
  proof (cases "map_of ws s")
    case (Some buf)
    with ok have "length buf \<le> cap" by (auto simp: streams_ok_def dest: map_of_SomeD)
    with ok Some show ?thesis
      using set_mput_subset [of s "tl buf" ws]
      by (cases buf) (fastforce simp: read_stream_def streams_ok_def)+
  qed (use ok in \<open>simp add: read_stream_def\<close>)
qed

text \<open>
  The contract: a component whose state \<open>'w\<close> holds a registry of streams, and whose publish
  operation changes that registry only by the fan-out above.
\<close>

locale broadcaster =
  fixes watchers :: "'w \<Rightarrow> 'm streams"
    and pub :: "'x \<Rightarrow> 'w \<Rightarrow> 'w"
    and message :: "'x \<Rightarrow> 'w \<Rightarrow> 'm"
    and capacity :: nat
  assumes pub_watchers: "watchers (pub x w) = publish capacity (message x w) (watchers w)"
begin

lemma pub_keeps_ok: "streams_ok capacity (watchers w) \<Longrightarrow> streams_ok capacity (watchers (pub x w))"
  by (auto simp: pub_watchers)

lemma pub_delivers:
  assumes "streams_ok capacity (watchers w)" and "map_of (watchers w) s = Some buf"
  shows "map_of (watchers (pub x w)) s =
    (if length buf < capacity then Some (buf @ [message x w]) else None)"
  using assms by (simp add: pub_watchers map_of_publish streams_ok_def)

lemma pub_opens_nothing: "map_of (watchers w) s = None \<Longrightarrow> streams_ok capacity (watchers w) \<Longrightarrow>
    map_of (watchers (pub x w)) s = None"
  by (simp add: pub_watchers map_of_publish streams_ok_def)

end

end
