(* ===== verification/Route_State.thy ===== *)
theory Route_State
  imports Key_Select Broadcast
begin

text \<open>
  The circuit breaker of \<^verbatim>\<open>internal/relay/route.go\<close> and \<^verbatim>\<open>internal/relay/prober.go\<close>, with the
  WARP channel blocks of \<^verbatim>\<open>internal/relay/warp_block.go\<close>: the routing state of a group, the
  operations on it that run under \<^verbatim>\<open>routeMu\<close>, and the world they share with session
  stickiness. Times are Unix milliseconds.

  A member is CLOSED when it has no cooldown, OPEN while its cooldown is in the future, and
  HALF-OPEN while \<open>rs_HalfOpens\<close> records a probe of it. Functions named \<open>..._route\<close> are the bodies
  of critical sections on one route; the operations proper look the route up in the world,
  run the body and publish.
\<close>

subsection \<open>WARP channel blocks\<close>

definition day_ms :: int where
  "day_ms = 24 * 60 * 60 * 1000"

text \<open>\<^verbatim>\<open>time.Date(year, month, day + 1, 0, 0, 0, 0, UTC)\<close>: the next midnight, UTC.\<close>

definition next_utc_midnight :: "int \<Rightarrow> int" where
  "next_utc_midnight now = (now div day_ms + 1) * day_ms"

definition blockWarpChannelUntilUTC :: "int \<Rightarrow> int \<Rightarrow> (int, int) gomap \<Rightarrow> (int, int) gomap" where
  "blockWarpChannelUntilUTC channelID now blocks =
    (if channelID \<le> 0 then blocks
     else let until = next_utc_midnight now in
       case map_of blocks channelID of
         None \<Rightarrow> mput channelID until blocks
       | Some current \<Rightarrow> if current < until then mput channelID until blocks else blocks)"

definition warpChannelBlocked :: "int \<Rightarrow> int \<Rightarrow> (int, int) gomap \<Rightarrow> bool \<times> (int, int) gomap" where
  "warpChannelBlocked channelID now blocks =
    (if channelID \<le> 0 then (False, blocks)
     else case map_of blocks channelID of
            None \<Rightarrow> (False, blocks)
          | Some until \<Rightarrow> if \<not> now < until then (False, mdel channelID blocks) else (True, blocks))"

subsection \<open>What routing reads from the rest of the program\<close>

text \<open>
  \<open>env_channel\<close> and \<open>env_group\<close> are the lookups \<^verbatim>\<open>channelLookupFunc\<close> and \<^verbatim>\<open>groupLookupFunc\<close> (\<open>None\<close>
  is their error), \<open>env_native\<close> is \<^verbatim>\<open>supportsNativeFormat\<close>, \<open>env_blocks\<close> the table of blocked WARP
  channels.
\<close>

record route_env =
  env_channel :: "int \<Rightarrow> Channel option"
  env_group :: "string \<Rightarrow> Group option"
  env_native :: "Channel \<Rightarrow> ChannelModel \<Rightarrow> string \<Rightarrow> bool"
  env_blocks :: "(int, int) gomap"

definition channelDisabledForRouting :: "route_env \<Rightarrow> int \<Rightarrow> GroupItem \<Rightarrow> bool" where
  "channelDisabledForRouting env now item =
    (case it_ChannelModel item of
       None \<Rightarrow> False
     | Some cm \<Rightarrow>
         (case env_channel env (cm_ChannelID cm) of
            None \<Rightarrow> False
          | Some c \<Rightarrow>
              if \<not> ch_Enabled c then True
              else isWarpProxy c \<and> fst (warpChannelBlocked (ch_ID c) now (env_blocks env))))"

subsection \<open>State\<close>

record RouteState =
  rs_GroupID :: int
  rs_CurrentItemID :: int
  rs_ProbeItemID :: int
  rs_AffinityUntil :: int
  rs_Cooldowns :: "(int, int) gomap"
  rs_Levels :: "(int, int) gomap"
  rs_HalfOpens :: "(int, int) gomap"
  rs_PostCommitStrikes :: "(int, int) gomap"
  rs_EmergencyItemID :: int
  rs_EmergencyActive :: int
  rs_emergencyCounts :: "(int, int) gomap"
  rs_emergencyBlocks :: "(int, int) gomap"
  rs_affinityArmed :: bool

record stickyEntry =
  se_ItemID :: int
  se_ExpireAtUnixMilli :: int

text \<open>Everything guarded by \<^verbatim>\<open>routeMu\<close>.\<close>

record relay_world =
  rw_routes :: "(int, RouteState) gomap"
  rw_streams :: "RouteState streams"
  rw_stickies :: "(int, (string, stickyEntry) gomap) gomap"
  rw_stickyLastPrune :: int

definition init_world :: relay_world where
  "init_world = \<lparr>rw_routes = [], rw_streams = [], rw_stickies = [], rw_stickyLastPrune = 0\<rparr>"

definition emergencyMaxConcurrent :: int where
  "emergencyMaxConcurrent = 3"

definition routeStreamBuffer :: nat where
  "routeStreamBuffer = 16"

subsection \<open>Publishing\<close>

text \<open>\<^verbatim>\<open>cloneRouteState\<close> copies every map, so the message is the value of the route.\<close>

definition cloneRouteState :: "RouteState \<Rightarrow> RouteState" where
  "cloneRouteState r = r"

definition publishRouteLocked :: "RouteState \<Rightarrow> relay_world \<Rightarrow> relay_world" where
  "publishRouteLocked r w =
    w\<lparr>rw_streams := publish routeStreamBuffer (cloneRouteState r) (rw_streams w)\<rparr>"

definition set_route :: "int \<Rightarrow> RouteState \<Rightarrow> relay_world \<Rightarrow> relay_world" where
  "set_route gid r w = w\<lparr>rw_routes := mput gid r (rw_routes w)\<rparr>"

text \<open>Leaving a critical section: the route object holds \<open>r\<close>, published when \<open>changed\<close>.\<close>

definition commit_route :: "int \<Rightarrow> RouteState \<Rightarrow> bool \<Rightarrow> relay_world \<Rightarrow> relay_world" where
  "commit_route gid r changed w =
    (if changed then publishRouteLocked r (set_route gid r w) else set_route gid r w)"

definition OpenRouteStream :: "relay_world \<Rightarrow> (RouteState list \<times> nat) \<times> relay_world" where
  "OpenRouteStream w =
    (case open_stream (rw_streams w) of
       (s, streams) \<Rightarrow>
         ((map (cloneRouteState \<circ> snd) (rw_routes w), s), w\<lparr>rw_streams := streams\<rparr>))"

definition CloseRouteStream :: "nat \<Rightarrow> relay_world \<Rightarrow> relay_world" where
  "CloseRouteStream s w = w\<lparr>rw_streams := close_stream s (rw_streams w)\<rparr>"

subsection \<open>Cooldown length\<close>

definition cooldownMillis :: "GroupRelayConfig \<Rightarrow> int \<Rightarrow> int" where
  "cooldownMillis config level =
    (let seconds = rat_of_int (max (MemberCooldownSeconds config) 1);
         seconds = (if 0 < level then seconds * max (CooldownBackoffMultiplier config) 1 ^ nat level
                    else seconds);
         ceiling = rat_of_int (max (CooldownMaxSeconds config) 0);
         seconds = (if 1 \<le> ceiling \<and> ceiling < seconds then ceiling else seconds)
     in \<lfloor>seconds * 1000\<rfloor>)"

subsection \<open>Emergency accounting\<close>

text \<open>
  When no summary member is set, Go's map iteration picks any member with a count: the head of
  the association list.
\<close>

definition syncEmergencySummaryLocked :: "RouteState \<Rightarrow> RouteState" where
  "syncEmergencySummaryLocked r =
    (let total = msum (rs_emergencyCounts r) in
     if total \<le> 0 then r\<lparr>rs_EmergencyItemID := 0, rs_EmergencyActive := 0\<rparr>
     else
       let item = (if rs_EmergencyItemID r = 0 \<or> mget0 (rs_emergencyCounts r) (rs_EmergencyItemID r) \<le> 0
                   then (case rs_emergencyCounts r of [] \<Rightarrow> rs_EmergencyItemID r | (k, c) # _ \<Rightarrow> k)
                   else rs_EmergencyItemID r)
       in r\<lparr>rs_EmergencyItemID := item, rs_EmergencyActive := total\<rparr>)"

definition emergencyHeldLocked :: "RouteState \<Rightarrow> int \<Rightarrow> bool" where
  "emergencyHeldLocked r itemID = (0 < mget0 (rs_emergencyCounts r) itemID)"

definition releaseEmergencyLocked :: "RouteState \<Rightarrow> int \<Rightarrow> bool \<times> RouteState" where
  "releaseEmergencyLocked r itemID =
    (if mget0 (rs_emergencyCounts r) itemID \<le> 0 then (False, r)
     else
       let n = mget0 (rs_emergencyCounts r) itemID - 1;
           counts = (if n \<le> 0 then mdel itemID (rs_emergencyCounts r)
                     else mput itemID n (rs_emergencyCounts r))
       in (True, syncEmergencySummaryLocked (r\<lparr>rs_emergencyCounts := counts\<rparr>)))"

definition claimEmergencyLocked ::
  "route_env \<Rightarrow> RouteState \<Rightarrow> Group \<Rightarrow> int \<Rightarrow> int list \<Rightarrow> int \<Rightarrow> GroupItem \<times> RouteState \<times> bool" where
  "claimEmergencyLocked env r g exclude skipped now =
    (let itemID = EmergencyItemID (g_RelayConfig g); item = itemOf g itemID in
     if itemID \<le> 0 \<or> itemID = exclude \<or> itemID \<in> set skipped \<or>
        emergencyMaxConcurrent \<le> rs_EmergencyActive r then (zero_GroupItem, r, False)
     else if it_ID item = 0 then (zero_GroupItem, r, False)
     else if channelDisabledForRouting env now item then (zero_GroupItem, r, False)
     else if 0 < mget0 (rs_HalfOpens r) itemID then (zero_GroupItem, r, False)
     else if mhas (rs_emergencyBlocks r) itemID \<and> now < mget0 (rs_emergencyBlocks r) itemID
       then (zero_GroupItem, r, False)
     else (item,
           syncEmergencySummaryLocked
             (r\<lparr>rs_emergencyCounts :=
                 mput itemID (mget0 (rs_emergencyCounts r) itemID + 1) (rs_emergencyCounts r)\<rparr>),
           True))"

subsection \<open>Half-open probes\<close>

definition claimHalfOpenLocked :: "RouteState \<Rightarrow> int \<Rightarrow> int \<Rightarrow> bool \<times> RouteState" where
  "claimHalfOpenLocked r itemID now =
    (if rs_ProbeItemID r \<noteq> 0 then (False, r)
     else case map_of (rs_Cooldowns r) itemID of
            None \<Rightarrow> (False, r)
          | Some deadline \<Rightarrow>
              if now < deadline \<or> 0 < mget0 (rs_HalfOpens r) itemID then (False, r)
              else (True, r\<lparr>rs_HalfOpens := mput itemID now (rs_HalfOpens r)\<rparr>))"

text \<open>Claims for a list of members in order; the result lists the members whose probe starts.\<close>

fun claimHalfOpens :: "GroupItem list \<Rightarrow> int \<Rightarrow> RouteState \<Rightarrow> GroupItem list \<times> RouteState" where
  "claimHalfOpens [] now r = ([], r)"
| "claimHalfOpens (item # items) now r =
    (case claimHalfOpenLocked r (it_ID item) now of
       (ok, r1) \<Rightarrow>
         (case claimHalfOpens items now r1 of
            (started, r2) \<Rightarrow> ((if ok then item # started else started), r2)))"

definition restoreItemLocked :: "RouteState \<Rightarrow> int \<Rightarrow> RouteState" where
  "restoreItemLocked r itemID =
    r\<lparr>rs_Cooldowns := mdel itemID (rs_Cooldowns r), rs_Levels := mdel itemID (rs_Levels r),
      rs_HalfOpens := mdel itemID (rs_HalfOpens r)\<rparr>"

definition reopenItemLocked :: "RouteState \<Rightarrow> GroupRelayConfig \<Rightarrow> int \<Rightarrow> int \<Rightarrow> RouteState" where
  "reopenItemLocked r config itemID now =
    (let level = mget0 (rs_Levels r) itemID + 1 in
     r\<lparr>rs_Levels := mput itemID level (rs_Levels r),
       rs_Cooldowns := mput itemID (now + cooldownMillis config level) (rs_Cooldowns r),
       rs_HalfOpens := mdel itemID (rs_HalfOpens r)\<rparr>)"

subsection \<open>The route of a group\<close>

definition fresh_route :: "int \<Rightarrow> RouteState" where
  "fresh_route gid = \<lparr>rs_GroupID = gid, rs_CurrentItemID = 0, rs_ProbeItemID = 0, rs_AffinityUntil = 0,
     rs_Cooldowns = [], rs_Levels = [], rs_HalfOpens = [], rs_PostCommitStrikes = [],
     rs_EmergencyItemID = 0, rs_EmergencyActive = 0, rs_emergencyCounts = [], rs_emergencyBlocks = [],
     rs_affinityArmed = False\<rparr>"

text \<open>Dropping what belongs to members the group no longer has.\<close>

definition prune_route :: "Group \<Rightarrow> RouteState \<Rightarrow> RouteState" where
  "prune_route g r =
    (let items = map it_ID (g_Items g);
         live = (\<lambda>k (v :: int). k \<in> set items);
         r1 = syncEmergencySummaryLocked
           (r\<lparr>rs_Cooldowns := mkeep live (rs_Cooldowns r), rs_Levels := mkeep live (rs_Levels r),
              rs_HalfOpens := mkeep live (rs_HalfOpens r),
              rs_PostCommitStrikes := mkeep live (rs_PostCommitStrikes r),
              rs_emergencyCounts := mkeep live (rs_emergencyCounts r),
              rs_emergencyBlocks := mkeep live (rs_emergencyBlocks r)\<rparr>);
         r2 = (if rs_ProbeItemID r1 \<noteq> 0 \<and> rs_ProbeItemID r1 \<notin> set items
               then r1\<lparr>rs_ProbeItemID := 0\<rparr> else r1)
     in if rs_CurrentItemID r2 \<noteq> 0 \<and> rs_CurrentItemID r2 \<notin> set items
        then r2\<lparr>rs_CurrentItemID := 0, rs_AffinityUntil := 0, rs_affinityArmed := False\<rparr> else r2)"

definition groupRouteLocked :: "Group \<Rightarrow> relay_world \<Rightarrow> RouteState \<times> relay_world" where
  "groupRouteLocked g w =
    (let r0 = (case map_of (rw_routes w) (g_ID g) of None \<Rightarrow> fresh_route (g_ID g) | Some r \<Rightarrow> r);
         r = prune_route g r0
     in (r, set_route (g_ID g) r w))"

subsection \<open>Reporting the outcome of a round\<close>

text \<open>A success clears the member's post-commit strikes; the flag says there were some.\<close>

definition clearStrikes_route :: "int \<Rightarrow> RouteState \<Rightarrow> RouteState \<times> bool" where
  "clearStrikes_route itemID r =
    (if 0 < mget0 (rs_PostCommitStrikes r) itemID
     then (r\<lparr>rs_PostCommitStrikes := mdel itemID (rs_PostCommitStrikes r)\<rparr>, True)
     else (r, False))"

text \<open>A success confirms a probed member: back to CLOSED, and current when nothing else is pinned.\<close>

definition confirmProbe_route :: "int \<Rightarrow> int \<Rightarrow> RouteState \<Rightarrow> RouteState \<times> bool" where
  "confirmProbe_route itemID now r =
    (if rs_ProbeItemID r = itemID \<or> 0 < mget0 (rs_HalfOpens r) itemID
     then
       let a = (restoreItemLocked r itemID)\<lparr>rs_ProbeItemID := 0\<rparr>;
           b = a\<lparr>rs_emergencyBlocks := mdel itemID (rs_emergencyBlocks a)\<rparr>;
           c = (if rs_CurrentItemID b = 0 \<or> rs_AffinityUntil b \<le> now
                then b\<lparr>rs_CurrentItemID := itemID, rs_AffinityUntil := 0\<rparr> else b)
       in (c, True)
     else (r, False))"

text \<open>Then the emergency slot is given back, or an armed affinity window starts.\<close>

definition settleSuccess_route ::
  "GroupRelayConfig \<Rightarrow> int \<Rightarrow> int \<Rightarrow> bool \<Rightarrow> RouteState \<Rightarrow> RouteState \<times> bool" where
  "settleSuccess_route config itemID now emergencyHeld r =
    (if emergencyHeld
     then (case releaseEmergencyLocked r itemID of (rel, r3) \<Rightarrow> (r3, rel))
     else if rs_CurrentItemID r = itemID \<and> rs_affinityArmed r
     then
       let r3 = r\<lparr>rs_affinityArmed := False\<rparr>
       in if 0 < MemberAffinitySeconds config
          then (r3\<lparr>rs_AffinityUntil := now + MemberAffinitySeconds config * 1000\<rparr>, True)
          else (r3, False)
     else (r, False))"

definition recordRouteSuccess_route ::
  "GroupRelayConfig \<Rightarrow> int \<Rightarrow> int \<Rightarrow> RouteState \<Rightarrow> RouteState \<times> bool" where
  "recordRouteSuccess_route config itemID now r =
    (case clearStrikes_route itemID r of
       (r1, c1) \<Rightarrow>
         (case confirmProbe_route itemID now r1 of
            (r2, c2) \<Rightarrow>
              (case settleSuccess_route config itemID now (emergencyHeldLocked r itemID) r2 of
                 (r3, c3) \<Rightarrow> (r3, c1 \<or> c2 \<or> c3))))"

definition recordRouteSuccess :: "Group \<Rightarrow> int \<Rightarrow> int \<Rightarrow> relay_world \<Rightarrow> relay_world" where
  "recordRouteSuccess g itemID now w =
    (if g_Mode g = GroupModeManual then w
     else case map_of (rw_routes w) (g_ID g) of
            None \<Rightarrow> w
          | Some r \<Rightarrow>
              (case recordRouteSuccess_route (g_RelayConfig g) itemID now r of
                 (r', changed) \<Rightarrow> commit_route (g_ID g) r' changed w))"

definition drop_current :: "int \<Rightarrow> RouteState \<Rightarrow> RouteState" where
  "drop_current itemID r =
    (if rs_CurrentItemID r = itemID
     then r\<lparr>rs_CurrentItemID := 0, rs_AffinityUntil := 0, rs_affinityArmed := True\<rparr> else r)"

definition recordPostCommitFailure_route ::
  "GroupRelayConfig \<Rightarrow> int \<Rightarrow> int \<Rightarrow> RouteState \<Rightarrow> bool \<times> RouteState \<times> bool" where
  "recordPostCommitFailure_route config itemID now r =
    (if mhas (rs_Cooldowns r) itemID then (True, r, False)
     else
       let strikes = mget0 (rs_PostCommitStrikes r) itemID + 1;
           r1 = r\<lparr>rs_PostCommitStrikes := mput itemID strikes (rs_PostCommitStrikes r)\<rparr>
       in if strikes < max (MemberMaxAttempts config) 1 then (False, r1, True)
          else (True,
                drop_current itemID
                  (r1\<lparr>rs_PostCommitStrikes := mdel itemID (rs_PostCommitStrikes r1),
                      rs_Cooldowns := mput itemID (now + cooldownMillis config 1) (rs_Cooldowns r1)\<rparr>),
                True))"

definition recordPostCommitFailure :: "Group \<Rightarrow> int \<Rightarrow> int \<Rightarrow> relay_world \<Rightarrow> bool \<times> relay_world" where
  "recordPostCommitFailure g itemID now w =
    (if g_Mode g = GroupModeManual then (False, w)
     else case groupRouteLocked g w of
            (r, w1) \<Rightarrow>
              (case recordPostCommitFailure_route (g_RelayConfig g) itemID now r of
                 (res, r', changed) \<Rightarrow> (res, commit_route (g_ID g) r' changed w1)))"

text \<open>The failure of a probed member: one level up, or closed again below the threshold.\<close>

definition failProbed_route ::
  "GroupRelayConfig \<Rightarrow> int \<Rightarrow> int \<Rightarrow> int \<Rightarrow> int \<Rightarrow> RouteState \<Rightarrow> RouteState" where
  "failProbed_route config itemID failures threshold now r =
    (let r1 = r\<lparr>rs_HalfOpens := mdel itemID (rs_HalfOpens r), rs_ProbeItemID := 0\<rparr>;
         r2 = (if threshold \<le> failures
               then
                 let level = mget0 (rs_Levels r1) itemID + 1
                 in r1\<lparr>rs_Levels := mput itemID level (rs_Levels r1),
                       rs_Cooldowns := mput itemID (now + cooldownMillis config level) (rs_Cooldowns r1)\<rparr>
               else r1\<lparr>rs_Cooldowns := mdel itemID (rs_Cooldowns r1)\<rparr>)
     in snd (releaseEmergencyLocked (drop_current itemID r2) itemID))"

text \<open>The failure of any other member at its threshold: OPEN, with the emergency slot blocked too.\<close>

definition openMember_route :: "GroupRelayConfig \<Rightarrow> int \<Rightarrow> int \<Rightarrow> RouteState \<Rightarrow> RouteState" where
  "openMember_route config itemID now r =
    (let until = now + cooldownMillis config (mget0 (rs_Levels r) itemID);
         r1 = r\<lparr>rs_Cooldowns := mput itemID until (rs_Cooldowns r)\<rparr>;
         r2 = (if emergencyHeldLocked r1 itemID
               then r1\<lparr>rs_emergencyBlocks := mput itemID until (rs_emergencyBlocks r1)\<rparr> else r1)
     in snd (releaseEmergencyLocked (drop_current itemID r2) itemID))"

definition recordRouteFailure_route ::
  "GroupRelayConfig \<Rightarrow> int \<Rightarrow> int \<Rightarrow> int \<Rightarrow> int \<Rightarrow> RouteState \<Rightarrow> bool \<times> RouteState \<times> bool" where
  "recordRouteFailure_route config itemID failures threshold now r =
    (if rs_ProbeItemID r = itemID \<or> 0 < mget0 (rs_HalfOpens r) itemID
     then (True, failProbed_route config itemID failures threshold now r, True)
     else if failures < threshold
     then (case releaseEmergencyLocked r itemID of (rel, r1) \<Rightarrow> (False, r1, rel))
     else (True, openMember_route config itemID now r, True))"

definition recordRouteFailureWithLimit ::
  "Group \<Rightarrow> int \<Rightarrow> int \<Rightarrow> int \<Rightarrow> int \<Rightarrow> relay_world \<Rightarrow> bool \<times> relay_world" where
  "recordRouteFailureWithLimit g itemID failures threshold now w =
    (if g_Mode g = GroupModeManual then (False, w)
     else case map_of (rw_routes w) (g_ID g) of
            None \<Rightarrow> (False, w)
          | Some r \<Rightarrow>
              (case recordRouteFailure_route (g_RelayConfig g) itemID failures (max threshold 1) now r of
                 (res, r', changed) \<Rightarrow> (res, commit_route (g_ID g) r' changed w)))"

definition recordRouteFailure :: "Group \<Rightarrow> int \<Rightarrow> int \<Rightarrow> int \<Rightarrow> relay_world \<Rightarrow> bool \<times> relay_world" where
  "recordRouteFailure g itemID failures now w =
    recordRouteFailureWithLimit g itemID failures (max (MemberMaxAttempts (g_RelayConfig g)) 1) now w"

record memberFailureCounts =
  mf_business :: int
  mf_infra :: int

text \<open>\<open>infra\<close> is \<^verbatim>\<open>isInfrastructureError(err)\<close>; the counts are per request and per member.\<close>

definition recordRouteFailureIfReal ::
  "Group \<Rightarrow> int \<Rightarrow> bool \<Rightarrow> int \<Rightarrow> (int, memberFailureCounts) gomap \<Rightarrow> relay_world
   \<Rightarrow> bool \<times> (int, memberFailureCounts) gomap \<times> relay_world" where
  "recordRouteFailureIfReal g itemID infra now counts w =
    (let m = (case map_of counts itemID of None \<Rightarrow> \<lparr>mf_business = 0, mf_infra = 0\<rparr> | Some m \<Rightarrow> m) in
     if \<not> infra
     then
       let m' = m\<lparr>mf_business := mf_business m + 1\<rparr>
       in (case recordRouteFailure g itemID (mf_business m') now w of
             (res, w') \<Rightarrow> (res, mput itemID m' counts, w'))
     else
       let m' = m\<lparr>mf_infra := mf_infra m + 1\<rparr>;
           limit = (if MemberInfraMaxRetries (g_RelayConfig g) \<le> 0
                    then MemberMaxAttempts (g_RelayConfig g)
                    else MemberInfraMaxRetries (g_RelayConfig g))
       in (case recordRouteFailureWithLimit g itemID (mf_infra m') limit now w of
             (res, w') \<Rightarrow> (res, mput itemID m' counts, w')))"

definition releaseRouteProbe_route :: "int \<Rightarrow> RouteState \<Rightarrow> RouteState \<times> bool" where
  "releaseRouteProbe_route itemID r =
    (let (r1, changed) =
       (if rs_ProbeItemID r = itemID \<or> 0 < mget0 (rs_HalfOpens r) itemID
        then
          let a = r\<lparr>rs_HalfOpens := mdel itemID (rs_HalfOpens r)\<rparr>
          in ((if rs_ProbeItemID a = itemID then a\<lparr>rs_ProbeItemID := 0\<rparr> else a), True)
        else (r, False))
     in case releaseEmergencyLocked r1 itemID of (rel, r2) \<Rightarrow> (r2, changed \<or> rel))"

definition releaseRouteProbe :: "Group \<Rightarrow> int \<Rightarrow> relay_world \<Rightarrow> relay_world" where
  "releaseRouteProbe g itemID w =
    (case map_of (rw_routes w) (g_ID g) of
       None \<Rightarrow> w
     | Some r \<Rightarrow>
         (case releaseRouteProbe_route itemID r of
            (r', changed) \<Rightarrow> commit_route (g_ID g) r' changed w))"

subsection \<open>Background probing\<close>

definition ProbeExpiredItems :: "Group \<Rightarrow> int \<Rightarrow> relay_world \<Rightarrow> GroupItem list \<times> relay_world" where
  "ProbeExpiredItems g now w =
    (if g_Mode g \<noteq> GroupModeFailover \<or> \<not> BackgroundProbeEnabled (g_RelayConfig g) then ([], w)
     else case groupRouteLocked g w of
            (r, w1) \<Rightarrow>
              (case claimHalfOpens (g_Items g) now r of
                 (started, r') \<Rightarrow> (started, commit_route (g_ID g) r' (started \<noteq> []) w1)))"

text \<open>The critical section that ends \<^verbatim>\<open>runAsyncProbe\<close>; \<open>ok\<close> says the probe returned no error.\<close>

definition runAsyncProbe_finish :: "Group \<Rightarrow> GroupItem \<Rightarrow> bool \<Rightarrow> int \<Rightarrow> relay_world \<Rightarrow> relay_world" where
  "runAsyncProbe_finish g item ok now w =
    (case map_of (rw_routes w) (g_ID g) of
       None \<Rightarrow> w
     | Some r \<Rightarrow>
         if mget0 (rs_HalfOpens r) (it_ID item) = 0 then w
         else commit_route (g_ID g)
                (if ok then restoreItemLocked r (it_ID item)
                 else reopenItemLocked r (g_RelayConfig g) (it_ID item) now) True w)"

subsection \<open>Administration\<close>

definition positive_keys :: "(int, int) gomap \<Rightarrow> int list" where
  "positive_keys m = map fst (filter (\<lambda>(k, v). 0 < v) m)"

definition ResetGroupCooldown :: "int \<Rightarrow> relay_world \<Rightarrow> (nat \<times> bool) \<times> relay_world" where
  "ResetGroupCooldown gid w =
    (case map_of (rw_routes w) gid of
       None \<Rightarrow> ((0, True), w)
     | Some r \<Rightarrow>
         let dirty = remdups (positive_keys (rs_Cooldowns r) @ positive_keys (rs_Levels r) @
                       positive_keys (rs_PostCommitStrikes r) @ positive_keys (rs_emergencyBlocks r));
             r' = syncEmergencySummaryLocked
               (r\<lparr>rs_Cooldowns := [], rs_Levels := [], rs_PostCommitStrikes := [],
                  rs_emergencyBlocks := []\<rparr>)
         in ((length dirty, True), commit_route gid r' True w))"

definition allMembersInCooldown :: "route_env \<Rightarrow> Group \<Rightarrow> int \<Rightarrow> relay_world \<Rightarrow> bool" where
  "allMembersInCooldown env g now w =
    (if g_Mode g = GroupModeManual \<or> g_Items g = [] then False
     else case map_of (rw_routes w) (g_ID g) of
            None \<Rightarrow> False
          | Some r \<Rightarrow>
              (let candidates = filter (\<lambda>i. \<not> channelDisabledForRouting env now i) (g_Items g)
               in candidates \<noteq> [] \<and>
                  list_all (\<lambda>i. mhas (rs_Cooldowns r) (it_ID i) \<and>
                                now < mget0 (rs_Cooldowns r) (it_ID i)) candidates))"

end
