(* ===== verification/Route_Breaker.thy ===== *)
theory Route_Breaker
  imports Route_State
begin

text \<open>
  Invariants of the circuit breaker of \<^verbatim>\<open>route.go\<close> and \<^verbatim>\<open>prober.go\<close>, one preservation lemma per
  critical section: the accounting of emergency slots (\<open>emergency_ok\<close>), distinct keys (\<open>maps_ok\<close>),
  and the breaker proper (\<open>breaker_ok\<close>): the member requests stick to is never OPEN, and only
  cooling members are HALF-OPEN. The functional behaviour of the reports and the length of a
  cooldown are stated here too.
\<close>

subsection \<open>Length of a cooldown\<close>

lemma cooldown_ge_second:
  assumes "1 \<le> CooldownMaxSeconds c \<or> CooldownMaxSeconds c \<le> 0"
  shows "1000 \<le> cooldownMillis c level"
proof -
  let ?m = "max (CooldownBackoffMultiplier c) 1"
  have "1 \<le> ?m ^ nat level" by (rule one_le_power) simp
  then have "rat_of_int (max (MemberCooldownSeconds c) 1) * 1 \<le>
      rat_of_int (max (MemberCooldownSeconds c) 1) * ?m ^ nat level"
    by (intro mult_left_mono) simp_all
  moreover have "1 \<le> rat_of_int (max (MemberCooldownSeconds c) 1)" by simp
  ultimately have "1 \<le> rat_of_int (max (MemberCooldownSeconds c) 1) * ?m ^ nat level" by linarith
  then show ?thesis unfolding cooldownMillis_def Let_def by (simp add: le_floor_iff)
qed

lemma cooldown_le_ceiling:
  assumes "1 \<le> CooldownMaxSeconds c"
  shows "cooldownMillis c level \<le> CooldownMaxSeconds c * 1000"
proof -
  have "\<lfloor>x * 1000\<rfloor> \<le> n * 1000" if "x \<le> rat_of_int n" for x n
  proof -
    have "x * 1000 \<le> rat_of_int (n * 1000)" using that by simp
    then show ?thesis by (metis floor_mono floor_of_int)
  qed
  then show ?thesis using assms unfolding cooldownMillis_def Let_def by (simp add: not_less)
qed

lemma power_mono_level:
  fixes m :: rat
  assumes "1 \<le> m" and "a \<le> b"
  shows "(if 0 < a then s * m ^ nat a else s) \<le> (if 0 < b then s * m ^ nat b else s) \<or> s < 0"
proof (cases "0 \<le> s")
  case True
  have "m ^ nat a \<le> m ^ nat b" using assms by (intro power_increasing) auto
  moreover have "1 \<le> m ^ nat b" using assms(1) by (rule one_le_power)
  ultimately show ?thesis
    using True assms(2) mult_left_mono [of "m ^ nat a" "m ^ nat b" s] mult_left_mono [of 1 "m ^ nat b" s]
    by auto
qed simp

lemma cooldown_mono:
  assumes "a \<le> b"
  shows "cooldownMillis c a \<le> cooldownMillis c b"
proof -
  let ?s = "rat_of_int (max (MemberCooldownSeconds c) 1)"
  let ?m = "max (CooldownBackoffMultiplier c) 1"
  let ?x = "\<lambda>l. if 0 < l then ?s * ?m ^ nat l else ?s"
  have le: "?x a \<le> ?x b" using power_mono_level [of ?m a b ?s] assms by force
  have "\<lfloor>(if k \<and> l < x then l else x) * 1000\<rfloor> \<le> \<lfloor>(if k \<and> l < y then l else y) * 1000\<rfloor>"
    if "x \<le> y" for x y l :: rat and k
    using that by (intro floor_mono mult_right_mono) auto
  from this [OF le] show ?thesis unfolding cooldownMillis_def Let_def .
qed

text \<open>
  Exponential backoff (\<^verbatim>\<open>cooldownMillis\<close>). For a normalised configuration a cooldown lasts
  at least one second and at most the configured ceiling, whatever the level (so converting it to
  \<^verbatim>\<open>int64\<close> is exact for every ceiling an \<^verbatim>\<open>int64\<close> of milliseconds can hold), and a higher level
  never gives a shorter cooldown.
\<close>

lemma cooldown_bounds:
  assumes "valid_config c" and "level \<le> level'"
  shows "1000 \<le> cooldownMillis c level \<and> cooldownMillis c level \<le> CooldownMaxSeconds c * 1000 \<and>
    cooldownMillis c level \<le> cooldownMillis c level'"
  using assms cooldown_ge_second cooldown_le_ceiling cooldown_mono by (simp add: valid_config_def)

subsection \<open>Emergency slots\<close>

definition counts_ok :: "(int, int) gomap \<Rightarrow> bool" where
  "counts_ok m \<longleftrightarrow> mwf m \<and> (\<forall>(k, v) \<in> set m. 0 < k \<and> 0 < v)"

definition emergency_ok :: "RouteState \<Rightarrow> bool" where
  "emergency_ok r \<longleftrightarrow> counts_ok (rs_emergencyCounts r) \<and>
     rs_EmergencyActive r = msum (rs_emergencyCounts r) \<and>
     rs_EmergencyActive r \<le> emergencyMaxConcurrent \<and>
     (if rs_emergencyCounts r = [] then rs_EmergencyItemID r = 0
      else mhas (rs_emergencyCounts r) (rs_EmergencyItemID r))"

definition maps_ok :: "RouteState \<Rightarrow> bool" where
  "maps_ok r \<longleftrightarrow> mwf (rs_Cooldowns r) \<and> mwf (rs_Levels r) \<and> mwf (rs_HalfOpens r) \<and>
     mwf (rs_PostCommitStrikes r) \<and> mwf (rs_emergencyBlocks r)"

lemma counts_ok_nonneg: "counts_ok m \<Longrightarrow> \<forall>v \<in> snd ` set m. 0 \<le> v"
  by (fastforce simp: counts_ok_def)

lemma counts_ok_pos: "counts_ok m \<Longrightarrow> m \<noteq> [] \<Longrightarrow> 0 < msum m"
  by (rule msum_pos) (fastforce simp: counts_ok_def)+

lemma counts_ok_keep: "counts_ok m \<Longrightarrow> counts_ok (mkeep P m)"
  using mkeep_subset [of P m] by (auto simp: counts_ok_def)

lemma counts_ok_del: "counts_ok m \<Longrightarrow> counts_ok (mdel k m)"
  using set_mdel_subset [of k m] by (auto simp: counts_ok_def)

lemma counts_ok_put: "counts_ok m \<Longrightarrow> 0 < k \<Longrightarrow> 0 < v \<Longrightarrow> counts_ok (mput k v m)"
  using set_mput_subset [of k v m] by (auto simp: counts_ok_def)

lemma counts_ok_has: "counts_ok m \<Longrightarrow> mhas m k \<longleftrightarrow> 0 < mget0 m k"
  using mget0_in_set [of m k] mget0_pos_has [of m k] by (auto simp: counts_ok_def)

lemma counts_ok_key_pos: "counts_ok m \<Longrightarrow> 0 < mget0 m k \<Longrightarrow> 0 < k"
  using mget0_in_set [of m k] mget0_pos_has [of m k] by (auto simp: counts_ok_def)

lemma sync_emergency_ok:
  assumes "counts_ok (rs_emergencyCounts r)" and "msum (rs_emergencyCounts r) \<le> emergencyMaxConcurrent"
  shows "emergency_ok (syncEmergencySummaryLocked r)"
proof (cases "rs_emergencyCounts r")
  case Nil
  then show ?thesis
    by (simp add: syncEmergencySummaryLocked_def emergency_ok_def counts_ok_def emergencyMaxConcurrent_def)
next
  case (Cons p rest)
  then have "0 < msum (rs_emergencyCounts r)" using counts_ok_pos [OF assms(1)] by simp
  moreover have "mhas (rs_emergencyCounts r) (fst p)" by (simp add: Cons mhas_keys)
  ultimately show ?thesis
    using assms Cons mget0_pos_has [of "rs_emergencyCounts r" "rs_EmergencyItemID r"]
    by (cases p) (auto simp: syncEmergencySummaryLocked_def emergency_ok_def Let_def)
qed

lemma emergency_ok_counts:
  "emergency_ok r \<Longrightarrow> counts_ok (rs_emergencyCounts r) \<and> msum (rs_emergencyCounts r) \<le> emergencyMaxConcurrent"
  by (simp add: emergency_ok_def)

lemma emergency_ok_summary:
  assumes "emergency_ok r"
  shows "rs_EmergencyActive r = msum (rs_emergencyCounts r) \<and> 0 \<le> rs_EmergencyActive r \<and>
    rs_EmergencyActive r \<le> 3 \<and> (rs_EmergencyItemID r = 0 \<longleftrightarrow> rs_EmergencyActive r = 0) \<and>
    (rs_EmergencyItemID r \<noteq> 0 \<longrightarrow> emergencyHeldLocked r (rs_EmergencyItemID r))"
proof (cases "rs_emergencyCounts r = []")
  case True
  with assms show ?thesis by (simp add: emergency_ok_def emergencyMaxConcurrent_def)
next
  case False
  have c: "counts_ok (rs_emergencyCounts r)" using assms by (simp add: emergency_ok_def)
  have "0 < mget0 (rs_emergencyCounts r) (rs_EmergencyItemID r)"
    using assms False counts_ok_has [OF c] by (simp add: emergency_ok_def)
  moreover have "0 < rs_EmergencyItemID r" using calculation counts_ok_key_pos [OF c] by simp
  ultimately show ?thesis
    using assms False counts_ok_pos [OF c]
    by (simp add: emergency_ok_def emergencyMaxConcurrent_def emergencyHeldLocked_def)
qed

lemma sync_other_fields [simp]:
  "rs_Cooldowns (syncEmergencySummaryLocked r) = rs_Cooldowns r"
  "rs_Levels (syncEmergencySummaryLocked r) = rs_Levels r"
  "rs_HalfOpens (syncEmergencySummaryLocked r) = rs_HalfOpens r"
  "rs_PostCommitStrikes (syncEmergencySummaryLocked r) = rs_PostCommitStrikes r"
  "rs_emergencyBlocks (syncEmergencySummaryLocked r) = rs_emergencyBlocks r"
  "rs_emergencyCounts (syncEmergencySummaryLocked r) = rs_emergencyCounts r"
  "rs_CurrentItemID (syncEmergencySummaryLocked r) = rs_CurrentItemID r"
  "rs_ProbeItemID (syncEmergencySummaryLocked r) = rs_ProbeItemID r"
  "rs_AffinityUntil (syncEmergencySummaryLocked r) = rs_AffinityUntil r"
  "rs_affinityArmed (syncEmergencySummaryLocked r) = rs_affinityArmed r"
  by (simp_all add: syncEmergencySummaryLocked_def Let_def)

lemma release_emergency_ok:
  assumes "emergency_ok r"
  shows "emergency_ok (snd (releaseEmergencyLocked r itemID))"
proof (cases "mget0 (rs_emergencyCounts r) itemID \<le> 0")
  case True
  with assms show ?thesis by (simp add: releaseEmergencyLocked_def)
next
  case False
  note c = emergency_ok_counts [OF assms]
  let ?m = "rs_emergencyCounts r" and ?n = "mget0 (rs_emergencyCounts r) itemID - 1"
  let ?m' = "if ?n \<le> 0 then mdel itemID ?m else mput itemID ?n ?m"
  have "mwf ?m" using c by (simp add: counts_ok_def)
  then have "msum ?m' \<le> emergencyMaxConcurrent"
    using c False by (simp add: msum_mdel msum_mput)
  moreover have "counts_ok ?m'"
    using c False counts_ok_key_pos [of ?m itemID] by (simp add: counts_ok_del counts_ok_put)
  ultimately show ?thesis
    using False sync_emergency_ok [of "r\<lparr>rs_emergencyCounts := ?m'\<rparr>"]
    by (simp add: releaseEmergencyLocked_def Let_def)
qed

lemma release_other_fields [simp]:
  "rs_Cooldowns (snd (releaseEmergencyLocked r i)) = rs_Cooldowns r"
  "rs_Levels (snd (releaseEmergencyLocked r i)) = rs_Levels r"
  "rs_HalfOpens (snd (releaseEmergencyLocked r i)) = rs_HalfOpens r"
  "rs_PostCommitStrikes (snd (releaseEmergencyLocked r i)) = rs_PostCommitStrikes r"
  "rs_emergencyBlocks (snd (releaseEmergencyLocked r i)) = rs_emergencyBlocks r"
  "rs_CurrentItemID (snd (releaseEmergencyLocked r i)) = rs_CurrentItemID r"
  "rs_ProbeItemID (snd (releaseEmergencyLocked r i)) = rs_ProbeItemID r"
  "rs_AffinityUntil (snd (releaseEmergencyLocked r i)) = rs_AffinityUntil r"
  "rs_affinityArmed (snd (releaseEmergencyLocked r i)) = rs_affinityArmed r"
  by (simp_all add: releaseEmergencyLocked_def Let_def)

lemma claim_emergency_ok:
  assumes "emergency_ok r" and "claimEmergencyLocked env r g exclude skipped now = (item, r', pub)"
  shows "emergency_ok r'"
proof (cases pub)
  case False
  with assms show ?thesis by (auto simp: claimEmergencyLocked_def Let_def split: if_splits)
next
  case True
  let ?id = "EmergencyItemID (g_RelayConfig g)" and ?m = "rs_emergencyCounts r"
  have pos: "0 < ?id" and lt: "rs_EmergencyActive r < emergencyMaxConcurrent"
    and r': "r' = syncEmergencySummaryLocked (r\<lparr>rs_emergencyCounts := mput ?id (mget0 ?m ?id + 1) ?m\<rparr>)"
    using assms(2) True by (auto simp: claimEmergencyLocked_def Let_def split: if_splits)
  have "0 \<le> mget0 ?m ?id"
    using assms(1) mget0_in_set [of ?m ?id] mget0_not_has [of ?m ?id]
    by (cases "mhas ?m ?id") (auto simp: emergency_ok_def counts_ok_def)
  with assms(1) pos lt show ?thesis
    unfolding r' by (intro sync_emergency_ok) (auto simp: emergency_ok_def msum_mput intro: counts_ok_put)
qed

text \<open>The invariant of one route and its frame: updates of the other fields keep it.\<close>

definition route_ok :: "RouteState \<Rightarrow> bool" where
  "route_ok r \<longleftrightarrow> maps_ok r \<and> emergency_ok r"

lemma emergency_ok_frame:
  "rs_emergencyCounts r' = rs_emergencyCounts r \<Longrightarrow> rs_EmergencyActive r' = rs_EmergencyActive r \<Longrightarrow>
   rs_EmergencyItemID r' = rs_EmergencyItemID r \<Longrightarrow> emergency_ok r' = emergency_ok r"
  by (simp add: emergency_ok_def)

lemma route_ok_fresh [simp, intro]: "route_ok (fresh_route gid)"
  by (simp add: route_ok_def maps_ok_def emergency_ok_def counts_ok_def fresh_route_def
      emergencyMaxConcurrent_def)

lemma release_route_ok: "route_ok r \<Longrightarrow> route_ok (snd (releaseEmergencyLocked r i))"
  by (simp add: route_ok_def release_emergency_ok maps_ok_def)

lemma prune_route_ok [invariant_intros]: "route_ok r \<Longrightarrow> route_ok (prune_route g r)"
proof -
  assume ok: "route_ok r"
  let ?live = "\<lambda>k (v :: int). k \<in> set (map it_ID (g_Items g))"
  let ?r = "r\<lparr>rs_Cooldowns := mkeep ?live (rs_Cooldowns r), rs_Levels := mkeep ?live (rs_Levels r),
      rs_HalfOpens := mkeep ?live (rs_HalfOpens r),
      rs_PostCommitStrikes := mkeep ?live (rs_PostCommitStrikes r),
      rs_emergencyCounts := mkeep ?live (rs_emergencyCounts r),
      rs_emergencyBlocks := mkeep ?live (rs_emergencyBlocks r)\<rparr>"
  have c: "counts_ok (rs_emergencyCounts r)" "msum (rs_emergencyCounts r) \<le> emergencyMaxConcurrent"
    using ok emergency_ok_counts by (auto simp: route_ok_def)
  then have "msum (mkeep ?live (rs_emergencyCounts r)) \<le> emergencyMaxConcurrent"
    using msum_mkeep_le [OF counts_ok_nonneg [OF c(1)]] order_trans by blast
  then have "emergency_ok (syncEmergencySummaryLocked ?r)"
    using c(1) by (intro sync_emergency_ok) (simp_all add: counts_ok_keep)
  with ok show ?thesis
    by (auto simp: prune_route_def Let_def route_ok_def maps_ok_def emergency_ok_def)
qed

lemma clear_strikes_ok: "route_ok r \<Longrightarrow> route_ok (fst (clearStrikes_route i r))"
  by (simp add: clearStrikes_route_def route_ok_def maps_ok_def emergency_ok_def)

lemma confirm_probe_ok: "route_ok r \<Longrightarrow> route_ok (fst (confirmProbe_route i now r))"
  by (simp add: confirmProbe_route_def Let_def restoreItemLocked_def route_ok_def maps_ok_def
      emergency_ok_def)

lemma settle_success_ok: "route_ok r \<Longrightarrow> route_ok (fst (settleSuccess_route config i now held r))"
  using release_route_ok [of r i]
  by (simp add: settleSuccess_route_def Let_def case_prod_unfold)
    (simp add: route_ok_def maps_ok_def emergency_ok_def)

lemma success_route_ok [invariant_intros]:
  "route_ok r \<Longrightarrow> route_ok (fst (recordRouteSuccess_route config itemID now r))"
  by (simp add: recordRouteSuccess_route_def case_prod_unfold clear_strikes_ok confirm_probe_ok
      settle_success_ok)

lemma drop_current_ok: "route_ok (drop_current i r) = route_ok r"
  by (simp add: drop_current_def route_ok_def maps_ok_def emergency_ok_def)

lemma postcommit_route_ok [invariant_intros]:
  "route_ok r \<Longrightarrow> route_ok (fst (snd (recordPostCommitFailure_route config itemID now r)))"
  by (auto simp: recordPostCommitFailure_route_def Let_def drop_current_ok)
    (auto simp: route_ok_def maps_ok_def emergency_ok_def)

lemma fail_probed_ok: "route_ok r \<Longrightarrow> route_ok (failProbed_route config i failures threshold now r)"
  unfolding failProbed_route_def Let_def
  by (rule release_route_ok, unfold drop_current_ok) (simp add: route_ok_def maps_ok_def emergency_ok_def)

lemma open_member_ok: "route_ok r \<Longrightarrow> route_ok (openMember_route config i now r)"
  unfolding openMember_route_def Let_def
  by (rule release_route_ok, unfold drop_current_ok) (simp add: route_ok_def maps_ok_def emergency_ok_def)

lemma failure_route_ok [invariant_intros]:
  "route_ok r \<Longrightarrow> route_ok (fst (snd (recordRouteFailure_route config itemID failures threshold now r)))"
  by (simp add: recordRouteFailure_route_def case_prod_unfold fail_probed_ok open_member_ok release_route_ok)

lemma release_probe_route_ok [invariant_intros]:
  "route_ok r \<Longrightarrow> route_ok (fst (releaseRouteProbe_route itemID r))"
  unfolding releaseRouteProbe_route_def Let_def
  by (auto simp: case_prod_unfold intro!: release_route_ok)
    (auto simp: route_ok_def maps_ok_def emergency_ok_def)

lemma claim_half_open_ok [invariant_intros]:
  "route_ok r \<Longrightarrow> route_ok (snd (claimHalfOpenLocked r i now))"
  by (auto simp: claimHalfOpenLocked_def route_ok_def maps_ok_def emergency_ok_def split: option.splits)

lemma claim_half_opens_ok [invariant_intros]:
  "route_ok r \<Longrightarrow> route_ok (snd (claimHalfOpens items now r))"
proof (induction items arbitrary: r)
  case (Cons item items)
  then show ?case using claim_half_open_ok [OF Cons.prems, of "it_ID item" now]
    by (simp add: case_prod_unfold)
qed simp

lemma restore_ok [invariant_intros]: "route_ok r \<Longrightarrow> route_ok (restoreItemLocked r i)"
  by (simp add: restoreItemLocked_def route_ok_def maps_ok_def emergency_ok_def)

lemma reopen_ok [invariant_intros]: "route_ok r \<Longrightarrow> route_ok (reopenItemLocked r config i now)"
  by (simp add: reopenItemLocked_def Let_def route_ok_def maps_ok_def emergency_ok_def)

subsection \<open>The breaker\<close>

definition breaker_ok :: "RouteState \<Rightarrow> bool" where
  "breaker_ok r \<longleftrightarrow>
     (rs_CurrentItemID r \<noteq> 0 \<longrightarrow> \<not> mhas (rs_Cooldowns r) (rs_CurrentItemID r)) \<and>
     (\<forall>k. mhas (rs_HalfOpens r) k \<longrightarrow> mhas (rs_Cooldowns r) k)"

lemma mhas_mkeep_key: "mhas (mkeep (\<lambda>k v. Q k) m) k \<longleftrightarrow> Q k \<and> mhas m k"
  by (auto simp: mhas_keys mkeep_def)

lemma breaker_ok_fresh [simp, intro]: "breaker_ok (fresh_route gid)"
  by (simp add: breaker_ok_def fresh_route_def)

lemma breaker_ok_release [simp]: "breaker_ok (snd (releaseEmergencyLocked r i)) = breaker_ok r"
  by (simp add: breaker_ok_def)

lemma breaker_ok_sync [simp]: "breaker_ok (syncEmergencySummaryLocked r) = breaker_ok r"
  by (simp add: breaker_ok_def)

lemma prune_breaker_ok: "breaker_ok r \<Longrightarrow> breaker_ok (prune_route g r)"
  by (auto simp: prune_route_def Let_def breaker_ok_def mhas_mkeep_key)

lemma clear_strikes_breaker [simp]: "breaker_ok (fst (clearStrikes_route i r)) = breaker_ok r"
  by (simp add: clearStrikes_route_def breaker_ok_def)

lemma confirm_probe_breaker: "breaker_ok r \<Longrightarrow> breaker_ok (fst (confirmProbe_route i now r))"
  by (simp add: confirmProbe_route_def Let_def restoreItemLocked_def breaker_ok_def)

lemma settle_success_breaker [simp]:
  "breaker_ok (fst (settleSuccess_route config i now held r)) = breaker_ok r"
  by (simp add: settleSuccess_route_def Let_def case_prod_unfold breaker_ok_def)

lemma success_breaker_ok:
  "breaker_ok r \<Longrightarrow> breaker_ok (fst (recordRouteSuccess_route config itemID now r))"
  by (simp add: recordRouteSuccess_route_def case_prod_unfold confirm_probe_breaker)

lemma postcommit_breaker_ok:
  "breaker_ok r \<Longrightarrow> breaker_ok (fst (snd (recordPostCommitFailure_route config itemID now r)))"
  by (auto simp: recordPostCommitFailure_route_def Let_def breaker_ok_def drop_current_def)

lemma fail_probed_breaker:
  "breaker_ok r \<Longrightarrow> breaker_ok (failProbed_route config i failures threshold now r)"
  unfolding failProbed_route_def Let_def breaker_ok_release
  by (auto simp: breaker_ok_def drop_current_def)

lemma open_member_breaker: "breaker_ok r \<Longrightarrow> breaker_ok (openMember_route config i now r)"
  unfolding openMember_route_def Let_def breaker_ok_release
  by (auto simp: breaker_ok_def drop_current_def)

lemma failure_breaker_ok:
  "breaker_ok r \<Longrightarrow> breaker_ok (fst (snd (recordRouteFailure_route config itemID failures threshold now r)))"
  by (simp add: recordRouteFailure_route_def case_prod_unfold fail_probed_breaker open_member_breaker)

lemma release_probe_breaker_ok:
  "breaker_ok r \<Longrightarrow> breaker_ok (fst (releaseRouteProbe_route itemID r))"
  by (auto simp: releaseRouteProbe_route_def Let_def case_prod_unfold breaker_ok_def)

lemma claim_half_open_breaker_ok: "breaker_ok r \<Longrightarrow> breaker_ok (snd (claimHalfOpenLocked r i now))"
  by (auto simp: claimHalfOpenLocked_def breaker_ok_def mhas_def split: option.splits)

lemma claim_half_opens_breaker_ok: "breaker_ok r \<Longrightarrow> breaker_ok (snd (claimHalfOpens items now r))"
proof (induction items arbitrary: r)
  case (Cons item items)
  then show ?case using claim_half_open_breaker_ok [OF Cons.prems, of "it_ID item" now]
    by (simp add: case_prod_unfold)
qed simp

lemma restore_breaker_ok: "breaker_ok r \<Longrightarrow> breaker_ok (restoreItemLocked r i)"
  by (simp add: restoreItemLocked_def breaker_ok_def)

text \<open>Re-opening keeps the invariant when the member is still HALF-OPEN.\<close>

lemma reopen_breaker_ok:
  "breaker_ok r \<Longrightarrow> mhas (rs_HalfOpens r) i \<Longrightarrow> breaker_ok (reopenItemLocked r config i now)"
  by (auto simp: reopenItemLocked_def Let_def breaker_ok_def)

subsection \<open>State transitions of one member\<close>

text \<open>The states of a member, as the code tells them apart at time \<open>now\<close>; \<open>EXPIRED\<close> is a cooldown
  that has run out and waits for a probe.\<close>

datatype breaker_state = CLOSED | OPEN | EXPIRED | HALF_OPEN

fun state_of :: "int option \<Rightarrow> int \<Rightarrow> int \<Rightarrow> breaker_state" where
  "state_of None halfOpen now = CLOSED"
| "state_of (Some deadline) halfOpen now =
    (if 0 < halfOpen then HALF_OPEN else if now < deadline then OPEN else EXPIRED)"

definition member_state :: "RouteState \<Rightarrow> int \<Rightarrow> int \<Rightarrow> breaker_state" where
  "member_state r now i = state_of (map_of (rs_Cooldowns r) i) (mget0 (rs_HalfOpens r) i) now"

lemma release_member_state [simp]:
  "member_state (snd (releaseEmergencyLocked r i)) now j = member_state r now j"
  by (simp add: member_state_def)

lemma drop_current_member_state [simp]: "member_state (drop_current i r) now j = member_state r now j"
  by (simp add: drop_current_def member_state_def)

lemma success_member_state:
  "member_state (fst (recordRouteSuccess_route config i t r)) now j =
    (if j = i \<and> (rs_ProbeItemID r = i \<or> 0 < mget0 (rs_HalfOpens r) i) then CLOSED else member_state r now j)"
proof -
  let ?r1 = "fst (clearStrikes_route i r)"
  let ?r2 = "fst (confirmProbe_route i t ?r1)"
  have 1: "member_state ?r1 now j = member_state r now j" "rs_ProbeItemID ?r1 = rs_ProbeItemID r"
    "rs_HalfOpens ?r1 = rs_HalfOpens r"
    by (simp_all add: clearStrikes_route_def member_state_def)
  have 2: "member_state ?r2 now j =
      (if j = i \<and> (rs_ProbeItemID r = i \<or> 0 < mget0 (rs_HalfOpens r) i) then CLOSED else member_state ?r1 now j)"
    using 1 by (simp add: confirmProbe_route_def Let_def restoreItemLocked_def member_state_def)
  have 3: "member_state (fst (settleSuccess_route config i t held r')) now j = member_state r' now j" for held r'
    by (simp add: settleSuccess_route_def Let_def case_prod_unfold)
      (simp add: member_state_def)
  show ?thesis
    unfolding recordRouteSuccess_route_def case_prod_unfold fst_conv 3 2 1 ..
qed

lemma failure_member_state:
  assumes "valid_config config" and "recordRouteFailure_route config i failures threshold now r = (res, r', pub)"
  shows "member_state r' now j =
    (if j \<noteq> i then member_state r now j
     else if rs_ProbeItemID r = i \<or> 0 < mget0 (rs_HalfOpens r) i
     then (if threshold \<le> failures then OPEN else CLOSED)
     else if failures < threshold then member_state r now i else OPEN)"
proof -
  have pos: "0 < cooldownMillis config level" for level
    using cooldown_ge_second [of config level] assms(1) by (simp add: valid_config_def)
  have p: "member_state (failProbed_route config i failures threshold now r) now j =
      (if j \<noteq> i then member_state r now j else if threshold \<le> failures then OPEN else CLOSED)"
    using pos unfolding failProbed_route_def Let_def release_member_state drop_current_member_state
    by (simp add: member_state_def)
  have o: "member_state (openMember_route config i now r) now j =
      (if j \<noteq> i then member_state r now j else OPEN)" if "\<not> 0 < mget0 (rs_HalfOpens r) i"
    using pos that unfolding openMember_route_def Let_def release_member_state drop_current_member_state
    by (simp add: member_state_def)
  show ?thesis
    using assms(2) p o by (auto simp: recordRouteFailure_route_def case_prod_unfold split: if_splits)
qed

end
