(* ===== verification/Session_Sticky.thy ===== *)
theory Session_Sticky
  imports Route_Breaker
begin

text \<open>
  \<^verbatim>\<open>internal/relay/sticky.go\<close>: session stickiness. Per group, a table maps a session key to the
  member its requests go to, with a sliding expiry; the number of entries is bounded per group
  and over all groups. The tables are part of the world guarded by \<^verbatim>\<open>routeMu\<close>.
\<close>

definition maxSessionStickiesPerGroup :: nat where
  "maxSessionStickiesPerGroup = 4096"

definition maxSessionStickiesTotal :: nat where
  "maxSessionStickiesTotal = 16384"

definition maxSessionKeyBytes :: nat where
  "maxSessionKeyBytes = 256"

definition maxStickyKeyBytes :: nat where
  "maxStickyKeyBytes = 512"

definition consoleSessionPrefix :: string where
  "consoleSessionPrefix = ''console:''"

definition stickyPruneInterval :: int where
  "stickyPruneInterval = 60 * 1000"

definition sessionScopeKey :: "int \<Rightarrow> string \<Rightarrow> string" where
  "sessionScopeKey apiKeyID sessionKey =
    (if sessionKey = [] \<or> maxSessionKeyBytes < length sessionKey then []
     else if 0 < apiKeyID then Itoa apiKeyID @ '':'' @ sessionKey
     else consoleSessionPrefix @ sessionKey)"

definition sessionStickyEnabled :: "Group \<Rightarrow> string \<Rightarrow> bool" where
  "sessionStickyEnabled g sessionKey \<longleftrightarrow>
     g_Mode g = GroupModeFailover \<and> SessionStickyEnabled (g_RelayConfig g) \<and> sessionKey \<noteq> []"

definition itemExcluded :: "GroupItem \<Rightarrow> int \<Rightarrow> int list \<Rightarrow> bool" where
  "itemExcluded item exclude skipped \<longleftrightarrow> it_ID item = exclude \<or> it_ID item \<in> set skipped"

type_synonym sessions = "(string, stickyEntry) gomap"
type_synonym stickies = "(int, sessions) gomap"

definition sessions_of :: "int \<Rightarrow> stickies \<Rightarrow> sessions" where
  "sessions_of gid st = (case map_of st gid of None \<Rightarrow> [] | Some ss \<Rightarrow> ss)"

text \<open>Storing a group's table back; an empty table is removed from the outer map.\<close>

definition store_sessions :: "int \<Rightarrow> sessions \<Rightarrow> stickies \<Rightarrow> stickies" where
  "store_sessions gid ss st = (if ss = [] then mdel gid st else mput gid ss st)"

definition sticky_entry_valid ::
  "route_env \<Rightarrow> Group \<Rightarrow> stickyEntry \<Rightarrow> int \<Rightarrow> int list \<Rightarrow> int \<Rightarrow> relay_world \<Rightarrow> bool" where
  "sticky_entry_valid env g entry exclude skipped now w =
    (let item = itemOf g (se_ItemID entry) in
     now < se_ExpireAtUnixMilli entry \<and> it_ID item \<noteq> 0 \<and> \<not> itemExcluded item exclude skipped \<and>
     (case map_of (rw_routes w) (g_ID g) of
        None \<Rightarrow> True
      | Some r \<Rightarrow> \<not> (mhas (rs_Cooldowns r) (it_ID item) \<and> now < mget0 (rs_Cooldowns r) (it_ID item))) \<and>
     \<not> channelDisabledForRouting env now item)"

definition pickSessionStickyLocked ::
  "route_env \<Rightarrow> Group \<Rightarrow> string \<Rightarrow> int \<Rightarrow> int list \<Rightarrow> int \<Rightarrow> relay_world \<Rightarrow> GroupItem \<times> relay_world" where
  "pickSessionStickyLocked env g sessionKey exclude skipped now w =
    (let ss = sessions_of (g_ID g) (rw_stickies w) in
     case map_of ss sessionKey of
       None \<Rightarrow> (zero_GroupItem, w)
     | Some entry \<Rightarrow>
         if sticky_entry_valid env g entry exclude skipped now w then (itemOf g (se_ItemID entry), w)
         else (zero_GroupItem,
               w\<lparr>rw_stickies := store_sessions (g_ID g) (mdel sessionKey ss) (rw_stickies w)\<rparr>))"

definition sessionStickyTotalLocked :: "stickies \<Rightarrow> nat" where
  "sessionStickyTotalLocked st = sum_list (map (length \<circ> snd) st)"

definition stickyFullLocked :: "sessions \<Rightarrow> stickies \<Rightarrow> bool" where
  "stickyFullLocked ss st \<longleftrightarrow>
     maxSessionStickiesPerGroup \<le> length ss \<or> maxSessionStickiesTotal \<le> sessionStickyTotalLocked st"

text \<open>Every table filtered; tables that become empty are removed.\<close>

definition keep_sessions :: "(stickyEntry \<Rightarrow> bool) \<Rightarrow> stickies \<Rightarrow> stickies" where
  "keep_sessions P st =
    filter (\<lambda>(gid, ss). ss \<noteq> []) (map (\<lambda>(gid, ss). (gid, mkeep (\<lambda>k e. P e) ss)) st)"

definition pruneAllSessionStickiesLocked :: "int \<Rightarrow> stickies \<Rightarrow> stickies" where
  "pruneAllSessionStickiesLocked now st = keep_sessions (\<lambda>e. now < se_ExpireAtUnixMilli e) st"

definition PruneExpiredSessionStickies :: "int \<Rightarrow> relay_world \<Rightarrow> nat \<times> relay_world" where
  "PruneExpiredSessionStickies now w =
    (let st = keep_sessions (\<lambda>e. now < se_ExpireAtUnixMilli e) (rw_stickies w)
     in (sessionStickyTotalLocked (rw_stickies w) - sessionStickyTotalLocked st, w\<lparr>rw_stickies := st\<rparr>))"

definition pruneSessionStickyLocked :: "Group \<Rightarrow> int \<Rightarrow> stickies \<Rightarrow> stickies" where
  "pruneSessionStickyLocked g now st =
    (case map_of st (g_ID g) of
       None \<Rightarrow> st
     | Some ss \<Rightarrow>
         store_sessions (g_ID g)
           (mkeep (\<lambda>k e. \<not> (se_ExpireAtUnixMilli e \<le> now \<or> se_ItemID e \<notin> set (map it_ID (g_Items g)))) ss) st)"

definition bindSessionSticky :: "Group \<Rightarrow> string \<Rightarrow> int \<Rightarrow> int \<Rightarrow> relay_world \<Rightarrow> relay_world" where
  "bindSessionSticky g sessionKey itemID now w =
    (if sessionKey = [] \<or> itemID = 0 \<or> SessionStickySeconds (g_RelayConfig g) < 1 \<or>
        maxStickyKeyBytes < length sessionKey then w
     else
       let w1 = (if stickyPruneInterval \<le> now - rw_stickyLastPrune w
                 then w\<lparr>rw_stickyLastPrune := now,
                        rw_stickies := pruneSessionStickyLocked g now (rw_stickies w)\<rparr> else w);
           full = (\<lambda>st. \<not> mhas (sessions_of (g_ID g) st) sessionKey \<and>
                        stickyFullLocked (sessions_of (g_ID g) st) st);
           w2 = (if full (rw_stickies w1)
                 then w1\<lparr>rw_stickies := pruneAllSessionStickiesLocked now
                          (pruneSessionStickyLocked g now (rw_stickies w1))\<rparr> else w1)
       in if full (rw_stickies w1) \<and> full (rw_stickies w2) then w2
          else w2\<lparr>rw_stickies := mput (g_ID g)
                 (mput sessionKey
                   \<lparr>se_ItemID = itemID,
                    se_ExpireAtUnixMilli = now + SessionStickySeconds (g_RelayConfig g) * 1000\<rparr>
                   (sessions_of (g_ID g) (rw_stickies w2)))
                 (rw_stickies w2)\<rparr>)"

definition clearSessionStickyByItem :: "int \<Rightarrow> int \<Rightarrow> relay_world \<Rightarrow> relay_world" where
  "clearSessionStickyByItem gid itemID w =
    w\<lparr>rw_stickies := store_sessions gid
        (mkeep (\<lambda>k e. se_ItemID e \<noteq> itemID) (sessions_of gid (rw_stickies w))) (rw_stickies w)\<rparr>"

definition clearSessionStickyByGroup :: "int \<Rightarrow> relay_world \<Rightarrow> relay_world" where
  "clearSessionStickyByGroup gid w = w\<lparr>rw_stickies := mdel gid (rw_stickies w)\<rparr>"

definition RemoveGroupRoute :: "int \<Rightarrow> relay_world \<Rightarrow> relay_world" where
  "RemoveGroupRoute gid w =
    clearSessionStickyByGroup gid (w\<lparr>rw_routes := mdel gid (rw_routes w)\<rparr>)"

subsection \<open>Bounded tables\<close>

definition sticky_ok :: "stickies \<Rightarrow> bool" where
  "sticky_ok st \<longleftrightarrow> mwf st \<and>
     (\<forall>(gid, ss) \<in> set st. mwf ss \<and> ss \<noteq> [] \<and> length ss \<le> maxSessionStickiesPerGroup) \<and>
     sessionStickyTotalLocked st \<le> maxSessionStickiesTotal"

lemma total_mput:
  "sessionStickyTotalLocked (mput gid ss st) + length (sessions_of gid st)
    = sessionStickyTotalLocked st + length ss"
  by (induction st) (auto simp: sessionStickyTotalLocked_def sessions_of_def)

lemma total_mdel_le: "sessionStickyTotalLocked (mdel gid st) \<le> sessionStickyTotalLocked st"
  by (induction st) (auto simp: sessionStickyTotalLocked_def)

lemma total_sub: "mwf st \<Longrightarrow> length (sessions_of gid st) \<le> sessionStickyTotalLocked st"
  by (induction st) (auto simp: sessionStickyTotalLocked_def sessions_of_def mwf_def)

lemma sessions_of_ok:
  "sticky_ok st \<Longrightarrow> mwf (sessions_of gid st) \<and> length (sessions_of gid st) \<le> maxSessionStickiesPerGroup"
  by (auto simp: sticky_ok_def sessions_of_def split: option.splits dest: map_of_SomeD)

lemma store_sessions_ok:
  assumes "sticky_ok st" and "mwf ss" and "length ss \<le> length (sessions_of gid st)"
  shows "sticky_ok (store_sessions gid ss st)"
proof (cases "ss = []")
  case True
  with assms(1) set_mdel_subset [of gid st] total_mdel_le [of gid st] show ?thesis
    by (fastforce simp: store_sessions_def sticky_ok_def)
next
  case False
  have "sessionStickyTotalLocked (mput gid ss st) \<le> sessionStickyTotalLocked st"
    using total_mput [of gid ss st] assms(3) by linarith
  moreover have "length ss \<le> maxSessionStickiesPerGroup"
    using assms sessions_of_ok [OF assms(1), of gid] by linarith
  ultimately show ?thesis
    using assms False set_mput_subset [of gid ss st]
    by (fastforce simp: store_sessions_def sticky_ok_def)
qed

lemma mput_sessions_ok:
  assumes "sticky_ok st" and "mwf ss" and "ss \<noteq> []" and "length ss \<le> maxSessionStickiesPerGroup"
    and "sessionStickyTotalLocked st + length ss \<le> maxSessionStickiesTotal + length (sessions_of gid st)"
  shows "sticky_ok (mput gid ss st)"
proof -
  have "sessionStickyTotalLocked (mput gid ss st) \<le> maxSessionStickiesTotal"
    using total_mput [of gid ss st] assms(5) by linarith
  with assms set_mput_subset [of gid ss st] show ?thesis by (fastforce simp: sticky_ok_def)
qed

lemma keep_sessions_ok: "sticky_ok st \<Longrightarrow> sticky_ok (keep_sessions P st)"
proof -
  assume ok: "sticky_ok st"
  have "sessionStickyTotalLocked (keep_sessions P st) \<le> sessionStickyTotalLocked st" for st :: stickies
  proof (induction st)
    case (Cons p st)
    have "length (mkeep (\<lambda>k. P) (snd p)) \<le> length (snd p)" by (rule length_mkeep_le)
    with Cons show ?case
      by (cases p) (auto simp: sessionStickyTotalLocked_def keep_sessions_def)
  qed (simp add: keep_sessions_def)
  from this [of st] have "sessionStickyTotalLocked (keep_sessions P st) \<le> maxSessionStickiesTotal"
    using ok by (simp add: sticky_ok_def)
  moreover have "mwf (keep_sessions P st)"
    using mwf_mkeep [of "map (\<lambda>(gid, ss). (gid, mkeep (\<lambda>k. P) ss)) st" "\<lambda>gid ss. ss \<noteq> []"] ok
    by (simp add: keep_sessions_def mkeep_def [of "\<lambda>gid ss. ss \<noteq> []"] sticky_ok_def)
  moreover have "mwf ss \<and> ss \<noteq> [] \<and> length ss \<le> maxSessionStickiesPerGroup"
    if "(gid, ss) \<in> set (keep_sessions P st)" for gid ss
  proof -
    from that obtain ss0 where "(gid, ss0) \<in> set st" "ss = mkeep (\<lambda>k. P) ss0" "ss \<noteq> []"
      by (auto simp: keep_sessions_def)
    with ok length_mkeep_le [of "\<lambda>k. P" ss0] show ?thesis by (fastforce simp: sticky_ok_def)
  qed
  ultimately show ?thesis by (auto simp: sticky_ok_def)
qed

lemma prune_sticky_ok: "sticky_ok st \<Longrightarrow> sticky_ok (pruneSessionStickyLocked g now st)"
  using sessions_of_ok [of st "g_ID g"]
  by (auto simp: pruneSessionStickyLocked_def sessions_of_def split: option.splits
      intro!: store_sessions_ok length_mkeep_le)

lemma pick_sticky_ok: "sticky_ok (rw_stickies w) \<Longrightarrow>
    sticky_ok (rw_stickies (snd (pickSessionStickyLocked env g k exclude skipped now w)))"
  using sessions_of_ok [of "rw_stickies w" "g_ID g"]
  by (auto simp: pickSessionStickyLocked_def Let_def split: option.splits
      intro!: store_sessions_ok length_mdel_le)

lemma clear_item_sticky_ok: "sticky_ok (rw_stickies w) \<Longrightarrow>
    sticky_ok (rw_stickies (clearSessionStickyByItem gid i w))"
  using sessions_of_ok [of "rw_stickies w" gid]
  by (auto simp: clearSessionStickyByItem_def intro!: store_sessions_ok length_mkeep_le)

lemma clear_group_sticky_ok: "sticky_ok (rw_stickies w) \<Longrightarrow>
    sticky_ok (rw_stickies (clearSessionStickyByGroup gid w))"
  using set_mdel_subset [of gid "rw_stickies w"] total_mdel_le [of gid "rw_stickies w"]
  by (fastforce simp: clearSessionStickyByGroup_def sticky_ok_def)

lemma bind_sticky_ok: "sticky_ok (rw_stickies w) \<Longrightarrow>
    sticky_ok (rw_stickies (bindSessionSticky g k i now w))"
proof -
  assume ok: "sticky_ok (rw_stickies w)"
  let ?put = "\<lambda>st. mput (g_ID g) (mput k \<lparr>se_ItemID = i,
      se_ExpireAtUnixMilli = now + SessionStickySeconds (g_RelayConfig g) * 1000\<rparr> (sessions_of (g_ID g) st)) st"
  have put: "sticky_ok (?put st)"
    if st: "sticky_ok st" and room: "mhas (sessions_of (g_ID g) st) k \<or>
      \<not> stickyFullLocked (sessions_of (g_ID g) st) st" for st
  proof (rule mput_sessions_ok [OF st])
    note s = sessions_of_ok [OF st, of "g_ID g"]
    show "mwf (mput k \<lparr>se_ItemID = i,
      se_ExpireAtUnixMilli = now + SessionStickySeconds (g_RelayConfig g) * 1000\<rparr> (sessions_of (g_ID g) st))"
      using s by simp
    show "mput k \<lparr>se_ItemID = i,
      se_ExpireAtUnixMilli = now + SessionStickySeconds (g_RelayConfig g) * 1000\<rparr> (sessions_of (g_ID g) st) \<noteq> []"
      by (cases "sessions_of (g_ID g) st") auto
  qed (use sessions_of_ok [OF st, of "g_ID g"] st room in
      \<open>auto simp: length_mput stickyFullLocked_def sticky_ok_def\<close>)
  have "sticky_ok (pruneSessionStickyLocked g now st)" if "sticky_ok st" for st
    using that by (rule prune_sticky_ok)
  moreover have "sticky_ok (pruneAllSessionStickiesLocked now st)" if "sticky_ok st" for st
    using that by (simp add: pruneAllSessionStickiesLocked_def keep_sessions_ok)
  ultimately show ?thesis
    using ok put by (auto simp: bindSessionSticky_def Let_def)
qed

subsection \<open>Isolation of sessions\<close>

lemma split_at_colon:
  assumes "xs @ CHR '':'' # s = ys @ CHR '':'' # t" and "CHR '':'' \<notin> set xs" and "CHR '':'' \<notin> set ys"
  shows "xs = ys \<and> s = t"
  using assms by (induction xs arbitrary: ys) (auto simp: append_eq_Cons_conv Cons_eq_append_conv)

lemma colon_not_in_Itoa: "0 \<le> i \<Longrightarrow> CHR '':'' \<notin> set (Itoa i)"
  using Itoa_digits [of i "CHR '':''"] by (auto simp: is_digit_def)

lemma console_not_numeric: "0 \<le> i \<Longrightarrow> Itoa i @ '':'' @ s \<noteq> consoleSessionPrefix @ t"
proof
  assume i: "0 \<le> i" and eq: "Itoa i @ '':'' @ s = consoleSessionPrefix @ t"
  have "Itoa i \<noteq> []" using i by (simp add: Itoa_def)
  then have "hd (Itoa i) = CHR ''c''" using eq by (cases "Itoa i") (auto simp: consoleSessionPrefix_def)
  moreover have "is_digit (hd (Itoa i))" using i \<open>Itoa i \<noteq> []\<close> by (intro Itoa_digits) auto
  ultimately show False by (simp add: is_digit_def)
qed

text \<open>
  C14. Session isolation (\<^verbatim>\<open>sessionScopeKey\<close>). Two requests get the same non-empty internal session
  key only if they name the same session and come from the same API key, or both from the console:
  no client can choose a session identifier that lands in another key's sessions.
\<close>

theorem session_scope_isolated:
  assumes "sessionScopeKey a s = sessionScopeKey b t" and "sessionScopeKey a s \<noteq> []"
  shows "s = t \<and> (a = b \<or> a \<le> 0 \<and> b \<le> 0)"
proof -
  have len: "s \<noteq> [] \<and> length s \<le> maxSessionKeyBytes \<and> t \<noteq> [] \<and> length t \<le> maxSessionKeyBytes"
    using assms by (auto simp: sessionScopeKey_def split: if_splits)
  consider (keys) "0 < a" "0 < b" | (console) "a \<le> 0" "b \<le> 0" | (left) "0 < a" "b \<le> 0"
    | (right) "a \<le> 0" "0 < b" by linarith
  then show ?thesis
  proof cases
    case keys
    with assms(1) len have "Itoa a @ CHR '':'' # s = Itoa b @ CHR '':'' # t"
      by (simp add: sessionScopeKey_def)
    with keys have "Itoa a = Itoa b \<and> s = t" by (intro split_at_colon) (simp_all add: colon_not_in_Itoa)
    with keys show ?thesis by (simp add: Itoa_inject)
  next
    case console
    with assms(1) len show ?thesis by (simp add: sessionScopeKey_def)
  next
    case left
    with assms(1) len console_not_numeric [of a s t] show ?thesis by (simp add: sessionScopeKey_def)
  next
    case right
    with assms(1) len console_not_numeric [of b t s] show ?thesis by (simp add: sessionScopeKey_def)
  qed
qed

theorem session_scope_isolated_witness:
  "sessionScopeKey 12 ''s1'' \<noteq> [] \<and> ''s1'' = ''s1'' \<and> ((12 :: int) = 12 \<or> (12 :: int) \<le> 0 \<and> (12 :: int) \<le> 0)"
  using session_scope_isolated [of 12 "''s1''" 12 "''s1''"]
  by (simp add: sessionScopeKey_def maxSessionKeyBytes_def)

subsection \<open>Using and renewing a sticky session\<close>

text \<open>
  A sticky member is only used while it is usable (\<^verbatim>\<open>pickSessionStickyLocked\<close>): a member
  returned for a session is the one the session is bound to, belongs to the group, is not excluded
  or skipped, is not cooling and its channel is enabled, and the binding has not expired; and
  when the binding is not usable it is removed.
\<close>

lemma sticky_pick_usable:
  assumes "pickSessionStickyLocked env g k exclude skipped now w = (item, w')"
    and "map_of (sessions_of (g_ID g) (rw_stickies w)) k = Some e"
  shows "if it_ID item \<noteq> 0
     then w' = w \<and> it_ID item = se_ItemID e \<and> item \<in> set (g_Items g) \<and> now < se_ExpireAtUnixMilli e \<and>
          \<not> itemExcluded item exclude skipped \<and> \<not> channelDisabledForRouting env now item \<and>
          (\<forall>r. map_of (rw_routes w) (g_ID g) = Some r \<longrightarrow> member_state r now (it_ID item) \<noteq> OPEN)
     else \<not> mhas (sessions_of (g_ID g) (rw_stickies w')) k"
proof (cases "sticky_entry_valid env g e exclude skipped now w")
  case True
  then have item: "item = itemOf g (se_ItemID e)" "w' = w" "it_ID item \<noteq> 0"
    using assms by (auto simp: pickSessionStickyLocked_def Let_def sticky_entry_valid_def)
  with True itemOf_found [of g "se_ItemID e"] show ?thesis
    by (auto simp: sticky_entry_valid_def Let_def member_state_def mhas_def mget0_def
        split: option.splits if_splits elim: state_of.elims)
next
  case False
  then have "item = zero_GroupItem"
    and "w' = w\<lparr>rw_stickies := store_sessions (g_ID g)
      (mdel k (sessions_of (g_ID g) (rw_stickies w))) (rw_stickies w)\<rparr>"
    using assms by (auto simp: pickSessionStickyLocked_def Let_def)
  then show ?thesis by (auto simp: store_sessions_def sessions_of_def)
qed

text \<open>
  A bound session returns to its member (\<^verbatim>\<open>bindSessionSticky\<close> then \<^verbatim>\<open>pickSessionStickyLocked\<close>):
  if the tables have room, or the session was bound before, then at any time within the configured
  number of seconds after the binding the session is sent to the member it was bound to, as long as
  that member is in the group, not excluded, not cooling and enabled.
\<close>

lemma sticky_bind_then_pick:
  assumes "k \<noteq> []" and "length k \<le> maxStickyKeyBytes" and "itemID \<noteq> 0"
    and "1 \<le> SessionStickySeconds (g_RelayConfig g)"
    and "now - rw_stickyLastPrune w < stickyPruneInterval"
    and "mhas (sessions_of (g_ID g) (rw_stickies w)) k \<or>
         \<not> stickyFullLocked (sessions_of (g_ID g) (rw_stickies w)) (rw_stickies w)"
    and "t < now + SessionStickySeconds (g_RelayConfig g) * 1000"
    and "it_ID (itemOf g itemID) \<noteq> 0" and "\<not> itemExcluded (itemOf g itemID) exclude skipped"
    and "\<forall>r. map_of (rw_routes w) (g_ID g) = Some r \<longrightarrow> \<not> mhas (rs_Cooldowns r) itemID"
    and "\<not> channelDisabledForRouting env t (itemOf g itemID)"
  shows "fst (pickSessionStickyLocked env g k exclude skipped t (bindSessionSticky g k itemID now w))
    = itemOf g itemID"
proof -
  let ?e = "\<lparr>se_ItemID = itemID, se_ExpireAtUnixMilli = now + SessionStickySeconds (g_RelayConfig g) * 1000\<rparr>"
  have w': "bindSessionSticky g k itemID now w = w\<lparr>rw_stickies :=
      mput (g_ID g) (mput k ?e (sessions_of (g_ID g) (rw_stickies w))) (rw_stickies w)\<rparr>"
    using assms(1-6) by (auto simp: bindSessionSticky_def Let_def)
  have "map_of (sessions_of (g_ID g) (rw_stickies (bindSessionSticky g k itemID now w))) k = Some ?e"
    unfolding w' by (simp add: sessions_of_def)
  moreover have "it_ID (itemOf g itemID) = itemID" using itemOf_found assms(8) by blast
  then have "sticky_entry_valid env g ?e exclude skipped t (bindSessionSticky g k itemID now w)"
    unfolding w' using assms(7-11) by (auto simp: sticky_entry_valid_def Let_def split: option.splits)
  ultimately show ?thesis by (simp add: pickSessionStickyLocked_def Let_def)
qed

definition demo_item :: "int \<Rightarrow> GroupItem" where
  "demo_item i = zero_GroupItem\<lparr>it_ID := i, it_ChannelModelID := i\<rparr>"

definition demo_group :: Group where
  "demo_group = \<lparr>g_ID = 1, g_Name = ''g'', g_Mode = GroupModeFailover, g_ActiveItemID = 0,
     g_RelayConfig = DefaultGroupRelayConfig, g_DisplayOrder = 0, g_Items = [demo_item 10, demo_item 20]\<rparr>"

definition demo_env :: route_env where
  "demo_env = \<lparr>env_channel = (\<lambda>_. None), env_group = (\<lambda>_. None), env_native = (\<lambda>_ _ _. False),
     env_blocks = []\<rparr>"

lemmas demo_defs = demo_item_def demo_group_def demo_env_def zero_GroupItem_def

lemma demo_enabled [simp]: "\<not> channelDisabledForRouting demo_env now (demo_item i)"
  by (simp add: channelDisabledForRouting_def demo_defs)

lemma demo_itemOf [simp]: "itemOf demo_group 10 = demo_item 10" "itemOf demo_group 20 = demo_item 20"
  by (simp_all add: itemOf_def demo_defs)

lemma demo_fields [simp]:
  "g_ID demo_group = 1" "it_ID (demo_item i) = i" "g_Items demo_group = [demo_item 10, demo_item 20]"
  "g_RelayConfig demo_group = DefaultGroupRelayConfig" "g_Mode demo_group = GroupModeFailover"
  by (simp_all add: demo_defs)

end
