(* ===== verification/Route_Pick.thy ===== *)
theory Route_Pick
  imports Session_Sticky
begin

text \<open>
  Member selection of \<^verbatim>\<open>internal/relay/route.go\<close>: ordering for pass-through, the scan under
  \<^verbatim>\<open>routeMu\<close>, recovery by probing when every member cools, the emergency member, and the
  resolution of group references.

  \<^verbatim>\<open>pickGroupItemSkipping\<close> releases the lock while it probes, so it is modelled in phases:
  \<open>pickLocked\<close> is its first critical section and says how it goes on, \<open>recoverExpired_finish\<close> is
  the critical section that ends \<^verbatim>\<open>recoverExpiredItems\<close>, \<open>claimEmergencyItemSkipping\<close> the last one.
  \<open>pickGroupItemSkipping\<close> composes them; \<open>probes\<close> gives the outcome of the probes in the order the
  results arrive, \<open>between\<close> what other requests do to the world meanwhile.
\<close>

subsection \<open>Order of the candidates\<close>

definition itemMatchesClientFormat :: "route_env \<Rightarrow> GroupItem \<Rightarrow> string \<Rightarrow> bool" where
  "itemMatchesClientFormat env item format =
    (case it_ChannelModel item of
       None \<Rightarrow> False
     | Some cm \<Rightarrow>
         (case env_channel env (cm_ChannelID cm) of
            None \<Rightarrow> False
          | Some c \<Rightarrow> env_native env c cm format))"

definition passthroughOrderedItems :: "route_env \<Rightarrow> Group \<Rightarrow> string \<Rightarrow> GroupItem list" where
  "passthroughOrderedItems env g format =
    (if \<not> PreferPassthrough (g_RelayConfig g) \<or> format = [] then g_Items g
     else
       let native = filter (\<lambda>i. itemMatchesClientFormat env i format) (g_Items g);
           other = filter (\<lambda>i. \<not> itemMatchesClientFormat env i format) (g_Items g)
       in if native = [] \<or> other = [] then g_Items g else native @ other)"

subsection \<open>The scan\<close>

text \<open>
  The loop over the candidates: the members whose cooldown has expired before the first CLOSED
  one, and that CLOSED member (the zero member when there is none).
\<close>

fun pick_scan ::
  "route_env \<Rightarrow> int \<Rightarrow> int list \<Rightarrow> int \<Rightarrow> RouteState \<Rightarrow> GroupItem list \<Rightarrow> GroupItem list \<times> GroupItem" where
  "pick_scan env exclude skipped now r [] = ([], zero_GroupItem)"
| "pick_scan env exclude skipped now r (item # items) =
    (if itemExcluded item exclude skipped \<or> channelDisabledForRouting env now item
     then pick_scan env exclude skipped now r items
     else case map_of (rs_Cooldowns r) (it_ID item) of
            Some deadline \<Rightarrow>
              if now < deadline \<or> 0 < mget0 (rs_HalfOpens r) (it_ID item)
              then pick_scan env exclude skipped now r items
              else (case pick_scan env exclude skipped now r items of
                      (expired, selected) \<Rightarrow> (item # expired, selected))
          | None \<Rightarrow> ([], item))"

datatype pick_phase = PickReturn GroupItem | PickRecover "GroupItem list" | PickEmergency

text \<open>The current member that this request skips is forgotten.\<close>

definition skip_current :: "int list \<Rightarrow> RouteState \<Rightarrow> bool \<times> RouteState" where
  "skip_current skipped r =
    (if rs_CurrentItemID r \<noteq> 0 \<and> rs_CurrentItemID r \<in> set skipped
     then (True, r\<lparr>rs_CurrentItemID := 0, rs_AffinityUntil := 0, rs_affinityArmed := False\<rparr>)
     else (False, r))"

definition affinity_member ::
  "route_env \<Rightarrow> Group \<Rightarrow> int \<Rightarrow> int list \<Rightarrow> int \<Rightarrow> RouteState \<Rightarrow> GroupItem" where
  "affinity_member env g exclude skipped now r =
    (if rs_CurrentItemID r \<noteq> 0 \<and> rs_CurrentItemID r \<noteq> exclude \<and>
        rs_CurrentItemID r \<notin> set skipped \<and> now < rs_AffinityUntil r
     then
       let item = itemOf g (rs_CurrentItemID r)
       in if it_ID item \<noteq> 0 \<and> \<not> channelDisabledForRouting env now item then item else zero_GroupItem
     else zero_GroupItem)"

text \<open>The part of the critical section after the affinity check, on the route.\<close>

definition pick_from_scan ::
  "route_env \<Rightarrow> GroupItem list \<Rightarrow> int \<Rightarrow> int list \<Rightarrow> int \<Rightarrow> RouteState
   \<Rightarrow> pick_phase \<times> GroupItem list \<times> RouteState \<times> bool" where
  "pick_from_scan env items exclude skipped now r =
    (case pick_scan env exclude skipped now r items of
       (expired, selected) \<Rightarrow>
         if it_ID selected \<noteq> 0
         then (case claimHalfOpens expired now r of
                 (started, r1) \<Rightarrow>
                   (PickReturn selected, started, r1\<lparr>rs_CurrentItemID := it_ID selected\<rparr>, True))
         else if expired \<noteq> []
         then (PickRecover expired, [], snd (claimHalfOpens expired now r), True)
         else (PickEmergency, [], r, False))"

text \<open>
  The first critical section. The second component lists the members for which a background probe
  is started.
\<close>

definition pickLocked ::
  "route_env \<Rightarrow> Group \<Rightarrow> int \<Rightarrow> int list \<Rightarrow> string \<Rightarrow> int \<Rightarrow> relay_world
   \<Rightarrow> pick_phase \<times> GroupItem list \<times> relay_world" where
  "pickLocked env g exclude skipped format now w =
    (case groupRouteLocked g w of
       (r0, w0) \<Rightarrow>
         let r1 = (if rs_AffinityUntil r0 \<le> now then r0\<lparr>rs_AffinityUntil := 0\<rparr> else r0) in
         if rs_ProbeItemID r1 \<noteq> 0 then (PickReturn zero_GroupItem, [], commit_route (g_ID g) r1 False w0)
         else
           (case skip_current skipped r1 of
              (changed, r2) \<Rightarrow>
                let w2 = commit_route (g_ID g) r2 changed w0;
                    current = affinity_member env g exclude skipped now r2
                in if it_ID current \<noteq> 0 then (PickReturn current, [], w2)
                   else
                     (case pick_from_scan env (passthroughOrderedItems env g format) exclude skipped now r2 of
                        (phase, started, r3, pub) \<Rightarrow> (phase, started, commit_route (g_ID g) r3 pub w2))))"

definition claimEmergencyItemSkipping ::
  "route_env \<Rightarrow> Group \<Rightarrow> int \<Rightarrow> int list \<Rightarrow> int \<Rightarrow> relay_world \<Rightarrow> GroupItem \<times> relay_world" where
  "claimEmergencyItemSkipping env g exclude skipped now w =
    (case groupRouteLocked g w of
       (r, w1) \<Rightarrow>
         (case claimEmergencyLocked env r g exclude skipped now of
            (item, r', pub) \<Rightarrow> (item, commit_route (g_ID g) r' pub w1)))"

subsection \<open>Recovery\<close>

text \<open>\<open>winner\<close> of \<^verbatim>\<open>recoverExpiredItems\<close>: the first probe result without an error.\<close>

definition probe_winner :: "(GroupItem \<times> bool) list \<Rightarrow> GroupItem" where
  "probe_winner results =
    (case find (\<lambda>(item, ok). ok \<and> it_ID item \<noteq> 0) results of None \<Rightarrow> zero_GroupItem | Some (item, ok) \<Rightarrow> item)"

definition recover_route ::
  "GroupRelayConfig \<Rightarrow> GroupItem list \<Rightarrow> GroupItem \<Rightarrow> bool \<Rightarrow> int \<Rightarrow> RouteState \<Rightarrow> RouteState" where
  "recover_route config candidates winner cancelled now r =
    (if it_ID winner \<noteq> 0
     then (fold (\<lambda>item r. if it_ID item \<noteq> it_ID winner
                          then r\<lparr>rs_HalfOpens := mdel (it_ID item) (rs_HalfOpens r)\<rparr> else r) candidates r)
          \<lparr>rs_ProbeItemID := it_ID winner\<rparr>
     else if cancelled
     then fold (\<lambda>item r. r\<lparr>rs_HalfOpens := mdel (it_ID item) (rs_HalfOpens r)\<rparr>) candidates r
     else fold (\<lambda>item r. reopenItemLocked r config (it_ID item) now) candidates r)"

definition recoverExpired_finish ::
  "Group \<Rightarrow> GroupItem list \<Rightarrow> GroupItem \<Rightarrow> bool \<Rightarrow> int \<Rightarrow> relay_world \<Rightarrow> GroupItem \<times> relay_world" where
  "recoverExpired_finish g candidates winner cancelled now w =
    (case map_of (rw_routes w) (g_ID g) of
       None \<Rightarrow> (zero_GroupItem, w)
     | Some r \<Rightarrow>
         ((if it_ID winner \<noteq> 0 then winner else zero_GroupItem),
          commit_route (g_ID g) (recover_route (g_RelayConfig g) candidates winner cancelled now r) True w))"

subsection \<open>The whole selection\<close>

text \<open>
  The environment of one call: the probe results in the order they arrive, whether the caller was
  cancelled, the clock when probing ended, and what other requests did to the world while the
  lock was free.
\<close>

record pick_oracle =
  po_results :: "(GroupItem \<times> bool) list"
  po_cancelled :: bool
  po_later :: int
  po_between :: "relay_world \<Rightarrow> relay_world"

definition pickGroupItemSkipping ::
  "route_env \<Rightarrow> pick_oracle \<Rightarrow> Group \<Rightarrow> int \<Rightarrow> int list \<Rightarrow> string \<Rightarrow> int \<Rightarrow> relay_world
   \<Rightarrow> GroupItem \<times> relay_world" where
  "pickGroupItemSkipping env po g exclude skipped format now w =
    (if g_Mode g = GroupModeManual
     then (case find (\<lambda>i. it_ID i = g_ActiveItemID g \<and> \<not> itemExcluded i exclude skipped) (g_Items g) of
             None \<Rightarrow> (zero_GroupItem, w)
           | Some item \<Rightarrow> (if channelDisabledForRouting env now item then zero_GroupItem else item, w))
     else case pickLocked env g exclude skipped format now w of
            (PickReturn item, started, w1) \<Rightarrow> (item, w1)
          | (PickEmergency, started, w1) \<Rightarrow>
              claimEmergencyItemSkipping env g exclude skipped now w1
          | (PickRecover expired, started, w1) \<Rightarrow>
              (case recoverExpired_finish g expired (probe_winner (po_results po)) (po_cancelled po)
                      (po_later po) (po_between po w1) of
                 (item, w2) \<Rightarrow>
                   if it_ID item \<noteq> 0 then (item, w2)
                   else claimEmergencyItemSkipping env g exclude skipped (po_later po) w2))"

definition pickRefChainHopSkipping ::
  "route_env \<Rightarrow> pick_oracle \<Rightarrow> Group \<Rightarrow> string \<Rightarrow> int \<Rightarrow> int list \<Rightarrow> string \<Rightarrow> int \<Rightarrow> relay_world
   \<Rightarrow> GroupItem \<times> relay_world" where
  "pickRefChainHopSkipping env po g sessionKey exclude skipped format now w =
    (let (item, w1) = (if sessionStickyEnabled g sessionKey
                       then pickSessionStickyLocked env g sessionKey exclude skipped now w
                       else (zero_GroupItem, w))
     in if it_ID item = 0 then pickGroupItemSkipping env po g exclude skipped format now w1
        else (item, w1))"

subsection \<open>Group references\<close>

record refHop =
  hop_group :: Group
  hop_item :: GroupItem

text \<open>
  The loop of \<^verbatim>\<open>resolveGroupRefChainSkipping\<close>: \<open>visited\<close> holds the group identifiers seen so far,
  \<open>hops\<close> the chain so far. The result is the chain and the index of the hop that failed (\<open>None\<close>
  for success).
\<close>

function resolve_loop ::
  "route_env \<Rightarrow> pick_oracle \<Rightarrow> string \<Rightarrow> int \<Rightarrow> int list \<Rightarrow> string \<Rightarrow> int \<Rightarrow> int list \<Rightarrow> refHop list \<Rightarrow> GroupItem
   \<Rightarrow> relay_world \<Rightarrow> (refHop list \<times> nat option) \<times> relay_world" where
  "resolve_loop env po sessionKey exclude skipped format now visited hops item w =
    (if \<not> IsGroupRef item then ((hops, None), w)
     else
       let fail = Some (length hops - 1) in
       if MaxGroupRefDepth \<le> length visited - 1 then ((hops, fail), w)
       else case env_group env (it_RefGroupName item) of
              None \<Rightarrow> ((hops, fail), w)
            | Some g \<Rightarrow>
                if g_ID g \<in> set visited then ((hops, fail), w)
                else
                  (case pickRefChainHopSkipping env po g sessionKey exclude skipped format now w of
                     (nextItem, w1) \<Rightarrow>
                       if it_ID nextItem = 0 then ((hops, fail), w1)
                       else resolve_loop env po sessionKey exclude skipped format now (visited @ [g_ID g])
                              (hops @ [\<lparr>hop_group = g, hop_item = nextItem\<rparr>]) nextItem w1))"
  by pat_completeness auto
termination
  by (relation "measure (\<lambda>(env, po, s, e, sk, f, n, visited, hops, item, w).
        MaxGroupRefDepth + 1 - length visited)")
    (auto simp: MaxGroupRefDepth_def)

declare resolve_loop.simps [simp del]

definition resolveGroupRefChainSkipping ::
  "route_env \<Rightarrow> pick_oracle \<Rightarrow> Group \<Rightarrow> GroupItem \<Rightarrow> string \<Rightarrow> int \<Rightarrow> int list \<Rightarrow> string \<Rightarrow> int \<Rightarrow> relay_world
   \<Rightarrow> (refHop list \<times> nat option) \<times> relay_world" where
  "resolveGroupRefChainSkipping env po topg first sessionKey exclude skipped format now w =
    resolve_loop env po sessionKey exclude skipped format now [g_ID topg]
      [\<lparr>hop_group = topg, hop_item = first\<rparr>] first w"

definition releaseRefChainHops :: "refHop list \<Rightarrow> relay_world \<Rightarrow> relay_world" where
  "releaseRefChainHops hops w = fold (\<lambda>h. releaseRouteProbe (hop_group h) (it_ID (hop_item h))) hops w"

definition releaseProbeHold :: "refHop \<Rightarrow> relay_world \<Rightarrow> relay_world" where
  "releaseProbeHold h w =
    (case map_of (rw_routes w) (g_ID (hop_group h)) of
       None \<Rightarrow> w
     | Some r \<Rightarrow>
         let i = it_ID (hop_item h) in
         if rs_ProbeItemID r \<noteq> i \<and> mget0 (rs_HalfOpens r) i = 0 then w
         else
           let r1 = r\<lparr>rs_HalfOpens := mdel i (rs_HalfOpens r)\<rparr>;
               r2 = (if rs_ProbeItemID r1 = i then r1\<lparr>rs_ProbeItemID := 0\<rparr> else r1)
           in commit_route (g_ID (hop_group h)) r2 True w)"

definition releaseRefChainProbeHolds :: "refHop list \<Rightarrow> relay_world \<Rightarrow> relay_world" where
  "releaseRefChainProbeHolds hops w = fold releaseProbeHold hops w"

subsection \<open>What the scan finds\<close>

lemma passthrough_set [simp]: "set (passthroughOrderedItems env g format) = set (g_Items g)"
  by (auto simp: passthroughOrderedItems_def Let_def)

lemma passthrough_length [simp]: "length (passthroughOrderedItems env g format) = length (g_Items g)"
  by (simp add: passthroughOrderedItems_def Let_def sum_length_filter_compl)

text \<open>A member the scan may select: not excluded, enabled, CLOSED.\<close>

definition selectable :: "route_env \<Rightarrow> int \<Rightarrow> int list \<Rightarrow> int \<Rightarrow> RouteState \<Rightarrow> GroupItem \<Rightarrow> bool" where
  "selectable env exclude skipped now r item \<longleftrightarrow>
     \<not> itemExcluded item exclude skipped \<and> \<not> channelDisabledForRouting env now item \<and>
     \<not> mhas (rs_Cooldowns r) (it_ID item)"

text \<open>A member the scan may probe: not excluded, enabled, its cooldown over and nobody probing it.\<close>

definition probeable :: "route_env \<Rightarrow> int \<Rightarrow> int list \<Rightarrow> int \<Rightarrow> RouteState \<Rightarrow> GroupItem \<Rightarrow> bool" where
  "probeable env exclude skipped now r item \<longleftrightarrow>
     \<not> itemExcluded item exclude skipped \<and> \<not> channelDisabledForRouting env now item \<and>
     member_state r now (it_ID item) = EXPIRED"

lemma state_of_EXPIRED:
  "state_of d h now = EXPIRED \<longleftrightarrow> (\<exists>deadline. d = Some deadline \<and> \<not> now < deadline \<and> \<not> 0 < h)"
  by (cases d) auto

lemma selectable_closed: "selectable env exclude skipped now r item \<Longrightarrow> member_state r now (it_ID item) = CLOSED"
  by (cases "map_of (rs_Cooldowns r) (it_ID item)") (auto simp: selectable_def member_state_def mhas_def)

text \<open>The scan is a reference search: the first selectable member, and the probeable ones before it.\<close>

lemma pick_scan_spec:
  "pick_scan env exclude skipped now r items =
    (filter (probeable env exclude skipped now r)
       (takeWhile (\<lambda>i. \<not> selectable env exclude skipped now r i) items),
     case find (selectable env exclude skipped now r) items of None \<Rightarrow> zero_GroupItem | Some i \<Rightarrow> i)"
proof (induction items)
  case (Cons item items)
  show ?case
  proof (cases "itemExcluded item exclude skipped \<or> channelDisabledForRouting env now item")
    case True
    with Cons show ?thesis by (auto simp: selectable_def probeable_def)
  next
    case False
    with Cons show ?thesis
      by (cases "map_of (rs_Cooldowns r) (it_ID item)")
        (auto simp: selectable_def probeable_def member_state_def state_of_EXPIRED mhas_def)
  qed
qed simp

lemma find_first:
  assumes "find P xs = Some x"
  obtains pre post where "xs = pre @ x # post" "P x" "\<forall>y \<in> set pre. \<not> P y"
proof -
  from assms obtain i where i: "i < length xs" "P (xs ! i)" "x = xs ! i" "\<forall>j<i. \<not> P (xs ! j)"
    by (auto simp: find_Some_iff)
  have "xs = take i xs @ x # drop (Suc i) xs" using i by (simp add: id_take_nth_drop)
  moreover have "\<forall>y \<in> set (take i xs). \<not> P y" using i by (auto simp: in_set_conv_nth)
  ultimately show ?thesis using that i by blast
qed

subsection \<open>Frames of the first critical section\<close>

definition fresh_affinity :: "int \<Rightarrow> RouteState \<Rightarrow> RouteState" where
  "fresh_affinity now r = (if rs_AffinityUntil r \<le> now then r\<lparr>rs_AffinityUntil := 0\<rparr> else r)"

lemma skip_current_fields [simp]:
  "rs_Cooldowns (snd (skip_current skipped r)) = rs_Cooldowns r"
  "rs_HalfOpens (snd (skip_current skipped r)) = rs_HalfOpens r"
  "rs_ProbeItemID (snd (skip_current skipped r)) = rs_ProbeItemID r"
  by (simp_all add: skip_current_def)

lemma fresh_affinity_fields [simp]:
  "rs_Cooldowns (fresh_affinity now r) = rs_Cooldowns r"
  "rs_HalfOpens (fresh_affinity now r) = rs_HalfOpens r"
  "rs_ProbeItemID (fresh_affinity now r) = rs_ProbeItemID r"
  "rs_CurrentItemID (fresh_affinity now r) = rs_CurrentItemID r"
  "\<not> rs_AffinityUntil r \<le> now \<Longrightarrow> rs_AffinityUntil (fresh_affinity now r) = rs_AffinityUntil r"
  by (simp_all add: fresh_affinity_def)

lemma skip_current_ok [invariant_intros]: "route_ok r \<Longrightarrow> route_ok (snd (skip_current skipped r))"
  by (simp add: skip_current_def route_ok_def maps_ok_def emergency_ok_def)

lemma fresh_affinity_ok [invariant_intros]: "route_ok r \<Longrightarrow> route_ok (fresh_affinity now r)"
  by (simp add: fresh_affinity_def route_ok_def maps_ok_def emergency_ok_def)

lemma skip_current_breaker: "breaker_ok r \<Longrightarrow> breaker_ok (snd (skip_current skipped r))"
  by (simp add: skip_current_def breaker_ok_def)

lemma fresh_affinity_breaker: "breaker_ok (fresh_affinity now r) = breaker_ok r"
  by (simp add: fresh_affinity_def breaker_ok_def)

lemma set_current_ok: "route_ok r \<Longrightarrow> route_ok (r\<lparr>rs_CurrentItemID := i\<rparr>)"
  by (simp add: route_ok_def maps_ok_def emergency_ok_def)

lemma pick_from_scan_ok [invariant_intros]:
  "route_ok r \<Longrightarrow> route_ok (fst (snd (snd (pick_from_scan env items exclude skipped now r))))"
  by (auto simp: pick_from_scan_def case_prod_unfold intro!: set_current_ok claim_half_opens_ok)

lemma claim_half_opens_cooldowns [simp]:
  "rs_Cooldowns (snd (claimHalfOpens items now r)) = rs_Cooldowns r"
  by (induction items arbitrary: r)
    (auto simp: case_prod_unfold claimHalfOpenLocked_def split: option.splits)

lemma pick_from_scan_breaker:
  assumes "breaker_ok r"
  shows "breaker_ok (fst (snd (snd (pick_from_scan env items exclude skipped now r))))"
proof -
  let ?expired = "fst (pick_scan env exclude skipped now r items)"
  let ?selected = "snd (pick_scan env exclude skipped now r items)"
  have b: "breaker_ok (snd (claimHalfOpens ?expired now r))" by (rule claim_half_opens_breaker_ok [OF assms])
  have "\<not> mhas (rs_Cooldowns r) (it_ID ?selected)" if "it_ID ?selected \<noteq> 0"
    using that by (auto simp: pick_scan_spec zero_GroupItem_def selectable_def split: option.splits dest: find_SomeD)
  with b assms show ?thesis
    by (auto simp: pick_from_scan_def case_prod_unfold breaker_ok_def)
qed

subsection \<open>What is picked\<close>

lemma pickLocked_cases:
  assumes "pickLocked env g exclude skipped format now w = (phase, started, w')"
    and "rs_ProbeItemID (fst (groupRouteLocked g w)) = 0"
  defines "r2 \<equiv> snd (skip_current skipped (fresh_affinity now (fst (groupRouteLocked g w))))"
  shows "(it_ID (affinity_member env g exclude skipped now r2) \<noteq> 0 \<and>
           phase = PickReturn (affinity_member env g exclude skipped now r2)) \<or>
         (it_ID (affinity_member env g exclude skipped now r2) = 0 \<and>
           phase = fst (pick_from_scan env (passthroughOrderedItems env g format) exclude skipped now r2))"
  using assms(1,2) unfolding r2_def pickLocked_def case_prod_unfold Let_def fresh_affinity_def [symmetric]
  by (auto split: if_splits)

lemma affinity_member_spec:
  assumes "it_ID (affinity_member env g exclude skipped now r) \<noteq> 0"
  shows "affinity_member env g exclude skipped now r \<in> set (g_Items g) \<and>
    it_ID (affinity_member env g exclude skipped now r) = rs_CurrentItemID r \<and> rs_CurrentItemID r \<noteq> 0 \<and>
    rs_CurrentItemID r \<noteq> exclude \<and> rs_CurrentItemID r \<notin> set skipped \<and> now < rs_AffinityUntil r \<and>
    \<not> channelDisabledForRouting env now (affinity_member env g exclude skipped now r)"
  using assms itemOf_found [of g "rs_CurrentItemID r"]
  by (auto simp: affinity_member_def Let_def zero_GroupItem_def split: if_splits)

lemma skip_current_kept:
  "rs_CurrentItemID (snd (skip_current skipped r)) \<noteq> 0 \<Longrightarrow> snd (skip_current skipped r) = r"
  by (auto simp: skip_current_def split: if_splits)

lemma selectable_cong:
  "rs_Cooldowns r' = rs_Cooldowns r \<Longrightarrow>
   selectable env exclude skipped now r' i = selectable env exclude skipped now r i"
  by (simp add: selectable_def)

lemma pick_from_scan_return:
  assumes "fst (pick_from_scan env items exclude skipped now r) = PickReturn item"
  shows "find (selectable env exclude skipped now r) items = Some item \<and> it_ID item \<noteq> 0"
  using assms
  by (auto simp: pick_from_scan_def case_prod_unfold pick_scan_spec zero_GroupItem_def
      split: if_splits option.splits)

lemma pick_from_scan_finds:
  assumes "find (selectable env exclude skipped now r) items = Some item" and "it_ID item \<noteq> 0"
  shows "fst (pick_from_scan env items exclude skipped now r) = PickReturn item"
  using assms by (simp add: pick_from_scan_def case_prod_unfold pick_scan_spec)

lemma picked_member:
  assumes "pickLocked env g exclude skipped format now w = (PickReturn item, started, w')"
    and "it_ID item \<noteq> 0" and "r = fst (groupRouteLocked g w)" and "0 \<le> now"
  shows "rs_ProbeItemID r = 0 \<and> item \<in> set (g_Items g) \<and> \<not> itemExcluded item exclude skipped \<and>
    \<not> channelDisabledForRouting env now item \<and>
    (breaker_ok r \<longrightarrow> member_state r now (it_ID item) = CLOSED) \<and>
    (it_ID item = rs_CurrentItemID r \<and> now < rs_AffinityUntil r \<or>
     (\<exists>pre post. passthroughOrderedItems env g format = pre @ item # post \<and>
        selectable env exclude skipped now r item \<and>
        (\<forall>y \<in> set pre. \<not> selectable env exclude skipped now r y)))"
proof -
  let ?r2 = "snd (skip_current skipped (fresh_affinity now r))"
  let ?aff = "affinity_member env g exclude skipped now ?r2"
  have probe: "rs_ProbeItemID r = 0"
    using assms unfolding pickLocked_def case_prod_unfold Let_def
    by (auto simp: zero_GroupItem_def split: if_splits)
  from pickLocked_cases [OF assms(1)] probe assms(3)
  consider (aff) "it_ID ?aff \<noteq> 0" "item = ?aff"
    | (scan) "PickReturn item = fst (pick_from_scan env (passthroughOrderedItems env g format) exclude skipped now ?r2)"
    by auto
  then show ?thesis
  proof cases
    case aff
    note a = affinity_member_spec [OF aff(1)]
    then have r2: "?r2 = fresh_affinity now r" using skip_current_kept by blast
    then have cur: "it_ID item = rs_CurrentItemID r" and "now < rs_AffinityUntil r"
      using a aff(2) assms(4) by (auto simp: fresh_affinity_def split: if_splits)
    moreover have "breaker_ok r \<longrightarrow> member_state r now (it_ID item) = CLOSED"
      using a cur r2 aff(1)
      by (cases "map_of (rs_Cooldowns r) (it_ID item)") (auto simp: breaker_ok_def member_state_def mhas_def)
    ultimately show ?thesis using a probe cur aff(2) by (auto simp: itemExcluded_def)
  next
    case scan
    let ?sel = "selectable env exclude skipped now"
    from pick_from_scan_return [OF scan [symmetric]]
    obtain pre post where split: "passthroughOrderedItems env g format = pre @ item # post"
      "?sel ?r2 item" "\<forall>y \<in> set pre. \<not> ?sel ?r2 y"
      by (metis find_first)
    have eq: "?sel ?r2 i = ?sel r i" for i by (rule selectable_cong) simp
    have "item \<in> set (passthroughOrderedItems env g format)" unfolding split(1) by simp
    then show ?thesis
      using split probe selectable_closed [of env exclude skipped now r item]
      unfolding eq passthrough_set by (auto simp: selectable_def)
  qed
qed



text \<open>A route of the sample group in which member 10 cools until time 9000.\<close>

definition demo_world :: relay_world where
  "demo_world = init_world\<lparr>rw_routes := [(1, (fresh_route 1)\<lparr>rs_Cooldowns := [(10, 9000)], rs_Levels := [(10, 1)]\<rparr>)]\<rparr>"

lemma demo_world_route:
  "fst (groupRouteLocked demo_group demo_world) =
    (fresh_route 1)\<lparr>rs_Cooldowns := [(10, 9000)], rs_Levels := [(10, 1)]\<rparr>"
  by (simp add: groupRouteLocked_def demo_world_def init_world_def prune_route_def Let_def fresh_route_def
      mkeep_def syncEmergencySummaryLocked_def)

lemma demo_pick:
  "fst (pickLocked demo_env demo_group 0 [] [] 5000 demo_world) = PickReturn (demo_item 20)"
  unfolding pickLocked_def case_prod_unfold Let_def demo_world_route
  by (simp add: fresh_route_def skip_current_def affinity_member_def zero_GroupItem_def
      passthroughOrderedItems_def pick_from_scan_def itemExcluded_def case_prod_unfold)

definition demo_oracle :: pick_oracle where
  "demo_oracle = \<lparr>po_results = [], po_cancelled = False, po_later = 6000, po_between = id\<rparr>"



subsection \<open>Exclusive probing\<close>

lemma claim_half_open_spec:
  assumes "0 < now"
  shows "fst (claimHalfOpenLocked r i now) \<longleftrightarrow> rs_ProbeItemID r = 0 \<and> member_state r now i = EXPIRED"
    and "member_state (snd (claimHalfOpenLocked r i now)) now j =
      (if j = i \<and> fst (claimHalfOpenLocked r i now) then HALF_OPEN else member_state r now j)"
    and "rs_ProbeItemID (snd (claimHalfOpenLocked r i now)) = rs_ProbeItemID r"
  using assms
  by (auto simp: claimHalfOpenLocked_def member_state_def state_of_EXPIRED split: option.splits)

lemma claim_half_opens_spec:
  assumes "0 < now"
  shows "distinct (map it_ID (fst (claimHalfOpens items now r))) \<and>
    set (fst (claimHalfOpens items now r)) \<subseteq> set items \<and>
    (\<forall>item \<in> set (fst (claimHalfOpens items now r)). member_state r now (it_ID item) = EXPIRED) \<and>
    (rs_ProbeItemID r = 0 \<longrightarrow>
       (\<forall>item \<in> set items. member_state r now (it_ID item) = EXPIRED \<longrightarrow>
          it_ID item \<in> it_ID ` set (fst (claimHalfOpens items now r)))) \<and>
    (\<forall>j. member_state (snd (claimHalfOpens items now r)) now j =
      (if j \<in> it_ID ` set (fst (claimHalfOpens items now r)) then HALF_OPEN else member_state r now j))"
proof (induction items arbitrary: r)
  case (Cons item items)
  let ?r1 = "snd (claimHalfOpenLocked r (it_ID item) now)"
  let ?ok = "fst (claimHalfOpenLocked r (it_ID item) now)"
  note s = claim_half_open_spec [OF assms, of r "it_ID item"]
  note IH = Cons.IH [of ?r1]
  have "it_ID item \<notin> it_ID ` set (fst (claimHalfOpens items now ?r1))" if ?ok
    using IH s(2) that by fastforce
  then show ?case
    using IH s by (fastforce simp: case_prod_unfold split: if_splits)
qed simp

end
