(* ===== verification/Route_World.thy ===== *)
theory Route_World
  imports Route_Pick
begin

text \<open>
  Routing as a state machine: every critical section under \<^verbatim>\<open>routeMu\<close> (\<^verbatim>\<open>route.go\<close>, \<^verbatim>\<open>prober.go\<close>,
  \<^verbatim>\<open>sticky.go\<close>) is a step of the relation \<open>routing_step\<close>, requests interleave at the granularity of
  these sections, and the invariant \<open>world_ok\<close> holds in every reachable world. The operations that
  release the lock in between (\<open>pickGroupItemSkipping\<close>, the resolution of group references) are
  shown to be runs of this relation.
\<close>

subsection \<open>Publication\<close>

interpretation rb: broadcaster rw_streams publishRouteLocked "\<lambda>r w. cloneRouteState r" routeStreamBuffer
  by unfold_locales (simp add: publishRouteLocked_def)

definition world_ok :: "relay_world \<Rightarrow> bool" where
  "world_ok w \<longleftrightarrow> mwf (rw_routes w) \<and> (\<forall>(gid, r) \<in> set (rw_routes w). route_ok r) \<and>
     sticky_ok (rw_stickies w) \<and> streams_ok routeStreamBuffer (rw_streams w)"

lemma world_ok_init [simp, intro]: "world_ok init_world"
  by (simp add: world_ok_def init_world_def sticky_ok_def sessionStickyTotalLocked_def streams_ok_def)

lemma world_ok_route: "world_ok w \<Longrightarrow> map_of (rw_routes w) gid = Some r \<Longrightarrow> route_ok r"
  by (auto simp: world_ok_def dest: map_of_SomeD)

lemma set_route_fields [simp]:
  "rw_routes (set_route gid r w) = mput gid r (rw_routes w)"
  "rw_streams (set_route gid r w) = rw_streams w"
  "rw_stickies (set_route gid r w) = rw_stickies w"
  by (simp_all add: set_route_def)

lemma publish_fields [simp]:
  "rw_routes (publishRouteLocked r w) = rw_routes w"
  "rw_stickies (publishRouteLocked r w) = rw_stickies w"
  by (simp_all add: publishRouteLocked_def)

lemma commit_fields [simp]:
  "rw_routes (commit_route gid r changed w) = mput gid r (rw_routes w)"
  "rw_stickies (commit_route gid r changed w) = rw_stickies w"
  by (simp_all add: commit_route_def)

lemma set_route_world_ok: "world_ok w \<Longrightarrow> route_ok r \<Longrightarrow> world_ok (set_route gid r w)"
  using set_mput_subset [of gid r "rw_routes w"] by (auto simp: world_ok_def)

lemma commit_world_ok: "world_ok w \<Longrightarrow> route_ok r \<Longrightarrow> world_ok (commit_route gid r changed w)"
  using set_route_world_ok [of w r gid] rb.pub_keeps_ok [of "set_route gid r w" r]
  by (auto simp: commit_route_def world_ok_def)

lemma group_route_world_ok:
  assumes "world_ok w"
  shows "route_ok (fst (groupRouteLocked g w)) \<and> world_ok (snd (groupRouteLocked g w))"
  using assms
  by (auto simp: groupRouteLocked_def Let_def split: option.splits
      intro!: prune_route_ok set_route_world_ok dest: world_ok_route)

subsection \<open>Every critical section keeps the invariant\<close>

lemma sticky_frame:
  "world_ok w \<Longrightarrow> (sticky_ok (rw_stickies w) \<Longrightarrow> sticky_ok (rw_stickies w')) \<Longrightarrow> rw_routes w' = rw_routes w \<Longrightarrow> rw_streams w' = rw_streams w \<Longrightarrow>
   world_ok w'"
  by (simp add: world_ok_def)

lemma pickLocked_world_ok:
  "world_ok w \<Longrightarrow> world_ok (snd (snd (pickLocked env g exclude skipped format now w)))"
  using group_route_world_ok [of w g]
  unfolding pickLocked_def case_prod_unfold Let_def fresh_affinity_def [symmetric]
  by (auto intro!: commit_world_ok pick_from_scan_ok skip_current_ok fresh_affinity_ok)

lemma emergency_world_ok:
  assumes "world_ok w"
  shows "world_ok (snd (claimEmergencyItemSkipping env g exclude skipped now w))"
proof -
  let ?r = "fst (groupRouteLocked g w)"
  obtain item r' pub where c: "claimEmergencyLocked env ?r g exclude skipped now = (item, r', pub)"
    using prod_cases3 by blast
  have ok: "route_ok ?r" using group_route_world_ok [OF assms] by simp
  moreover have "maps_ok r'"
    using ok c by (auto simp: claimEmergencyLocked_def Let_def route_ok_def maps_ok_def split: if_splits)
  ultimately have "route_ok r'" using claim_emergency_ok [OF _ c] by (simp add: route_ok_def)
  then show ?thesis
    using c group_route_world_ok [OF assms, of g]
    by (simp add: claimEmergencyItemSkipping_def case_prod_unfold commit_world_ok)
qed

lemma half_open_drop_ok: "route_ok r \<Longrightarrow> route_ok (r\<lparr>rs_HalfOpens := mdel i (rs_HalfOpens r)\<rparr>)"
  by (simp add: route_ok_def maps_ok_def emergency_ok_def)

lemma set_probe_ok: "route_ok r \<Longrightarrow> route_ok (r\<lparr>rs_ProbeItemID := i\<rparr>)"
  by (simp add: route_ok_def maps_ok_def emergency_ok_def)

lemma fold_route_ok:
  "(\<And>x r. route_ok r \<Longrightarrow> route_ok (f x r)) \<Longrightarrow> route_ok r \<Longrightarrow> route_ok (fold f xs r)"
  by (induction xs arbitrary: r) auto

lemma recover_route_ok: "route_ok r \<Longrightarrow> route_ok (recover_route config candidates winner cancelled now r)"
  by (auto simp: recover_route_def intro!: set_probe_ok fold_route_ok half_open_drop_ok reopen_ok)

lemma recover_world_ok:
  "world_ok w \<Longrightarrow> world_ok (snd (recoverExpired_finish g candidates winner cancelled now w))"
  by (auto simp: recoverExpired_finish_def split: option.splits
      intro!: commit_world_ok recover_route_ok dest: world_ok_route)

lemma success_world_ok: "world_ok w \<Longrightarrow> world_ok (recordRouteSuccess g i now w)"
  by (auto simp: recordRouteSuccess_def case_prod_unfold split: option.splits
      intro!: commit_world_ok success_route_ok dest: world_ok_route)

lemma failure_world_ok: "world_ok w \<Longrightarrow> world_ok (snd (recordRouteFailureWithLimit g i failures threshold now w))"
  by (auto simp: recordRouteFailureWithLimit_def case_prod_unfold split: option.splits
      intro!: commit_world_ok failure_route_ok dest: world_ok_route)

lemma postcommit_world_ok: "world_ok w \<Longrightarrow> world_ok (snd (recordPostCommitFailure g i now w))"
  using group_route_world_ok [of w g]
  by (auto simp: recordPostCommitFailure_def case_prod_unfold intro!: commit_world_ok postcommit_route_ok)

lemma release_world_ok: "world_ok w \<Longrightarrow> world_ok (releaseRouteProbe g i w)"
  by (auto simp: releaseRouteProbe_def case_prod_unfold split: option.splits
      intro!: commit_world_ok release_probe_route_ok dest: world_ok_route)

lemma release_hold_world_ok: "world_ok w \<Longrightarrow> world_ok (releaseProbeHold h w)"
  by (auto simp: releaseProbeHold_def Let_def split: option.splits
      intro!: commit_world_ok half_open_drop_ok set_probe_ok [of "_\<lparr>rs_HalfOpens := _\<rparr>"] dest: world_ok_route)

lemma probe_expired_world_ok: "world_ok w \<Longrightarrow> world_ok (snd (ProbeExpiredItems g now w))"
  using group_route_world_ok [of w g]
  by (auto simp: ProbeExpiredItems_def case_prod_unfold intro!: commit_world_ok claim_half_opens_ok)

lemma async_probe_world_ok: "world_ok w \<Longrightarrow> world_ok (runAsyncProbe_finish g item ok now w)"
  by (auto simp: runAsyncProbe_finish_def split: option.splits
      intro!: commit_world_ok restore_ok reopen_ok dest: world_ok_route)

lemma reset_route_ok:
  "route_ok r \<Longrightarrow> route_ok (syncEmergencySummaryLocked
     (r\<lparr>rs_Cooldowns := [], rs_Levels := [], rs_PostCommitStrikes := [], rs_emergencyBlocks := []\<rparr>))"
  unfolding route_ok_def
  by (intro conjI sync_emergency_ok) (auto simp: maps_ok_def emergency_ok_def)

lemma reset_world_ok: "world_ok w \<Longrightarrow> world_ok (snd (ResetGroupCooldown gid w))"
  by (auto simp: ResetGroupCooldown_def Let_def split: option.splits
      intro!: commit_world_ok reset_route_ok dest: world_ok_route)

lemma remove_world_ok: "world_ok w \<Longrightarrow> world_ok (RemoveGroupRoute gid w)"
  using clear_group_sticky_ok [of "w\<lparr>rw_routes := mdel gid (rw_routes w)\<rparr>" gid]
    set_mdel_subset [of gid "rw_routes w"]
  by (auto simp: RemoveGroupRoute_def world_ok_def clearSessionStickyByGroup_def)

lemma pick_sticky_world_ok:
  "world_ok w \<Longrightarrow> world_ok (snd (pickSessionStickyLocked env g k exclude skipped now w))"
  by (erule sticky_frame, erule pick_sticky_ok)
    (simp_all add: pickSessionStickyLocked_def Let_def split: option.splits)

lemma bind_sticky_world_ok: "world_ok w \<Longrightarrow> world_ok (bindSessionSticky g k i now w)"
  by (erule sticky_frame, erule bind_sticky_ok) (simp_all add: bindSessionSticky_def Let_def)

lemma clear_item_world_ok: "world_ok w \<Longrightarrow> world_ok (clearSessionStickyByItem gid i w)"
  by (erule sticky_frame, erule clear_item_sticky_ok) (simp_all add: clearSessionStickyByItem_def)

lemma prune_sticky_world_ok: "world_ok w \<Longrightarrow> world_ok (snd (PruneExpiredSessionStickies now w))"
  by (simp add: PruneExpiredSessionStickies_def Let_def world_ok_def keep_sessions_ok)

lemma open_world_ok: "world_ok w \<Longrightarrow> world_ok (snd (OpenRouteStream w))"
  by (auto simp: OpenRouteStream_def case_prod_unfold world_ok_def)

lemma close_world_ok: "world_ok w \<Longrightarrow> world_ok (CloseRouteStream s w)"
  by (auto simp: CloseRouteStream_def world_ok_def)

lemmas world_ok_steps =
  pickLocked_world_ok emergency_world_ok recover_world_ok success_world_ok failure_world_ok
  postcommit_world_ok release_world_ok release_hold_world_ok probe_expired_world_ok async_probe_world_ok
  reset_world_ok remove_world_ok pick_sticky_world_ok bind_sticky_world_ok clear_item_world_ok
  prune_sticky_world_ok open_world_ok close_world_ok

subsection \<open>The state machine\<close>

inductive routing_step :: "relay_world \<Rightarrow> relay_world \<Rightarrow> bool" where
  pick: "routing_step w (snd (snd (pickLocked env g exclude skipped format now w)))"
| emergency: "routing_step w (snd (claimEmergencyItemSkipping env g exclude skipped now w))"
| recover: "routing_step w (snd (recoverExpired_finish g candidates winner cancelled now w))"
| success: "routing_step w (recordRouteSuccess g i now w)"
| failure: "routing_step w (snd (recordRouteFailureWithLimit g i failures threshold now w))"
| postcommit: "routing_step w (snd (recordPostCommitFailure g i now w))"
| release: "routing_step w (releaseRouteProbe g i w)"
| release_hold: "routing_step w (releaseProbeHold h w)"
| probe_expired: "routing_step w (snd (ProbeExpiredItems g now w))"
| async_probe: "routing_step w (runAsyncProbe_finish g item ok now w)"
| reset: "routing_step w (snd (ResetGroupCooldown gid w))"
| remove: "routing_step w (RemoveGroupRoute gid w)"
| pick_sticky: "routing_step w (snd (pickSessionStickyLocked env g k exclude skipped now w))"
| bind_sticky: "routing_step w (bindSessionSticky g k i now w)"
| clear_item: "routing_step w (clearSessionStickyByItem gid i w)"
| prune_sticky: "routing_step w (snd (PruneExpiredSessionStickies now w))"
| open_route: "routing_step w (snd (OpenRouteStream w))"
| close_route: "routing_step w (CloseRouteStream s w)"

inductive_cases routing_stepE: "routing_step w w'"

lemma routing_step_world_ok: "routing_step w w' \<Longrightarrow> world_ok w \<Longrightarrow> world_ok w'"
  by (induction rule: routing_step.induct) (erule world_ok_steps)+

lemma routing_run_world_ok: "routing_step\<^sup>*\<^sup>* w w' \<Longrightarrow> world_ok w \<Longrightarrow> world_ok w'"
  by (induction rule: rtranclp_induct) (auto intro: routing_step_world_ok)

lemma run_snoc: "routing_step\<^sup>*\<^sup>* a b \<Longrightarrow> routing_step b c \<Longrightarrow> routing_step\<^sup>*\<^sup>* a c"
  by (rule rtranclp.rtrancl_into_rtrancl)



subsection \<open>Operations that release the lock\<close>

text \<open>What other requests do while this one probes is itself a run.\<close>

definition oracle_runs :: "pick_oracle \<Rightarrow> bool" where
  "oracle_runs po \<longleftrightarrow> (\<forall>w. routing_step\<^sup>*\<^sup>* w (po_between po w))"

lemma recover_run:
  "oracle_runs po \<Longrightarrow> routing_step\<^sup>*\<^sup>* w w1 \<Longrightarrow>
   routing_step\<^sup>*\<^sup>* w (snd (recoverExpired_finish g expired winner cancelled now (po_between po w1)))"
  unfolding oracle_runs_def by (meson routing_step.recover rtranclp.rtrancl_into_rtrancl rtranclp_trans)

lemma emergency_run:
  "routing_step\<^sup>*\<^sup>* w w1 \<Longrightarrow> routing_step\<^sup>*\<^sup>* w (snd (claimEmergencyItemSkipping env g exclude skipped now w1))"
  by (erule run_snoc) (rule routing_step.emergency)

lemma pick_run: "routing_step\<^sup>*\<^sup>* w (snd (snd (pickLocked env g exclude skipped format now w)))"
  by (rule r_into_rtranclp) (rule routing_step.pick)

lemma pick_group_run:
  assumes "oracle_runs po"
  shows "routing_step\<^sup>*\<^sup>* w (snd (pickGroupItemSkipping env po g exclude skipped format now w))"
proof (cases "g_Mode g = GroupModeManual")
  case True
  then show ?thesis by (simp add: pickGroupItemSkipping_def split: option.splits)
next
  case False
  obtain phase started w1 where p: "pickLocked env g exclude skipped format now w = (phase, started, w1)"
    using prod_cases3 by blast
  have w1: "routing_step\<^sup>*\<^sup>* w w1" using pick_run [of w env g exclude skipped format now] p by simp
  show ?thesis
    using False p w1 assms
    by (cases phase) (auto simp: pickGroupItemSkipping_def case_prod_unfold intro: emergency_run recover_run)
qed

lemma hop_run:
  assumes "oracle_runs po"
  shows "routing_step\<^sup>*\<^sup>* w (snd (pickRefChainHopSkipping env po g k exclude skipped format now w))"
proof -
  have "routing_step\<^sup>*\<^sup>* w (snd (pickSessionStickyLocked env g k exclude skipped now w))"
    by (rule r_into_rtranclp) (rule routing_step.pick_sticky)
  then show ?thesis
    using pick_group_run [OF assms] by (auto simp: pickRefChainHopSkipping_def Let_def case_prod_unfold
        intro: rtranclp_trans)
qed

subsection \<open>Chains of group references\<close>

text \<open>
  A chain: consecutive hops are linked by the name the previous member refers to, and no group
  occurs twice.
\<close>

definition linked :: "route_env \<Rightarrow> refHop \<Rightarrow> refHop \<Rightarrow> bool" where
  "linked env h h' \<longleftrightarrow> IsGroupRef (hop_item h) \<and>
     env_group env (it_RefGroupName (hop_item h)) = Some (hop_group h') \<and> it_ID (hop_item h') \<noteq> 0"

definition chain_ok :: "route_env \<Rightarrow> refHop list \<Rightarrow> bool" where
  "chain_ok env hops \<longleftrightarrow> hops \<noteq> [] \<and> successively (linked env) hops \<and>
     distinct (map (g_ID \<circ> hop_group) hops) \<and> length hops \<le> MaxGroupRefDepth + 1"

lemma chain_ok_snoc:
  assumes "chain_ok env hops" and "linked env (last hops) h" and "g_ID (hop_group h) \<notin> set (map (g_ID \<circ> hop_group) hops)"
    and "length hops \<le> MaxGroupRefDepth"
  shows "chain_ok env (hops @ [h])"
  using assms by (auto simp: chain_ok_def successively_append_iff)

lemma resolve_loop_spec:
  assumes "oracle_runs po" and "chain_ok env hops" and "hop_item (last hops) = item"
    and "visited = map (g_ID \<circ> hop_group) hops"
    and "resolve_loop env po k exclude skipped format now visited hops item w = ((hops', failed), w')"
  shows "chain_ok env hops' \<and> (\<exists>tail. hops' = hops @ tail) \<and> routing_step\<^sup>*\<^sup>* w w' \<and>
    (case failed of
       None \<Rightarrow> \<not> IsGroupRef (hop_item (last hops'))
     | Some idx \<Rightarrow> idx = length hops' - 1 \<and> IsGroupRef (hop_item (last hops')))"
  using assms
proof (induction env po k exclude skipped format now visited hops item w rule: resolve_loop.induct)
  case (1 env po k exclude skipped format now visited hops item w)
  note step = "1.prems"(5) [unfolded resolve_loop.simps [of env po k exclude skipped format now visited]]
  show ?case
  proof (cases "IsGroupRef item \<and> \<not> MaxGroupRefDepth \<le> length visited - 1")
    case stop: False
    with step "1.prems" show ?thesis by (auto simp: Let_def split: if_splits)
  next
    case go: True
    show ?thesis
    proof (cases "\<exists>g. env_group env (it_RefGroupName item) = Some g \<and> g_ID g \<notin> set visited")
      case False
      with step go "1.prems" show ?thesis by (auto simp: Let_def split: option.splits if_splits)
    next
      case True
      then obtain g where g: "env_group env (it_RefGroupName item) = Some g" "g_ID g \<notin> set visited" by blast
      obtain nextItem w1 where hop: "pickRefChainHopSkipping env po g k exclude skipped format now w = (nextItem, w1)"
        by fastforce
      have w1: "routing_step\<^sup>*\<^sup>* w w1"
        using hop_run [OF "1.prems"(1), of w env g k exclude skipped format now] hop by simp
      show ?thesis
      proof (cases "it_ID nextItem = 0")
        case True
        with step go g hop w1 "1.prems" show ?thesis by (auto simp: Let_def)
      next
        case False
        let ?h = "\<lparr>hop_group = g, hop_item = nextItem\<rparr>"
        have ne: "hops \<noteq> []" using "1.prems"(2) by (simp add: chain_ok_def)
        have "length hops \<le> MaxGroupRefDepth" using go "1.prems"(4) by auto
        then have "chain_ok env (hops @ [?h])"
          using False go g "1.prems" by (intro chain_ok_snoc) (auto simp: linked_def)
        moreover have "resolve_loop env po k exclude skipped format now (visited @ [g_ID g]) (hops @ [?h]) nextItem w1
            = ((hops', failed), w')"
          using step go g hop False by (simp add: Let_def)
        ultimately show ?thesis
          using "1.IH" [OF _ refl _ g hop [symmetric] False "1.prems"(1)] go "1.prems"(4) w1
          by (fastforce intro: rtranclp_trans)
      qed
    qed
  qed
qed

text \<open>
  C13. Group references resolve (\<^verbatim>\<open>resolveGroupRefChainSkipping\<close>). The loop always ends; the chain
  it returns starts with the member it was given, visits no group twice (so cycles of references
  are cut), has at most nine hops (\<^verbatim>\<open>MaxGroupRefDepth\<close> is 8), each hop being a member of the group the
  previous member names; on success it ends in a member that is not a reference, on failure the
  index reported is that of the last hop, which is one. The shared state changes only by
  routing steps.
\<close>

theorem ref_chain_resolves:
  assumes "oracle_runs po"
    and "resolveGroupRefChainSkipping env po topg first k exclude skipped format now w = ((hops, failed), w')"
  shows "hop_group (hd hops) = topg \<and> hop_item (hd hops) = first \<and> successively (linked env) hops \<and>
    distinct (map (g_ID \<circ> hop_group) hops) \<and> 1 \<le> length hops \<and> length hops \<le> 9 \<and> routing_step\<^sup>*\<^sup>* w w' \<and>
    (case failed of
       None \<Rightarrow> \<not> IsGroupRef (hop_item (last hops))
     | Some idx \<Rightarrow> idx = length hops - 1 \<and> IsGroupRef (hop_item (last hops)))"
proof -
  have "chain_ok env [\<lparr>hop_group = topg, hop_item = first\<rparr>]" by (simp add: chain_ok_def)
  from resolve_loop_spec [OF assms(1) this _ _ assms(2) [unfolded resolveGroupRefChainSkipping_def]]
  show ?thesis by (auto simp: chain_ok_def MaxGroupRefDepth_def)
qed

subsection \<open>Probing\<close>


text \<open>A group whose member 10 has cooled down and member 20 is still cooling.\<close>

definition demo_probe_group :: Group where
  "demo_probe_group = demo_group\<lparr>g_RelayConfig := DefaultGroupRelayConfig\<lparr>BackgroundProbeEnabled := True\<rparr>\<rparr>"


subsection \<open>Reports\<close>

text \<open>
  C10. The failure of a round (\<^verbatim>\<open>recordRouteFailureWithLimit\<close>) moves exactly one member. A member
  on probation (HALF-OPEN, or recovered and waiting for confirmation) goes back to OPEN at the
  threshold and to CLOSED below it; any other member keeps its state below the threshold and
  becomes OPEN at it; no other member changes state. The result tells the caller whether to leave
  the member.
\<close>

theorem failure_transition:
  assumes "recordRouteFailureWithLimit g i failures threshold now w = (leave, w')"
    and "g_Mode g = GroupModeFailover" and "valid_config (g_RelayConfig g)"
    and "map_of (rw_routes w) (g_ID g) = Some r"
  shows "(leave \<longleftrightarrow> rs_ProbeItemID r = i \<or> 0 < mget0 (rs_HalfOpens r) i \<or> max threshold 1 \<le> failures) \<and>
    (\<exists>r'. map_of (rw_routes w') (g_ID g) = Some r' \<and>
      (\<forall>j. member_state r' now j =
        (if j \<noteq> i then member_state r now j
         else if rs_ProbeItemID r = i \<or> 0 < mget0 (rs_HalfOpens r) i
         then (if max threshold 1 \<le> failures then OPEN else CLOSED)
         else if failures < max threshold 1 then member_state r now i else OPEN)))"
proof -
  obtain res r' pub where f: "recordRouteFailure_route (g_RelayConfig g) i failures (max threshold 1) now r = (res, r', pub)"
    using prod_cases3 by blast
  have w': "leave = res" "w' = commit_route (g_ID g) r' pub w"
    using assms f by (simp_all add: recordRouteFailureWithLimit_def)
  have "leave \<longleftrightarrow> rs_ProbeItemID r = i \<or> 0 < mget0 (rs_HalfOpens r) i \<or> max threshold 1 \<le> failures"
    using f unfolding w' by (auto simp: recordRouteFailure_route_def case_prod_unfold split: if_splits)
  moreover have "map_of (rw_routes w') (g_ID g) = Some r'" unfolding w' by simp
  ultimately show ?thesis using failure_member_state [OF assms(3) f] by blast
qed

theorem failure_transition_witness:
  "\<exists>w'. recordRouteFailureWithLimit demo_group 20 1 1 5000 demo_world = (True, w') \<and>
    (\<exists>r'. map_of (rw_routes w') 1 = Some r' \<and> member_state r' 5000 20 = OPEN)"
proof -
  let ?r = "(fresh_route 1)\<lparr>rs_Cooldowns := [(10, 9000)], rs_Levels := [(10, 1)]\<rparr>"
  obtain leave w' where f: "recordRouteFailureWithLimit demo_group 20 1 1 5000 demo_world = (leave, w')" by fastforce
  have r: "map_of (rw_routes demo_world) (g_ID demo_group) = Some ?r" by (simp add: demo_world_def)
  have h: "rs_HalfOpens ?r = []" "rs_ProbeItemID ?r = 0" by (simp_all add: fresh_route_def)
  from failure_transition [OF f demo_fields(5) _ r] valid_default
  have "leave \<and> (\<exists>r'. map_of (rw_routes w') 1 = Some r' \<and> member_state r' 5000 20 = OPEN)"
    unfolding h demo_fields by auto
  with f show ?thesis by (cases leave) auto
qed

text \<open>
  C11. A success (\<^verbatim>\<open>recordRouteSuccess\<close>) closes the breaker of a member on probation, leaves every
  other member's state alone, and never makes a cooling member current.
\<close>

theorem success_transition:
  assumes "g_Mode g = GroupModeFailover" and "map_of (rw_routes w) (g_ID g) = Some r"
  shows "\<exists>r'. map_of (rw_routes (recordRouteSuccess g i now w)) (g_ID g) = Some r' \<and>
    (\<forall>t j. member_state r' t j =
      (if j = i \<and> (rs_ProbeItemID r = i \<or> 0 < mget0 (rs_HalfOpens r) i) then CLOSED else member_state r t j)) \<and>
    (breaker_ok r \<longrightarrow> breaker_ok r')"
proof -
  let ?r' = "fst (recordRouteSuccess_route (g_RelayConfig g) i now r)"
  have "map_of (rw_routes (recordRouteSuccess g i now w)) (g_ID g) = Some ?r'"
    using assms by (simp add: recordRouteSuccess_def case_prod_unfold)
  then show ?thesis using success_member_state success_breaker_ok by blast
qed

theorem success_transition_witness:
  "\<exists>r'. map_of (rw_routes (recordRouteSuccess demo_group 20 5000 demo_world)) 1 = Some r' \<and>
    member_state r' 5000 20 = CLOSED \<and> member_state r' 5000 10 = OPEN"
proof -
  let ?r = "(fresh_route 1)\<lparr>rs_Cooldowns := [(10, 9000)], rs_Levels := [(10, 1)]\<rparr>"
  have r: "map_of (rw_routes demo_world) (g_ID demo_group) = Some ?r" by (simp add: demo_world_def)
  have h: "member_state ?r 5000 20 = CLOSED" "member_state ?r 5000 10 = OPEN"
    by (simp_all add: fresh_route_def member_state_def)
  from success_transition [OF demo_fields(5) r, of 20 5000] show ?thesis
    using h unfolding demo_fields by (metis zero_neq_numeral num.distinct(5) numeral_eq_iff)
qed

theorem ref_chain_resolves_witness:
  "\<exists>hops failed w'. resolveGroupRefChainSkipping demo_env demo_oracle demo_group (demo_item 10) [] 0 [] [] 5000 demo_world
      = ((hops, failed), w') \<and> 1 \<le> length hops \<and> length hops \<le> 9 \<and> hop_item (hd hops) = demo_item 10"
proof -
  have run: "oracle_runs demo_oracle" by (simp add: oracle_runs_def demo_oracle_def)
  obtain hops failed w' where c: "resolveGroupRefChainSkipping demo_env demo_oracle demo_group (demo_item 10) [] 0 [] []
      5000 demo_world = ((hops, failed), w')" by (metis surj_pair)
  from ref_chain_resolves [OF run c] c show ?thesis by blast
qed

subsection \<open>The breaker over whole runs\<close>

definition breaker_world :: "relay_world \<Rightarrow> bool" where
  "breaker_world w \<longleftrightarrow> (\<forall>(gid, r) \<in> set (rw_routes w). breaker_ok r)"

lemma breaker_world_route: "breaker_world w \<Longrightarrow> map_of (rw_routes w) gid = Some r \<Longrightarrow> breaker_ok r"
  by (auto simp: breaker_world_def dest: map_of_SomeD)

lemma commit_breaker: "breaker_world w \<Longrightarrow> breaker_ok r \<Longrightarrow> breaker_world (commit_route gid r changed w)"
  using set_mput_subset [of gid r "rw_routes w"] by (auto simp: breaker_world_def)

lemma group_route_breaker:
  assumes "breaker_world w"
  shows "breaker_ok (fst (groupRouteLocked g w)) \<and> breaker_world (snd (groupRouteLocked g w))"
proof -
  have "breaker_ok (fst (groupRouteLocked g w))"
    using assms by (auto simp: groupRouteLocked_def Let_def split: option.splits
        intro!: prune_breaker_ok dest: breaker_world_route)
  then show ?thesis
    using commit_breaker [OF assms, of "fst (groupRouteLocked g w)" "g_ID g" False]
    by (simp add: groupRouteLocked_def Let_def commit_route_def)
qed

lemma fold_breaker:
  "(\<And>x r. x \<in> set xs \<Longrightarrow> breaker_ok r \<Longrightarrow> breaker_ok (f x r)) \<Longrightarrow> breaker_ok r \<Longrightarrow> breaker_ok (fold f xs r)"
  by (induction xs arbitrary: r) auto

lemma half_open_drop_breaker: "breaker_ok r \<Longrightarrow> breaker_ok (r\<lparr>rs_HalfOpens := mdel i (rs_HalfOpens r)\<rparr>)"
  by (simp add: breaker_ok_def)

lemma set_probe_breaker [simp]: "breaker_ok (r\<lparr>rs_ProbeItemID := i\<rparr>) = breaker_ok r"
  by (simp add: breaker_ok_def)

lemma fold_reopen_breaker:
  "breaker_ok r \<Longrightarrow> distinct (map it_ID items) \<Longrightarrow> \<forall>c \<in> set items. mhas (rs_HalfOpens r) (it_ID c) \<Longrightarrow>
   breaker_ok (fold (\<lambda>item r. reopenItemLocked r config (it_ID item) now) items r)"
proof (induction items arbitrary: r)
  case (Cons item items)
  let ?r = "reopenItemLocked r config (it_ID item) now"
  have "breaker_ok ?r" using Cons.prems by (simp add: reopen_breaker_ok)
  moreover have "\<forall>c \<in> set items. mhas (rs_HalfOpens ?r) (it_ID c)"
    using Cons.prems by (auto simp: reopenItemLocked_def Let_def) (metis imageI)
  ultimately show ?case using Cons by simp
qed simp

lemma recover_breaker:
  assumes "breaker_ok r"
    and "it_ID winner \<noteq> 0 \<or> cancelled \<or>
      distinct (map it_ID candidates) \<and> (\<forall>c \<in> set candidates. mhas (rs_HalfOpens r) (it_ID c))"
  shows "breaker_ok (recover_route config candidates winner cancelled now r)"
proof -
  consider "it_ID winner \<noteq> 0" | "it_ID winner = 0" "cancelled"
    | "it_ID winner = 0" "\<not> cancelled" "distinct (map it_ID candidates)"
      "\<forall>c \<in> set candidates. mhas (rs_HalfOpens r) (it_ID c)"
    using assms(2) by blast
  then show ?thesis
    using assms(1)
    by cases (simp_all add: recover_route_def fold_breaker half_open_drop_breaker fold_reopen_breaker)
qed

text \<open>
  The steps of \<open>routing_step\<close> with one guard the code does not check: when every probe of a recovery
  failed, the candidates are still HALF-OPEN (no report of a request has closed one meanwhile). The
  administrative reset, which forgets cooldowns under running probes, is left out.
\<close>

inductive guarded_step :: "relay_world \<Rightarrow> relay_world \<Rightarrow> bool" where
  g_pick: "guarded_step w (snd (snd (pickLocked env g exclude skipped format now w)))"
| g_emergency: "guarded_step w (snd (claimEmergencyItemSkipping env g exclude skipped now w))"
| g_recover: "(\<And>r. map_of (rw_routes w) (g_ID g) = Some r \<Longrightarrow> it_ID winner \<noteq> 0 \<or> cancelled \<or>
      distinct (map it_ID candidates) \<and> (\<forall>c \<in> set candidates. mhas (rs_HalfOpens r) (it_ID c))) \<Longrightarrow>
    guarded_step w (snd (recoverExpired_finish g candidates winner cancelled now w))"
| g_success: "guarded_step w (recordRouteSuccess g i now w)"
| g_failure: "guarded_step w (snd (recordRouteFailureWithLimit g i failures threshold now w))"
| g_postcommit: "guarded_step w (snd (recordPostCommitFailure g i now w))"
| g_release: "guarded_step w (releaseRouteProbe g i w)"
| g_release_hold: "guarded_step w (releaseProbeHold h w)"
| g_probe_expired: "guarded_step w (snd (ProbeExpiredItems g now w))"
| g_async_probe: "guarded_step w (runAsyncProbe_finish g item ok now w)"
| g_remove: "guarded_step w (RemoveGroupRoute gid w)"
| g_frame: "routing_step w w' \<Longrightarrow> rw_routes w' = rw_routes w \<Longrightarrow> guarded_step w w'"

lemma guarded_step_routing: "guarded_step w w' \<Longrightarrow> routing_step w w'"
  by (induction rule: guarded_step.induct) (auto intro: routing_step.intros)

lemma guarded_step_breaker: "guarded_step w w' \<Longrightarrow> breaker_world w \<Longrightarrow> breaker_world w'"
proof (induction rule: guarded_step.induct)
  case (g_pick w env g exclude skipped format now)
  then show ?case using group_route_breaker [of w g]
    unfolding pickLocked_def case_prod_unfold Let_def fresh_affinity_def [symmetric]
    by (auto intro!: commit_breaker pick_from_scan_breaker skip_current_breaker simp: fresh_affinity_breaker)
next
  case (g_emergency w env g exclude skipped now)
  then show ?case using group_route_breaker [of w g]
    unfolding claimEmergencyItemSkipping_def case_prod_unfold snd_conv
    by (intro commit_breaker) (auto simp: claimEmergencyLocked_def Let_def breaker_ok_def)
next
  case (g_recover w g winner cancelled candidates now)
  then show ?case
    by (auto simp: recoverExpired_finish_def split: option.splits
        intro!: commit_breaker recover_breaker dest: breaker_world_route)
next
  case (g_release_hold w h)
  then show ?case
    by (auto simp: releaseProbeHold_def Let_def split: option.splits
        intro!: commit_breaker half_open_drop_breaker dest: breaker_world_route)
next
  case (g_async_probe w g item ok now)
  then show ?case
    by (auto simp: runAsyncProbe_finish_def split: option.splits
        intro!: commit_breaker restore_breaker_ok reopen_breaker_ok
        dest: breaker_world_route intro: ccontr [of "mhas _ _"] mget0_not_has)
next
  case (g_remove w gid)
  then show ?case using set_mdel_subset [of gid "rw_routes w"]
    by (auto simp: RemoveGroupRoute_def clearSessionStickyByGroup_def breaker_world_def)
next
  case (g_probe_expired w g now)
  then show ?case using group_route_breaker [of w g]
    by (auto simp: ProbeExpiredItems_def case_prod_unfold intro!: commit_breaker claim_half_opens_breaker_ok)
next
  case (g_postcommit w g i now)
  then show ?case using group_route_breaker [of w g]
    by (auto simp: recordPostCommitFailure_def case_prod_unfold intro!: commit_breaker postcommit_breaker_ok)
next
  case (g_frame w w')
  then show ?case by (simp add: breaker_world_def)
qed (auto simp: recordRouteSuccess_def recordRouteFailureWithLimit_def releaseRouteProbe_def case_prod_unfold
    split: option.splits dest: breaker_world_route
    intro!: commit_breaker success_breaker_ok failure_breaker_ok release_probe_breaker_ok)

lemma guarded_run_breaker: "guarded_step\<^sup>*\<^sup>* w w' \<Longrightarrow> breaker_world w \<Longrightarrow> breaker_world w'"
  by (induction rule: rtranclp_induct) (auto intro: guarded_step_breaker)



text \<open>
  A history in which the guard fails. Member 10 and member 20 fail and cool; after the cooldown a request claims both
  for recovery; while it probes, a long request that still runs on member 10 succeeds, which closes
  member 10 and pins it; then both probes fail and \<^verbatim>\<open>recoverExpiredItems\<close> re-opens both. Member 10 is
  now OPEN, yet the next request is sent to it.
\<close>

definition demo_race :: relay_world where
  "demo_race =
    (let w1 = snd (snd (pickLocked demo_env demo_group 20 [] [] 1000 init_world));
         w2 = snd (recordRouteFailureWithLimit demo_group 10 1 1 2000 w1);
         w3 = snd (recordRouteFailureWithLimit demo_group 20 1 1 2000 w2);
         w4 = snd (snd (pickLocked demo_env demo_group 0 [] [] 900000 w3));
         w5 = recordRouteSuccess demo_group 10 900100 w4
     in snd (recoverExpired_finish demo_group [demo_item 10, demo_item 20] zero_GroupItem False 900200 w5))"

lemma demo_race_reachable: "routing_step\<^sup>*\<^sup>* init_world demo_race"
  unfolding demo_race_def Let_def
  by (rule run_snoc [OF _ routing_step.recover], rule run_snoc [OF _ routing_step.success],
      rule run_snoc [OF _ routing_step.pick], rule run_snoc [OF _ routing_step.failure],
      rule run_snoc [OF _ routing_step.failure], rule run_snoc [OF _ routing_step.pick],
      rule rtranclp.rtrancl_refl)

text \<open>
  The guard of the previous property matters: a history of the code's own steps after which
  a member is OPEN and the next request is nevertheless sent to it, because \<^verbatim>\<open>recoverExpiredItems\<close>
  re-opened a member that a success had closed and made current meanwhile.
\<close>

lemma recovery_reopens_current:
  "routing_step\<^sup>*\<^sup>* init_world demo_race \<and>
   member_state (fst (groupRouteLocked demo_group demo_race)) 900300 10 = OPEN \<and>
   fst (pickLocked demo_env demo_group 0 [] [] 900300 demo_race) = PickReturn (demo_item 10)"
proof (intro conjI)
  show "member_state (fst (groupRouteLocked demo_group demo_race)) 900300 10 = OPEN" by code_simp
  show "fst (pickLocked demo_env demo_group 0 [] [] 900300 demo_race) = PickReturn (demo_item 10)" by code_simp
qed (rule demo_race_reachable)

end
