(* ===== verification/Utf8_Text.thy ===== *)
theory Utf8_Text
  imports Relay_Prelude
begin

text \<open>
  Byte strings as Go sees them, and the text helpers of \<^verbatim>\<open>internal/relay/state.go\<close> that work on them:
  \<^verbatim>\<open>truncateUTF8Bytes\<close> with its two users, and \<^verbatim>\<open>maskAPIKey\<close>. A string is a list of bytes (\<open>char\<close>);
  a rune is represented by its encoding, as accepted by the package \<^verbatim>\<open>unicode/utf8\<close>.
\<close>

subsection \<open>Runes\<close>

definition byte :: "char \<Rightarrow> nat" where
  "byte c = of_char c"

definition is_cont :: "char \<Rightarrow> bool" where
  "is_cont c \<longleftrightarrow> 128 \<le> byte c \<and> byte c < 192"

definition between :: "char \<Rightarrow> nat \<Rightarrow> nat \<Rightarrow> bool" where
  "between c lo hi \<longleftrightarrow> lo \<le> byte c \<and> byte c \<le> hi"

fun valid_rune :: "string \<Rightarrow> bool" where
  "valid_rune [a] = (byte a < 128)"
| "valid_rune [a, b] = (between a 0xC2 0xDF \<and> is_cont b)"
| "valid_rune [a, b, c] =
    ((between a 0xE0 0xE0 \<and> between b 0xA0 0xBF \<or>
      between a 0xE1 0xEC \<and> is_cont b \<or>
      between a 0xED 0xED \<and> between b 0x80 0x9F \<or>
      between a 0xEE 0xEF \<and> is_cont b) \<and> is_cont c)"
| "valid_rune [a, b, c, d] =
    ((between a 0xF0 0xF0 \<and> between b 0x90 0xBF \<or>
      between a 0xF1 0xF3 \<and> is_cont b \<or>
      between a 0xF4 0xF4 \<and> between b 0x80 0x8F) \<and> is_cont c \<and> is_cont d)"
| "valid_rune _ = False"

text \<open>A text is the concatenation of runes when it is valid UTF-8.\<close>

definition valid_utf8 :: "string \<Rightarrow> bool" where
  "valid_utf8 s \<longleftrightarrow> (\<exists>rs. (\<forall>r \<in> set rs. valid_rune r) \<and> s = concat rs)"

lemma valid_rune_length: "valid_rune r \<Longrightarrow> 1 \<le> length r \<and> length r \<le> 4"
  by (cases r rule: valid_rune.cases) auto

lemma valid_rune_lead: "valid_rune r \<Longrightarrow> \<not> is_cont (hd r)"
  by (cases r rule: valid_rune.cases) (auto simp: is_cont_def between_def)

lemma valid_rune_tail: "valid_rune r \<Longrightarrow> c \<in> set (tl r) \<Longrightarrow> is_cont c"
  by (cases r rule: valid_rune.cases) (auto simp: is_cont_def between_def)

lemma valid_rune_prefix: "valid_rune (p @ q) \<Longrightarrow> valid_rune p \<Longrightarrow> q = []"
  by (cases "p @ q" rule: valid_rune.cases; cases p rule: valid_rune.cases)
    (auto simp: between_def)

subsection \<open>Truncation\<close>

text \<open>
  \<^verbatim>\<open>utf8.DecodeLastRuneInString(cut)\<close> returns something other than \<^verbatim>\<open>(RuneError, 0)\<close> and
  \<^verbatim>\<open>(RuneError, 1)\<close>: the last bytes are the encoding of a rune.
\<close>

definition last_rune_ok :: "string \<Rightarrow> bool" where
  "last_rune_ok s = list_ex (\<lambda>n. n \<le> length s \<and> valid_rune (drop (length s - n) s)) [1, 2, 3, 4]"

function trim_partial :: "string \<Rightarrow> string" where
  "trim_partial piece = (if piece = [] \<or> last_rune_ok piece then piece else trim_partial (butlast piece))"
  by pat_completeness auto
termination by (relation "measure length") auto

declare trim_partial.simps [simp del]

definition truncateUTF8Bytes :: "string \<Rightarrow> nat \<Rightarrow> string" where
  "truncateUTF8Bytes text limit =
    (if length text \<le> limit then text else trim_partial (take limit text))"

definition errBriefLimit :: nat where
  "errBriefLimit = 256"

definition maxBodyPreview :: nat where
  "maxBodyPreview = 64 * 1024"

definition truncateErrBrief :: "string \<Rightarrow> string" where
  "truncateErrBrief text = truncateUTF8Bytes text errBriefLimit"

definition truncatePreview :: "string \<Rightarrow> string" where
  "truncatePreview text = truncateUTF8Bytes text maxBodyPreview"

lemma trim_partial_prefix: "\<exists>rest. piece = trim_partial piece @ rest"
proof (induction piece rule: trim_partial.induct)
  case (1 piece)
  show ?case
  proof (cases "piece = [] \<or> last_rune_ok piece")
    case False
    with 1 obtain rest where "butlast piece = trim_partial (butlast piece) @ rest" by blast
    then have "piece = trim_partial (butlast piece) @ rest @ [last piece]"
      using False by (metis append_assoc append_butlast_last_id)
    then show ?thesis using False trim_partial.simps [of piece] by metis
  qed (simp add: trim_partial.simps)
qed

lemma trim_partial_length: "length (trim_partial piece) \<le> length piece"
  using trim_partial_prefix [of piece] by (metis le_add1 length_append)

lemma truncate_length: "length (truncateUTF8Bytes text limit) \<le> limit"
  using trim_partial_length [of "take limit text"] by (auto simp: truncateUTF8Bytes_def)

lemma truncate_prefix: "\<exists>rest. text = truncateUTF8Bytes text limit @ rest"
  using trim_partial_prefix [of "take limit text"]
  by (auto simp: truncateUTF8Bytes_def) (metis append_assoc append_take_drop_id)

lemma brief_length: "length (truncateErrBrief text) \<le> errBriefLimit"
  by (simp add: truncateErrBrief_def truncate_length)

lemma preview_length: "length (truncatePreview text) \<le> maxBodyPreview"
  by (simp add: truncatePreview_def truncate_length)

text \<open>After whole runes, a proper piece of a rune is cut off byte by byte.\<close>

lemma last_rune_ok_iff:
  "last_rune_ok s \<longleftrightarrow> (\<exists>pre r. s = pre @ r \<and> valid_rune r)"
proof
  assume "last_rune_ok s"
  then obtain n where "n \<le> length s" "valid_rune (drop (length s - n) s)"
    by (auto simp: last_rune_ok_def)
  then show "\<exists>pre r. s = pre @ r \<and> valid_rune r" by (metis append_take_drop_id)
next
  assume "\<exists>pre r. s = pre @ r \<and> valid_rune r"
  then obtain pre r where s: "s = pre @ r" and r: "valid_rune r" by blast
  from valid_rune_length [OF r] have "length r \<in> {1, 2, 3, 4}" by auto
  with s r show "last_rune_ok s" by (auto simp: last_rune_ok_def)
qed

lemma partial_not_ok:
  assumes "valid_rune (p @ q)" and "p \<noteq> []" and "q \<noteq> []"
  shows "\<not> last_rune_ok (s @ p)"
proof
  assume "last_rune_ok (s @ p)"
  then obtain pre r where eq: "s @ p = pre @ r" and r: "valid_rune r" by (auto simp: last_rune_ok_iff)
  note lead = valid_rune_lead [OF assms(1)]
  from eq consider (inside) us where "pre = s @ us" "p = us @ r" | (beyond) us where "s = pre @ us" "r = us @ p" "us \<noteq> []"
    by (auto simp: append_eq_append_conv2) blast
  then show False
  proof cases
    case inside
    show False
    proof (cases us)
      case Nil
      with inside assms r show False using valid_rune_prefix by auto
    next
      case (Cons u us')
      then have "hd r \<in> set (tl (p @ q))" using inside r valid_rune_length [OF r] by (cases r) auto
      with valid_rune_tail [OF assms(1)] valid_rune_lead [OF r] show False by blast
    qed
  next
    case beyond
    then have "hd p \<in> set (tl r)" using assms(2) by (cases us; cases p) auto
    with valid_rune_tail [OF r] lead assms(2) show False by auto
  qed
qed

lemma trim_partial_runes:
  assumes "\<forall>r \<in> set rs. valid_rune r" and "p = [] \<or> (\<exists>q. q \<noteq> [] \<and> valid_rune (p @ q))"
  shows "trim_partial (concat rs @ p) = concat rs"
  using assms(2)
proof (induction p rule: rev_induct)
  case Nil
  show ?case
  proof (cases rs rule: rev_cases)
    case (snoc rs' r)
    with assms(1) have "last_rune_ok (concat rs)" by (auto simp: last_rune_ok_iff)
    then show ?thesis by (simp add: trim_partial.simps)
  qed (simp add: trim_partial.simps)
next
  case (snoc x p)
  then obtain q where q: "q \<noteq> []" "valid_rune ((p @ [x]) @ q)" by blast
  then have "\<not> last_rune_ok (concat rs @ p @ [x])" by (intro partial_not_ok) auto
  moreover have "p = [] \<or> (\<exists>q. q \<noteq> [] \<and> valid_rune (p @ q))" using q by auto
  ultimately show ?case
    using snoc.IH trim_partial.simps [of "concat rs @ p @ [x]"] by (simp add: butlast_append)
qed

text \<open>The runes that fit.\<close>

fun runes_within :: "nat \<Rightarrow> string list \<Rightarrow> string list" where
  "runes_within limit [] = []"
| "runes_within limit (r # rs) =
    (if length r \<le> limit then r # runes_within (limit - length r) rs else [])"

lemma runes_within_take:
  assumes "\<forall>r \<in> set rs. valid_rune r"
  shows "\<exists>p. take limit (concat rs) = concat (runes_within limit rs) @ p \<and>
    (p = [] \<or> (\<exists>q. q \<noteq> [] \<and> valid_rune (p @ q)))"
  using assms
proof (induction rs arbitrary: limit)
  case (Cons r rs)
  show ?case
  proof (cases "length r \<le> limit")
    case True
    then show ?thesis using Cons.IH [of "limit - length r"] Cons.prems by auto
  next
    case False
    then have "take limit (concat (r # rs)) = take limit r" by simp
    moreover have "take limit r @ drop limit r = r" "drop limit r \<noteq> []" using False by auto
    ultimately show ?thesis using Cons.prems False by (intro exI [of _ "take limit r"]) (auto intro!: exI [of _ "drop limit r"])
  qed
qed simp

lemma runes_within_subset: "set (runes_within limit rs) \<subseteq> set rs"
  by (induction limit rs rule: runes_within.induct) auto

lemma runes_within_all: "length (concat rs) \<le> limit \<Longrightarrow> runes_within limit rs = rs"
  by (induction limit rs rule: runes_within.induct) auto

text \<open>
  Truncation keeps whole characters (\<^verbatim>\<open>truncateUTF8Bytes\<close>). For a valid UTF-8 text given by its
  runes, the result is exactly the longest prefix of whole runes that fits into the limit; it is
  valid UTF-8 again, within the limit, and at most three bytes shorter than the limit when
  something was cut.
\<close>

lemma truncate_whole_runes:
  assumes "\<forall>r \<in> set rs. valid_rune r"
  shows "truncateUTF8Bytes (concat rs) limit = concat (runes_within limit rs) \<and>
    valid_utf8 (truncateUTF8Bytes (concat rs) limit) \<and> length (truncateUTF8Bytes (concat rs) limit) \<le> limit \<and>
    (limit < length (concat rs) \<longrightarrow> limit < length (truncateUTF8Bytes (concat rs) limit) + 4)"
proof -
  obtain p where p: "take limit (concat rs) = concat (runes_within limit rs) @ p"
    "p = [] \<or> (\<exists>q. q \<noteq> [] \<and> valid_rune (p @ q))"
    using runes_within_take [OF assms] by blast
  have within: "\<forall>r \<in> set (runes_within limit rs). valid_rune r"
    using assms runes_within_subset [of limit rs] by blast
  have eq: "truncateUTF8Bytes (concat rs) limit = concat (runes_within limit rs)"
    using p trim_partial_runes [OF within p(2)] runes_within_all [of rs limit]
    by (simp add: truncateUTF8Bytes_def)
  have "length p \<le> 3"
  proof (cases "p = []")
    case False
    then obtain q where "q \<noteq> []" "valid_rune (p @ q)" using p(2) by blast
    then show ?thesis using valid_rune_length [of "p @ q"] by (cases q) auto
  qed simp
  moreover have "length (take limit (concat rs)) = length (concat (runes_within limit rs)) + length p"
    using p(1) by simp
  ultimately have "limit < length (concat rs) \<longrightarrow> limit < length (concat (runes_within limit rs)) + 4" by auto
  moreover have "valid_utf8 (concat (runes_within limit rs))" using within by (auto simp: valid_utf8_def)
  ultimately show ?thesis using eq truncate_length [of "concat rs" limit] by simp
qed

subsection \<open>Masking an API key\<close>

text \<open>The conversion \<^verbatim>\<open>[]rune(s)\<close>: an invalid byte becomes U+FFFD, whose encoding is \<open>rune_error\<close>.\<close>

definition rune_error :: string where
  "rune_error = [CHR 0xEF, CHR 0xBF, CHR 0xBD]"

definition rune_size :: "string \<Rightarrow> nat option" where
  "rune_size s = find (\<lambda>n. n \<le> length s \<and> valid_rune (take n s)) [1, 2, 3, 4]"

lemma rune_size_SomeD: "rune_size s = Some n \<Longrightarrow> 0 < n \<and> n \<le> length s \<and> valid_rune (take n s)"
  unfolding rune_size_def by (drule find_SomeD) auto

function runes :: "string \<Rightarrow> string list" where
  "runes s =
    (if s = [] then []
     else case rune_size s of
            Some n \<Rightarrow> take n s # runes (drop n s)
          | None \<Rightarrow> rune_error # runes (tl s))"
  by pat_completeness auto
termination
proof (relation "measure length")
  fix s :: string and n
  assume "s \<noteq> []" and "rune_size s = Some n"
  then have "0 < n" using rune_size_SomeD by blast
  with \<open>s \<noteq> []\<close> show "(drop n s, s) \<in> measure length" by simp
qed simp_all

declare runes.simps [simp del]

text \<open>The runes of \<^verbatim>\<open>unicode.IsSpace\<close>.\<close>

definition space_runes :: "string list" where
  "space_runes =
    ['' '', [CHR 0x09], [CHR 0x0A], [CHR 0x0B], [CHR 0x0C], [CHR 0x0D], [CHR 0xC2, CHR 0x85], [CHR 0xC2, CHR 0xA0],
     [CHR 0xE1, CHR 0x9A, CHR 0x80], [CHR 0xE2, CHR 0x80, CHR 0xA8], [CHR 0xE2, CHR 0x80, CHR 0xA9],
     [CHR 0xE2, CHR 0x80, CHR 0xAF], [CHR 0xE2, CHR 0x81, CHR 0x9F], [CHR 0xE3, CHR 0x80, CHR 0x80]] @
    map (\<lambda>c. [CHR 0xE2, CHR 0x80, c])
      [CHR 0x80, CHR 0x81, CHR 0x82, CHR 0x83, CHR 0x84, CHR 0x85, CHR 0x86, CHR 0x87, CHR 0x88, CHR 0x89, CHR 0x8A]"

definition is_space_at :: "string \<Rightarrow> string \<Rightarrow> bool" where
  "is_space_at s sp \<longleftrightarrow> take (length sp) s = sp"

definition is_space_end :: "string \<Rightarrow> string \<Rightarrow> bool" where
  "is_space_end s sp \<longleftrightarrow> length sp \<le> length s \<and> drop (length s - length sp) s = sp"

lemma space_runes_valid: "sp \<in> set space_runes \<Longrightarrow> valid_rune sp"
proof -
  have "list_all valid_rune space_runes"
    by (simp add: space_runes_def byte_def between_def is_cont_def)
  then show "sp \<in> set space_runes \<Longrightarrow> valid_rune sp" by (simp add: list_all_iff)
qed

lemma space_at_D:
  "find (is_space_at s) space_runes = Some sp \<Longrightarrow> is_space_at s sp \<and> valid_rune sp \<and> 0 < length sp \<and> length sp \<le> length s"
proof -
  assume "find (is_space_at s) space_runes = Some sp"
  from find_SomeD [OF this] have v: "is_space_at s sp" "valid_rune sp" using space_runes_valid by simp_all
  from v(1) have "length (take (length sp) s) = length sp" unfolding is_space_at_def by (rule arg_cong)
  then have "length sp \<le> length s" by simp
  with v valid_rune_length [OF v(2)] show ?thesis by auto
qed

lemma space_end_D:
  "find (is_space_end s) space_runes = Some sp \<Longrightarrow> is_space_end s sp \<and> valid_rune sp \<and> 0 < length sp \<and> length sp \<le> length s"
proof -
  assume "find (is_space_end s) space_runes = Some sp"
  from find_SomeD [OF this] have v: "is_space_end s sp" "valid_rune sp" using space_runes_valid by simp_all
  with valid_rune_length [OF v(2)] show ?thesis by (auto simp: is_space_end_def)
qed

function trim_left :: "string \<Rightarrow> string" where
  "trim_left s = (case find (is_space_at s) space_runes of None \<Rightarrow> s | Some sp \<Rightarrow> trim_left (drop (length sp) s))"
  by pat_completeness auto
termination
proof (relation "measure length")
  fix s sp
  assume "find (is_space_at s) space_runes = Some sp"
  from space_at_D [OF this] show "(drop (length sp) s, s) \<in> measure length" by (cases sp) auto
qed simp

function trim_right :: "string \<Rightarrow> string" where
  "trim_right s =
    (case find (is_space_end s) space_runes of
       None \<Rightarrow> s | Some sp \<Rightarrow> trim_right (take (length s - length sp) s))"
  by pat_completeness auto
termination
proof (relation "measure length")
  fix s sp
  assume "find (is_space_end s) space_runes = Some sp"
  from space_end_D [OF this] show "(take (length s - length sp) s, s) \<in> measure length" by (cases sp) auto
qed simp

declare trim_left.simps [simp del] trim_right.simps [simp del]

definition TrimSpace :: "string \<Rightarrow> string" where
  "TrimSpace s = trim_right (trim_left s)"

definition TrimPrefix :: "string \<Rightarrow> string \<Rightarrow> string" where
  "TrimPrefix s p = (if take (length p) s = p then drop (length p) s else s)"

definition maskAPIKey :: "string \<Rightarrow> string" where
  "maskAPIKey raw =
    (let raw = TrimSpace raw in
     if raw = [] then [] else ''...'' @ concat (last_n 4 (runes (TrimPrefix raw ''...''))))"

subsection \<open>What masking reveals\<close>

lemma same_end_same_rune:
  assumes "a @ r = b @ r'" and "valid_rune r" and "valid_rune r'"
  shows "r = r'"
proof -
  have sub: False if "r = us @ r'" "us \<noteq> []" "valid_rune r" "valid_rune r'" for us r r' :: string
  proof -
    have "hd r' \<in> set (tl r)" using that valid_rune_length [of r'] by (cases us; cases r') auto
    with valid_rune_tail [OF that(3)] valid_rune_lead [OF that(4)] show False by blast
  qed
  from assms(1) obtain us where "(r = us @ r') \<or> (r' = us @ r)"
    by (auto simp: append_eq_append_conv2)
  with sub [of r us r'] sub [of r' us r] assms(2,3) show ?thesis by (cases "us = []") auto
qed

lemma rune_size_valid:
  assumes "valid_rune r"
  shows "rune_size (r @ s) = Some (length r)"
proof -
  have "rune_size (r @ s) \<noteq> None"
    using assms valid_rune_length [OF assms] by (auto simp: rune_size_def find_None_iff le_Suc_eq numeral_eq_Suc)
  then obtain n where n: "rune_size (r @ s) = Some n" by blast
  then have v: "n \<le> length (r @ s)" "valid_rune (take n (r @ s))" using rune_size_SomeD by blast+
  have "n = length r"
  proof (cases "n \<le> length r")
    case True
    then have "take n (r @ s) = take n r" by simp
    with v valid_rune_prefix [of "take n r" "drop n r"] assms True show ?thesis by simp
  next
    case False
    then have "take n (r @ s) = r @ take (n - length r) s" by simp
    with v False valid_rune_prefix [of r "take (n - length r) s"] assms show ?thesis by simp
  qed
  with n show ?thesis by simp
qed

lemma runes_concat: "\<forall>r \<in> set rs. valid_rune r \<Longrightarrow> runes (concat rs) = rs"
proof (induction rs)
  case (Cons r rs)
  then have "r @ concat rs \<noteq> []" using valid_rune_length [of r] by auto
  with Cons show ?case by (simp add: runes.simps [of "r @ concat rs"] rune_size_valid)
qed (simp add: runes.simps)

lemma rune_error_valid: "valid_rune rune_error"
  by (simp add: rune_error_def byte_def between_def is_cont_def)

lemma runes_valid: "\<forall>r \<in> set (runes s). valid_rune r"
proof (induction s rule: runes.induct)
  case (1 s)
  show ?case
  proof (cases "rune_size s")
    case None
    with 1 show ?thesis by (simp add: runes.simps [of s] rune_error_valid)
  next
    case (Some n)
    then have "valid_rune (take n s)" using rune_size_SomeD by blast
    with 1 Some show ?thesis by (auto simp: runes.simps [of s])
  qed
qed

lemma last_rune_of: "s \<noteq> [] \<Longrightarrow> last (runes s) = rune_error \<or> (\<exists>pre. s = pre @ last (runes s))"
proof (induction s rule: runes.induct)
  case (1 s)
  have ne: "runes t \<noteq> []" if "t \<noteq> []" for t using that by (simp add: runes.simps [of t] split: option.splits)
  show ?case
  proof (cases "rune_size s")
    case None
    show ?thesis
    proof (cases "tl s = []")
      case True
      then show ?thesis using None 1 by (simp add: runes.simps [of s] runes.simps [of "[]"])
    next
      case False
      then have "last (runes s) = last (runes (tl s))" using None "1.prems" ne by (simp add: runes.simps [of s])
      then show ?thesis using "1.IH"(1) [OF "1.prems" None False] "1.prems"
        by (metis append_Cons list.collapse)
    qed
  next
    case (Some n)
    show ?thesis
    proof (cases "drop n s = []")
      case True
      then show ?thesis using Some "1.prems" by (simp add: runes.simps [of s] runes.simps [of "[]"])
    next
      case False
      then have "last (runes s) = last (runes (drop n s))" using Some "1.prems" ne by (simp add: runes.simps [of s])
      then show ?thesis using "1.IH"(2) [OF "1.prems" Some False]
        by (metis append_assoc append_take_drop_id)
    qed
  qed
qed

lemma trim_right_no_space: "sp \<in> set space_runes \<Longrightarrow> \<not> is_space_end (trim_right s) sp"
proof (induction s rule: trim_right.induct)
  case (1 s)
  show ?case
  proof (cases "find (is_space_end s) space_runes")
    case None
    then have "trim_right s = s" by (simp add: trim_right.simps [of s])
    with None "1.prems" show ?thesis by (auto simp: find_None_iff)
  next
    case (Some x)
    with 1 show ?thesis by (simp add: trim_right.simps [of s])
  qed
qed

lemma trim_right_id: "(\<And>sp. sp \<in> set space_runes \<Longrightarrow> \<not> is_space_end s sp) \<Longrightarrow> trim_right s = s"
  by (subst trim_right.simps) (metis find_None_iff option.simps(4))

lemma trim_left_id: "(\<And>sp. sp \<in> set space_runes \<Longrightarrow> \<not> is_space_at s sp) \<Longrightarrow> trim_left s = s"
  by (subst trim_left.simps) (metis find_None_iff option.simps(4))

lemma dot_not_space: "sp \<in> set space_runes \<Longrightarrow> hd sp \<noteq> CHR ''.'' \<and> last sp \<noteq> CHR ''.'' \<and> sp \<noteq> []"
proof -
  have "list_all (\<lambda>sp. hd sp \<noteq> CHR ''.'' \<and> last sp \<noteq> CHR ''.'' \<and> sp \<noteq> []) space_runes"
    by (simp add: space_runes_def)
  then show "sp \<in> set space_runes \<Longrightarrow> hd sp \<noteq> CHR ''.'' \<and> last sp \<noteq> CHR ''.'' \<and> sp \<noteq> []"
    by (simp add: list_all_iff)
qed

lemma trim_space_Nil: "TrimSpace [] = []"
proof -
  have "trim_left [] = []" by (rule trim_left_id) (use dot_not_space in \<open>auto simp: is_space_at_def\<close>)
  moreover have "trim_right [] = []" by (rule trim_right_id) (use dot_not_space in \<open>auto simp: is_space_end_def\<close>)
  ultimately show ?thesis by (simp add: TrimSpace_def)
qed

lemma rune_error_not_space: "rune_error \<notin> set space_runes"
  by (simp add: space_runes_def rune_error_def)

lemma space_end_append: "is_space_end s sp \<longleftrightarrow> (\<exists>pre. s = pre @ sp)"
proof
  assume "is_space_end s sp"
  then show "\<exists>pre. s = pre @ sp" unfolding is_space_end_def by (metis append_take_drop_id)
qed (auto simp: is_space_end_def)

text \<open>The visible part ends in a character that is not a space.\<close>

lemma visible_no_space:
  assumes "raw = TrimSpace s" and "tail = last_n 4 (runes (TrimPrefix raw ''...''))" and "sp \<in> set space_runes"
  shows "\<not> is_space_end (''...'' @ concat tail) sp"
proof
  assume e: "is_space_end (''...'' @ concat tail) sp"
  let ?t = "TrimPrefix raw ''...''"
  show False
  proof (cases "?t = []")
    case True
    then have "tail = []" using assms(2) by (simp add: runes.simps last_n_def)
    with e obtain pre where "''...'' = pre @ sp" by (auto simp: space_end_append)
    moreover have "last ''...'' = CHR ''.''" by simp
    ultimately show False using dot_not_space [OF assms(3)] by (metis last_appendR)
  next
    case False
    then have rs: "runes ?t \<noteq> []" by (simp add: runes.simps [of ?t] split: option.splits)
    define r where "r = last (runes ?t)"
    have tail: "concat tail = concat (butlast tail) @ r"
      using rs assms(2) unfolding r_def by (cases "runes ?t" rule: rev_cases) (auto simp: last_n_snoc)
    have r: "valid_rune r" using runes_valid [of ?t] rs by (auto simp: r_def)
    from e tail obtain pre where "(''...'' @ concat (butlast tail)) @ r = pre @ sp" by (auto simp: space_end_append)
    from same_end_same_rune [OF this r space_runes_valid [OF assms(3)]] have "r = sp" .
    then have "r \<noteq> rune_error" using assms(3) rune_error_not_space by auto
    with last_rune_of [OF False] obtain pre where "?t = pre @ r" by (auto simp: r_def)
    then have "\<exists>pre. raw = pre @ r" unfolding TrimPrefix_def by (metis append_assoc append_take_drop_id)
    then have "is_space_end raw sp" using \<open>r = sp\<close> by (simp add: space_end_append)
    then show False using trim_right_no_space [OF assms(3)] assms(1) by (simp add: TrimSpace_def)
  qed
qed

text \<open>
  Masked API keys (\<^verbatim>\<open>maskAPIKey\<close>): at most four characters of the key are visible behind the
  three dots (the last ones, for a key that is valid UTF-8), and masking a masked key changes
  nothing, so the second masking by \<^verbatim>\<open>MarshalJSON\<close> is harmless.
\<close>

lemma mask_key_reveals_four:
  "maskAPIKey (maskAPIKey raw) = maskAPIKey raw \<and>
   (maskAPIKey raw = [] \<or> (\<exists>visible. length visible \<le> 4 \<and> list_all valid_rune visible \<and>
      maskAPIKey raw = ''...'' @ concat visible \<and>
      visible = last_n 4 (runes (TrimPrefix (TrimSpace raw) ''...''))))"
proof (cases "TrimSpace raw = []")
  case True
  then show ?thesis by (simp add: maskAPIKey_def trim_space_Nil)
next
  case False
  define tail where "tail = last_n 4 (runes (TrimPrefix (TrimSpace raw) ''...''))"
  have m: "maskAPIKey raw = ''...'' @ concat tail" using False by (simp add: maskAPIKey_def tail_def)
  have valid: "\<forall>r \<in> set tail. valid_rune r"
    using runes_valid unfolding tail_def last_n_def by (meson in_set_dropD)
  have len: "length tail \<le> 4" by (simp add: tail_def)
  have left: "trim_left (''...'' @ concat tail) = ''...'' @ concat tail"
  proof (rule trim_left_id)
    fix sp assume sp: "sp \<in> set space_runes"
    then show "\<not> is_space_at (''...'' @ concat tail) sp"
      using dot_not_space [OF sp] unfolding is_space_at_def
      by (metis append_Cons hd_take length_greater_0_conv list.sel(1))
  qed
  have "trim_right (''...'' @ concat tail) = ''...'' @ concat tail"
    by (rule trim_right_id) (rule visible_no_space [OF refl tail_def])
  then have "TrimSpace (''...'' @ concat tail) = ''...'' @ concat tail" unfolding TrimSpace_def left .
  then have "maskAPIKey (maskAPIKey raw) = maskAPIKey raw"
    unfolding m using runes_concat [OF valid] len by (simp add: maskAPIKey_def TrimPrefix_def last_n_all)
  then show ?thesis using m valid len tail_def by (auto simp: list_all_iff)
qed

end
