(* ===== verification/Error_Class.thy ===== *)
theory Error_Class
  imports Utf8_Text
begin

text \<open>
  The classification of upstream failures in \<^verbatim>\<open>internal/relay/state.go\<close> (\<^verbatim>\<open>ClassifyError\<close>, \<^verbatim>\<open>classifyRound\<close>,
  \<^verbatim>\<open>isInfrastructureError\<close>, \<^verbatim>\<open>UpstreamStatusCode\<close>). A Go error is represented by the answers its chain
  gives to \<^verbatim>\<open>errors.Is\<close> and \<^verbatim>\<open>errors.As\<close> and by its text.
\<close>

datatype ErrClass =
    ErrClassNone | ErrClassZeroOutput | ErrClassNoAnswer | ErrClassEarlyEof | ErrClassStreamIdle
  | ErrClassStreamBudget | ErrClassTimeout | ErrClassClientCancel | ErrClassAdminAbort
  | ErrClassUpstream4xx | ErrClassUpstream5xx | ErrClassUpstreamNetwork | ErrClassUpstream
  | ErrClassChannelBusy | ErrClassClientRejected | ErrClassRoundsExhausted

datatype sentinel =
    errZeroOutput | errNoAnswerStop | errStreamEarlyEof | errStreamIdleTimeout
  | errStreamBudgetExceeded | errStreamWindowBudgetExceeded | errMemberResponseTimeout
  | errRoundsExceeded | errDeadlineExceeded | errChannelConcurrencyFull | errAllChannelsBusy
  | errTitleRequestRejected | errRequestTooLarge | errContextWindowExceeded | context_Canceled | errAllRequestsStopped

text \<open>
  \<open>er_is\<close> lists the sentinels \<^verbatim>\<open>errors.Is\<close> finds; \<open>er_http\<close> is the status code of the \<^verbatim>\<open>httpclient.Error\<close>
  in the chain, \<open>er_response\<close> that of an \<^verbatim>\<open>llm.ResponseError\<close>; \<open>er_op\<close> and \<open>er_net\<close> say that the chain
  has a \<^verbatim>\<open>net.OpError\<close>, a \<^verbatim>\<open>net.Error\<close>. The absent error \<^verbatim>\<open>nil\<close> is \<open>None\<close>.
\<close>

record relay_error =
  er_is :: "sentinel list"
  er_http :: "int option"
  er_op :: bool
  er_net :: bool
  er_response :: "int option"
  er_text :: string

definition errors_Is :: "relay_error option \<Rightarrow> sentinel \<Rightarrow> bool" where
  "errors_Is err s = (case err of None \<Rightarrow> False | Some e \<Rightarrow> s \<in> set (er_is e))"

subsection \<open>Lower case\<close>

text \<open>
  \<^verbatim>\<open>strings.ToLower\<close>, as far as a search for ASCII words can see: besides the ASCII letters two
  other code points have an ASCII letter as lower case, U+0130 and U+212A.
\<close>

definition lower_rune :: "string \<Rightarrow> string" where
  "lower_rune r =
    (if r = [CHR 0xC4, CHR 0xB0] then ''i''
     else if r = [CHR 0xE2, CHR 0x84, CHR 0xAA] then ''k''
     else map (\<lambda>c. if 65 \<le> byte c \<and> byte c \<le> 90 then char_of (byte c + 32) else c) r)"

definition ToLower :: "string \<Rightarrow> string" where
  "ToLower s = concat (map lower_rune (runes s))"

subsection \<open>Infrastructure errors\<close>

definition infrastructureErrorKeywords :: "string list" where
  "infrastructureErrorKeywords =
    [''socks'', ''connection refused'', ''connection reset'', ''no such host'', ''tls handshake'', ''x509: '',
     ''unexpected eof'', ''broken pipe'', ''network is unreachable'', ''i/o timeout'']"

definition isInfrastructureError :: "relay_error option \<Rightarrow> bool" where
  "isInfrastructureError err =
    (case err of
       None \<Rightarrow> False
     | Some e \<Rightarrow>
         (case er_http e of
            Some code \<Rightarrow> code = 0
          | None \<Rightarrow>
              er_op e \<or> er_net e \<or>
              list_ex (contains (ToLower (er_text e))) infrastructureErrorKeywords))"

subsection \<open>Status codes\<close>

definition is_regex_space :: "char \<Rightarrow> bool" where
  "is_regex_space c \<longleftrightarrow> c \<in> {CHR 0x09, CHR 0x0A, CHR 0x0C, CHR 0x0D, CHR '' ''}"

definition digit_value :: "char \<Rightarrow> int" where
  "digit_value c = int (byte c) - 48"

text \<open>The part of \<^verbatim>\<open>statusTextPattern\<close> after the words: white space, then three digits.\<close>

fun status_digits :: "string \<Rightarrow> int option" where
  "status_digits (a # b # c # rest) =
    (if is_digit a \<and> is_digit b \<and> is_digit c
     then Some (100 * digit_value a + 10 * digit_value b + digit_value c) else None)"
| "status_digits _ = None"

definition status_tail :: "string \<Rightarrow> int option" where
  "status_tail s =
    (if s \<noteq> [] \<and> is_regex_space (hd s) then status_digits (dropWhile is_regex_space s) else None)"

definition status_at :: "string \<Rightarrow> int option" where
  "status_at s =
    (if take 11 s = ''with status'' then status_tail (drop 11 s)
     else if take 18 s = ''upstream responded'' then status_tail (drop 18 s)
     else None)"

text \<open>\<^verbatim>\<open>statusTextPattern.FindStringSubmatch\<close>: the leftmost match.\<close>

fun status_text :: "string \<Rightarrow> int option" where
  "status_text [] = None"
| "status_text (c # s) = (case status_at (c # s) of Some n \<Rightarrow> Some n | None \<Rightarrow> status_text s)"

text \<open>A Go map: the order of the list is one of the possible iteration orders.\<close>

definition statusPhraseMap :: "(string, int) gomap" where
  "statusPhraseMap =
    [(''bad request'', 400), (''unauthorized'', 401), (''payment required'', 402), (''forbidden'', 403),
     (''not found'', 404), (''method not allowed'', 405), (''conflict'', 409), (''unprocessable entity'', 422),
     (''too many requests'', 429), (''internal server error'', 500), (''bad gateway'', 502),
     (''service unavailable'', 503)]"

definition status_phrase :: "string \<Rightarrow> int option" where
  "status_phrase text =
    map_option snd (find (\<lambda>(phrase, code). contains (ToLower text) (''request failed: '' @ phrase)) statusPhraseMap)"

definition nonzero :: "int option \<Rightarrow> int option" where
  "nonzero code = (case code of Some c \<Rightarrow> if c \<noteq> 0 then Some c else None | None \<Rightarrow> None)"

definition UpstreamStatusCode :: "relay_error option \<Rightarrow> int option" where
  "UpstreamStatusCode err =
    (case err of
       None \<Rightarrow> None
     | Some e \<Rightarrow>
         (case nonzero (er_http e) of
            Some code \<Rightarrow> Some code
          | None \<Rightarrow>
              (case nonzero (er_response e) of
                 Some code \<Rightarrow> Some code
               | None \<Rightarrow>
                   (case status_text (er_text e) of
                      Some code \<Rightarrow> Some code
                    | None \<Rightarrow> status_phrase (er_text e)))))"

definition classifyStatusCode :: "int \<Rightarrow> ErrClass" where
  "classifyStatusCode code =
    (if 500 \<le> code then ErrClassUpstream5xx else if 400 \<le> code then ErrClassUpstream4xx else ErrClassUpstream)"

definition classifyUpstreamStatus :: "relay_error option \<Rightarrow> ErrClass" where
  "classifyUpstreamStatus err =
    (case UpstreamStatusCode err of Some code \<Rightarrow> classifyStatusCode code | None \<Rightarrow> ErrClassUpstream)"

subsection \<open>The two classifiers\<close>

text \<open>A chain of \<^verbatim>\<open>if errors.Is(err, s) { return class }\<close>.\<close>

fun first_class :: "relay_error option \<Rightarrow> (sentinel \<times> ErrClass) list \<Rightarrow> ErrClass option" where
  "first_class err [] = None"
| "first_class err ((s, c) # rest) = (if errors_Is err s then Some c else first_class err rest)"

definition error_classes :: "(sentinel \<times> ErrClass) list" where
  "error_classes =
    [(errZeroOutput, ErrClassZeroOutput), (errNoAnswerStop, ErrClassNoAnswer),
     (errStreamEarlyEof, ErrClassEarlyEof), (errStreamIdleTimeout, ErrClassStreamIdle),
     (errStreamBudgetExceeded, ErrClassStreamBudget), (errStreamWindowBudgetExceeded, ErrClassStreamBudget),
     (errMemberResponseTimeout, ErrClassTimeout), (errRoundsExceeded, ErrClassRoundsExhausted),
     (errDeadlineExceeded, ErrClassRoundsExhausted), (errChannelConcurrencyFull, ErrClassChannelBusy),
     (errAllChannelsBusy, ErrClassChannelBusy), (errTitleRequestRejected, ErrClassClientRejected),
     (errRequestTooLarge, ErrClassUpstream4xx), (errContextWindowExceeded, ErrClassUpstream4xx)]"

definition ClassifyError :: "relay_error option \<Rightarrow> ErrClass" where
  "ClassifyError err =
    (if err = None then ErrClassNone
     else case first_class err error_classes of
            Some c \<Rightarrow> c
          | None \<Rightarrow> if isInfrastructureError err then ErrClassUpstreamNetwork else classifyUpstreamStatus err)"

definition round_classes :: "(sentinel \<times> ErrClass) list" where
  "round_classes =
    [(errZeroOutput, ErrClassZeroOutput), (errNoAnswerStop, ErrClassNoAnswer),
     (errChannelConcurrencyFull, ErrClassChannelBusy), (errStreamEarlyEof, ErrClassEarlyEof),
     (errStreamIdleTimeout, ErrClassStreamIdle), (errStreamBudgetExceeded, ErrClassStreamBudget),
     (errStreamWindowBudgetExceeded, ErrClassStreamBudget), (errMemberResponseTimeout, ErrClassTimeout)]"

definition cause_classes :: "(sentinel \<times> ErrClass) list" where
  "cause_classes =
    [(errMemberResponseTimeout, ErrClassTimeout), (errStreamIdleTimeout, ErrClassStreamIdle),
     (context_Canceled, ErrClassAdminAbort)]"

text \<open>\<open>parentDone\<close> is \<^verbatim>\<open>parentCtx.Err() != nil\<close>, \<open>cause\<close> is \<^verbatim>\<open>context.Cause(roundCtx)\<close>.\<close>

definition classifyRound :: "relay_error option \<Rightarrow> bool \<Rightarrow> relay_error option \<Rightarrow> ErrClass" where
  "classifyRound err parentDone cause =
    (if parentDone then ErrClassClientCancel
     else case first_class err round_classes of
            Some c \<Rightarrow> c
          | None \<Rightarrow>
              (case first_class cause cause_classes of
                 Some c \<Rightarrow> c
               | None \<Rightarrow>
                   if isInfrastructureError err then ErrClassUpstreamNetwork else classifyUpstreamStatus err))"

subsection \<open>Agreement\<close>

lemma first_class_none: "(\<And>s c. (s, c) \<in> set cs \<Longrightarrow> \<not> errors_Is err s) \<Longrightarrow> first_class err cs = None"
  by (induction err cs rule: first_class.induct) auto

lemma first_class_only:
  "(\<And>s'. errors_Is err s' \<longleftrightarrow> s' = s) \<Longrightarrow> first_class err cs = map_of cs s"
  by (induction cs) auto

text \<open>
  The two classifiers agree. For an error whose chain holds at most one sentinel, one that
  \<^verbatim>\<open>classifyRound\<close> knows, a round of a live client without a cause on its context gets the same class
  from \<^verbatim>\<open>classifyRound\<close> and \<^verbatim>\<open>ClassifyError\<close>. An error that carries a non-zero HTTP status and no
  sentinel is never an infrastructure error, and its class is that of the status, whatever its text says.
\<close>

lemma classifiers_agree:
  assumes "er_is e = [] \<or> (\<exists>s. er_is e = [s] \<and> s \<in> fst ` set round_classes)"
  shows "classifyRound (Some e) False None = ClassifyError (Some e) \<and>
    (\<forall>code. er_http e = Some code \<and> code \<noteq> 0 \<longrightarrow>
       \<not> isInfrastructureError (Some e) \<and> (er_is e = [] \<longrightarrow> ClassifyError (Some e) = classifyStatusCode code))"
proof -
  have cause: "first_class None cause_classes = None" by (rule first_class_none) (simp add: errors_Is_def)
  have same: "first_class (Some e) round_classes = first_class (Some e) error_classes"
    using assms
  proof
    assume "er_is e = []"
    then have "\<not> errors_Is (Some e) s" for s by (simp add: errors_Is_def)
    then show ?thesis by (simp add: first_class_none)
  next
    assume "\<exists>s. er_is e = [s] \<and> s \<in> fst ` set round_classes"
    then obtain s where s: "er_is e = [s]" "s \<in> fst ` set round_classes" by blast
    then have "errors_Is (Some e) s' \<longleftrightarrow> s' = s" for s' by (simp add: errors_Is_def)
    then have "first_class (Some e) cs = map_of cs s" for cs by (rule first_class_only)
    moreover have "map_of round_classes s = map_of error_classes s"
      using s(2) by (cases s) (simp_all add: round_classes_def error_classes_def)
    ultimately show ?thesis by simp
  qed
  have none: "first_class (Some e) error_classes = None" if "er_is e = []"
    using that by (intro first_class_none) (simp add: errors_Is_def)
  have infra: "\<not> isInfrastructureError (Some e)" if "er_http e = Some code" "code \<noteq> 0" for code
    using that by (simp add: isInfrastructureError_def)
  have "ClassifyError (Some e) = classifyStatusCode code" if "er_http e = Some code" "code \<noteq> 0" "er_is e = []" for code
    using that infra none by (simp add: ClassifyError_def classifyUpstreamStatus_def UpstreamStatusCode_def nonzero_def)
  moreover have "classifyRound (Some e) False None = ClassifyError (Some e)"
    by (simp add: classifyRound_def ClassifyError_def same cause split: option.split)
  ultimately show ?thesis using infra by blast
qed

definition demo_http_error :: relay_error where
  "demo_http_error = \<lparr>er_is = [], er_http = Some 503, er_op = False, er_net = True, er_response = None,
     er_text = ''broken pipe''\<rparr>"

definition demo_eof_error :: relay_error where
  "demo_eof_error = \<lparr>er_is = [errStreamEarlyEof], er_http = None, er_op = False, er_net = False,
     er_response = None, er_text = ''''\<rparr>"

end
