(* ===== verification/Request_State.thy ===== *)
theory Request_State
  imports Error_Class Broadcast "HOL-Library.Word"
begin

text \<open>
  \<^verbatim>\<open>internal/relay/state.go\<close> and \<^verbatim>\<open>internal/relay/usage_sanitize.go\<close>: the registry of requests, from
  their registration over rounds to the terminal state, with the ring of recent failures, the
  status streams, the stop switches and the set of client addresses.

  A \<^verbatim>\<open>*RequestState\<close> is its identifier; the objects live in \<open>qw_heap\<close> (they outlive their entry in
  the map \<^verbatim>\<open>requests\<close>, whose keys are \<open>qw_requests\<close>). A \<^verbatim>\<open>context.CancelFunc\<close> is a number, and calling it is
  recorded in \<open>qw_cancelled\<close>; the channel \<^verbatim>\<open>stopCh\<close> is the number of times it was closed. Times are
  nanoseconds. Every critical section under \<^verbatim>\<open>mu\<close> is one function.
\<close>

subsection \<open>Data\<close>

datatype Status = StatusRunning | StatusCommitted | StatusSuccess | StatusFailed | StatusCanceled

datatype AttemptOutcome = AttemptOpen | AttemptSuccess | AttemptFailed | AttemptCanceled

record MaskMatch =
  mm_Label :: string
  mm_Original :: string
  mm_Placeholder :: string

text \<open>The fields of \<^verbatim>\<open>llm.Usage\<close> this code reads or writes.\<close>

record PromptDetails =
  pd_CachedTokens :: int
  pd_WriteCachedTokens :: int
  pd_WriteCached5MinTokens :: int
  pd_WriteCached1HourTokens :: int

record Usage =
  us_PromptTokens :: int
  us_CompletionTokens :: int
  us_TotalTokens :: int
  us_PromptTokensDetails :: "PromptDetails option"
  us_ReasoningTokens :: "int option"
  us_Cost :: "rat option"

definition zero_Usage :: Usage where
  "zero_Usage = \<lparr>us_PromptTokens = 0, us_CompletionTokens = 0, us_TotalTokens = 0,
     us_PromptTokensDetails = None, us_ReasoningTokens = None, us_Cost = None\<rparr>"

record AttemptRecord =
  at_Seq :: nat
  at_ChannelID :: int
  at_ChannelName :: string
  at_MemberID :: int
  at_Model :: string
  at_KeyLabel :: string
  at_ProxyAddr :: string
  at_FirstTokenMS :: int
  at_LatencyMS :: int
  at_Outcome :: AttemptOutcome
  at_ErrClass :: ErrClass
  at_ErrBrief :: string

record RequestState =
  rq_ID :: nat
  rq_Status :: Status
  rq_StartedAt :: int
  rq_FirstTokenAt :: int
  rq_OutputChars :: int
  rq_Duration :: int
  rq_Model :: string
  rq_ClientIP :: string
  rq_APIKey :: string
  rq_KeyName :: string
  rq_Usage :: Usage
  rq_UsageEstimated :: bool
  rq_Round :: nat
  rq_TargetChannel :: string
  rq_TargetModel :: string
  rq_KeyLabel :: string
  rq_ThinkingLevel :: string
  rq_ClientFormat :: string
  rq_UpstreamType :: string
  rq_RelayMode :: string
  rq_ProxyAddr :: string
  rq_AccountProbe :: bool
  rq_Masked :: bool
  rq_MaskMatches :: "MaskMatch list"
  rq_MaskMatchesTruncated :: bool
  rq_Sending :: bool
  rq_Error :: string
  rq_Class :: ErrClass
  rq_Attempts :: "AttemptRecord list"
  rq_body :: string
  rq_responseBody :: string
  rq_cancel :: "nat option"
  rq_stopRequested :: bool
  rq_stopCloses :: nat
  rq_roundStartedAt :: "int option"
  rq_lastOutputPublish :: int

record RoundTarget =
  rt_MemberID :: int
  rt_ChannelID :: int
  rt_ChannelName :: string
  rt_Model :: string
  rt_KeyLabel :: string
  rt_ThinkingLevel :: string
  rt_ClientFormat :: string
  rt_UpstreamType :: string
  rt_Passthrough :: bool
  rt_ProxyAddr :: string

record FailureSummary =
  fs_ID :: nat
  fs_FinishedAt :: int
  fs_Model :: string
  fs_TargetChannel :: string
  fs_TargetModel :: string
  fs_ErrClass :: ErrClass
  fs_ErrBrief :: string

text \<open>What \<^verbatim>\<open>finish\<close> hands to \<^verbatim>\<open>op.CaptureConversation\<close> and to \<^verbatim>\<open>op.RecordUsageBucket\<close>.\<close>

record ConversationRecord =
  cr_RequestID :: nat
  cr_CreatedAt :: int
  cr_Model :: string
  cr_ChannelName :: string
  cr_TargetModel :: string
  cr_ClientIP :: string
  cr_KeyName :: string
  cr_ClientFormat :: string
  cr_UpstreamType :: string
  cr_RelayMode :: string
  cr_Outcome :: string
  cr_ErrClass :: ErrClass
  cr_ErrBrief :: string
  cr_RawRequest :: string
  cr_Response :: string
  cr_Usage :: "(int \<times> int) option"

record UsageSample =
  ub_Model :: string
  ub_PromptTokens :: int
  ub_CompletionTokens :: int
  ub_ReasoningTokens :: int
  ub_CachedTokens :: int
  ub_Cost :: rat
  ub_DurationMs :: int

record request_world =
  qw_idSeq :: nat
  qw_heap :: "(nat, RequestState) gomap"
  qw_requests :: "nat list"
  qw_finished :: "nat list"
  qw_watchers :: "RequestState streams"
  qw_ring :: "FailureSummary list"
  qw_failureCount :: nat
  qw_failureNext :: nat
  qw_allStopped :: bool
  qw_clientIPs :: "(string, int) gomap"
  qw_totalRequests :: "64 word"
  qw_cancelled :: "nat list"
  qw_conversations :: "ConversationRecord list"
  qw_samples :: "UsageSample list"

definition streamBuffer :: nat where
  "streamBuffer = 16"

definition maxFinished :: nat where
  "maxFinished = 200"

definition outputCharsPublishInterval :: int where
  "outputCharsPublishInterval = 500 * 10 ^ 6"

definition maxAttempts :: nat where
  "maxAttempts = 200"

definition maxFailureRecords :: nat where
  "maxFailureRecords = 200"

definition maxClientIPs :: nat where
  "maxClientIPs = 4096"

definition zero_FailureSummary :: FailureSummary where
  "zero_FailureSummary = \<lparr>fs_ID = 0, fs_FinishedAt = 0, fs_Model = [], fs_TargetChannel = [],
     fs_TargetModel = [], fs_ErrClass = ErrClassNone, fs_ErrBrief = []\<rparr>"

definition init_requests :: request_world where
  "init_requests = \<lparr>qw_idSeq = 0, qw_heap = [], qw_requests = [], qw_finished = [], qw_watchers = [],
     qw_ring = replicate maxFailureRecords zero_FailureSummary, qw_failureCount = 0, qw_failureNext = 0,
     qw_allStopped = False, qw_clientIPs = [], qw_totalRequests = 0, qw_cancelled = [],
     qw_conversations = [], qw_samples = []\<rparr>"

text \<open>\<^verbatim>\<open>d.Milliseconds()\<close>: division that truncates.\<close>

definition Milliseconds :: "int \<Rightarrow> int" where
  "Milliseconds d = (if d < 0 then - ((- d) div 10 ^ 6) else d div 10 ^ 6)"

subsection \<open>Publishing\<close>

definition outgoing :: "RequestState \<Rightarrow> RequestState" where
  "outgoing r = r\<lparr>rq_body := [], rq_responseBody := []\<rparr>"

definition publishRequestLocked :: "RequestState \<Rightarrow> request_world \<Rightarrow> request_world" where
  "publishRequestLocked r w = w\<lparr>qw_watchers := publish streamBuffer (outgoing r) (qw_watchers w)\<rparr>"

definition put_request :: "RequestState \<Rightarrow> request_world \<Rightarrow> request_world" where
  "put_request r w = w\<lparr>qw_heap := mput (rq_ID r) r (qw_heap w)\<rparr>"

definition store_publish :: "RequestState \<Rightarrow> request_world \<Rightarrow> request_world" where
  "store_publish r w = publishRequestLocked r (put_request r w)"

text \<open>A method on \<^verbatim>\<open>r *RequestState\<close>: the object is read from the heap.\<close>

definition with_request :: "nat \<Rightarrow> (RequestState \<Rightarrow> request_world \<Rightarrow> request_world) \<Rightarrow> request_world \<Rightarrow> request_world" where
  "with_request i f w = (case map_of (qw_heap w) i of None \<Rightarrow> w | Some r \<Rightarrow> f r w)"

definition call_cancel :: "nat option \<Rightarrow> request_world \<Rightarrow> request_world" where
  "call_cancel c w = (case c of None \<Rightarrow> w | Some n \<Rightarrow> w\<lparr>qw_cancelled := qw_cancelled w @ [n]\<rparr>)"

definition OpenRequestStream :: "request_world \<Rightarrow> (RequestState list \<times> nat) \<times> request_world" where
  "OpenRequestStream w =
    (case open_stream (qw_watchers w) of
       (s, ws) \<Rightarrow>
         let snapshot = map outgoing (List.map_filter (map_of (qw_heap w)) (qw_requests w))
         in ((rev (sort_key rq_ID snapshot), s), w\<lparr>qw_watchers := ws\<rparr>))"

definition CloseRequestStream :: "nat \<Rightarrow> request_world \<Rightarrow> request_world" where
  "CloseRequestStream s w = w\<lparr>qw_watchers := close_stream s (qw_watchers w)\<rparr>"

definition RequestBody :: "nat \<Rightarrow> request_world \<Rightarrow> string" where
  "RequestBody i w =
    (if i \<in> set (qw_requests w) then (case map_of (qw_heap w) i of None \<Rightarrow> [] | Some r \<Rightarrow> rq_body r) else [])"

definition ResponseBody :: "nat \<Rightarrow> request_world \<Rightarrow> string" where
  "ResponseBody i w =
    (if i \<in> set (qw_requests w) then (case map_of (qw_heap w) i of None \<Rightarrow> [] | Some r \<Rightarrow> rq_responseBody r) else [])"

subsection \<open>Client addresses\<close>

definition evictOldestClientIPsLocked :: "nat \<Rightarrow> (string, int) gomap \<Rightarrow> (string, int) gomap" where
  "evictOldestClientIPsLocked n ips =
    (let old = map fst (take n (sort_key snd ips)) in mkeep (\<lambda>ip seen. ip \<notin> set old) ips)"

definition trackClientRequest :: "string \<Rightarrow> int \<Rightarrow> request_world \<Rightarrow> request_world" where
  "trackClientRequest ip now w =
    (let w1 = w\<lparr>qw_totalRequests := qw_totalRequests w + 1\<rparr> in
     if ip = [] then w1
     else
       let ips = qw_clientIPs w1;
           ips' = (if \<not> mhas ips ip \<and> maxClientIPs \<le> length ips
                   then evictOldestClientIPsLocked (length ips div 2) ips else ips)
       in w1\<lparr>qw_clientIPs := mput ip now ips'\<rparr>)"

definition ClientIPCount :: "request_world \<Rightarrow> nat" where
  "ClientIPCount w = length (qw_clientIPs w)"

subsection \<open>Registration and rounds\<close>

definition fresh_request :: "nat \<Rightarrow> string \<Rightarrow> string \<Rightarrow> string \<Rightarrow> string \<Rightarrow> string \<Rightarrow> int \<Rightarrow> RequestState" where
  "fresh_request i model body clientIP apiKeyRaw keyName now =
    \<lparr>rq_ID = i, rq_Status = StatusRunning, rq_StartedAt = now, rq_FirstTokenAt = 0, rq_OutputChars = 0,
     rq_Duration = 0, rq_Model = model, rq_ClientIP = clientIP, rq_APIKey = maskAPIKey apiKeyRaw,
     rq_KeyName = keyName, rq_Usage = zero_Usage, rq_UsageEstimated = False, rq_Round = 0,
     rq_TargetChannel = [], rq_TargetModel = [], rq_KeyLabel = [], rq_ThinkingLevel = [],
     rq_ClientFormat = [], rq_UpstreamType = [], rq_RelayMode = [], rq_ProxyAddr = [],
     rq_AccountProbe = False, rq_Masked = False, rq_MaskMatches = [], rq_MaskMatchesTruncated = False,
     rq_Sending = False, rq_Error = [], rq_Class = ErrClassNone, rq_Attempts = [], rq_body = body,
     rq_responseBody = [], rq_cancel = None, rq_stopRequested = False, rq_stopCloses = 0,
     rq_roundStartedAt = None, rq_lastOutputPublish = 0\<rparr>"

definition newRequestState ::
  "string \<Rightarrow> string \<Rightarrow> string \<Rightarrow> string \<Rightarrow> string \<Rightarrow> int \<Rightarrow> request_world \<Rightarrow> nat \<times> request_world" where
  "newRequestState model body clientIP apiKeyRaw keyName now w =
    (let i = Suc (qw_idSeq w);
         r = fresh_request i model body clientIP apiKeyRaw keyName now;
         w1 = w\<lparr>qw_idSeq := i, qw_requests := i # qw_requests w\<rparr>
     in (i, trackClientRequest clientIP now (store_publish r w1)))"

definition applyMaskResult :: "nat \<Rightarrow> string \<Rightarrow> MaskMatch list \<Rightarrow> bool \<Rightarrow> request_world \<Rightarrow> request_world" where
  "applyMaskResult i masked matches truncated =
    with_request i (\<lambda>r. store_publish
      (r\<lparr>rq_body := masked, rq_MaskMatches := matches, rq_MaskMatchesTruncated := truncated\<rparr>))"

text \<open>Appending to the trail of attempts, which keeps the newest 200.\<close>

definition push_attempt :: "AttemptRecord \<Rightarrow> AttemptRecord list \<Rightarrow> AttemptRecord list" where
  "push_attempt a as =
    (if maxAttempts \<le> length as then drop (length as - maxAttempts + 1) as else as) @ [a]"

definition new_attempt :: "nat \<Rightarrow> RoundTarget \<Rightarrow> AttemptRecord" where
  "new_attempt seq t =
    \<lparr>at_Seq = seq, at_ChannelID = rt_ChannelID t, at_ChannelName = rt_ChannelName t,
     at_MemberID = rt_MemberID t, at_Model = rt_Model t, at_KeyLabel = rt_KeyLabel t,
     at_ProxyAddr = rt_ProxyAddr t, at_FirstTokenMS = 0, at_LatencyMS = 0, at_Outcome = AttemptOpen,
     at_ErrClass = ErrClassNone, at_ErrBrief = []\<rparr>"

definition start_round :: "nat option \<Rightarrow> RoundTarget \<Rightarrow> int \<Rightarrow> RequestState \<Rightarrow> RequestState" where
  "start_round cancel t now r =
    r\<lparr>rq_Round := Suc (rq_Round r), rq_TargetChannel := rt_ChannelName t, rq_TargetModel := rt_Model t,
      rq_KeyLabel := rt_KeyLabel t, rq_ThinkingLevel := rt_ThinkingLevel t,
      rq_ClientFormat := rt_ClientFormat t, rq_UpstreamType := rt_UpstreamType t,
      rq_ProxyAddr := rt_ProxyAddr t,
      rq_RelayMode := (if rt_Passthrough t then ''passthrough'' else ''converted''),
      rq_Sending := True, rq_Error := [], rq_cancel := cancel, rq_roundStartedAt := Some now,
      rq_Attempts := push_attempt (new_attempt (Suc (rq_Round r)) t) (rq_Attempts r)\<rparr>"

definition startRound :: "nat \<Rightarrow> nat option \<Rightarrow> RoundTarget \<Rightarrow> int \<Rightarrow> request_world \<Rightarrow> request_world" where
  "startRound i cancel t now = with_request i (\<lambda>r. store_publish (start_round cancel t now r))"

definition setRelayMode :: "nat \<Rightarrow> string \<Rightarrow> request_world \<Rightarrow> request_world" where
  "setRelayMode i mode =
    with_request i (\<lambda>r w. if rq_RelayMode r = mode then w else store_publish (r\<lparr>rq_RelayMode := mode\<rparr>) w)"

text \<open>The current attempt is the last one, if it belongs to the current round.\<close>

definition has_current_attempt :: "RequestState \<Rightarrow> bool" where
  "has_current_attempt r \<longleftrightarrow> rq_Attempts r \<noteq> [] \<and> at_Seq (last (rq_Attempts r)) = rq_Round r"

definition map_last :: "('a \<Rightarrow> 'a) \<Rightarrow> 'a list \<Rightarrow> 'a list" where
  "map_last f xs = (if xs = [] then [] else butlast xs @ [f (last xs)])"

text \<open>The Chinese notes of the source, as UTF-8 bytes: manual abort, client disconnected.\<close>

definition brief_admin :: string where
  "brief_admin = [CHR 0xE4, CHR 0xBA, CHR 0xBA, CHR 0xE5, CHR 0xB7, CHR 0xA5,
     CHR 0xE4, CHR 0xB8, CHR 0xAD, CHR 0xE6, CHR 0xAD, CHR 0xA2]"

definition brief_client :: string where
  "brief_client = [CHR 0xE5, CHR 0xAE, CHR 0xA2, CHR 0xE6, CHR 0x88, CHR 0xB7, CHR 0xE7, CHR 0xAB, CHR 0xAF,
     CHR 0xE6, CHR 0x96, CHR 0xAD, CHR 0xE5, CHR 0xBC, CHR 0x80]"

definition close_record :: "AttemptOutcome \<Rightarrow> ErrClass \<Rightarrow> string \<Rightarrow> int \<Rightarrow> AttemptRecord \<Rightarrow> AttemptRecord" where
  "close_record outcome class errText latency a =
    a\<lparr>at_Outcome := outcome, at_LatencyMS := latency,
      at_ErrClass := (if class \<noteq> ErrClassNone then class
                      else if outcome = AttemptFailed then ErrClassUpstream else ErrClassNone),
      at_ErrBrief := (if errText \<noteq> [] \<and> outcome \<noteq> AttemptSuccess then truncateErrBrief errText
                      else if outcome = AttemptCanceled \<and> class = ErrClassAdminAbort then brief_admin
                      else if outcome = AttemptCanceled \<and> class = ErrClassClientCancel then brief_client
                      else at_ErrBrief a)\<rparr>"

definition since :: "int option \<Rightarrow> int \<Rightarrow> int" where
  "since t now = (case t of None \<Rightarrow> now | Some t0 \<Rightarrow> now - t0)"

definition closeAttemptLocked :: "AttemptOutcome \<Rightarrow> ErrClass \<Rightarrow> string \<Rightarrow> int \<Rightarrow> RequestState \<Rightarrow> RequestState" where
  "closeAttemptLocked outcome class errText now r =
    (if \<not> has_current_attempt r then r
     else r\<lparr>rq_Attempts :=
       map_last (close_record outcome class errText (Milliseconds (since (rq_roundStartedAt r) now))) (rq_Attempts r)\<rparr>)"

definition finishRound :: "nat \<Rightarrow> AttemptOutcome \<Rightarrow> ErrClass \<Rightarrow> string \<Rightarrow> int \<Rightarrow> request_world \<Rightarrow> request_world" where
  "finishRound i outcome class errText now =
    with_request i (\<lambda>r. store_publish
      (closeAttemptLocked outcome class errText now (r\<lparr>rq_Sending := False, rq_Error := errText\<rparr>)))"

definition releaseRoundLifecycle :: "nat \<Rightarrow> request_world \<Rightarrow> request_world" where
  "releaseRoundLifecycle i =
    with_request i (\<lambda>r w. call_cancel (rq_cancel r) (put_request (r\<lparr>rq_cancel := None\<rparr>) w))"

definition Interrupt :: "nat \<Rightarrow> nat \<Rightarrow> request_world \<Rightarrow> bool \<times> request_world" where
  "Interrupt i roundNo w =
    (case (if i \<in> set (qw_requests w) then map_of (qw_heap w) i else None) of
       None \<Rightarrow> (False, w)
     | Some r \<Rightarrow>
         if rq_Round r \<noteq> roundNo \<or> rq_cancel r = None then (False, w)
         else (True, call_cancel (rq_cancel r) w))"

definition markCommitted :: "nat \<Rightarrow> int \<Rightarrow> request_world \<Rightarrow> request_world" where
  "markCommitted i now =
    with_request i (\<lambda>r. store_publish
      (let r1 = r\<lparr>rq_FirstTokenAt := now, rq_Status := StatusCommitted\<rparr>
       in case rq_roundStartedAt r1 of
            None \<Rightarrow> r1
          | Some t0 \<Rightarrow>
              if has_current_attempt r1
              then r1\<lparr>rq_Attempts := map_last (\<lambda>a. a\<lparr>at_FirstTokenMS := Milliseconds (now - t0)\<rparr>) (rq_Attempts r1)\<rparr>
              else r1))"

definition noteOutputChars :: "nat \<Rightarrow> int \<Rightarrow> int \<Rightarrow> request_world \<Rightarrow> request_world" where
  "noteOutputChars i n now w =
    (if n \<le> 0 then w
     else with_request i (\<lambda>r w.
       let r1 = r\<lparr>rq_OutputChars := rq_OutputChars r + n\<rparr>
       in if outputCharsPublishInterval \<le> now - rq_lastOutputPublish r1
          then store_publish (r1\<lparr>rq_lastOutputPublish := now\<rparr>) w
          else put_request r1 w) w)"

subsection \<open>Stopping\<close>

definition StopRequest :: "nat \<Rightarrow> request_world \<Rightarrow> request_world" where
  "StopRequest i =
    with_request i (\<lambda>r w.
      if rq_stopRequested r then w
      else call_cancel (rq_cancel r)
             (put_request (r\<lparr>rq_stopRequested := True, rq_stopCloses := Suc (rq_stopCloses r)\<rparr>) w))"

definition active_status :: "Status \<Rightarrow> bool" where
  "active_status s \<longleftrightarrow> s = StatusRunning \<or> s = StatusCommitted"

definition is_active :: "request_world \<Rightarrow> nat \<Rightarrow> bool" where
  "is_active w i = (case map_of (qw_heap w) i of None \<Rightarrow> False | Some r \<Rightarrow> active_status (rq_Status r))"

definition stopAllRunningRequests :: "request_world \<Rightarrow> nat \<times> request_world" where
  "stopAllRunningRequests w =
    (let snapshot = filter (is_active w) (qw_requests w) in (length snapshot, fold StopRequest snapshot w))"

definition StopAllRequests :: "request_world \<Rightarrow> nat \<times> request_world" where
  "StopAllRequests w = stopAllRunningRequests (w\<lparr>qw_allStopped := True\<rparr>)"

definition ClearStopAll :: "request_world \<Rightarrow> request_world" where
  "ClearStopAll w = w\<lparr>qw_allStopped := False\<rparr>"

definition StopRequestByID :: "nat \<Rightarrow> request_world \<Rightarrow> bool \<times> request_world" where
  "StopRequestByID i w = (if i \<in> set (qw_requests w) then (True, StopRequest i w) else (False, w))"

subsection \<open>Failures\<close>

definition appendFailureLocked :: "FailureSummary \<Rightarrow> request_world \<Rightarrow> request_world" where
  "appendFailureLocked s w =
    w\<lparr>qw_ring := (qw_ring w)[qw_failureNext w := s],
      qw_failureNext := (qw_failureNext w + 1) mod maxFailureRecords,
      qw_failureCount := (if qw_failureCount w < maxFailureRecords then Suc (qw_failureCount w)
                          else qw_failureCount w)\<rparr>"

text \<open>The loop of \<^verbatim>\<open>FailureSummaries\<close>: \<open>i\<close> counts back from the newest entry.\<close>

function collect_failures ::
  "request_world \<Rightarrow> nat \<Rightarrow> ErrClass \<Rightarrow> nat \<Rightarrow> FailureSummary list \<Rightarrow> FailureSummary list" where
  "collect_failures w limit class i result =
    (if i < qw_failureCount w \<and> length result < limit
     then
       let s = qw_ring w ! nat ((int (qw_failureNext w) - 1 - int i + int maxFailureRecords) mod int maxFailureRecords)
       in collect_failures w limit class (Suc i)
            (if class \<noteq> ErrClassNone \<and> fs_ErrClass s \<noteq> class then result else result @ [s])
     else result)"
  by pat_completeness auto
termination by (relation "measure (\<lambda>(w, limit, class, i, result). qw_failureCount w - i)") auto

declare collect_failures.simps [simp del]

definition FailureSummaries :: "int \<Rightarrow> ErrClass \<Rightarrow> request_world \<Rightarrow> FailureSummary list" where
  "FailureSummaries limit class w =
    (let limit = (if limit \<le> 0 \<or> int maxFailureRecords < limit then int maxFailureRecords else limit)
     in collect_failures w (nat limit) class 0 [])"

subsection \<open>Usage\<close>

definition suspiciousZeroMinBodyBytes :: nat where
  "suspiciousZeroMinBodyBytes = 64"

definition suspiciousZeroEstimateSlack :: int where
  "suspiciousZeroEstimateSlack = 8192"

text \<open>
  \<open>texts\<close> stands for the JSON reader: for a body it lists, for each element of \<^verbatim>\<open>messages\<close>, the number of
  bytes of text in its content.
\<close>

definition nonTrivialRequestBody :: "(string \<Rightarrow> nat list) \<Rightarrow> string \<Rightarrow> bool" where
  "nonTrivialRequestBody texts body =
    (if length body < suspiciousZeroMinBodyBytes then False
     else texts body \<noteq> [] \<and> 0 < sum_list (texts body))"

definition cache_reported :: "Usage option \<Rightarrow> bool" where
  "cache_reported usage =
    (case usage of
       None \<Rightarrow> False
     | Some u \<Rightarrow>
         (case us_PromptTokensDetails u of
            None \<Rightarrow> False
          | Some d \<Rightarrow> 0 < pd_CachedTokens d \<or> 0 < pd_WriteCachedTokens d \<or>
                      0 < pd_WriteCached5MinTokens d \<or> 0 < pd_WriteCached1HourTokens d))"

definition sanitizeUsage :: "(string \<Rightarrow> nat list) \<Rightarrow> Usage option \<Rightarrow> string \<Rightarrow> Usage option \<times> bool" where
  "sanitizeUsage texts usage body =
    (if (case usage of None \<Rightarrow> False | Some u \<Rightarrow> 0 < us_PromptTokens u) then (usage, False)
     else if cache_reported usage then (usage, False)
     else if \<not> nonTrivialRequestBody texts body then (usage, False)
     else
       let fixed = (case usage of None \<Rightarrow> zero_Usage | Some u \<Rightarrow> u);
           estimated = max 1 (int (length body) div 3);
           estimated = min estimated (int (length body) * 2 + suspiciousZeroEstimateSlack)
       in (Some (fixed\<lparr>us_PromptTokens := estimated, us_TotalTokens := estimated + us_CompletionTokens fixed\<rparr>), True))"

subsection \<open>The terminal state\<close>

definition conversationOutcome :: "Status \<Rightarrow> string" where
  "conversationOutcome s =
    (case s of StatusSuccess \<Rightarrow> ''success'' | StatusFailed \<Rightarrow> ''failed'' | _ \<Rightarrow> ''canceled'')"

fun trim_queue :: "nat list \<Rightarrow> nat list \<Rightarrow> nat list \<times> nat list" where
  "trim_queue [] requests = ([], requests)"
| "trim_queue (oldest # queue) requests =
    (if maxFinished < Suc (length queue) then trim_queue queue (removeAll oldest requests)
     else (oldest # queue, requests))"

definition trimFinishedRequestsLocked :: "request_world \<Rightarrow> request_world" where
  "trimFinishedRequestsLocked w =
    (case trim_queue (qw_finished w) (qw_requests w) of
       (queue, requests) \<Rightarrow> w\<lparr>qw_finished := queue, qw_requests := requests\<rparr>)"

text \<open>The first critical section of \<^verbatim>\<open>markSucceeded\<close>, \<^verbatim>\<open>markFailed\<close> and \<^verbatim>\<open>markCanceled\<close>.\<close>

definition set_terminal :: "Status \<Rightarrow> string \<Rightarrow> ErrClass \<Rightarrow> string \<Rightarrow> RequestState \<Rightarrow> RequestState" where
  "set_terminal status err class responseBody r =
    r\<lparr>rq_Status := status, rq_Error := err, rq_Class := class, rq_responseBody := responseBody,
      rq_Sending := False, rq_cancel := None\<rparr>"

text \<open>The first phase of \<^verbatim>\<open>finish\<close>, outside the lock: the hand-over to persistence.\<close>

definition conversation_of ::
  "RequestState \<Rightarrow> string \<Rightarrow> string \<Rightarrow> Status \<Rightarrow> ErrClass \<Rightarrow> string \<Rightarrow> Usage option \<Rightarrow> int \<Rightarrow> ConversationRecord" where
  "conversation_of r body responseBody status class errText usage now =
    \<lparr>cr_RequestID = rq_ID r, cr_CreatedAt = now, cr_Model = rq_Model r, cr_ChannelName = rq_TargetChannel r,
     cr_TargetModel = rq_TargetModel r, cr_ClientIP = rq_ClientIP r, cr_KeyName = rq_KeyName r,
     cr_ClientFormat = rq_ClientFormat r, cr_UpstreamType = rq_UpstreamType r, cr_RelayMode = rq_RelayMode r,
     cr_Outcome = conversationOutcome status, cr_ErrClass = class, cr_ErrBrief = truncateErrBrief errText,
     cr_RawRequest = body, cr_Response = responseBody,
     cr_Usage = map_option (\<lambda>u. (us_PromptTokens u, us_CompletionTokens u)) usage\<rparr>"

definition sample_of :: "RequestState \<Rightarrow> Usage \<Rightarrow> int \<Rightarrow> UsageSample" where
  "sample_of r u now =
    \<lparr>ub_Model = rq_TargetModel r, ub_PromptTokens = us_PromptTokens u,
     ub_CompletionTokens = us_CompletionTokens u,
     ub_ReasoningTokens = (case us_ReasoningTokens u of None \<Rightarrow> 0 | Some n \<Rightarrow> n),
     ub_CachedTokens = (case us_PromptTokensDetails u of None \<Rightarrow> 0 | Some d \<Rightarrow> pd_CachedTokens d),
     ub_Cost = (case us_Cost u of None \<Rightarrow> 0 | Some c \<Rightarrow> c),
     ub_DurationMs = Milliseconds (now - rq_StartedAt r)\<rparr>"

definition finish_outside ::
  "RequestState \<Rightarrow> string \<Rightarrow> string \<Rightarrow> Status \<Rightarrow> ErrClass \<Rightarrow> string \<Rightarrow> Usage option \<times> bool \<Rightarrow> int
   \<Rightarrow> request_world \<Rightarrow> request_world" where
  "finish_outside r body responseBody status class errText sanitized now w =
    (let w1 = w\<lparr>qw_conversations :=
           qw_conversations w @ [conversation_of r body responseBody status class errText (fst sanitized) now]\<rparr>
     in case fst sanitized of
          None \<Rightarrow> w1
        | Some u \<Rightarrow> if snd sanitized then w1 else w1\<lparr>qw_samples := qw_samples w1 @ [sample_of r u now]\<rparr>)"

text \<open>The second phase, one critical section.\<close>

definition finish_fields :: "string \<Rightarrow> string \<Rightarrow> Usage option \<times> bool \<Rightarrow> int \<Rightarrow> RequestState \<Rightarrow> RequestState" where
  "finish_fields body responseBody sanitized now r =
    r\<lparr>rq_UsageEstimated := snd sanitized,
      rq_Usage := (case fst sanitized of None \<Rightarrow> rq_Usage r | Some u \<Rightarrow> u),
      rq_body := truncatePreview body, rq_responseBody := truncatePreview responseBody,
      rq_Duration := now - rq_StartedAt r\<rparr>"

definition failure_of :: "RequestState \<Rightarrow> ErrClass \<Rightarrow> string \<Rightarrow> int \<Rightarrow> FailureSummary" where
  "failure_of r class errText now =
    \<lparr>fs_ID = rq_ID r, fs_FinishedAt = now, fs_Model = rq_Model r, fs_TargetChannel = rq_TargetChannel r,
     fs_TargetModel = rq_TargetModel r, fs_ErrClass = class, fs_ErrBrief = truncateErrBrief errText\<rparr>"

definition finish_locked ::
  "nat \<Rightarrow> string \<Rightarrow> string \<Rightarrow> Status \<Rightarrow> ErrClass \<Rightarrow> string \<Rightarrow> Usage option \<times> bool \<Rightarrow> int
   \<Rightarrow> request_world \<Rightarrow> request_world" where
  "finish_locked i body responseBody status class errText sanitized now =
    with_request i (\<lambda>r w.
      let r1 = finish_fields body responseBody sanitized now r;
          w1 = (if status = StatusFailed then appendFailureLocked (failure_of r1 class errText now) w else w);
          w2 = store_publish r1 w1
      in trimFinishedRequestsLocked (w2\<lparr>qw_finished := qw_finished w2 @ [i]\<rparr>))"

text \<open>
  The composition, when no other critical section runs in between; \<open>finish_request\<close> is what
  \<^verbatim>\<open>markSucceeded\<close>, \<^verbatim>\<open>markFailed\<close> and \<^verbatim>\<open>markCanceled\<close> share.
\<close>

definition finish_request ::
  "(string \<Rightarrow> nat list) \<Rightarrow> nat \<Rightarrow> Status \<Rightarrow> string \<Rightarrow> (ErrClass \<Rightarrow> ErrClass) \<Rightarrow> string \<Rightarrow> Usage option \<Rightarrow> int
   \<Rightarrow> request_world \<Rightarrow> request_world" where
  "finish_request texts i status err class responseBody usage now =
    with_request i (\<lambda>r w.
      let r1 = set_terminal status err (class (rq_Class r)) responseBody r;
          sanitized = sanitizeUsage texts usage (rq_body r1)
      in finish_locked i (rq_body r1) responseBody status (rq_Class r1) err sanitized now
           (finish_outside r1 (rq_body r1) responseBody status (rq_Class r1) err sanitized now (put_request r1 w)))"

definition markSucceeded ::
  "(string \<Rightarrow> nat list) \<Rightarrow> nat \<Rightarrow> string \<Rightarrow> Usage option \<Rightarrow> int \<Rightarrow> request_world \<Rightarrow> request_world" where
  "markSucceeded texts i responseBody usage now =
    finish_request texts i StatusSuccess [] (\<lambda>c. c) responseBody usage now"

definition markFailed ::
  "(string \<Rightarrow> nat list) \<Rightarrow> nat \<Rightarrow> relay_error \<Rightarrow> string \<Rightarrow> Usage option \<Rightarrow> int \<Rightarrow> request_world \<Rightarrow> request_world" where
  "markFailed texts i err responseBody usage now =
    finish_request texts i StatusFailed (er_text err) (\<lambda>_. ClassifyError (Some err)) responseBody usage now"

definition markCanceled ::
  "(string \<Rightarrow> nat list) \<Rightarrow> nat \<Rightarrow> string \<Rightarrow> string \<Rightarrow> Usage option \<Rightarrow> int \<Rightarrow> request_world \<Rightarrow> request_world" where
  "markCanceled texts i err responseBody usage now =
    finish_request texts i StatusCanceled err (\<lambda>_. ErrClassClientCancel) responseBody usage now"

text \<open>\<^verbatim>\<open>(r *RequestState) wait\<close>: how the \<^verbatim>\<open>select\<close> ended, and what follows.\<close>

datatype wait_outcome = WaitContextDone string | WaitStopped | WaitElapsed

definition errAdminStopped :: string where
  "errAdminStopped =
    [CHR 0xE7, CHR 0xAE, CHR 0xA1, CHR 0xE7, CHR 0x90, CHR 0x86, CHR 0xE7, CHR 0xAB, CHR 0xAF, CHR 0xE5, CHR 0xB7, CHR 0xB2,
     CHR 0xE5, CHR 0x81, CHR 0x9C, CHR 0xE6, CHR 0xAD, CHR 0xA2, CHR 0xE8, CHR 0xAF, CHR 0xB7, CHR 0xE6, CHR 0xB1, CHR 0x82]"

definition request_wait ::
  "(string \<Rightarrow> nat list) \<Rightarrow> nat \<Rightarrow> wait_outcome \<Rightarrow> int \<Rightarrow> request_world \<Rightarrow> bool \<times> request_world" where
  "request_wait texts i outcome now w =
    (case outcome of
       WaitContextDone err \<Rightarrow> (False, markCanceled texts i err [] None now w)
     | WaitStopped \<Rightarrow> (False, markCanceled texts i errAdminStopped [] None now w)
     | WaitElapsed \<Rightarrow> (True, w))"

definition abandonUnfinishedRequest ::
  "(string \<Rightarrow> nat list) \<Rightarrow> nat \<Rightarrow> relay_error \<Rightarrow> int \<Rightarrow> request_world \<Rightarrow> request_world" where
  "abandonUnfinishedRequest texts i err now =
    with_request i (\<lambda>r w.
      if rq_Status r \<in> {StatusSuccess, StatusFailed, StatusCanceled} then w
      else markFailed texts i err [] None now w)"

definition Clear :: "request_world \<Rightarrow> request_world" where
  "Clear w = w\<lparr>qw_requests := filter (is_active w) (qw_requests w), qw_failureCount := 0,
                qw_failureNext := 0, qw_finished := []\<rparr>"

end
