(* ===== verification/Request_Lifecycle.thy ===== *)
theory Request_Lifecycle
  imports Request_State "HOL-Library.Multiset"
begin

text \<open>
  Correctness of the request registry (\<^verbatim>\<open>state.go\<close>): the ring of failures refines the list of the
  newest failures, the trail of attempts is contiguous and bounded, and the invariant of the registry
  holds in every state reachable by any interleaving of its critical sections.
\<close>

interpretation qb: broadcaster qw_watchers publishRequestLocked "\<lambda>r w. outgoing r" streamBuffer
  by unfold_locales (simp add: publishRequestLocked_def)

subsection \<open>The ring of failures\<close>

definition ring_ok :: "request_world \<Rightarrow> bool" where
  "ring_ok w \<longleftrightarrow> length (qw_ring w) = maxFailureRecords \<and> qw_failureNext w < maxFailureRecords \<and>
     qw_failureCount w \<le> maxFailureRecords"

definition ring_index :: "nat \<Rightarrow> nat \<Rightarrow> nat" where
  "ring_index nxt i = (nxt + (maxFailureRecords - 1 - i)) mod maxFailureRecords"

text \<open>The abstraction: the failures the ring holds, newest first.\<close>

definition recent :: "request_world \<Rightarrow> FailureSummary list" where
  "recent w = map (\<lambda>i. qw_ring w ! ring_index (qw_failureNext w) i) [0..<qw_failureCount w]"

lemma length_recent [simp]: "length (recent w) = qw_failureCount w"
  by (simp add: recent_def)

lemma ring_index_int:
  assumes "i < maxFailureRecords"
  shows "nat ((int nxt - 1 - int i + int maxFailureRecords) mod int maxFailureRecords) = ring_index nxt i"
proof -
  have "int nxt - 1 - int i + int maxFailureRecords = int (nxt + (maxFailureRecords - 1 - i))"
    using assms by (simp add: maxFailureRecords_def of_nat_diff)
  then show ?thesis unfolding ring_index_def by (metis nat_int zmod_int)
qed

lemma ring_index_step:
  assumes "nxt < maxFailureRecords"
  shows "ring_index (Suc nxt mod maxFailureRecords) 0 = nxt"
    and "Suc i < maxFailureRecords \<Longrightarrow> ring_index (Suc nxt mod maxFailureRecords) (Suc i) = ring_index nxt i"
    and "Suc i < maxFailureRecords \<Longrightarrow> ring_index nxt i \<noteq> nxt"
proof -
  have m: "(Suc nxt mod maxFailureRecords + k) mod maxFailureRecords = (Suc nxt + k) mod maxFailureRecords" for k
    by (rule mod_add_left_eq)
  show "ring_index (Suc nxt mod maxFailureRecords) 0 = nxt"
    using assms unfolding ring_index_def m by (simp add: maxFailureRecords_def)
  show "ring_index (Suc nxt mod maxFailureRecords) (Suc i) = ring_index nxt i" if "Suc i < maxFailureRecords"
  proof -
    have "Suc nxt + (maxFailureRecords - 1 - Suc i) = nxt + (maxFailureRecords - 1 - i)"
      using that by (simp add: maxFailureRecords_def)
    then show ?thesis unfolding ring_index_def m by (rule arg_cong)
  qed
  show "ring_index nxt i \<noteq> nxt" if "Suc i < maxFailureRecords"
    using that assms unfolding ring_index_def maxFailureRecords_def by (auto simp: mod_if split: if_splits)
qed

lemma append_failure_ok: "ring_ok w \<Longrightarrow> ring_ok (appendFailureLocked s w)"
  by (auto simp: ring_ok_def appendFailureLocked_def maxFailureRecords_def)

lemma recent_append:
  assumes "ring_ok w"
  shows "recent (appendFailureLocked s w) = take maxFailureRecords (s # recent w)"
proof (rule nth_equalityI)
  let ?c = "qw_failureCount w" and ?w' = "appendFailureLocked s w"
  have c: "?c \<le> maxFailureRecords" "qw_failureNext w < maxFailureRecords"
    "length (qw_ring w) = maxFailureRecords" using assms by (auto simp: ring_ok_def)
  show len: "length (recent ?w') = length (take maxFailureRecords (s # recent w))"
    using c by (simp add: appendFailureLocked_def)
  fix i assume "i < length (recent ?w')"
  then have i: "i < maxFailureRecords" "i < Suc ?c" using len by auto
  have nth: "recent ?w' ! i = (qw_ring w)[qw_failureNext w := s] ! ring_index (Suc (qw_failureNext w) mod maxFailureRecords) i"
    using i c by (simp add: recent_def appendFailureLocked_def)
  show "recent ?w' ! i = take maxFailureRecords (s # recent w) ! i"
  proof (cases i)
    case 0
    then show ?thesis using nth c ring_index_step(1) [OF c(2)] i by simp
  next
    case (Suc j)
    then have "recent ?w' ! i = qw_ring w ! ring_index (qw_failureNext w) j"
      using nth i ring_index_step(2) [OF c(2)] ring_index_step(3) [OF c(2), of j]
      by (simp add: nth_list_update_neq [OF not_sym])
    then show ?thesis using Suc i by (simp add: recent_def)
  qed
qed

lemma recent_fold:
  "ring_ok w \<Longrightarrow> recent (fold appendFailureLocked fs w) = take maxFailureRecords (rev fs @ recent w)"
proof (induction fs arbitrary: w)
  case Nil
  then show ?case by (simp add: ring_ok_def)
next
  case (Cons f fs)
  then have "recent (fold appendFailureLocked (f # fs) w) =
      take maxFailureRecords (rev fs @ take maxFailureRecords (f # recent w))"
    by (simp add: append_failure_ok recent_append)
  also have "\<dots> = take maxFailureRecords (rev (f # fs) @ recent w)" by (simp add: take_append min_def)
  finally show ?case .
qed

lemma fold_ring_ok: "ring_ok w \<Longrightarrow> ring_ok (fold appendFailureLocked fs w)"
  by (induction fs arbitrary: w) (auto intro: append_failure_ok)

definition class_matches :: "ErrClass \<Rightarrow> FailureSummary \<Rightarrow> bool" where
  "class_matches cls s \<longleftrightarrow> cls = ErrClassNone \<or> fs_ErrClass s = cls"

lemma collect_failures_spec:
  assumes "qw_failureCount w \<le> maxFailureRecords" and "length result \<le> limit"
  shows "collect_failures w limit cls i result =
    result @ take (limit - length result) (filter (class_matches cls) (drop i (recent w)))"
  using assms
proof (induction w limit cls i result rule: collect_failures.induct)
  case (1 w limit cls i result)
  let ?s = "qw_ring w ! nat ((int (qw_failureNext w) - 1 - int i + int maxFailureRecords) mod int maxFailureRecords)"
  show ?case
  proof (cases "i < qw_failureCount w \<and> length result < limit")
    case True
    then have s: "?s = recent w ! i"
      using ring_index_int [of i "qw_failureNext w"] "1.prems"(1) by (simp add: recent_def)
    have d: "drop i (recent w) = recent w ! i # drop (Suc i) (recent w)"
      using True by (simp add: Cons_nth_drop_Suc)
    define x where "x = recent w ! i"
    define R where "R = (if cls \<noteq> ErrClassNone \<and> fs_ErrClass x \<noteq> cls then result else result @ [x])"
    have R: "R = (if class_matches cls x then result @ [x] else result)" by (auto simp: R_def class_matches_def)
    have "collect_failures w limit cls i result = collect_failures w limit cls (Suc i) R"
      using True collect_failures.simps [of w limit cls i result] by (simp only: s x_def [symmetric] R_def Let_def if_True simp_thms)
    also have "\<dots> = R @ take (limit - length R) (filter (class_matches cls) (drop (Suc i) (recent w)))"
      using "1.IH" [OF True refl] "1.prems" True unfolding s x_def [symmetric] R_def [symmetric] by (simp add: R)
    also have "\<dots> = result @ take (limit - length result) (filter (class_matches cls) (drop i (recent w)))"
    proof -
      have e: "limit - length result = Suc (limit - Suc (length result))" using True by auto
      show ?thesis unfolding d x_def [symmetric] R by (cases "class_matches cls x") (simp_all add: e)
    qed
    finally show ?thesis .
  next
    case False
    then have "collect_failures w limit cls i result = result"
      using collect_failures.simps [of w limit cls i result] by (simp only: if_False)
    with False "1.prems" show ?thesis by auto
  qed
qed

lemma collect_all:
  assumes "ring_ok w"
  shows "FailureSummaries limit cls w =
    take (if limit \<le> 0 \<or> 200 < limit then 200 else nat limit) (filter (class_matches cls) (recent w))"
  using collect_failures_spec [of w "[]"] assms
  by (simp add: FailureSummaries_def Let_def ring_ok_def maxFailureRecords_def)

text \<open>
  C20. The failure ring (\<^verbatim>\<open>appendFailureLocked\<close>, \<^verbatim>\<open>FailureSummaries\<close>, \<^verbatim>\<open>Clear\<close>) implements a list. After any
  sequence of failures since the last \<^verbatim>\<open>Clear\<close>, the query returns the newest first, at most the
  last 200 failures, those of the asked class only, cut to the asked number.
\<close>

theorem failure_ring_refines:
  assumes "ring_ok w"
  shows "FailureSummaries limit cls (fold appendFailureLocked fs (Clear w)) =
    take (if limit \<le> 0 \<or> 200 < limit then 200 else nat limit)
      (filter (class_matches cls) (take 200 (rev fs)))"
proof -
  have ok: "ring_ok (Clear w)" using assms by (simp add: ring_ok_def Clear_def)
  have "recent (Clear w) = []" by (simp add: recent_def Clear_def)
  then show ?thesis
    using collect_all [OF fold_ring_ok [OF ok]] recent_fold [OF ok] by (simp add: maxFailureRecords_def)
qed

lemma ring_ok_init [simp, intro]: "ring_ok init_requests"
  by (simp add: ring_ok_def init_requests_def maxFailureRecords_def)

theorem failure_ring_refines_witness:
  "FailureSummaries 1 ErrClassTimeout (fold appendFailureLocked
      [zero_FailureSummary\<lparr>fs_ID := 1, fs_ErrClass := ErrClassTimeout\<rparr>,
       zero_FailureSummary\<lparr>fs_ID := 2, fs_ErrClass := ErrClassTimeout\<rparr>,
       zero_FailureSummary\<lparr>fs_ID := 3\<rparr>] (Clear init_requests))
    = [zero_FailureSummary\<lparr>fs_ID := 2, fs_ErrClass := ErrClassTimeout\<rparr>]"
  by (subst failure_ring_refines) (simp_all add: class_matches_def zero_FailureSummary_def)

subsection \<open>One request\<close>

text \<open>
  The trail of attempts holds the newest rounds without a gap; \<^verbatim>\<open>stopCh\<close> is closed once, exactly when
  a stop was requested (closing a closed channel would panic); a started round has a start time.
\<close>

definition request_ok :: "RequestState \<Rightarrow> bool" where
  "request_ok r \<longleftrightarrow>
     map at_Seq (rq_Attempts r) = [Suc (rq_Round r) - length (rq_Attempts r)..<Suc (rq_Round r)] \<and>
     length (rq_Attempts r) \<le> maxAttempts \<and>
     rq_stopCloses r = (if rq_stopRequested r then 1 else 0) \<and>
     (rq_Attempts r \<noteq> [] \<longrightarrow> rq_roundStartedAt r \<noteq> None)"

lemma request_ok_fresh: "request_ok (fresh_request i m b ip key name now)"
  by (simp add: request_ok_def fresh_request_def)

lemma map_last_seq: "(\<And>a. at_Seq (f a) = at_Seq a) \<Longrightarrow> map at_Seq (map_last f as) = map at_Seq as"
  by (cases as rule: rev_cases) (auto simp: map_last_def)

lemma length_map_last [simp]: "length (map_last f as) = length as"
  by (cases as rule: rev_cases) (auto simp: map_last_def)

lemma map_last_Nil_iff [simp]: "map_last f as = [] \<longleftrightarrow> as = []"
  by (simp add: map_last_def)

lemma request_ok_seqs:
  "request_ok r \<Longrightarrow> rq_Attempts r \<noteq> [] \<Longrightarrow> has_current_attempt r \<and> length (rq_Attempts r) \<le> rq_Round r + 1"
proof -
  assume ok: "request_ok r" and ne: "rq_Attempts r \<noteq> []"
  let ?n = "length (rq_Attempts r)"
  have m: "map at_Seq (rq_Attempts r) = [Suc (rq_Round r) - ?n..<Suc (rq_Round r)]" using ok by (simp add: request_ok_def)
  then have l: "?n = Suc (rq_Round r) - (Suc (rq_Round r) - ?n)" by (metis length_map length_upt)
  have "last (map at_Seq (rq_Attempts r)) = rq_Round r" unfolding m using l ne by (subst last_upt) auto
  with l ne show ?thesis by (auto simp: has_current_attempt_def last_map)
qed

lemma start_round_ok:
  assumes "request_ok r"
  shows "request_ok (start_round cancel t now r)"
proof -
  let ?as = "rq_Attempts r" and ?a = "new_attempt (Suc (rq_Round r)) t"
  let ?n = "length ?as"
  have n: "?n \<le> rq_Round r + 1"
    using request_ok_seqs [OF assms] by (cases "?as = []") auto
  have m: "map at_Seq ?as = [Suc (rq_Round r) - ?n..<Suc (rq_Round r)]" and le: "?n \<le> maxAttempts"
    using assms by (auto simp: request_ok_def)
  have "map at_Seq (push_attempt ?a ?as) =
      [Suc (Suc (rq_Round r)) - length (push_attempt ?a ?as)..<Suc (Suc (rq_Round r))]"
  proof (cases "maxAttempts \<le> ?n")
    case True
    then have "?n = maxAttempts" using le by simp
    moreover have "Suc (rq_Round r - 199) = rq_Round r - 198"
      using \<open>?n = maxAttempts\<close> n by (simp add: maxAttempts_def)
    ultimately show ?thesis
      using n m by (simp add: push_attempt_def drop_map [symmetric] new_attempt_def maxAttempts_def)
  next
    case False
    then show ?thesis using n m by (simp add: push_attempt_def new_attempt_def)
  qed
  moreover have "length (push_attempt ?a ?as) \<le> maxAttempts"
    using le by (auto simp: push_attempt_def maxAttempts_def)
  ultimately show ?thesis using assms by (simp add: request_ok_def start_round_def)
qed

lemma close_attempt_ok: "request_ok r \<Longrightarrow> request_ok (closeAttemptLocked outcome cls errText now r)"
  by (auto simp: closeAttemptLocked_def request_ok_def map_last_seq close_record_def)

subsection \<open>The registry\<close>

definition blank :: "RequestState \<Rightarrow> bool" where
  "blank m \<longleftrightarrow> rq_body m = [] \<and> rq_responseBody m = []"

definition objects_ok :: "request_world \<Rightarrow> bool" where
  "objects_ok w \<longleftrightarrow> mwf (qw_heap w) \<and>
     (\<forall>(k, r) \<in> set (qw_heap w). rq_ID r = k \<and> k \<le> qw_idSeq w \<and> request_ok r) \<and>
     distinct (qw_requests w) \<and> set (qw_requests w) \<subseteq> mkeys (qw_heap w)"

definition streams_blank :: "request_world \<Rightarrow> bool" where
  "streams_blank w \<longleftrightarrow> streams_ok streamBuffer (qw_watchers w) \<and>
     (\<forall>(s, buf) \<in> set (qw_watchers w). list_all blank buf)"

definition ips_ok :: "request_world \<Rightarrow> bool" where
  "ips_ok w \<longleftrightarrow> mwf (qw_clientIPs w) \<and> length (qw_clientIPs w) \<le> maxClientIPs"

text \<open>\<open>pending\<close>: the requests whose terminal status is set and whose \<^verbatim>\<open>finish\<close> has not run yet.\<close>

definition finished_ok :: "request_world \<Rightarrow> nat list \<Rightarrow> bool" where
  "finished_ok w pending \<longleftrightarrow> length (qw_finished w) \<le> maxFinished \<and>
     (\<forall>i \<in> set (qw_requests w). \<not> is_active w i \<longrightarrow> i \<in> set (qw_finished w) \<union> set pending)"

definition registry_ok :: "request_world \<Rightarrow> nat list \<Rightarrow> bool" where
  "registry_ok w pending \<longleftrightarrow> objects_ok w \<and> finished_ok w pending \<and> streams_blank w \<and> ring_ok w \<and> ips_ok w"

lemma registry_ok_init: "registry_ok init_requests []"
  by (simp add: registry_ok_def objects_ok_def finished_ok_def streams_blank_def ring_ok_def ips_ok_def
      init_requests_def streams_ok_def maxFailureRecords_def)

lemma object_ok:
  "objects_ok w \<Longrightarrow> map_of (qw_heap w) i = Some r \<Longrightarrow> rq_ID r = i \<and> i \<le> qw_idSeq w \<and> request_ok r"
  by (auto simp: objects_ok_def dest: map_of_SomeD)

lemma put_request_fields [simp]:
  "qw_requests (put_request r w) = qw_requests w" "qw_finished (put_request r w) = qw_finished w"
  "qw_watchers (put_request r w) = qw_watchers w" "qw_idSeq (put_request r w) = qw_idSeq w"
  "qw_ring (put_request r w) = qw_ring w" "qw_failureCount (put_request r w) = qw_failureCount w"
  "qw_failureNext (put_request r w) = qw_failureNext w" "qw_clientIPs (put_request r w) = qw_clientIPs w"
  "qw_heap (put_request r w) = mput (rq_ID r) r (qw_heap w)"
  by (simp_all add: put_request_def)

lemma publish_request_fields [simp]:
  "qw_requests (publishRequestLocked r w) = qw_requests w"
  "qw_finished (publishRequestLocked r w) = qw_finished w"
  "qw_idSeq (publishRequestLocked r w) = qw_idSeq w"
  "qw_ring (publishRequestLocked r w) = qw_ring w"
  "qw_failureCount (publishRequestLocked r w) = qw_failureCount w"
  "qw_failureNext (publishRequestLocked r w) = qw_failureNext w"
  "qw_clientIPs (publishRequestLocked r w) = qw_clientIPs w"
  "qw_heap (publishRequestLocked r w) = qw_heap w"
  by (simp_all add: publishRequestLocked_def)

lemma publish_blank: "streams_blank w \<Longrightarrow> streams_blank (publishRequestLocked r w)"
proof -
  have "list_all blank buf" if "\<forall>(s, buf) \<in> set ws. list_all blank buf"
      "(s, buf) \<in> set (publish cap (outgoing r) ws)" for s buf cap ws
    using that by (induction cap "outgoing r" ws rule: publish.induct)
      (auto simp: blank_def outgoing_def split: if_splits)
  then show "streams_blank w \<Longrightarrow> streams_blank (publishRequestLocked r w)"
    using qb.pub_keeps_ok [of w r] by (force simp: streams_blank_def publishRequestLocked_def)
qed

text \<open>Writing back an object: allowed when it stays well formed and does not become terminal unnoticed.\<close>

lemma put_objects_ok:
  assumes "objects_ok w" and "map_of (qw_heap w) (rq_ID r') = Some r" and "request_ok r'"
  shows "objects_ok (put_request r' w)"
proof -

  have keys: "mkeys (mput (rq_ID r') r' (qw_heap w)) = insert (rq_ID r') (mkeys (qw_heap w))"
    unfolding set_eq_iff mhas_keys [symmetric] insert_iff by simp
  have "rq_ID q = k \<and> k \<le> qw_idSeq w \<and> request_ok q" if "(k, q) \<in> set (mput (rq_ID r') r' (qw_heap w))" for k q
  proof (cases "(k, q) \<in> set (qw_heap w)")
    case True
    with assms(1) show ?thesis by (auto simp: objects_ok_def)
  next
    case False
    with that set_mput_subset [of "rq_ID r'" r' "qw_heap w"] have "(k, q) = (rq_ID r', r')" by blast
    with assms(3) object_ok [OF assms(1,2)] show ?thesis by simp
  qed
  with assms(1) show ?thesis
    unfolding objects_ok_def put_request_fields keys by (intro conjI) (auto split: prod.split)
qed

lemma put_finished_ok:
  assumes "finished_ok w pending" and "map_of (qw_heap w) (rq_ID r') = Some r"
    and "\<not> active_status (rq_Status r') \<Longrightarrow> \<not> active_status (rq_Status r) \<or> rq_ID r' \<in> set pending"
  shows "finished_ok (put_request r' w) pending"
  using assms by (auto simp: finished_ok_def is_active_def)

lemma put_registry_ok:
  assumes "registry_ok w pending" and "map_of (qw_heap w) (rq_ID r') = Some r" and "request_ok r'"
    and "\<not> active_status (rq_Status r') \<Longrightarrow> \<not> active_status (rq_Status r) \<or> rq_ID r' \<in> set pending"
  shows "registry_ok (put_request r' w) pending"
  using assms put_objects_ok [of w r' r] put_finished_ok [of w pending r' r]
  by (simp add: registry_ok_def streams_blank_def ring_ok_def ips_ok_def)

lemma publish_registry_ok: "registry_ok w pending \<Longrightarrow> registry_ok (publishRequestLocked r w) pending"
  using publish_blank [of w r]
  by (auto simp: registry_ok_def objects_ok_def finished_ok_def is_active_def ring_ok_def ips_ok_def)

lemma cancel_registry_ok [simp]: "registry_ok (call_cancel c w) pending = registry_ok w pending"
  by (auto simp: call_cancel_def registry_ok_def objects_ok_def finished_ok_def is_active_def streams_blank_def
      ring_ok_def ips_ok_def split: option.splits)

text \<open>The rule for every method that rewrites its receiver.\<close>

lemma method_registry_ok:
  assumes "registry_ok w pending"
    and "\<And>r. map_of (qw_heap w) i = Some r \<Longrightarrow> request_ok r \<Longrightarrow> rq_ID r = i \<Longrightarrow> registry_ok (f r w) pending"
  shows "registry_ok (with_request i f w) pending"
  using assms object_ok [of w i] by (auto simp: with_request_def registry_ok_def split: option.splits)

lemma store_registry_ok:
  assumes "registry_ok w pending" and "map_of (qw_heap w) (rq_ID r') = Some r" and "request_ok r'"
    and "\<not> active_status (rq_Status r') \<Longrightarrow> \<not> active_status (rq_Status r) \<or> rq_ID r' \<in> set pending"
  shows "registry_ok (store_publish r' w) pending"
  unfolding store_publish_def by (rule publish_registry_ok) (rule put_registry_ok [OF assms])

lemma request_ok_frame:
  "request_ok r \<Longrightarrow> rq_Attempts r' = rq_Attempts r \<Longrightarrow> rq_Round r' = rq_Round r \<Longrightarrow>
   rq_stopCloses r' = rq_stopCloses r \<Longrightarrow> rq_stopRequested r' = rq_stopRequested r \<Longrightarrow>
   rq_roundStartedAt r' = rq_roundStartedAt r \<Longrightarrow> request_ok r'"
  by (simp add: request_ok_def)

lemma mask_registry_ok: "registry_ok w p \<Longrightarrow> registry_ok (applyMaskResult i masked ms t w) p"
  unfolding applyMaskResult_def
  by (rule method_registry_ok, assumption, rule store_registry_ok) (auto intro: request_ok_frame)

lemma start_round_fields [simp]:
  "rq_ID (start_round cancel t now r) = rq_ID r" "rq_Status (start_round cancel t now r) = rq_Status r"
  by (simp_all add: start_round_def)

lemma start_registry_ok: "registry_ok w p \<Longrightarrow> registry_ok (startRound i cancel t now w) p"
  unfolding startRound_def
  by (rule method_registry_ok, assumption, rule store_registry_ok) (auto intro: start_round_ok)

lemma mode_registry_ok: "registry_ok w p \<Longrightarrow> registry_ok (setRelayMode i mode w) p"
  unfolding setRelayMode_def
  by (rule method_registry_ok, assumption) (auto intro!: store_registry_ok intro: request_ok_frame)

lemma close_attempt_fields [simp]:
  "rq_ID (closeAttemptLocked oc cls e now r) = rq_ID r"
  "rq_Status (closeAttemptLocked oc cls e now r) = rq_Status r"
  by (simp_all add: closeAttemptLocked_def)

lemma finish_round_registry_ok: "registry_ok w p \<Longrightarrow> registry_ok (finishRound i oc cls e now w) p"
  unfolding finishRound_def
  by (rule method_registry_ok, assumption, rule store_registry_ok)
    (auto intro!: close_attempt_ok intro: request_ok_frame)

lemma release_registry_ok: "registry_ok w p \<Longrightarrow> registry_ok (releaseRoundLifecycle i w) p"
  unfolding releaseRoundLifecycle_def
  by (rule method_registry_ok, assumption, unfold cancel_registry_ok, rule put_registry_ok)
    (auto intro: request_ok_frame)

lemma interrupt_registry_ok: "registry_ok w p \<Longrightarrow> registry_ok (snd (Interrupt i n w)) p"
  by (auto simp: Interrupt_def split: option.splits)

definition committed :: "int \<Rightarrow> RequestState \<Rightarrow> RequestState" where
  "committed now r =
    (let r1 = r\<lparr>rq_FirstTokenAt := now, rq_Status := StatusCommitted\<rparr>
     in case rq_roundStartedAt r1 of
          None \<Rightarrow> r1
        | Some t0 \<Rightarrow>
            if has_current_attempt r1
            then r1\<lparr>rq_Attempts := map_last (\<lambda>a. a\<lparr>at_FirstTokenMS := Milliseconds (now - t0)\<rparr>) (rq_Attempts r1)\<rparr>
            else r1)"

lemma committed_fields: "rq_ID (committed now r) = rq_ID r \<and> rq_Status (committed now r) = StatusCommitted"
  by (simp add: committed_def Let_def split: option.split)

lemma committed_ok: "request_ok r \<Longrightarrow> request_ok (committed now r)"
  by (auto simp: committed_def Let_def request_ok_def map_last_seq split: option.split)

lemma committed_registry_ok: "registry_ok w p \<Longrightarrow> registry_ok (markCommitted i now w) p"
  unfolding markCommitted_def committed_def [symmetric]
  by (rule method_registry_ok, assumption, rule store_registry_ok)
    (auto simp: committed_fields committed_ok active_status_def)

lemma output_registry_ok: "registry_ok w p \<Longrightarrow> registry_ok (noteOutputChars i n now w) p"
proof -
  assume ok: "registry_ok w p"
  have "registry_ok (with_request i (\<lambda>r w.
       let r1 = r\<lparr>rq_OutputChars := rq_OutputChars r + n\<rparr>
       in if outputCharsPublishInterval \<le> now - rq_lastOutputPublish r1
          then store_publish (r1\<lparr>rq_lastOutputPublish := now\<rparr>) w else put_request r1 w) w) p"
    by (rule method_registry_ok [OF ok])
      (auto simp: Let_def intro!: store_registry_ok [OF ok] put_registry_ok [OF ok] intro: request_ok_frame)
  with ok show ?thesis by (simp add: noteOutputChars_def)
qed

lemma stop_request_ok:
  "request_ok r \<Longrightarrow> \<not> rq_stopRequested r \<Longrightarrow>
   request_ok (r\<lparr>rq_stopRequested := True, rq_stopCloses := Suc (rq_stopCloses r)\<rparr>)"
  by (simp add: request_ok_def)

lemma stop_registry_ok: "registry_ok w p \<Longrightarrow> registry_ok (StopRequest i w) p"
  unfolding StopRequest_def
  by (rule method_registry_ok, assumption) (auto intro!: put_registry_ok stop_request_ok)

lemma fold_stop_registry_ok: "registry_ok w p \<Longrightarrow> registry_ok (fold StopRequest is w) p"
  by (induction "is" arbitrary: w) (auto intro: stop_registry_ok)

lemma switch_registry_ok [simp]: "registry_ok (w\<lparr>qw_allStopped := b\<rparr>) p = registry_ok w p"
  by (simp add: registry_ok_def objects_ok_def finished_ok_def is_active_def streams_blank_def ring_ok_def ips_ok_def)

lemma stop_all_registry_ok: "registry_ok w p \<Longrightarrow> registry_ok (snd (StopAllRequests w)) p"
  by (simp add: StopAllRequests_def stopAllRunningRequests_def Let_def fold_stop_registry_ok)

lemma clear_registry_ok: "registry_ok w p \<Longrightarrow> registry_ok (Clear w) p"
  by (auto simp: registry_ok_def objects_ok_def finished_ok_def Clear_def streams_blank_def ring_ok_def ips_ok_def
      is_active_def maxFailureRecords_def)

lemma open_blank: "streams_blank w \<Longrightarrow> streams_blank (snd (OpenRequestStream w))"
  by (auto simp: OpenRequestStream_def case_prod_unfold streams_blank_def Let_def open_stream_def
      dest: open_stream_ok)

lemma open_registry_ok: "registry_ok w p \<Longrightarrow> registry_ok (snd (OpenRequestStream w)) p"
  using open_blank [of w]
  by (auto simp: OpenRequestStream_def case_prod_unfold Let_def registry_ok_def objects_ok_def finished_ok_def
      is_active_def ring_ok_def ips_ok_def)

lemma close_registry_ok: "registry_ok w p \<Longrightarrow> registry_ok (CloseRequestStream s w) p"
  using set_mdel_subset [of s "qw_watchers w"] close_stream_ok [of streamBuffer "qw_watchers w" s]
  by (auto simp: CloseRequestStream_def registry_ok_def objects_ok_def finished_ok_def is_active_def
      ring_ok_def ips_ok_def streams_blank_def close_stream_def)

subsection \<open>Client addresses\<close>

lemma evict_keep:
  assumes "mwf ips"
  shows "mset (evictOldestClientIPsLocked n ips) = mset (drop n (sort_key snd ips))"
proof -
  let ?s = "sort_key snd ips"
  let ?old = "map fst (take n ?s)"
  have dist: "distinct (map fst ?s)"
    using assms by (metis mset_eq_imp_distinct_iff mset_map mset_sort mwf_def)
  have "fst p \<notin> set ?old" if "p \<in> set (drop n ?s)" for p
  proof -
    have "distinct (map fst (take n ?s) @ map fst (drop n ?s))"
      using dist by (metis append_take_drop_id map_append)
    then show ?thesis using that by auto
  qed
  moreover have "fst p \<in> set ?old" if "p \<in> set (take n ?s)" for p using that by auto
  ultimately have "filter (\<lambda>p. fst p \<notin> set ?old) (take n ?s) = []"
    "filter (\<lambda>p. fst p \<notin> set ?old) (drop n ?s) = drop n ?s"
    by (simp_all add: filter_empty_conv filter_id_conv)
  then have "filter (\<lambda>p. fst p \<notin> set ?old) ?s = drop n ?s"
    by (metis append_take_drop_id filter_append append_Nil)
  moreover have "mset (filter (\<lambda>p. fst p \<notin> set ?old) ips) = mset (filter (\<lambda>p. fst p \<notin> set ?old) ?s)"
    by (simp add: mset_filter)
  ultimately show ?thesis
    by (simp add: evictOldestClientIPsLocked_def Let_def mkeep_def case_prod_unfold)
qed

lemma evict_length: "mwf ips \<Longrightarrow> length (evictOldestClientIPsLocked n ips) = length ips - n"
  using evict_keep [of ips n] by (metis length_drop length_sort size_mset)

lemma evict_oldest:
  assumes "mwf ips" and "(a, s) \<in> set (evictOldestClientIPsLocked n ips)" and "(b, t) \<in> set ips"
    and "(b, t) \<notin> set (evictOldestClientIPsLocked n ips)"
  shows "t \<le> s"
proof -
  let ?s = "sort_key snd ips"
  have set: "set (evictOldestClientIPsLocked n ips) = set (drop n ?s)"
    using evict_keep [OF assms(1)] by (metis set_mset_mset)
  have "(b, t) \<in> set (take n ?s)"
    using assms(3,4) unfolding set by (metis append_take_drop_id set_append set_sort UnE)
  moreover have "(a, s) \<in> set (drop n ?s)" using assms(2) set by simp
  moreover have "sorted (map snd (take n ?s) @ map snd (drop n ?s))"
    by (metis append_take_drop_id map_append sorted_sort_key)
  ultimately show ?thesis by (force simp: sorted_append)
qed

lemma track_ips_ok: "ips_ok w \<Longrightarrow> ips_ok (trackClientRequest ip now w)"
proof -
  assume ok: "ips_ok w"
  let ?ips = "qw_clientIPs w"
  have wf: "mwf ?ips" and le: "length ?ips \<le> maxClientIPs" using ok by (auto simp: ips_ok_def)
  have "length (evictOldestClientIPsLocked (length ?ips div 2) ?ips) < maxClientIPs" if "maxClientIPs \<le> length ?ips"
    using that le by (simp add: evict_length [OF wf] maxClientIPs_def)
  moreover have "mwf (evictOldestClientIPsLocked (length ?ips div 2) ?ips)"
    using wf by (simp add: evictOldestClientIPsLocked_def Let_def)
  ultimately show ?thesis
    using wf le by (auto simp: trackClientRequest_def Let_def ips_ok_def length_mput Suc_le_eq)
qed

text \<open>
  The set of client addresses (\<^verbatim>\<open>trackClientRequest\<close>) never exceeds 4096 entries, always contains the
  address just seen with its time, and when it has to make room it drops the addresses that were
  seen longest ago: whatever is dropped was seen no later than anything kept.
\<close>

lemma client_ips_bounded:
  assumes "ips_ok w" and "ip \<noteq> []"
  shows "length (qw_clientIPs (trackClientRequest ip now w)) \<le> 4096 \<and>
    map_of (qw_clientIPs (trackClientRequest ip now w)) ip = Some now \<and>
    (\<forall>a s b t. (a, s) \<in> set (qw_clientIPs w) \<and> mhas (qw_clientIPs (trackClientRequest ip now w)) a \<and> a \<noteq> ip \<and>
       (b, t) \<in> set (qw_clientIPs w) \<and> \<not> mhas (qw_clientIPs (trackClientRequest ip now w)) b \<longrightarrow> t \<le> s)"
proof -
  let ?ips = "qw_clientIPs w"
  let ?ev = "evictOldestClientIPsLocked (length ?ips div 2) ?ips"
  have wf: "mwf ?ips" using assms(1) by (simp add: ips_ok_def)
  have sub: "set ?ev \<subseteq> set ?ips" by (simp add: evictOldestClientIPsLocked_def Let_def mkeep_subset)
  have kept: "(a, s) \<in> set ?ev" if "mhas ?ev a" "(a, s) \<in> set ?ips" for a s
  proof -
    from that(1) obtain s' where "(a, s') \<in> set ?ev" by (auto simp: mhas_keys)
    with that(2) sub wf show ?thesis by (metis mwf_def eq_key_imp_eq_value subsetD)
  qed
  have gone: "(b, t) \<notin> set ?ev" if "\<not> mhas ?ev b" for b t using that by (force simp: mhas_keys)
  have cases: "qw_clientIPs (trackClientRequest ip now w) = mput ip now ?ev \<or>
      qw_clientIPs (trackClientRequest ip now w) = mput ip now ?ips"
    using assms(2) by (auto simp: trackClientRequest_def Let_def)
  have "t \<le> s" if "(a, s) \<in> set ?ips" "mhas (qw_clientIPs (trackClientRequest ip now w)) a" "a \<noteq> ip"
    "(b, t) \<in> set ?ips" "\<not> mhas (qw_clientIPs (trackClientRequest ip now w)) b" for a s b t
    using cases
  proof
    assume "qw_clientIPs (trackClientRequest ip now w) = mput ip now ?ev"
    with that have "mhas ?ev a" "\<not> mhas ?ev b" by simp_all
    with that show ?thesis using evict_oldest [OF wf] kept gone by blast
  next
    assume "qw_clientIPs (trackClientRequest ip now w) = mput ip now ?ips"
    with that have "\<not> mhas ?ips b" by simp
    with that(4) show ?thesis by (force simp: mhas_keys)
  qed
  moreover have "length (qw_clientIPs (trackClientRequest ip now w)) \<le> 4096"
    using track_ips_ok [OF assms(1)] by (simp add: ips_ok_def maxClientIPs_def)
  ultimately show ?thesis using cases by auto
qed

subsection \<open>Registration and termination\<close>

lemma new_registry_ok: "registry_ok w p \<Longrightarrow> registry_ok (snd (newRequestState m b ip key name now w)) p"
proof -
  assume ok: "registry_ok w p"
  let ?i = "Suc (qw_idSeq w)"
  let ?r = "fresh_request ?i m b ip key name now"
  let ?w1 = "w\<lparr>qw_idSeq := ?i, qw_requests := ?i # qw_requests w, qw_heap := mput ?i ?r (qw_heap w)\<rparr>"
  have id: "rq_ID ?r = ?i" "rq_Status ?r = StatusRunning" by (simp_all add: fresh_request_def)
  have o: "objects_ok w" using ok by (simp add: registry_ok_def)
  have le: "k \<le> qw_idSeq w" if "k \<in> mkeys (qw_heap w)" for k using o that by (force simp: objects_ok_def)
  have keys: "mkeys (mput ?i ?r (qw_heap w)) = insert ?i (mkeys (qw_heap w))"
    unfolding set_eq_iff mhas_keys [symmetric] insert_iff by simp
  have "rq_ID q = k \<and> k \<le> ?i \<and> request_ok q" if "(k, q) \<in> set (mput ?i ?r (qw_heap w))" for k q
    using that set_mput_subset [of ?i ?r "qw_heap w"] o id request_ok_fresh by (fastforce simp: objects_ok_def)
  moreover have "?i \<notin> set (qw_requests w)" using o le [of ?i] by (auto simp: objects_ok_def)
  ultimately have "objects_ok ?w1"
    using o unfolding objects_ok_def by (auto simp: keys)
  moreover have "finished_ok ?w1 p"
    using ok \<open>?i \<notin> set (qw_requests w)\<close> id
    by (auto simp: registry_ok_def finished_ok_def is_active_def active_status_def)
  ultimately have r1: "registry_ok ?w1 p"
    using ok by (simp add: registry_ok_def streams_blank_def ring_ok_def ips_ok_def)
  have t: "registry_ok (trackClientRequest ip now v) p" if "registry_ok v p" for v
    using that track_ips_ok [of v ip now]
    by (simp add: registry_ok_def objects_ok_def finished_ok_def is_active_def streams_blank_def ring_ok_def
        trackClientRequest_def Let_def)
  have "store_publish ?r (w\<lparr>qw_idSeq := ?i, qw_requests := ?i # qw_requests w\<rparr>) = publishRequestLocked ?r ?w1"
    by (simp add: store_publish_def put_request_def id)
  then show ?thesis using t [OF publish_registry_ok [OF r1]] by (simp add: newRequestState_def Let_def)
qed

lemma pending_mono: "registry_ok w p \<Longrightarrow> set p \<subseteq> set q \<Longrightarrow> registry_ok w q"
  by (auto simp: registry_ok_def finished_ok_def)

lemma terminal_registry_ok:
  assumes "registry_ok w p" and "map_of (qw_heap w) i = Some r"
  shows "registry_ok (put_request (set_terminal status err cls resp r) w) (i # p)"
proof -
  have r: "rq_ID r = i" "request_ok r" using assms object_ok by (auto simp: registry_ok_def)
  have id: "rq_ID (set_terminal status err cls resp r) = i" using r(1) by (simp add: set_terminal_def)
  have "registry_ok w (i # p)" using assms(1) pending_mono by (meson set_subset_Cons)
  moreover have "request_ok (set_terminal status err cls resp r)"
    using r(2) by (rule request_ok_frame) (simp_all add: set_terminal_def)
  ultimately show ?thesis by (intro put_registry_ok [where r = r]) (simp_all add: id assms(2))
qed

lemma outside_registry_ok [simp]:
  "registry_ok (finish_outside r b resp st cls e s now w) p = registry_ok w p"
  by (auto simp: finish_outside_def Let_def registry_ok_def objects_ok_def finished_ok_def is_active_def
      streams_blank_def ring_ok_def ips_ok_def split: option.splits)

lemma trim_queue_spec:
  assumes "trim_queue q reqs = (q', reqs')"
  shows "length q' \<le> maxFinished \<and> set reqs' \<subseteq> set reqs \<and> (distinct reqs \<longrightarrow> distinct reqs') \<and>
    (\<forall>i \<in> set reqs'. i \<in> set q \<longrightarrow> i \<in> set q')"
  using assms
proof (induction q reqs rule: trim_queue.induct)
  case (2 oldest queue requests)
  show ?case
  proof (cases "maxFinished < Suc (length queue)")
    case True
    with 2 show ?thesis using distinct_removeAll [of requests oldest] by auto
  next
    case False
    with "2.prems" show ?thesis by auto
  qed
qed simp

lemma append_registry_ok: "registry_ok w p \<Longrightarrow> registry_ok (appendFailureLocked s w) p"
  using append_failure_ok [of w s]
  by (simp add: registry_ok_def objects_ok_def finished_ok_def is_active_def streams_blank_def ips_ok_def
      appendFailureLocked_def)

lemma queue_registry_ok:
  assumes "registry_ok w p"
  shows "registry_ok (trimFinishedRequestsLocked (w\<lparr>qw_finished := qw_finished w @ [i]\<rparr>)) (removeAll i p)"
proof -
  let ?w = "w\<lparr>qw_finished := qw_finished w @ [i]\<rparr>"
  obtain q' reqs' where t: "trim_queue (qw_finished w @ [i]) (qw_requests w) = (q', reqs')" by fastforce
  note s = trim_queue_spec [OF t]
  have w': "trimFinishedRequestsLocked ?w = w\<lparr>qw_finished := q', qw_requests := reqs'\<rparr>"
    using t by (simp add: trimFinishedRequestsLocked_def)
  have "finished_ok (w\<lparr>qw_finished := q', qw_requests := reqs'\<rparr>) (removeAll i p)"
    using assms s by (auto simp: registry_ok_def finished_ok_def is_active_def)
  moreover have "objects_ok (w\<lparr>qw_finished := q', qw_requests := reqs'\<rparr>)"
    using assms s by (auto simp: registry_ok_def objects_ok_def)
  ultimately show ?thesis
    using assms unfolding w' by (simp add: registry_ok_def streams_blank_def ring_ok_def ips_ok_def)
qed

lemma append_failure_heap [simp]: "qw_heap (appendFailureLocked s w) = qw_heap w"
  by (simp add: appendFailureLocked_def)

lemma finish_registry_ok:
  assumes "registry_ok w p" and "map_of (qw_heap w) i = Some r"
  shows "registry_ok (finish_locked i b resp status cls e san now w) (removeAll i p)"
proof -
  let ?r1 = "finish_fields b resp san now r"
  let ?w1 = "if status = StatusFailed then appendFailureLocked (failure_of ?r1 cls e now) w else w"
  have r: "rq_ID r = i" "request_ok r" using assms object_ok by (auto simp: registry_ok_def)
  have f: "rq_ID ?r1 = i" "rq_Status ?r1 = rq_Status r" using r(1) by (simp_all add: finish_fields_def)
  have "request_ok ?r1" using r(2) by (rule request_ok_frame) (simp_all add: finish_fields_def)
  moreover have "registry_ok ?w1 p" using assms(1) by (simp add: append_registry_ok)
  moreover have "map_of (qw_heap ?w1) i = Some r" using assms(2) by simp
  ultimately have "registry_ok (store_publish ?r1 ?w1) p"
    by (intro store_registry_ok [where r = r]) (simp_all add: f)
  from queue_registry_ok [OF this] show ?thesis
    using assms(2) by (simp add: finish_locked_def with_request_def Let_def)
qed

subsection \<open>Reachable states\<close>

text \<open>
  One rule per critical section. The state carries the requests that are between the two critical
  sections of \<^verbatim>\<open>markSucceeded\<close>, \<^verbatim>\<open>markFailed\<close> or \<^verbatim>\<open>markCanceled\<close>.
\<close>

inductive request_step :: "request_world \<times> nat list \<Rightarrow> request_world \<times> nat list \<Rightarrow> bool" where
  rs_new: "request_step (w, p) (snd (newRequestState m b ip key name now w), p)"
| rs_mask: "request_step (w, p) (applyMaskResult i masked ms t w, p)"
| rs_start: "request_step (w, p) (startRound i cancel target now w, p)"
| rs_mode: "request_step (w, p) (setRelayMode i mode w, p)"
| rs_finish_round: "request_step (w, p) (finishRound i oc cls e now w, p)"
| rs_release: "request_step (w, p) (releaseRoundLifecycle i w, p)"
| rs_interrupt: "request_step (w, p) (snd (Interrupt i n w), p)"
| rs_committed: "request_step (w, p) (markCommitted i now w, p)"
| rs_output: "request_step (w, p) (noteOutputChars i n' now w, p)"
| rs_stop: "request_step (w, p) (StopRequest i w, p)"
| rs_stop_all: "request_step (w, p) (snd (StopAllRequests w), p)"
| rs_clear_stop: "request_step (w, p) (ClearStopAll w, p)"
| rs_open: "request_step (w, p) (snd (OpenRequestStream w), p)"
| rs_close: "request_step (w, p) (CloseRequestStream s w, p)"
| rs_clear: "request_step (w, p) (Clear w, p)"
| rs_terminal: "map_of (qw_heap w) i = Some r \<Longrightarrow>
    request_step (w, p) (finish_outside r' b resp status cls e san now
      (put_request (set_terminal status err cls resp r) w), i # p)"
| rs_finish: "map_of (qw_heap w) i = Some r \<Longrightarrow>
    request_step (w, p) (finish_locked i b resp status cls e san now w, removeAll i p)"

inductive_cases request_stepE: "request_step s s'"

lemmas registry_steps =
  new_registry_ok mask_registry_ok start_registry_ok mode_registry_ok finish_round_registry_ok
  release_registry_ok interrupt_registry_ok committed_registry_ok output_registry_ok stop_registry_ok
  stop_all_registry_ok open_registry_ok close_registry_ok clear_registry_ok

lemma request_step_ok: "request_step s s' \<Longrightarrow> registry_ok (fst s) (snd s) \<Longrightarrow> registry_ok (fst s') (snd s')"
  by (induction rule: request_step.induct)
    (simp_all add: registry_steps terminal_registry_ok finish_registry_ok ClearStopAll_def)

lemma request_run_ok: "request_step\<^sup>*\<^sup>* s s' \<Longrightarrow> registry_ok (fst s) (snd s) \<Longrightarrow> registry_ok (fst s') (snd s')"
  by (induction rule: rtranclp_induct) (auto intro: request_step_ok)

lemma reachable_registry_ok: "request_step\<^sup>*\<^sup>* (init_requests, []) (w, p) \<Longrightarrow> registry_ok w p"
  using request_run_ok [of "(init_requests, [])" "(w, p)"] registry_ok_init by simp

text \<open>
  C19. Bounded registry. In every reachable state of the registry, whatever the interleaving: at most
  200 finished requests are retained, besides those whose finishing is still in progress; the trail
  of every request holds at most 200 attempts, without a gap and ending with the current round; and
  the 200-entry failure ring and its indices are in range.
\<close>

theorem registry_bounded:
  assumes "request_step\<^sup>*\<^sup>* (init_requests, []) (w, p)"
  shows "length (filter (\<lambda>i. \<not> is_active w i) (qw_requests w)) \<le> 200 + length p \<and>
    (\<forall>(i, r) \<in> set (qw_heap w). length (rq_Attempts r) \<le> 200 \<and>
       map at_Seq (rq_Attempts r) = [Suc (rq_Round r) - length (rq_Attempts r)..<Suc (rq_Round r)]) \<and>
    length (qw_ring w) = 200 \<and> qw_failureNext w < 200 \<and> qw_failureCount w \<le> 200"
proof -
  have ok: "registry_ok w p" using assms by (rule reachable_registry_ok)
  let ?done = "filter (\<lambda>i. \<not> is_active w i) (qw_requests w)"
  have "set ?done \<subseteq> set (qw_finished w @ p)" using ok by (auto simp: registry_ok_def finished_ok_def)
  then have "card (set ?done) \<le> length (qw_finished w @ p)" by (meson card_length card_mono finite_set order_trans)
  moreover have "distinct ?done" using ok by (simp add: registry_ok_def objects_ok_def)
  ultimately have "length ?done \<le> length (qw_finished w) + length p"
    using distinct_card [of ?done] by simp
  then have "length ?done \<le> 200 + length p"
    using ok by (simp add: registry_ok_def finished_ok_def maxFinished_def)
  moreover have "\<forall>(i, r) \<in> set (qw_heap w). request_ok r" using ok by (fastforce simp: registry_ok_def objects_ok_def)
  ultimately show ?thesis
    using ok by (fastforce simp: request_ok_def maxAttempts_def registry_ok_def ring_ok_def maxFailureRecords_def)
qed

text \<open>
  Stopping is safe (\<^verbatim>\<open>StopRequest\<close>, \<^verbatim>\<open>StopAllRequests\<close>, \<^verbatim>\<open>StopRequestByID\<close>). In every reachable state the
  stop channel of a request has been closed at most once, exactly when a stop was requested: no
  interleaving of stop calls closes it twice, which would be a run-time panic.
\<close>

lemma stop_channel_closed_once:
  assumes "request_step\<^sup>*\<^sup>* (init_requests, []) (w, p)" and "map_of (qw_heap w) i = Some r"
  shows "rq_stopCloses r = (if rq_stopRequested r then 1 else 0) \<and>
    (\<forall>r'. map_of (qw_heap (StopRequest i w)) i = Some r' \<longrightarrow> rq_stopRequested r' \<and> rq_stopCloses r' = 1)"
proof -
  have ok: "registry_ok w p" using assms(1) by (rule reachable_registry_ok)
  then have "request_ok r" "rq_ID r = i" using assms(2) object_ok by (auto simp: registry_ok_def)
  with assms(2) show ?thesis
    by (auto simp: request_ok_def StopRequest_def with_request_def call_cancel_def split: option.splits)
qed

text \<open>
  No body leaves through the status streams (\<^verbatim>\<open>publishRequestLocked\<close>, \<^verbatim>\<open>OpenRequestStream\<close>). In every
  reachable state every message buffered on a stream, and every entry of the snapshot a new stream
  gets, has an empty request and response body; no stream buffers more than 16 messages.
\<close>

lemma streams_carry_no_body:
  assumes "request_step\<^sup>*\<^sup>* (init_requests, []) (w, p)"
  shows "(\<forall>(s, buf) \<in> set (qw_watchers w). length buf \<le> 16 \<and> (\<forall>m \<in> set buf. rq_body m = [] \<and> rq_responseBody m = [])) \<and>
    (\<forall>m \<in> set (fst (fst (OpenRequestStream w))). rq_body m = [] \<and> rq_responseBody m = [])"
proof -
  have "streams_blank w" using reachable_registry_ok [OF assms] by (simp add: registry_ok_def)
  then show ?thesis
    by (fastforce simp: streams_blank_def streams_ok_def streamBuffer_def list_all_iff blank_def
        OpenRequestStream_def case_prod_unfold Let_def outgoing_def)
qed

lemma finish_request_run:
  assumes "map_of (qw_heap w) i = Some r" and "rq_ID r = i"
  shows "request_step\<^sup>*\<^sup>* (w, p) (finish_request texts i status err clsf resp usage now w, removeAll i p)"
proof -
  let ?r1 = "set_terminal status err (clsf (rq_Class r)) resp r"
  let ?san = "sanitizeUsage texts usage (rq_body ?r1)"
  let ?w1 = "finish_outside ?r1 (rq_body ?r1) resp status (rq_Class ?r1) err ?san now (put_request ?r1 w)"
  have c: "rq_Class ?r1 = clsf (rq_Class r)" by (simp add: set_terminal_def)
  have "qw_heap ?w1 = qw_heap (put_request ?r1 w)" by (simp add: finish_outside_def Let_def split: option.split)
  then have h: "map_of (qw_heap ?w1) i = Some ?r1" using assms(2) by (simp add: set_terminal_def)
  have "request_step (w, p) (?w1, i # p)" unfolding c by (rule rs_terminal [OF assms(1)])
  moreover have "request_step (?w1, i # p) (finish_locked i (rq_body ?r1) resp status (rq_Class ?r1) err ?san now ?w1,
      removeAll i (i # p))" by (rule rs_finish [OF h])
  ultimately show ?thesis
    using assms(1) by (simp add: finish_request_def with_request_def Let_def)
qed

subsection \<open>Finishing\<close>

lemma finish_outside_logs:
  "qw_conversations (finish_outside r b resp st cls e san now w) =
     qw_conversations w @ [conversation_of r b resp st cls e (fst san) now]"
  "qw_samples (finish_outside r b resp st cls e san now w) =
     qw_samples w @ (case fst san of Some u \<Rightarrow> if snd san then [] else [sample_of r u now] | None \<Rightarrow> [])"
  "qw_heap (finish_outside r b resp st cls e san now w) = qw_heap w"
  by (simp_all add: finish_outside_def Let_def split: option.split)

lemma trim_fields [simp]:
  "qw_heap (trimFinishedRequestsLocked w) = qw_heap w"
  "qw_conversations (trimFinishedRequestsLocked w) = qw_conversations w"
  "qw_samples (trimFinishedRequestsLocked w) = qw_samples w"
  by (simp_all add: trimFinishedRequestsLocked_def case_prod_unfold)

lemma finish_locked_logs:
  assumes "map_of (qw_heap w) i = Some r" and "rq_ID r = i"
  shows "qw_conversations (finish_locked i b resp st cls e san now w) = qw_conversations w"
    and "qw_samples (finish_locked i b resp st cls e san now w) = qw_samples w"
    and "map_of (qw_heap (finish_locked i b resp st cls e san now w)) i = Some (finish_fields b resp san now r)"
  using assms
  by (simp_all add: finish_locked_def with_request_def Let_def store_publish_def publishRequestLocked_def
      put_request_def appendFailureLocked_def finish_fields_def [of b resp san now r])

lemma sanitize_estimates:
  "snd (sanitizeUsage texts usage body) \<longrightarrow>
    (usage = None \<or> (\<exists>u. usage = Some u \<and> us_PromptTokens u \<le> 0)) \<and> \<not> cache_reported usage \<and>
    nonTrivialRequestBody texts body \<and>
    (\<exists>u. fst (sanitizeUsage texts usage body) = Some u \<and> us_PromptTokens u = int (length body) div 3 \<and>
       1 \<le> us_PromptTokens u \<and>
       us_CompletionTokens u = (case usage of None \<Rightarrow> 0 | Some v \<Rightarrow> us_CompletionTokens v) \<and>
       us_TotalTokens u = us_PromptTokens u + us_CompletionTokens u)"
proof
  assume est: "snd (sanitizeUsage texts usage body)"
  then have c: "\<not> (case usage of None \<Rightarrow> False | Some u \<Rightarrow> 0 < us_PromptTokens u)" "\<not> cache_reported usage"
    "nonTrivialRequestBody texts body"
    by (auto simp: sanitizeUsage_def split: if_splits)
  then have "64 \<le> length body" by (auto simp: nonTrivialRequestBody_def suspiciousZeroMinBodyBytes_def split: if_splits)
  then have "min (max 1 (int (length body) div 3)) (int (length body) * 2 + suspiciousZeroEstimateSlack) =
      int (length body) div 3" "1 \<le> int (length body) div 3"
    by (simp_all add: suspiciousZeroEstimateSlack_def)
  with c show "(usage = None \<or> (\<exists>u. usage = Some u \<and> us_PromptTokens u \<le> 0)) \<and> \<not> cache_reported usage \<and>
    nonTrivialRequestBody texts body \<and>
    (\<exists>u. fst (sanitizeUsage texts usage body) = Some u \<and> us_PromptTokens u = int (length body) div 3 \<and>
       1 \<le> us_PromptTokens u \<and>
       us_CompletionTokens u = (case usage of None \<Rightarrow> 0 | Some v \<Rightarrow> us_CompletionTokens v) \<and>
       us_TotalTokens u = us_PromptTokens u + us_CompletionTokens u)"
    by (auto simp: sanitizeUsage_def Let_def zero_Usage_def split: option.splits)
qed

text \<open>
  Usage accounting (\<^verbatim>\<open>sanitizeUsage\<close>, \<^verbatim>\<open>finish\<close>). Usage is only replaced when the upstream reported
  neither prompt tokens nor cached tokens for a non-trivial body; the replacement estimates a third of
  the body's bytes, at least one token, keeps the completion tokens and makes the total consistent.
  When a request is finished, its full bodies go to the conversation log, only previews of at most 64
  KiB stay in memory, and a usage sample is recorded exactly when usage was reported and not estimated.
\<close>

lemma finish_accounts_usage:
  assumes "map_of (qw_heap w) i = Some r" and "rq_ID r = i"
    and "w' = finish_request texts i status err clsf resp usage now w"
    and "san = sanitizeUsage texts usage (rq_body r)"
  shows "(snd san \<longrightarrow>
      (usage = None \<or> (\<exists>u. usage = Some u \<and> us_PromptTokens u \<le> 0)) \<and> \<not> cache_reported usage \<and>
      nonTrivialRequestBody texts (rq_body r) \<and>
      (\<exists>u. fst san = Some u \<and> us_PromptTokens u = int (length (rq_body r)) div 3 \<and> 1 \<le> us_PromptTokens u \<and>
         us_CompletionTokens u = (case usage of None \<Rightarrow> 0 | Some v \<Rightarrow> us_CompletionTokens v) \<and>
         us_TotalTokens u = us_PromptTokens u + us_CompletionTokens u)) \<and>
    (\<not> snd san \<longrightarrow> fst san = usage) \<and>
    (\<exists>c. qw_conversations w' = qw_conversations w @ [c] \<and> cr_RawRequest c = rq_body r \<and> cr_Response c = resp) \<and>
    (\<exists>r'. map_of (qw_heap w') i = Some r' \<and> rq_Status r' = status \<and> length (rq_body r') \<le> 65536 \<and>
       length (rq_responseBody r') \<le> 65536 \<and> rq_UsageEstimated r' = snd san) \<and>
    (case fst san of
       Some u \<Rightarrow> if snd san then qw_samples w' = qw_samples w
                 else \<exists>x. qw_samples w' = qw_samples w @ [x] \<and> ub_PromptTokens x = us_PromptTokens u \<and>
                          ub_CompletionTokens x = us_CompletionTokens u
     | None \<Rightarrow> qw_samples w' = qw_samples w)"
proof -
  let ?r1 = "set_terminal status err (clsf (rq_Class r)) resp r"
  let ?w1 = "finish_outside ?r1 (rq_body r) resp status (rq_Class ?r1) err san now (put_request ?r1 w)"
  have b: "rq_body ?r1 = rq_body r" "rq_ID ?r1 = i" using assms(2) by (simp_all add: set_terminal_def)
  have w': "w' = finish_locked i (rq_body r) resp status (rq_Class ?r1) err san now ?w1"
    using assms by (simp add: finish_request_def with_request_def Let_def b)
  have h: "map_of (qw_heap ?w1) i = Some ?r1" using b by (simp add: finish_outside_logs)
  note logs = finish_locked_logs [OF h b(2), of "rq_body r" resp status "rq_Class ?r1" err san now, folded w']
  have "qw_conversations w' = qw_conversations w @
      [conversation_of ?r1 (rq_body r) resp status (rq_Class ?r1) err (fst san) now]"
    unfolding logs finish_outside_logs by (simp add: put_request_def)
  then have conv: "\<exists>c. qw_conversations w' = qw_conversations w @ [c] \<and> cr_RawRequest c = rq_body r \<and> cr_Response c = resp"
    by (simp add: conversation_of_def)
  have samples: "qw_samples w' =
      qw_samples w @ (case fst san of Some u \<Rightarrow> if snd san then [] else [sample_of ?r1 u now] | None \<Rightarrow> [])"
    unfolding logs finish_outside_logs by (simp add: put_request_def)
  have obj: "\<exists>r'. map_of (qw_heap w') i = Some r' \<and> rq_Status r' = status \<and> length (rq_body r') \<le> 65536 \<and>
      length (rq_responseBody r') \<le> 65536 \<and> rq_UsageEstimated r' = snd san"
    unfolding logs using preview_length by (simp add: finish_fields_def set_terminal_def maxBodyPreview_def)
  have est: "snd san \<longrightarrow>
      (usage = None \<or> (\<exists>u. usage = Some u \<and> us_PromptTokens u \<le> 0)) \<and> \<not> cache_reported usage \<and>
      nonTrivialRequestBody texts (rq_body r) \<and>
      (\<exists>u. fst san = Some u \<and> us_PromptTokens u = int (length (rq_body r)) div 3 \<and> 1 \<le> us_PromptTokens u \<and>
         us_CompletionTokens u = (case usage of None \<Rightarrow> 0 | Some v \<Rightarrow> us_CompletionTokens v) \<and>
         us_TotalTokens u = us_PromptTokens u + us_CompletionTokens u)"
    unfolding assms(4) by (rule sanitize_estimates)
  have "\<not> snd san \<longrightarrow> fst san = usage" unfolding assms(4) by (auto simp: sanitizeUsage_def Let_def)
  with conv obj est show ?thesis
    by (auto simp: samples sample_of_def split: option.splits)
qed

subsection \<open>Witnesses\<close>

definition demo_requests :: request_world where
  "demo_requests = snd (newRequestState ''gpt'' ''secret body'' ''10.0.0.1'' ''sk-abcdef'' ''k'' 5
     (snd (OpenRequestStream init_requests)))"

lemma demo_requests_reachable: "request_step\<^sup>*\<^sup>* (init_requests, []) (demo_requests, [])"
  unfolding demo_requests_def by (meson r_into_rtranclp rtranclp.rtrancl_into_rtrancl rs_open rs_new)

lemma demo_requests_object: "\<exists>r. map_of (qw_heap demo_requests) 1 = Some r \<and> \<not> rq_stopRequested r"
proof -
  have "(case map_of (qw_heap demo_requests) 1 of None \<Rightarrow> False | Some r \<Rightarrow> \<not> rq_stopRequested r)" by code_simp
  then show ?thesis by (auto split: option.splits)
qed

theorem registry_bounded_witness:
  "length (filter (\<lambda>i. \<not> is_active demo_requests i) (qw_requests demo_requests)) \<le> 200 \<and>
   length (qw_ring demo_requests) = 200"
  using registry_bounded [OF demo_requests_reachable] by simp

end
