(* ===== verification/Mask_Token.thy ===== *)
theory Mask_Token
  imports Utf8_Text
begin

text \<open>
  \<^verbatim>\<open>internal/relay/mask/placeholder.go\<close> and \<^verbatim>\<open>restore.go\<close>: the shape of a placeholder, \<^verbatim>\<open>PlaceholderRe\<close> as
  an executable matcher, token generation, and the restoration of a text. The lemmas say where a
  text can be cut without cutting a placeholder (\<open>reached\<close>), on which masking and stream
  restoration rest.
\<close>

definition consonants :: string where
  "consonants = ''bcdfghjklmnpqrstvwxz''"

definition is_label_char :: "char \<Rightarrow> bool" where
  "is_label_char c \<longleftrightarrow> between c 65 90 \<or> between c 48 57"

definition is_consonant :: "char \<Rightarrow> bool" where
  "is_consonant c \<longleftrightarrow> c \<in> set consonants"

text \<open>
  A match of \<^verbatim>\<open>PlaceholderRe\<close> at the head of a text and its length. The label cannot contain the
  underscore that follows it, so the greedy choice is the only one.
\<close>

definition ph_tail :: "string \<Rightarrow> bool" where
  "ph_tail s \<longleftrightarrow> 9 \<le> length s \<and> hd s = CHR ''_'' \<and> list_all is_consonant (take 6 (drop 1 s)) \<and>
     take 2 (drop 7 s) = ''}}''"

definition ph_at :: "string \<Rightarrow> nat option" where
  "ph_at s =
    (let l = takeWhile is_label_char (drop 2 s) in
     if take 2 s = ''{{'' \<and> 1 \<le> length l \<and> length l \<le> 12 \<and> ph_tail (drop (2 + length l) s)
     then Some (length l + 11) else None)"

text \<open>\<^verbatim>\<open>PlaceholderRe.MatchString\<close>: a match anywhere.\<close>

fun IsPlaceholder :: "string \<Rightarrow> bool" where
  "IsPlaceholder [] = False"
| "IsPlaceholder (c # s) = (ph_at (c # s) \<noteq> None \<or> IsPlaceholder s)"

subsection \<open>Token generation\<close>

text \<open>
  \<^verbatim>\<open>strings.ToUpper\<close>, as far as a filter for \<^verbatim>\<open>[A-Z0-9]\<close> can see: besides the ASCII letters two other code
  points have an ASCII letter as upper case, U+0131 and U+017F.
\<close>

definition upper_rune :: "string \<Rightarrow> string" where
  "upper_rune r =
    (if r = [CHR 0xC4, CHR 0xB1] then ''I''
     else if r = [CHR 0xC5, CHR 0xBF] then ''S''
     else map (\<lambda>c. if 97 \<le> byte c \<and> byte c \<le> 122 then char_of (byte c - 32) else c) r)"

definition ToUpper :: "string \<Rightarrow> string" where
  "ToUpper s = concat (map upper_rune (runes s))"

definition safeLabel :: "string \<Rightarrow> string" where
  "safeLabel label =
    (let s = take 12 (filter is_label_char (ToUpper label)) in if s = [] then ''TERM'' else s)"

text \<open>One accepted random byte of \<^verbatim>\<open>randConsonant\<close>; the bytes from 240 on are drawn again.\<close>

definition randConsonant :: "nat \<Rightarrow> char option" where
  "randConsonant b = (if b < 240 then Some (consonants ! (b mod 20)) else None)"

definition genSuffix :: "nat list \<Rightarrow> string" where
  "genSuffix bytes = take 6 (List.map_filter randConsonant bytes)"

definition NewToken :: "string \<Rightarrow> string \<Rightarrow> string" where
  "NewToken label suffix = ''{{'' @ safeLabel label @ ''_'' @ suffix @ ''}}''"

definition suffix_ok :: "string \<Rightarrow> bool" where
  "suffix_ok sfx \<longleftrightarrow> length sfx = 6 \<and> list_all is_consonant sfx"

lemma consonant_not_label: "is_consonant c \<Longrightarrow> \<not> is_label_char c"
  by (auto simp: is_consonant_def consonants_def is_label_char_def between_def byte_def)

lemma genSuffix_ok: "6 \<le> length (List.map_filter randConsonant bytes) \<Longrightarrow> suffix_ok (genSuffix bytes)"
proof -
  have "is_consonant c" if "c \<in> set (List.map_filter randConsonant bytes)" for c
  proof -
    from that obtain b where "b < 240" "c = consonants ! (b mod 20)"
      by (auto simp: map_filter_def randConsonant_def split: if_splits)
    moreover have "b mod 20 < length consonants" by (simp add: consonants_def)
    ultimately show ?thesis by (simp add: is_consonant_def)
  qed
  then show "6 \<le> length (List.map_filter randConsonant bytes) \<Longrightarrow> suffix_ok (genSuffix bytes)"
    by (auto simp: suffix_ok_def genSuffix_def list_all_iff dest: in_set_takeD)
qed

lemma safeLabel_ok:
  "1 \<le> length (safeLabel l) \<and> length (safeLabel l) \<le> 12 \<and> list_all is_label_char (safeLabel l)"
proof -
  have "list_all is_label_char (take 12 (filter is_label_char xs))" for xs
    by (auto simp: list_all_iff dest: in_set_takeD)
  moreover have "list_all is_label_char ''TERM''" by (simp add: is_label_char_def between_def byte_def)
  ultimately show ?thesis
    by (auto simp: safeLabel_def Let_def Suc_le_eq)
qed

text \<open>The exact shape of a match.\<close>

definition token_shape :: "string \<Rightarrow> bool" where
  "token_shape t \<longleftrightarrow> (\<exists>l sfx. 1 \<le> length l \<and> length l \<le> 12 \<and> list_all is_label_char l \<and> suffix_ok sfx \<and>
     t = ''{{'' @ l @ ''_'' @ sfx @ ''}}'')"

lemma underscore_not_label: "\<not> is_label_char (CHR ''_'')"
  by (simp add: is_label_char_def between_def byte_def)

lemma ph_at_token: "token_shape t \<Longrightarrow> ph_at (t @ rest) = Some (length t)"
proof -
  assume "token_shape t"
  then obtain l sfx where t: "1 \<le> length l" "length l \<le> 12" "list_all is_label_char l" "suffix_ok sfx"
    "t = ''{{'' @ l @ ''_'' @ sfx @ ''}}''" by (auto simp: token_shape_def)
  have tw: "takeWhile is_label_char (l @ CHR ''_'' # xs) = l" for xs
    using t(3) by (simp add: takeWhile_append2 list_all_iff underscore_not_label)
  have "ph_tail (''_'' @ sfx @ ''}}'' @ rest)"
    using t(4) by (simp add: ph_tail_def suffix_ok_def)
  moreover have "length t = length l + 11" using t(4,5) by (simp add: suffix_ok_def)
  ultimately show ?thesis
    using t(1,2) by (simp add: ph_at_def t(5) tw Let_def)
qed

lemma ph_at_shape:
  assumes "ph_at s = Some n"
  shows "n \<le> length s \<and> token_shape (take n s)"
proof -
  define l where "l = takeWhile is_label_char (drop 2 s)"
  define r where "r = drop (2 + length l) s"
  from assms have c: "take 2 s = ''{{''" "1 \<le> length l" "length l \<le> 12" "ph_tail r" "n = length l + 11"
    by (auto simp: ph_at_def Let_def l_def r_def split: if_splits)
  have s: "s = ''{{'' @ l @ r"
  proof -
    have "drop 2 s = l @ drop (length l) (drop 2 s)"
      unfolding l_def by (metis dropWhile_eq_drop takeWhile_dropWhile_id)
    then have "drop 2 s = l @ r" by (simp add: r_def add.commute)
    then show ?thesis using c(1) by (metis append_take_drop_id)
  qed
  from c(4) have r: "9 \<le> length r" "hd r = CHR ''_''" "list_all is_consonant (take 6 (drop 1 r))" "take 2 (drop 7 r) = ''}}''"
    by (auto simp: ph_tail_def)
  have "take 9 r = take 1 r @ take 6 (drop 1 r) @ take 2 (drop 7 r)"
    using take_add [of 7 2 r] take_add [of 1 6 r] by simp
  moreover have "take 1 r = ''_''" using r(1,2) by (cases r) auto
  ultimately have t9: "take 9 r = ''_'' @ take 6 (drop 1 r) @ ''}}''" using r(4) by simp
  have n: "n = Suc (Suc (length l + 9))" using c(5) by simp
  have "take n s = ''{{'' @ l @ take 9 r" unfolding n s append.simps take_Suc_Cons by simp
  with t9 have "take n s = ''{{'' @ l @ ''_'' @ take 6 (drop 1 r) @ ''}}''" by simp
  moreover have "suffix_ok (take 6 (drop 1 r))" using r by (simp add: suffix_ok_def)
  moreover have "list_all is_label_char l" by (auto simp: l_def list_all_iff dest: set_takeWhileD)
  moreover have "n \<le> length s" using s c(5) r(1) by simp
  ultimately show ?thesis using c(2,3) by (auto simp: token_shape_def)
qed

lemma NewToken_shape: "suffix_ok sfx \<Longrightarrow> token_shape (NewToken label sfx)"
  using safeLabel_ok [of label] by (auto simp: token_shape_def NewToken_def)

lemma token_length: "token_shape t \<Longrightarrow> 12 \<le> length t \<and> length t \<le> 23"
  by (auto simp: token_shape_def suffix_ok_def)

text \<open>Inside a token, braces occur only at its two ends.\<close>

lemma token_inner:
  assumes "token_shape t"
  shows "take 2 t = ''{{''" and "c \<in> set (drop 2 t) \<Longrightarrow> c \<noteq> CHR ''{''"
    and "drop (length t - 2) t = ''}}''"
proof -
  from assms obtain l sfx where t: "list_all is_label_char l" "suffix_ok sfx" "t = ''{{'' @ l @ ''_'' @ sfx @ ''}}''"
    by (auto simp: token_shape_def)
  show "take 2 t = ''{{''" by (simp add: t(3))
  show "drop (length t - 2) t = ''}}''" by (simp add: t(3))
  have "\<not> is_label_char (CHR ''{'')" "\<not> is_consonant (CHR ''{'')"
    by (simp_all add: is_label_char_def between_def byte_def is_consonant_def consonants_def)
  then show "c \<noteq> CHR ''{''" if "c \<in> set (drop 2 t)"
    using that t(1,2) by (auto simp: t(3) list_all_iff suffix_ok_def)
qed

lemma ph_at_append: "ph_at x = Some n \<Longrightarrow> ph_at (x @ y) = Some n"
proof -
  assume "ph_at x = Some n"
  from ph_at_shape [OF this] have "n \<le> length x" "token_shape (take n x)" by auto
  from ph_at_token [OF this(2), of "drop n x @ y"] this(1) show ?thesis
    by (metis append_assoc append_take_drop_id length_take min.absorb2)
qed

lemma ph_at_prefix:
  assumes "ph_at (x @ y) = Some n" and "n \<le> length x"
  shows "ph_at x = Some n"
proof -
  have "token_shape (take n x)" using ph_at_shape [OF assms(1)] assms(2) by simp
  from ph_at_token [OF this, of "drop n x"] assms(2) show ?thesis by simp
qed

lemma nth_in_drop: "k \<le> i \<Longrightarrow> i < length t \<Longrightarrow> t ! i \<in> set (drop k t)"
  by (auto simp: in_set_conv_nth intro!: exI [of _ "i - k"])

text \<open>A match never runs into an opening pair of braces.\<close>

lemma ph_at_before_open:
  assumes "x \<noteq> []"
  shows "ph_at (x @ ''{{'' @ y) = ph_at x"
proof (cases "ph_at (x @ ''{{'' @ y)")
  case None
  then show ?thesis using ph_at_append [of x _ "''{{'' @ y"] by (cases "ph_at x") auto
next
  case (Some n)
  note s = ph_at_shape [OF Some]
  have "n \<le> length x"
  proof (rule ccontr)
    assume "\<not> n \<le> length x"
    define t where "t = take n (x @ ''{{'' @ y)"
    have t: "token_shape t" "length t = n" using s by (auto simp: t_def)
    have at: "t ! length x = CHR ''{''" using \<open>\<not> n \<le> length x\<close> by (simp add: t_def nth_append)
    show False
    proof (cases "length x = 1")
      case True
      have "2 < length t" using token_length [OF t(1)] by simp
      then have "t ! 2 \<in> set (drop 2 t)" by (intro nth_in_drop) simp_all
      moreover have "t ! 2 = CHR ''{''" using True \<open>2 < length t\<close> t(2) by (simp add: t_def nth_append)
      ultimately show False using token_inner(2) [OF t(1)] by blast
    next
      case False
      then have x: "2 \<le> length x" "length x < length t" using assms \<open>\<not> n \<le> length x\<close> t(2) by (cases x; auto simp: Suc_le_eq)+
      then have "t ! length x \<in> set (drop 2 t)" by (intro nth_in_drop) simp_all
      with at show False using token_inner(2) [OF t(1)] by blast
    qed
  qed
  with ph_at_prefix [OF Some] Some show ?thesis by simp
qed

subsection \<open>Restoring\<close>

text \<open>
  \<^verbatim>\<open>PlaceholderRe.ReplaceAllStringFunc\<close> with the lookup of a mapping: leftmost matches, not overlapping,
  unknown placeholders are kept.
\<close>

definition replacement :: "(string \<Rightarrow> string option) \<Rightarrow> string \<Rightarrow> string" where
  "replacement look t = (case look t of None \<Rightarrow> t | Some orig \<Rightarrow> orig)"

function restore :: "(string \<Rightarrow> string option) \<Rightarrow> string \<Rightarrow> string" where
  "restore look s =
    (if s = [] then []
     else case ph_at s of
            Some n \<Rightarrow> replacement look (take n s) @ restore look (drop n s)
          | None \<Rightarrow> hd s # restore look (tl s))"
  by pat_completeness auto
termination
proof (relation "measure (length \<circ> snd)")
  fix look :: "string \<Rightarrow> string option" and s n
  assume "s \<noteq> []" "ph_at s = Some n"
  with ph_at_shape [of s n] token_length [of "take n s"] show "((look, drop n s), look, s) \<in> measure (length \<circ> snd)"
    by auto
qed auto

declare restore.simps [simp del]

lemma restore_Nil [simp]: "restore look [] = []"
  by (simp add: restore.simps)

lemma restore_token: "token_shape t \<Longrightarrow> restore look (t @ s) = replacement look t @ restore look s"
  using ph_at_token [of t s] token_length [of t]
  by (subst restore.simps) auto

text \<open>Positions that the scan visits: a text may be cut there.\<close>

function reached :: "string \<Rightarrow> nat \<Rightarrow> bool" where
  "reached s p =
    (if p = 0 then True
     else if s = [] then False
     else case ph_at s of
            Some n \<Rightarrow> n \<le> p \<and> reached (drop n s) (p - n)
          | None \<Rightarrow> reached (tl s) (p - 1))"
  by pat_completeness auto
termination
proof (relation "measure (length \<circ> fst)")
  fix s n and p :: nat
  assume "s \<noteq> []" "ph_at s = Some n"
  with ph_at_shape [of s n] token_length [of "take n s"] show "((drop n s, p - n), s, p) \<in> measure (length \<circ> fst)"
    by auto
qed auto

declare reached.simps [simp del]

lemma reached_0 [simp]: "reached s 0"
  by (simp add: reached.simps)

lemma reached_le: "reached s p \<Longrightarrow> p \<le> length s"
proof (induction s p rule: reached.induct)
  case (1 s p)
  show ?case
  proof (cases "p = 0")
    case False
    with "1.prems" have s: "s \<noteq> []" by (auto simp: reached.simps [of s p] split: if_splits)
    show ?thesis
    proof (cases "ph_at s")
      case None
      then have "reached (tl s) (p - 1)" using "1.prems" False s by (simp add: reached.simps [of s p])
      then show ?thesis using "1.IH"(1) [OF False s None] s by (cases s) auto
    next
      case (Some n)
      then have "n \<le> p" "reached (drop n s) (p - n)" using "1.prems" False s by (auto simp: reached.simps [of s p])
      then show ?thesis using "1.IH"(2) [OF False s Some] ph_at_shape [OF Some] by auto
    qed
  qed simp
qed

lemma reached_unfold:
  assumes "p \<noteq> 0" and "s \<noteq> []"
  shows "reached s p = (case ph_at s of Some n \<Rightarrow> n \<le> p \<and> reached (drop n s) (p - n) | None \<Rightarrow> reached (tl s) (p - 1))"
  using assms by (simp add: reached.simps [of s p])

lemma reached_nonempty: "reached s p \<Longrightarrow> p \<noteq> 0 \<Longrightarrow> s \<noteq> []"
  using reached_le by fastforce

lemma restore_unfold:
  "s \<noteq> [] \<Longrightarrow> restore look s =
    (case ph_at s of Some n \<Rightarrow> replacement look (take n s) @ restore look (drop n s) | None \<Rightarrow> hd s # restore look (tl s))"
  by (simp add: restore.simps [of look s])

text \<open>Induction along a scan up to a visited position.\<close>

lemma reached_induct [consumes 1, case_names zero literal placeholder]:
  assumes "reached s p"
    and "\<And>s. P s 0"
    and "\<And>c s p. ph_at (c # s) = None \<Longrightarrow> reached s p \<Longrightarrow> P s p \<Longrightarrow> P (c # s) (Suc p)"
    and "\<And>t s p. token_shape t \<Longrightarrow> reached s p \<Longrightarrow> P s p \<Longrightarrow> P (t @ s) (length t + p)"
  shows "P s p"
  using assms(1)
proof (induction s p rule: reached.induct)
  case (1 s p)
  show ?case
  proof (cases "p = 0")
    case True
    then show ?thesis using assms(2) by simp
  next
    case False
    note s = reached_nonempty [OF "1.prems" False]
    show ?thesis
    proof (cases "ph_at s")
      case None
      then have r: "reached (tl s) (p - 1)" using "1.prems" False s by (simp add: reached_unfold)
      from assms(3) [of "hd s" "tl s", OF _ r "1.IH"(1) [OF False s None r]] None False s show ?thesis by simp
    next
      case (Some n)
      then have r: "n \<le> p" "reached (drop n s) (p - n)" using "1.prems" False s by (auto simp: reached_unfold)
      note sh = ph_at_shape [OF Some]
      from assms(4) [OF _ r(2) "1.IH"(2) [OF False s Some r(2)], of "take n s"] sh r(1) show ?thesis by simp
    qed
  qed
qed

lemma ph_at_cut: "ph_at (c # s) = None \<Longrightarrow> ph_at (c # take p s) = None"
  using ph_at_append [of "c # take p s" _ "drop p s"] by (cases "ph_at (c # take p s)") auto

lemma reached_split:
  assumes "reached s p"
  shows "restore look s = restore look (take p s) @ restore look (drop p s)"
  using assms
proof (induction rule: reached_induct)
  case (literal c s p)
  then show ?case by (simp add: restore_unfold ph_at_cut)
next
  case (placeholder t s p)
  then show ?case by (simp add: restore_token)
qed simp

lemma reached_advance:
  assumes "reached s p" and "p < length s"
  shows "ph_at (drop p s) = None \<Longrightarrow> reached s (Suc p)"
    and "ph_at (drop p s) = Some n \<Longrightarrow> reached s (p + n)"
proof -
  show "reached s (Suc p)" if "ph_at (drop p s) = None"
    using assms that
  proof (induction rule: reached_induct)
    case (zero s)
    then show ?case by (simp add: reached_unfold)
  next
    case (literal c s p)
    then show ?case by (simp add: reached_unfold)
  next
    case (placeholder t s p)
    then have "ph_at (t @ s) = Some (length t)" "t \<noteq> []" using ph_at_token token_length [of t] by auto
    with placeholder show ?case by (simp add: reached_unfold)
  qed
  show "reached s (p + n)" if "ph_at (drop p s) = Some n"
    using assms that
  proof (induction rule: reached_induct)
    case (zero s)
    then show ?case by (cases "n = 0") (simp_all add: reached_unfold)
  next
    case (literal c s p)
    then show ?case by (simp add: reached_unfold)
  next
    case (placeholder t s p)
    then have "ph_at (t @ s) = Some (length t)" "t \<noteq> []" using ph_at_token token_length [of t] by auto
    with placeholder show ?case by (simp add: reached_unfold)
  qed
qed

lemma reached_drop:
  assumes "reached s p" and "reached s q" and "p \<le> q"
  shows "reached (drop p s) (q - p)"
  using assms
proof (induction arbitrary: q rule: reached_induct)
  case (literal c s p)
  then have "reached s (q - 1)" "p \<le> q - 1" by (simp_all add: reached_unfold [of q])
  from literal(3) [OF this] show ?case by simp
next
  case (placeholder t s p)
  then have "ph_at (t @ s) = Some (length t)" "t \<noteq> []" using ph_at_token token_length [of t] by auto
  with placeholder have "reached s (q - length t)" "p \<le> q - length t"
    by (cases "q = 0"; auto simp: reached_unfold [of q])+
  from placeholder(3) [OF this] show ?case by simp
qed simp

lemma restore_append_open: "restore look (x @ ''{{'' @ y) = restore look x @ restore look (''{{'' @ y)"
proof (induction x rule: length_induct)
  case (1 x)
  show ?case
  proof (cases x)
    case (Cons c x')
    have e: "ph_at (x @ ''{{'' @ y) = ph_at x" using Cons by (intro ph_at_before_open) simp
    show ?thesis
    proof (cases "ph_at x")
      case None
      then show ?thesis using e 1 Cons by (simp add: restore_unfold)
    next
      case (Some n)
      note s = ph_at_shape [OF Some]
      then have "length (drop n x) < length x" using token_length [of "take n x"] by auto
      with 1 have IH: "restore look (drop n x @ ''{{'' @ y) = restore look (drop n x) @ restore look (''{{'' @ y)" by blast
      have "x @ ''{{'' @ y = take n x @ (drop n x @ ''{{'' @ y)" by simp
      then have "restore look (x @ ''{{'' @ y) = replacement look (take n x) @ restore look (drop n x @ ''{{'' @ y)"
        using restore_token s by metis
      moreover have "restore look x = replacement look (take n x) @ restore look (drop n x)"
        using restore_token [of "take n x" look "drop n x"] s by simp
      ultimately show ?thesis using IH by simp
    qed
  qed simp
qed

lemma restore_around_token:
  assumes "token_shape t"
  shows "restore look (x @ t @ y) = restore look x @ replacement look t @ restore look y"
proof -
  have t: "t = ''{{'' @ drop 2 t" using token_inner(1) [OF assms] by (metis append_take_drop_id)
  have "restore look (x @ t @ y) = restore look x @ restore look (t @ y)"
    using restore_append_open [of look x "drop 2 t @ y"] t by (metis append_assoc)
  then show ?thesis by (simp add: restore_token [OF assms])
qed

lemma restore_plain: "\<not> IsPlaceholder s \<Longrightarrow> restore look s = s"
proof (induction s)
  case (Cons c s)
  then show ?case by (simp add: restore_unfold)
qed simp

end
