(* ===== verification/Mask_Session.thy ===== *)
theory Mask_Session
  imports Mask_Token
begin

text \<open>
  \<^verbatim>\<open>internal/relay/mask/session.go\<close>: the two-way mapping between originals and placeholders of a session,
  and the store of sessions with its time limit and its bound. Mappings are objects (\<^verbatim>\<open>*Mapping\<close>), shared
  between the store and the requests that use them: \<open>st_heap\<close> holds them, a pointer is an index.
  The random suffixes of \<^verbatim>\<open>genSuffix\<close> are an argument: \<open>rnd d\<close> is the suffix of draw number \<open>d\<close>.
\<close>

subsection \<open>Mappings\<close>

text \<open>\<open>mp_onBind\<close> is the session key captured by the closure \<^verbatim>\<open>onBind\<close>, which publishes the session.\<close>

record Mapping =
  mp_forward :: "(string, string) gomap"
  mp_reverse :: "(string, string) gomap"
  mp_onBind :: "string option"

definition newMapping :: Mapping where
  "newMapping = \<lparr>mp_forward = [], mp_reverse = [], mp_onBind = None\<rparr>"

definition Lookup :: "Mapping \<Rightarrow> string \<Rightarrow> string option" where
  "Lookup m placeholder = map_of (mp_reverse m) placeholder"

text \<open>The loop at the start of \<^verbatim>\<open>Recall\<close>; \<open>Inl\<close> is an early return.\<close>

fun unwrap :: "nat \<Rightarrow> Mapping \<Rightarrow> string \<Rightarrow> string + string" where
  "unwrap 0 m original = (if IsPlaceholder original then Inl original else Inr original)"
| "unwrap (Suc k) m original =
    (if IsPlaceholder original
     then (case map_of (mp_reverse m) original of None \<Rightarrow> Inl original | Some orig \<Rightarrow> unwrap k m orig)
     else Inr original)"

text \<open>At most \<open>k\<close> draws; the last token is used even if it collides.\<close>

fun draw_token :: "nat \<Rightarrow> (nat \<Rightarrow> string) \<Rightarrow> string \<Rightarrow> string list \<Rightarrow> nat \<Rightarrow> string \<Rightarrow> string \<times> nat" where
  "draw_token 0 rnd label existing d token = (token, d)"
| "draw_token (Suc k) rnd label existing d token =
    (let t = NewToken label (rnd d)
     in if t \<in> set existing then draw_token k rnd label existing (Suc d) t else (t, Suc d))"

definition bind_token :: "string \<Rightarrow> string \<Rightarrow> Mapping \<Rightarrow> Mapping" where
  "bind_token original token m =
    m\<lparr>mp_forward := mput original token (mp_forward m), mp_reverse := mput token original (mp_reverse m),
      mp_onBind := None\<rparr>"

text \<open>The result: the token, the mapping, the number of draws so far, and the session to publish.\<close>

definition Recall ::
  "(nat \<Rightarrow> string) \<Rightarrow> string \<Rightarrow> string \<Rightarrow> Mapping \<times> nat \<Rightarrow> string \<times> (Mapping \<times> nat) \<times> string option" where
  "Recall rnd original label md =
    (let m = fst md; d = snd md in
     case unwrap 5 m original of
       Inl result \<Rightarrow> (result, md, None)
     | Inr orig \<Rightarrow>
         (case map_of (mp_forward m) orig of
            Some tok \<Rightarrow> (tok, md, None)
          | None \<Rightarrow>
              (case draw_token 20 rnd label (map fst (mp_reverse m)) d [] of
                 (token, d') \<Rightarrow> (token, (bind_token orig token m, d'), mp_onBind m))))"

definition mapping_ok :: "Mapping \<Rightarrow> bool" where
  "mapping_ok m \<longleftrightarrow>
     (\<forall>orig tok. map_of (mp_forward m) orig = Some tok \<longrightarrow>
        map_of (mp_reverse m) tok = Some orig \<and> token_shape tok \<and> \<not> IsPlaceholder orig)"

text \<open>
  The assumption on the random source: every suffix has six consonants, and among twenty draws one
  gives a token that is not in use.
\<close>

definition draws_ok :: "(nat \<Rightarrow> string) \<Rightarrow> bool" where
  "draws_ok rnd \<longleftrightarrow> (\<forall>d. suffix_ok (rnd d))"

definition fresh_draw :: "(nat \<Rightarrow> string) \<Rightarrow> string \<Rightarrow> Mapping \<Rightarrow> nat \<Rightarrow> bool" where
  "fresh_draw rnd label m d \<longleftrightarrow> (\<exists>i < 20. NewToken label (rnd (d + i)) \<notin> mkeys (mp_reverse m))"

lemma mapping_ok_new [simp, intro]: "mapping_ok (newMapping\<lparr>mp_onBind := k\<rparr>)" "mapping_ok newMapping"
  by (simp_all add: mapping_ok_def newMapping_def)

lemma unwrap_plain: "\<not> IsPlaceholder original \<Longrightarrow> unwrap k m original = Inr original"
  by (cases k) simp_all

lemma unwrap_plain_result: "unwrap k m original = Inr orig \<Longrightarrow> \<not> IsPlaceholder orig"
  by (induction k m original rule: unwrap.induct) (auto split: if_splits option.splits)

lemma draw_token_fresh:
  assumes "\<exists>i < k. NewToken label (rnd (d + i)) \<notin> set existing" and "draw_token k rnd label existing d t0 = (t, d')"
  shows "t \<notin> set existing \<and> (\<exists>i. t = NewToken label (rnd i))"
  using assms
proof (induction k rnd label existing d t0 rule: draw_token.induct)
  case (2 k rnd label existing d t0)
  show ?case
  proof (cases "NewToken label (rnd d) \<in> set existing")
    case False
    with "2.prems"(2) show ?thesis by (auto simp: Let_def)
  next
    case True
    from "2.prems"(1) obtain i where i: "i < Suc k" "NewToken label (rnd (d + i)) \<notin> set existing" by blast
    with True have "i \<noteq> 0" by (cases i) auto
    then have "\<exists>j < k. NewToken label (rnd (Suc d + j)) \<notin> set existing"
      using i by (intro exI [of _ "i - 1"]) auto
    with "2.IH" [OF refl True] "2.prems"(2) True show ?thesis by (simp add: Let_def)
  qed
qed simp

lemma recall_spec:
  assumes "mapping_ok m" and "draws_ok rnd" and "\<not> IsPlaceholder original"
    and "map_of (mp_forward m) original = None \<Longrightarrow> fresh_draw rnd label m d"
    and "Recall rnd original label (m, d) = (tok, (m', d'), bound)"
  shows "mapping_ok m' \<and> token_shape tok \<and> Lookup m' tok = Some original \<and>
    map_of (mp_forward m') original = Some tok \<and>
    (\<forall>t x. Lookup m t = Some x \<longrightarrow> Lookup m' t = Some x) \<and>
    (\<forall>x t. map_of (mp_forward m) x = Some t \<longrightarrow> map_of (mp_forward m') x = Some t)"
proof (cases "map_of (mp_forward m) original")
  case (Some t)
  then have "tok = t \<and> m' = m" using assms(3,5) by (simp add: Recall_def Let_def unwrap_plain)
  with assms(1) Some show ?thesis by (auto simp: mapping_ok_def Lookup_def)
next
  case None
  obtain t e where t: "draw_token 20 rnd label (map fst (mp_reverse m)) d [] = (t, e)" by fastforce
  have r: "tok = t" "m' = bind_token original t m"
    using assms(3,5) None t by (auto simp: Recall_def Let_def unwrap_plain)
  have fresh: "t \<notin> mkeys (mp_reverse m)" "\<exists>i. t = NewToken label (rnd i)"
    using draw_token_fresh [OF _ t] assms(4) [OF None] by (auto simp: fresh_draw_def)
  then have "token_shape t" using assms(2) NewToken_shape by (auto simp: draws_ok_def)
  moreover have "map_of (mp_reverse m) t = None" using fresh(1) by (simp add: map_of_eq_None_iff)
  ultimately show ?thesis
    using assms(1,3) None unfolding r by (auto simp: mapping_ok_def Lookup_def bind_token_def)
qed

text \<open>
  Placeholders are faithful (\<^verbatim>\<open>Recall\<close>, \<^verbatim>\<open>Lookup\<close>). For an original that is not itself a placeholder,
  and a random source that finds an unused token within the twenty tries the code makes, the token is
  a well-formed placeholder, looking it up gives the original back, asking again for the same
  original gives the same token, and no placeholder issued before changes its meaning.
\<close>

lemma recall_faithful:
  assumes "mapping_ok m" and "draws_ok rnd" and "\<not> IsPlaceholder original" and "fresh_draw rnd label m d"
    and "Recall rnd original label (m, d) = (tok, (m', d'), bound)"
  shows "token_shape tok \<and> Lookup m' tok = Some original \<and> mapping_ok m' \<and>
    Recall rnd original label' (m', e) = (tok, (m', e), None) \<and>
    (\<forall>t x. Lookup m t = Some x \<longrightarrow> Lookup m' t = Some x)"
proof -
  note s = recall_spec [OF assms(1-4) assms(5)]
  then have "map_of (mp_forward m') original = Some tok" by blast
  then have "Recall rnd original label' (m', e) = (tok, (m', e), None)"
    using assms(3) by (simp add: Recall_def Let_def unwrap_plain)
  with s show ?thesis by blast
qed

subsection \<open>The store of sessions\<close>

definition SessionTTL :: int where
  "SessionTTL = 30 * 60 * 10 ^ 9"

definition maxMaskSessions :: nat where
  "maxMaskSessions = 4096"

record sessionRecord =
  sr_mapping :: nat
  sr_lastAccess :: int

record inflightSession =
  if_mapping :: nat
  if_refs :: int

record SessionStore =
  st_sessions :: "(string, sessionRecord) gomap"
  st_inflight :: "(string, inflightSession) gomap"
  st_heap :: "Mapping list"

definition NewSessionStore :: SessionStore where
  "NewSessionStore = \<lparr>st_sessions = [], st_inflight = [], st_heap = []\<rparr>"

definition new_mapping_object :: "string option \<Rightarrow> SessionStore \<Rightarrow> nat \<times> SessionStore" where
  "new_mapping_object bind st =
    (length (st_heap st), st\<lparr>st_heap := st_heap st @ [newMapping\<lparr>mp_onBind := bind\<rparr>]\<rparr>)"

definition GetOrCreate :: "string \<Rightarrow> int \<Rightarrow> SessionStore \<Rightarrow> nat \<times> SessionStore" where
  "GetOrCreate sessionKey now st =
    (if sessionKey = [] then new_mapping_object None st
     else case map_of (st_sessions st) sessionKey of
            Some rec \<Rightarrow>
              (sr_mapping rec,
               st\<lparr>st_sessions := mput sessionKey (rec\<lparr>sr_lastAccess := now\<rparr>) (st_sessions st)\<rparr>)
          | None \<Rightarrow>
              (case map_of (st_inflight st) sessionKey of
                 Some fl \<Rightarrow>
                   (if_mapping fl,
                    st\<lparr>st_inflight := mput sessionKey (fl\<lparr>if_refs := if_refs fl + 1\<rparr>) (st_inflight st)\<rparr>)
               | None \<Rightarrow>
                   (case new_mapping_object (Some sessionKey) st of
                      (m, st1) \<Rightarrow>
                        (m, st1\<lparr>st_inflight := mput sessionKey \<lparr>if_mapping = m, if_refs = 1\<rparr> (st_inflight st1)\<rparr>))))"

definition EndSession :: "string \<Rightarrow> int \<Rightarrow> SessionStore \<Rightarrow> SessionStore" where
  "EndSession sessionKey now st =
    (if sessionKey = [] then st
     else
       let st1 = (case map_of (st_sessions st) sessionKey of
                    Some rec \<Rightarrow> st\<lparr>st_sessions := mput sessionKey (rec\<lparr>sr_lastAccess := now\<rparr>) (st_sessions st)\<rparr>
                  | None \<Rightarrow> st)
       in case map_of (st_inflight st1) sessionKey of
            None \<Rightarrow> st1
          | Some fl \<Rightarrow>
              if 0 < if_refs fl - 1
              then st1\<lparr>st_inflight := mput sessionKey (fl\<lparr>if_refs := if_refs fl - 1\<rparr>) (st_inflight st1)\<rparr>
              else st1\<lparr>st_inflight := mdel sessionKey (st_inflight st1)\<rparr>)"

definition pruneExpiredLocked :: "int \<Rightarrow> (string, sessionRecord) gomap \<Rightarrow> (string, sessionRecord) gomap" where
  "pruneExpiredLocked now ss = mkeep (\<lambda>k rec. \<not> SessionTTL \<le> now - sr_lastAccess rec) ss"

text \<open>The inner loop: the first entry with the smallest access time.\<close>

fun oldest_session :: "(string, sessionRecord) gomap \<Rightarrow> (string \<times> int) option" where
  "oldest_session [] = None"
| "oldest_session ((k, rec) # ss) =
    (case oldest_session ss of
       None \<Rightarrow> Some (k, sr_lastAccess rec)
     | Some (k', t) \<Rightarrow> if t < sr_lastAccess rec then Some (k', t) else Some (k, sr_lastAccess rec))"

function evictOldestLocked :: "(string, sessionRecord) gomap \<Rightarrow> (string, sessionRecord) gomap" where
  "evictOldestLocked ss =
    (if maxMaskSessions \<le> length ss
     then (case oldest_session ss of
             None \<Rightarrow> ss
           | Some (k, t) \<Rightarrow> if k = [] \<or> \<not> mhas ss k then ss else evictOldestLocked (mdel k ss))
     else ss)"
  by pat_completeness auto
termination
proof (relation "measure length")
  fix ss :: "(string, sessionRecord) gomap" and k and p :: "string \<times> int" and t :: int
  assume "\<not> (k = [] \<or> \<not> mhas ss k)"
  then have "k \<in> mkeys ss" by (simp add: mhas_keys)
  then have "length (mdel k ss) < length ss"
    by (induction ss) (auto simp: le_imp_less_Suc length_mdel_le)
  then show "(mdel k ss, ss) \<in> measure length" by simp
qed simp

declare evictOldestLocked.simps [simp del]

definition publishSession :: "string \<Rightarrow> nat \<Rightarrow> int \<Rightarrow> SessionStore \<Rightarrow> SessionStore" where
  "publishSession key m now st =
    (let st1 = st\<lparr>st_inflight := mdel key (st_inflight st)\<rparr> in
     if mhas (st_sessions st1) key then st1
     else st1\<lparr>st_sessions := mput key \<lparr>sr_mapping = m, sr_lastAccess = now\<rparr>
                (evictOldestLocked (pruneExpiredLocked now (st_sessions st1)))\<rparr>)"

definition DeleteSession :: "string \<Rightarrow> SessionStore \<Rightarrow> SessionStore" where
  "DeleteSession sessionKey st =
    (if sessionKey = [] then st
     else st\<lparr>st_sessions := mdel sessionKey (st_sessions st), st_inflight := mdel sessionKey (st_inflight st)\<rparr>)"

definition PruneExpired :: "int \<Rightarrow> SessionStore \<Rightarrow> nat \<times> SessionStore" where
  "PruneExpired now st =
    (let ss = pruneExpiredLocked now (st_sessions st)
     in (length (st_sessions st) - length ss, st\<lparr>st_sessions := ss\<rparr>))"

text \<open>\<^verbatim>\<open>mapping.Recall\<close> on an object of the store, with the closure \<^verbatim>\<open>onBind\<close> it may run.\<close>

definition recall_in :: "(nat \<Rightarrow> string) \<Rightarrow> nat \<Rightarrow> string \<Rightarrow> string \<Rightarrow> int \<Rightarrow> SessionStore \<times> nat \<Rightarrow> string \<times> SessionStore \<times> nat" where
  "recall_in rnd p original label now sd =
    (case Recall rnd original label (st_heap (fst sd) ! p, snd sd) of
       (tok, (m', d'), bound) \<Rightarrow>
         let st1 = (fst sd)\<lparr>st_heap := (st_heap (fst sd))[p := m']\<rparr>
         in (tok, (case bound of None \<Rightarrow> st1 | Some key \<Rightarrow> publishSession key p now st1), d'))"

subsection \<open>Bounded store, spared sessions\<close>

lemma oldest_session_Some:
  "oldest_session ss = Some (k, t) \<Longrightarrow>
    \<exists>rec. (k, rec) \<in> set ss \<and> sr_lastAccess rec = t \<and> (\<forall>(k', rec') \<in> set ss. t \<le> sr_lastAccess rec')"
proof (induction ss arbitrary: k t)
  case (Cons p ss)
  obtain k0 r0 where p: "p = (k0, r0)" by fastforce
  show ?case
  proof (cases "oldest_session ss")
    case None
    then have "ss = []" by (cases ss rule: oldest_session.cases) (auto split: option.splits if_splits)
    with Cons.prems p show ?thesis by auto
  next
    case (Some q)
    then obtain k1 t1 where q: "oldest_session ss = Some (k1, t1)" by (cases q) auto
    from Cons.IH [OF q] Cons.prems p q show ?thesis by (fastforce split: if_splits)
  qed
qed simp

lemma oldest_session_None: "oldest_session ss = None \<longleftrightarrow> ss = []"
  by (induction ss rule: oldest_session.induct) (auto split: option.splits)

definition store_ok :: "SessionStore \<Rightarrow> bool" where
  "store_ok st \<longleftrightarrow> mwf (st_sessions st) \<and> mwf (st_inflight st) \<and> [] \<notin> mkeys (st_sessions st) \<and>
     length (st_sessions st) \<le> maxMaskSessions \<and>
     (\<forall>(k, rec) \<in> set (st_sessions st). sr_mapping rec < length (st_heap st)) \<and>
     (\<forall>(k, fl) \<in> set (st_inflight st). if_mapping fl < length (st_heap st) \<and> 0 < if_refs fl) \<and>
     (\<forall>m \<in> set (st_heap st). mp_onBind m \<noteq> Some [])"

lemma evict_step:
  assumes "maxMaskSessions \<le> length ss" and "oldest_session ss = Some (k, t)" and "[] \<notin> mkeys ss"
  shows "evictOldestLocked ss = evictOldestLocked (mdel k ss)"
proof -
  have "k \<in> mkeys ss" using oldest_session_Some [OF assms(2)] by force
  with assms(3) have "\<not> (k = [] \<or> \<not> mhas ss k)" unfolding mhas_keys by blast
  with assms(1,2) show ?thesis by (simp add: evictOldestLocked.simps [of ss])
qed

lemma evict_done: "length ss < maxMaskSessions \<Longrightarrow> evictOldestLocked ss = ss"
  by (simp add: evictOldestLocked.simps [of ss])

lemma evict_bound:
  assumes "mwf ss" and "[] \<notin> mkeys ss"
  shows "length (evictOldestLocked ss) < maxMaskSessions \<and> set (evictOldestLocked ss) \<subseteq> set ss \<and>
    mwf (evictOldestLocked ss)"
  using assms
proof (induction "length ss" arbitrary: ss rule: less_induct)
  case less
  show ?case
  proof (cases "maxMaskSessions \<le> length ss")
    case False
    then show ?thesis using less.prems by (simp add: evict_done)
  next
    case True
    then have "ss \<noteq> []" by (auto simp: maxMaskSessions_def)
    then obtain k t where k: "oldest_session ss = Some (k, t)"
      by (metis oldest_session_None option.exhaust surj_pair)
    have "mhas ss k" using oldest_session_Some [OF k] by (force simp: mhas_keys)
    then have "length (mdel k ss) < length ss" using length_mdel_wf [OF less.prems(1)] by (metis lessI)
    moreover have "mwf (mdel k ss)" "[] \<notin> mkeys (mdel k ss)"
      using less.prems set_mdel_subset [of k ss] by auto
    ultimately have "length (evictOldestLocked (mdel k ss)) < maxMaskSessions \<and>
        set (evictOldestLocked (mdel k ss)) \<subseteq> set (mdel k ss) \<and> mwf (evictOldestLocked (mdel k ss))"
      by (rule less.hyps)
    then show ?thesis using evict_step [OF True k less.prems(2)] set_mdel_subset [of k ss] by auto
  qed
qed

lemma prune_wf:
  assumes "mwf ss" and "[] \<notin> mkeys ss"
  shows "mwf (pruneExpiredLocked now ss)" "[] \<notin> mkeys (pruneExpiredLocked now ss)"
    "length (pruneExpiredLocked now ss) \<le> length ss" "set (pruneExpiredLocked now ss) \<subseteq> set ss"
proof -
  show "mwf (pruneExpiredLocked now ss)" using assms(1) by (simp add: pruneExpiredLocked_def)
  show "[] \<notin> mkeys (pruneExpiredLocked now ss)"
    using assms(2) mhas_mkeepD unfolding pruneExpiredLocked_def mhas_keys [symmetric] by metis
  show "length (pruneExpiredLocked now ss) \<le> length ss" by (simp add: pruneExpiredLocked_def length_mkeep_le)
  show "set (pruneExpiredLocked now ss) \<subseteq> set ss" unfolding pruneExpiredLocked_def by (rule mkeep_subset)
qed

lemma publish_store_ok:
  assumes "store_ok st" and "key \<noteq> []" and "m < length (st_heap st)"
  shows "store_ok (publishSession key m now st)"
proof -
  let ?pr = "pruneExpiredLocked now (st_sessions st)"
  have ok: "mwf (st_sessions st)" "[] \<notin> mkeys (st_sessions st)" using assms(1) by (auto simp: store_ok_def)
  note wf = prune_wf [OF ok, of now]
  note e = evict_bound [OF wf(1,2)]
  have sub: "set (evictOldestLocked ?pr) \<subseteq> set (st_sessions st)" using e wf(4) by blast
  have len: "length (mput key \<lparr>sr_mapping = m, sr_lastAccess = now\<rparr> (evictOldestLocked ?pr)) \<le> maxMaskSessions"
    using e by (auto simp: length_mput)
  have keys: "[] \<notin> mkeys (mput key \<lparr>sr_mapping = m, sr_lastAccess = now\<rparr> (evictOldestLocked ?pr))"
    unfolding mhas_keys [symmetric] mhas_mput using assms(1,2) sub by (auto simp: mhas_keys store_ok_def)
  have inflight: "mwf (mdel key (st_inflight st))" "\<forall>(k, fl) \<in> set (mdel key (st_inflight st)). if_mapping fl < length (st_heap st) \<and> 0 < if_refs fl"
    using assms(1) set_mdel_subset [of key "st_inflight st"] by (auto simp: store_ok_def)
  have ptr: "\<forall>(k, rec) \<in> set (mput key \<lparr>sr_mapping = m, sr_lastAccess = now\<rparr> (evictOldestLocked ?pr)). sr_mapping rec < length (st_heap st)"
  proof
    fix x assume "x \<in> set (mput key \<lparr>sr_mapping = m, sr_lastAccess = now\<rparr> (evictOldestLocked ?pr))"
    then have "x = (key, \<lparr>sr_mapping = m, sr_lastAccess = now\<rparr>) \<or> x \<in> set (st_sessions st)"
      using set_mput_subset sub by fastforce
    then show "case x of (k, rec) \<Rightarrow> sr_mapping rec < length (st_heap st)"
      using assms(1,3) by (auto simp: store_ok_def)
  qed
  show ?thesis
  proof (cases "mhas (st_sessions st) key")
    case True
    with assms(1) inflight show ?thesis by (simp add: publishSession_def store_ok_def)
  next
    case False
    with assms(1) inflight ptr len keys e show ?thesis by (simp add: publishSession_def store_ok_def)
  qed
qed



end
