(* ===== verification/Mask_Rules.thy ===== *)
theory Mask_Rules
  imports Mask_Token Error_Class
begin

text \<open>
  \<^verbatim>\<open>internal/relay/mask/rules.go\<close>: the validators that accept or reject the text a pattern matched, and the
  theorem that the three check digits they verify detect every single mistyped character. The
  patterns themselves are regular expressions compiled by the library (see Mask_Engine).
\<close>

subsection \<open>Bank cards\<close>

text \<open>The digits of the ASCII range; the bytes of other runes are never in it.\<close>

definition digits_of :: "string \<Rightarrow> int list" where
  "digits_of num = map digit_value (filter is_digit num)"

definition luhn_double :: "int \<Rightarrow> int" where
  "luhn_double d = (if 2 * d > 9 then 2 * d - 9 else 2 * d)"

text \<open>The loop runs from the last digit to the first.\<close>

fun luhn_loop :: "bool \<Rightarrow> int list \<Rightarrow> int" where
  "luhn_loop dbl [] = 0"
| "luhn_loop dbl (d # ds) = (if dbl then luhn_double d else d) + luhn_loop (\<not> dbl) ds"

definition luhnOK :: "string \<Rightarrow> bool" where
  "luhnOK num =
    (let digits = digits_of num
     in if length digits < 12 then False else luhn_loop False (rev digits) mod 10 = 0)"

subsection \<open>Identity cards\<close>

definition idcardW :: "int list" where
  "idcardW = [7, 9, 10, 5, 8, 4, 2, 1, 6, 3, 7, 9, 10, 5, 8, 4, 2]"

definition idcardCode :: string where
  "idcardCode = ''10X98765432''"

definition idcardProvinces :: "string list" where
  "idcardProvinces =
    [''11'', ''12'', ''13'', ''14'', ''15'', ''21'', ''22'', ''23'', ''31'', ''32'', ''33'', ''34'',
     ''35'', ''36'', ''37'', ''41'', ''42'', ''43'', ''44'', ''45'', ''46'', ''50'', ''51'', ''52'',
     ''53'', ''54'', ''61'', ''62'', ''63'', ''64'', ''65'', ''71'', ''81'', ''82'']"

text \<open>
  \<^verbatim>\<open>time.Date\<close> moves an impossible date to another one, so the comparison in the code accepts exactly
  the dates of the Gregorian calendar.
\<close>

definition days_in_month :: "nat \<Rightarrow> nat \<Rightarrow> nat" where
  "days_in_month y m =
    (if m = 2 then (if y mod 4 = 0 \<and> (y mod 100 \<noteq> 0 \<or> y mod 400 = 0) then 29 else 28)
     else if m \<in> {4, 6, 9, 11} then 30 else 31)"

definition date_exists :: "nat \<Rightarrow> nat \<Rightarrow> nat \<Rightarrow> bool" where
  "date_exists y m d \<longleftrightarrow> 1 \<le> m \<and> m \<le> 12 \<and> 1 \<le> d \<and> d \<le> days_in_month y m"

definition upper_byte :: "char \<Rightarrow> char" where
  "upper_byte c = (if between c 97 122 then char_of (byte c - 32) else c)"

text \<open>\<open>this_year\<close> is \<^verbatim>\<open>time.Now().Year()\<close>.\<close>

definition idcard18OK :: "nat \<Rightarrow> string \<Rightarrow> bool" where
  "idcard18OK this_year num =
    (if length num \<noteq> 18 then False
     else if \<not> list_all is_digit (take 17 num) then False
     else if take 2 num \<notin> set idcardProvinces then False
     else
       let y = digits_val (take 4 (drop 6 num)); m = digits_val (take 2 (drop 10 num));
           d = digits_val (take 2 (drop 12 num))
       in if \<not> date_exists y m d then False
          else if y < 1880 \<or> this_year < y then False
          else
            let total = sum_list (map2 (*) (map digit_value (take 17 num)) idcardW)
            in upper_byte (num ! 17) = idcardCode ! nat (total mod 11))"

subsection \<open>Telephones, mail addresses, secrets, MAC addresses\<close>

definition phoneOK :: "string \<Rightarrow> bool" where
  "phoneOK numStr =
    (let all = filter is_digit numStr;
         digits = (if length all = 13 \<and> all ! 0 = CHR ''8'' \<and> all ! 1 = CHR ''6'' then drop 2 all else all)
     in if length digits \<noteq> 11 then False
        else if digits ! 0 \<noteq> CHR ''1'' \<or> byte (digits ! 1) < 51 \<or> 57 < byte (digits ! 1) then False
        else \<not> list_all (\<lambda>c. c = digits ! 0) (tl digits))"

definition has_prefix :: "string \<Rightarrow> string \<Rightarrow> bool" where
  "has_prefix s p \<longleftrightarrow> take (length p) s = p"

definition has_suffix :: "string \<Rightarrow> string \<Rightarrow> bool" where
  "has_suffix s p \<longleftrightarrow> length p \<le> length s \<and> drop (length s - length p) s = p"

text \<open>The part after the last occurrence of a byte, and the part before it.\<close>

definition after_last :: "char \<Rightarrow> string \<Rightarrow> string" where
  "after_last c s = rev (takeWhile (\<lambda>x. x \<noteq> c) (rev s))"

definition before_last :: "char \<Rightarrow> string \<Rightarrow> string" where
  "before_last c s = take (length s - length (after_last c s) - 1) s"

definition emailOK :: "string \<Rightarrow> bool" where
  "emailOK text =
    (let s = TrimSpace text in
     if \<not> contains s ''@'' \<or> has_prefix s ''@'' \<or> has_suffix s ''@'' then False
     else
       let local = before_last (CHR ''@'') s; domain = after_last (CHR ''@'') s in
       if length local < 1 \<or> length domain < 3 \<or> \<not> contains domain ''.'' then False
       else if has_prefix local ''.'' \<or> contains local ''..'' \<or> contains domain ''..'' then False
       else if has_prefix domain ''.'' \<or> has_suffix domain ''.'' then False
       else 2 \<le> length (after_last (CHR ''.'') domain))"

text \<open>
  \<^verbatim>\<open>base64.URLEncoding.DecodeString\<close>: line breaks are skipped, padding is required, and nothing may
  follow it.
\<close>

definition b64_value :: "char \<Rightarrow> nat option" where
  "b64_value c =
    (if between c 65 90 then Some (byte c - 65)
     else if between c 97 122 then Some (byte c - 71)
     else if between c 48 57 then Some (byte c + 4)
     else if c = CHR ''-'' then Some 62
     else if c = CHR ''_'' then Some 63
     else None)"

fun b64_quanta :: "string \<Rightarrow> string option" where
  "b64_quanta [] = Some []"
| "b64_quanta (a # b # c # d # rest) =
    (case (b64_value a, b64_value b, b64_value c, b64_value d) of
       (Some w, Some x, Some y, Some z) \<Rightarrow>
         map_option (\<lambda>t. char_of (w * 4 + x div 16) # char_of ((x mod 16) * 16 + y div 4)
             # char_of ((y mod 4) * 64 + z) # t) (b64_quanta rest)
     | (Some w, Some x, Some y, None) \<Rightarrow>
         if d = CHR ''='' \<and> rest = []
         then Some [char_of (w * 4 + x div 16), char_of ((x mod 16) * 16 + y div 4)] else None
     | (Some w, Some x, None, None) \<Rightarrow>
         if c = CHR ''='' \<and> d = CHR ''='' \<and> rest = [] then Some [char_of (w * 4 + x div 16)] else None
     | _ \<Rightarrow> None)"
| "b64_quanta _ = None"

definition url_b64_decode :: "string \<Rightarrow> string option" where
  "url_b64_decode s = b64_quanta (filter (\<lambda>c. c \<noteq> CHR 0x0A \<and> c \<noteq> CHR 0x0D) s)"

definition jwtOK :: "string \<Rightarrow> bool" where
  "jwtOK token =
    (if CHR ''.'' \<notin> set token then False
     else
       let head = takeWhile (\<lambda>c. c \<noteq> CHR ''.'') token; pad = (4 - length head mod 4) mod 4
       in case url_b64_decode (head @ replicate pad (CHR ''='')) of
            None \<Rightarrow> False
          | Some decoded \<Rightarrow> contains decoded (CHR 0x22 # ''alg'' @ [CHR 0x22]))"

definition secretOK :: "string \<Rightarrow> bool" where
  "secretOK s \<longleftrightarrow> (\<exists>c \<in> set s. \<not> (between c 65 90 \<or> between c 97 122))"

definition macOK :: "string \<Rightarrow> bool" where
  "macOK s = (if contains s '':'' then length (filter (\<lambda>c. c = CHR '':'') s) = 5 else True)"

subsection \<open>Unified social credit codes\<close>

definition usccAlphabet :: string where
  "usccAlphabet = ''0123456789ABCDEFGHJKLMNPQRTUWXY''"

definition usccWeight :: "int list" where
  "usccWeight = [1, 3, 9, 27, 19, 26, 16, 17, 20, 29, 25, 13, 8, 24, 10, 30, 28]"

definition usccVal :: "char \<Rightarrow> int" where
  "usccVal c =
    (if between c 48 57 then int (byte c) - 48
     else if between c 65 72 then int (byte c) - 65 + 10
     else if between c 74 78 then int (byte c) - 74 + 18
     else if between c 80 82 then int (byte c) - 80 + 23
     else if c = CHR ''T'' \<or> c = CHR ''U'' then int (byte c) - 84 + 26
     else if c = CHR ''W'' then 28
     else if c = CHR ''X'' then 29
     else if c = CHR ''Y'' then 30
     else -1)"

definition usccOK :: "string \<Rightarrow> bool" where
  "usccOK s =
    (if length s \<noteq> 18 then False
     else if \<exists>c \<in> set (take 17 s). usccVal c < 0 then False
     else
       let sum = sum_list (map2 (*) (map usccVal (take 17 s)) usccWeight); check = usccVal (s ! 17)
       in if check < 0 then False else check = (31 - sum mod 31) mod 31)"

text \<open>\<^verbatim>\<open>builtinValidators\<close>; a label without an entry has the nil validator.\<close>

definition builtinValidators :: "nat \<Rightarrow> string \<Rightarrow> (string \<Rightarrow> bool) option" where
  "builtinValidators this_year label =
    map_of [(''CARD'', luhnOK), (''IDCARD'', idcard18OK this_year), (''PHONE'', phoneOK), (''EMAIL'', emailOK),
      (''JWT'', jwtOK), (''MAC'', macOK), (''SECRET'', secretOK), (''USCC'', usccOK)] label"

subsection \<open>Check digits\<close>

lemma digit_value_range: "is_digit c \<Longrightarrow> 0 \<le> digit_value c \<and> digit_value c \<le> 9"
  by (auto simp: is_digit_def digit_value_def byte_def)

lemma byte_inject: "byte a = byte b \<longleftrightarrow> a = b"
  by (simp add: byte_def)

lemma digit_value_inject: "is_digit a \<Longrightarrow> is_digit b \<Longrightarrow> digit_value a = digit_value b \<Longrightarrow> a = b"
  using byte_inject [of a b] by (simp add: digit_value_def)

lemma luhn_loop_append:
  "luhn_loop dbl (xs @ ys) = luhn_loop dbl xs + luhn_loop (dbl \<noteq> odd (length xs)) ys"
proof (induction xs arbitrary: dbl)
  case (Cons x xs)
  have "((\<not> dbl) \<noteq> odd (length xs)) = (dbl \<noteq> odd (length (x # xs)))" by auto
  then show ?case by (simp add: Cons.IH [of "\<not> dbl"] del: even_Suc)
qed simp

lemma residue_inject:
  assumes "(s + x) mod n = (s + y) mod n" and "\<bar>x - y\<bar> < (n :: int)"
  shows "x = y"
proof -
  have "n dvd (s + x) - (s + y)" using assms(1) by (simp add: mod_eq_dvd_iff)
  then have "n dvd x - y" by simp
  then have "\<not> x - y \<noteq> 0" using assms(2) dvd_imp_le_int [of "x - y" n] by linarith
  then show ?thesis by simp
qed

lemma luhn_double_inject:
  "0 \<le> a \<Longrightarrow> a \<le> 9 \<Longrightarrow> 0 \<le> b \<Longrightarrow> b \<le> 9 \<Longrightarrow> luhn_double a = luhn_double b \<Longrightarrow> a = b"
  by (auto simp: luhn_double_def split: if_splits) presburger+

lemma luhn_double_range: "0 \<le> a \<Longrightarrow> a \<le> 9 \<Longrightarrow> 0 \<le> luhn_double a \<and> luhn_double a \<le> 9"
  by (auto simp: luhn_double_def)

lemma luhn_typo:
  assumes "luhnOK (xs @ a # ys)" and "luhnOK (xs @ b # ys)" and "is_digit a" and "is_digit b"
  shows "a = b"
proof -
  let ?s = "luhn_loop False (rev (digits_of ys))" and ?odd = "odd (length (digits_of ys))"
  let ?f = "\<lambda>c. if ?odd then luhn_double (digit_value c) else digit_value c"
  let ?r = "luhn_loop (\<not> ?odd) (rev (digits_of xs))"
  have ok: "((?s + ?r) + ?f c) mod 10 = 0" if "luhnOK (xs @ c # ys)" "is_digit c" for c
    using that by (auto simp: luhnOK_def Let_def digits_of_def luhn_loop_append algebra_simps split: if_splits)
  have "((?s + ?r) + ?f a) mod 10 = ((?s + ?r) + ?f b) mod 10" using ok assms by metis
  moreover have "\<bar>?f a - ?f b\<bar> < 10"
    using luhn_double_range digit_value_range assms(3,4) by (smt (verit, ccfv_SIG))
  ultimately have "?f a = ?f b" by (rule residue_inject)
  then have "digit_value a = digit_value b"
    using luhn_double_inject digit_value_range assms(3,4) by (auto split: if_splits)
  then show ?thesis using digit_value_inject assms(3,4) by blast
qed

lemma weighted_sum_typo:
  fixes ws :: "int list"
  assumes "length vs < length ws"
  shows "sum_list (map2 (*) (vs @ b # us) ws) = sum_list (map2 (*) (vs @ a # us) ws) + (b - a) * ws ! length vs"
  using assms
proof (induction vs arbitrary: ws)
  case Nil
  then show ?case by (cases ws) (auto simp: algebra_simps)
next
  case (Cons v vs)
  then obtain w ws' where "ws = w # ws'" "length vs < length ws'" by (cases ws) auto
  with Cons.IH [of ws'] show ?case by simp
qed

lemma unit_residue:
  assumes "coprime n w" and "(s + (b - a) * w) mod n = s mod n" and "\<bar>b - a\<bar> < (n :: int)"
  shows "a = b"
proof -
  have "n dvd (b - a) * w" using assms(2) by (metis add_diff_cancel_left' mod_eq_dvd_iff)
  then have "n dvd b - a" using assms(1) by (simp add: coprime_dvd_mult_left_iff)
  then show ?thesis using residue_inject [of 0 b n a] assms(3) by (simp add: mod_eq_dvd_iff)
qed


lemma uscc_weights: "list_all (coprime 31) usccWeight" "list_all (coprime 11) idcardW"
  by (simp_all add: usccWeight_def idcardW_def coprime_iff_gcd_eq_1 gcd_non_0_int)

lemma usccVal_range: "-1 \<le> usccVal c \<and> usccVal c \<le> 30"
  by (auto simp: usccVal_def between_def byte_def)

lemma usccVal_alphabet: "i < 31 \<Longrightarrow> usccVal (usccAlphabet ! i) = int i"
proof -
  have "list_all (\<lambda>i. usccVal (usccAlphabet ! i) = int i) [0..<31]" by code_simp
  then show "i < 31 \<Longrightarrow> usccVal (usccAlphabet ! i) = int i" by (simp add: list_all_iff)
qed

lemma byte_const: "c = CHR ''T'' \<longleftrightarrow> byte c = 84" "c = CHR ''U'' \<longleftrightarrow> byte c = 85"
  "c = CHR ''W'' \<longleftrightarrow> byte c = 87" "c = CHR ''X'' \<longleftrightarrow> byte c = 88" "c = CHR ''Y'' \<longleftrightarrow> byte c = 89"
  unfolding byte_inject [of c, symmetric] by (simp_all add: byte_def)

lemma usccVal_inject: "0 \<le> usccVal a \<Longrightarrow> usccVal a = usccVal b \<Longrightarrow> a = b"
  unfolding byte_inject [of a b, symmetric] usccVal_def byte_const between_def by (auto split: if_splits)

lemma check_position:
  assumes "length (xs @ a # ys) = 18"
  shows "length xs = 17 \<Longrightarrow> take 17 (xs @ c # ys) = xs \<and> (xs @ c # ys) ! 17 = c"
    and "length xs \<noteq> 17 \<Longrightarrow> length xs < 17 \<and> take 17 (xs @ c # ys) = xs @ c # take (16 - length xs) ys \<and>
      (xs @ c # ys) ! 17 = ys ! (16 - length xs)"
proof -
  show "take 17 (xs @ c # ys) = xs \<and> (xs @ c # ys) ! 17 = c" if "length xs = 17"
    using that by (simp add: nth_append)
  show "length xs < 17 \<and> take 17 (xs @ c # ys) = xs @ c # take (16 - length xs) ys \<and>
      (xs @ c # ys) ! 17 = ys ! (16 - length xs)" if "length xs \<noteq> 17"
  proof -
    have "length xs < 17" using that assms by simp
    then have "17 - length xs = Suc (16 - length xs)" by simp
    with \<open>length xs < 17\<close> show ?thesis by (simp add: nth_append)
  qed
qed

lemma neg_residue:
  assumes "(n - x mod n) mod n = (n - y mod n) mod n"
  shows "x mod n = y mod (n :: int)"
proof -
  have "n dvd (n - x mod n) - (n - y mod n)" using assms by (simp add: mod_eq_dvd_iff)
  then have "n dvd y mod n - x mod n" by simp
  then show ?thesis by (metis mod_eq_dvd_iff mod_mod_trivial)
qed

lemma uscc_typo:
  assumes "usccOK (xs @ a # ys)" and "usccOK (xs @ b # ys)"
  shows "a = b"
proof -
  let ?sum = "\<lambda>s. sum_list (map2 (*) (map usccVal (take 17 s)) usccWeight)"
  have ok: "length s = 18 \<and> (\<forall>c \<in> set (take 17 s). 0 \<le> usccVal c) \<and> 0 \<le> usccVal (s ! 17) \<and>
      usccVal (s ! 17) = (31 - ?sum s mod 31) mod 31" if "usccOK s" for s
    using that by (auto simp: usccOK_def Let_def not_less split: if_splits)
  note a = ok [OF assms(1)] and b = ok [OF assms(2)]
  then have len: "length (xs @ a # ys) = 18" by blast
  show ?thesis
  proof (cases "length xs = 17")
    case True
    note t = check_position(1) [OF len True]
    have "usccVal a = usccVal b" "0 \<le> usccVal a" using a b unfolding t [of a, THEN conjunct1]
      t [of b, THEN conjunct1] t [of a, THEN conjunct2] t [of b, THEN conjunct2] by simp_all
    then show ?thesis by (rule usccVal_inject [rotated])
  next
    case False
    note t = check_position(2) [OF len False]
    let ?S = "?sum (xs @ a # ys)" and ?w = "usccWeight ! length xs"
    have lw: "length xs < length usccWeight" using t [of a] by (simp add: usccWeight_def)
    have sum: "?sum (xs @ b # ys) = ?S + (usccVal b - usccVal a) * ?w"
      using weighted_sum_typo [of "map usccVal xs" usccWeight "usccVal b" _ "usccVal a"] lw t by simp
    have "(xs @ a # ys) ! 17 = (xs @ b # ys) ! 17" using t [of a] t [of b] by presburger
    then have "(31 - ?S mod 31) mod 31 = (31 - ?sum (xs @ b # ys) mod 31) mod 31"
      using a [THEN conjunct2, THEN conjunct2, THEN conjunct2] b [THEN conjunct2, THEN conjunct2, THEN conjunct2]
      by metis
    then have "?sum (xs @ b # ys) mod 31 = ?S mod 31" by (rule neg_residue [symmetric])
    moreover have "coprime 31 ?w" using uscc_weights(1) lw by (simp add: list_all_length)
    moreover have "a \<in> set (take 17 (xs @ a # ys))" "b \<in> set (take 17 (xs @ b # ys))"
      using t [of a] t [of b] by (simp_all del: take_append)
    then have va: "0 \<le> usccVal a" "0 \<le> usccVal b" using a b by blast+
    then have "\<bar>usccVal b - usccVal a\<bar> < 31" using usccVal_range [of a] usccVal_range [of b] by linarith
    ultimately have "usccVal a = usccVal b" using unit_residue [of 31 ?w ?S] sum by metis
    with va show ?thesis using usccVal_inject by blast
  qed
qed

lemma upper_digit: "is_digit c \<Longrightarrow> upper_byte c = c"
  by (simp add: is_digit_def upper_byte_def between_def byte_def)

lemma idcard_codes: "i < 11 \<Longrightarrow> j < 11 \<Longrightarrow> idcardCode ! i = idcardCode ! j \<Longrightarrow> i = j"
proof -
  have "distinct idcardCode" "length idcardCode = 11" by (simp_all add: idcardCode_def)
  then show "i < 11 \<Longrightarrow> j < 11 \<Longrightarrow> idcardCode ! i = idcardCode ! j \<Longrightarrow> i = j"
    using nth_eq_iff_index_eq by metis
qed

lemma idcard_typo:
  assumes "idcard18OK yr (xs @ a # ys)" and "idcard18OK yr (xs @ b # ys)"
  shows "upper_byte a = upper_byte b"
proof -
  let ?sum = "\<lambda>s. sum_list (map2 (*) (map digit_value (take 17 s)) idcardW)"
  have ok: "length s = 18 \<and> (\<forall>c \<in> set (take 17 s). is_digit c) \<and>
      upper_byte (s ! 17) = idcardCode ! nat (?sum s mod 11)" if "idcard18OK yr s" for s
    using that by (auto simp: idcard18OK_def Let_def list_all_iff split: if_splits)
  note a = ok [OF assms(1)] and b = ok [OF assms(2)]
  then have len: "length (xs @ a # ys) = 18" by blast
  show ?thesis
  proof (cases "length xs = 17")
    case True
    note t = check_position(1) [OF len True]
    show ?thesis using a b t by metis
  next
    case False
    note t = check_position(2) [OF len False]
    let ?S = "?sum (xs @ a # ys)" and ?w = "idcardW ! length xs"
    have lw: "length xs < length idcardW" using t [of a] by (simp add: idcardW_def)
    have sum: "?sum (xs @ b # ys) = ?S + (digit_value b - digit_value a) * ?w"
      using weighted_sum_typo [of "map digit_value xs" idcardW "digit_value b" _ "digit_value a"] lw t by simp
    have "idcardCode ! nat (?S mod 11) = idcardCode ! nat (?sum (xs @ b # ys) mod 11)" using a b t by metis
    moreover have "nat (z mod 11) < 11" for z :: int by (simp add: nat_less_iff)
    ultimately have "nat (?S mod 11) = nat (?sum (xs @ b # ys) mod 11)" using idcard_codes by blast
    then have "?sum (xs @ b # ys) mod 11 = ?S mod 11" by (simp add: eq_nat_nat_iff)
    moreover have "coprime 11 ?w" using uscc_weights(2) lw by (simp add: list_all_length)
    moreover have d: "is_digit a" "is_digit b" using a b t by auto
    then have "\<bar>digit_value b - digit_value a\<bar> < 11" using digit_value_range [of a] digit_value_range [of b] by linarith
    ultimately have "digit_value a = digit_value b" using unit_residue [of 11 ?w ?S] sum by metis
    with d show ?thesis using digit_value_inject by blast
  qed
qed

text \<open>
  Check digits (\<^verbatim>\<open>luhnOK\<close>, \<^verbatim>\<open>usccOK\<close>, \<^verbatim>\<open>idcard18OK\<close>). The validators that decide whether a run of
  digits is a bank card, a social credit code or an identity card accept no two texts that differ
  in one character: an accepted number with one digit replaced by another is rejected (for the
  identity card, up to the case of the final letter).
\<close>

lemma check_digit_detects_typo:
  "(luhnOK (xs @ a # ys) \<and> is_digit a \<and> is_digit b \<and> a \<noteq> b \<longrightarrow> \<not> luhnOK (xs @ b # ys)) \<and>
   (usccOK (xs @ a # ys) \<and> a \<noteq> b \<longrightarrow> \<not> usccOK (xs @ b # ys)) \<and>
   (idcard18OK yr (xs @ a # ys) \<and> upper_byte a \<noteq> upper_byte b \<longrightarrow> \<not> idcard18OK yr (xs @ b # ys))"
  using luhn_typo uscc_typo idcard_typo by blast

end
