(* ===== verification/Mask_Engine.thy ===== *)
theory Mask_Engine
  imports Mask_Session Mask_Rules
begin

text \<open>
  \<^verbatim>\<open>internal/relay/mask/engine.go\<close>: custom terms, the quick tests before a rule, the collection of candidates
  outside of placeholders, their choice and replacement. A compiled pattern is the function
  \<^verbatim>\<open>FindAllStringSubmatchIndex(seg, -1)\<close>; for custom terms it is defined here, for the regular expressions of
  \<^verbatim>\<open>BuiltinRules\<close> it is a field of the rule of which \<open>rule_ok\<close> records what the library documents.
  The main theorems: restoring a masked text gives what restoring the text itself gives, and
  the masked text is the text with disjoint stretches replaced that meet every candidate.
\<close>

type_synonym pattern = "string \<Rightarrow> int list list"

record Rule =
  ru_Label :: string
  ru_Pattern :: pattern
  ru_Group :: nat

record CustomTerm =
  ct_Value :: string
  ct_Category :: string

record Match =
  mm_Label :: string
  mm_Original :: string
  mm_Placeholder :: string

subsection \<open>Custom terms\<close>

definition is_word_char :: "char \<Rightarrow> bool" where
  "is_word_char c \<longleftrightarrow> between c 65 90 \<or> between c 97 122 \<or> between c 48 57 \<or> c = CHR ''_''"

definition isASCIIWord :: "string \<Rightarrow> bool" where
  "isASCIIWord s \<longleftrightarrow> list_all is_word_char s"

text \<open>\<^verbatim>\<open>\b\<close> at a position.\<close>

definition word_boundary :: "string \<Rightarrow> nat \<Rightarrow> bool" where
  "word_boundary s i \<longleftrightarrow>
     (0 < i \<and> i \<le> length s \<and> is_word_char (s ! (i - 1))) \<noteq> (i < length s \<and> is_word_char (s ! i))"

definition term_at :: "string \<Rightarrow> string \<Rightarrow> nat \<Rightarrow> bool" where
  "term_at val s i \<longleftrightarrow> take (length val) (drop i s) = val \<and>
     (isASCIIWord val \<longrightarrow> word_boundary s i \<and> word_boundary s (i + length val))"

text \<open>All matches of the quoted term: leftmost, not overlapping.\<close>

function find_term :: "string \<Rightarrow> string \<Rightarrow> nat \<Rightarrow> int list list" where
  "find_term val s i =
    (if val = [] \<or> length s < i + length val then []
     else if term_at val s i then [int i, int (i + length val)] # find_term val s (i + length val)
     else find_term val s (Suc i))"
  by pat_completeness auto
termination
proof (relation "measure (\<lambda>(val, s, i). length s - i)")
  fix val s :: string and i :: nat
  assume "\<not> (val = [] \<or> length s < i + length val)"
  then have "0 < length val" "i + length val \<le> length s" by auto
  then show "((val, s, i + length val), val, s, i) \<in> measure (\<lambda>(val, s, i). length s - i)"
    and "((val, s, Suc i), val, s, i) \<in> measure (\<lambda>(val, s, i). length s - i)"
    by (simp_all only: in_measure prod.case; linarith)+
qed simp

declare find_term.simps [simp del]

definition compileCustomTerm :: "string \<Rightarrow> pattern" where
  "compileCustomTerm val = (\<lambda>s. find_term val s 0)"

type_synonym term_table = "(string, pattern) gomap"

definition nonempty_terms :: "CustomTerm list \<Rightarrow> CustomTerm list" where
  "nonempty_terms terms = filter (\<lambda>t. ct_Value t \<noteq> []) terms"

definition customTermTableHits :: "term_table \<Rightarrow> CustomTerm list \<Rightarrow> bool" where
  "customTermTableHits current terms =
    (if list_all (\<lambda>t. mhas current (ct_Value t)) (nonempty_terms terms)
     then length current = length (nonempty_terms terms) else False)"

text \<open>
  The table used by the caller, and the cache after the compare-and-swap (\<open>won\<close>: it found the table that
  was loaded before).
\<close>

definition customTermTable :: "bool \<Rightarrow> CustomTerm list \<Rightarrow> term_table \<Rightarrow> term_table \<times> term_table" where
  "customTermTable won terms current =
    (if customTermTableHits current terms then (current, current)
     else
       let table = fold (\<lambda>t next.
             case map_of current (ct_Value t) of
               Some rx \<Rightarrow> mput (ct_Value t) rx next
             | None \<Rightarrow> mput (ct_Value t) (compileCustomTerm (ct_Value t)) next) (nonempty_terms terms) []
       in (table, if won then table else current))"

subsection \<open>Quick tests\<close>

definition apiPrefixes :: "string list" where
  "apiPrefixes = [''ghp_'', ''gho_'', ''ghu_'', ''ghs_'', ''ghr_'', ''github_pat_'', ''AIza'', ''xoxb-'',
     ''xoxa-'', ''xoxp-'', ''xoxr-'', ''xoxs-'', ''sk-'', ''sk_live_'', ''sk_test_'', ''rk_live_'',
     ''rk_test_'', ''cli-'', ''ding-'']"

definition secretKeywordsLower :: "string list" where
  "secretKeywordsLower = [''password'', ''passwd'', ''pwd'', ''secret'', ''token'', ''api_key'', ''api-key'',
     ''apikey'', ''access_key'', ''access-key'', ''accesskey'', ''private_key'', ''private-key'', ''privatekey'']"

text \<open>The Chinese keywords, as UTF-8 bytes.\<close>

definition secretKeywordsCN :: "string list" where
  "secretKeywordsCN =
    [[CHR 0xE5, CHR 0xAF, CHR 0x86, CHR 0xE7, CHR 0xA0, CHR 0x81],
     [CHR 0xE5, CHR 0x8F, CHR 0xA3, CHR 0xE4, CHR 0xBB, CHR 0xA4],
     [CHR 0xE4, CHR 0xBB, CHR 0xA4, CHR 0xE7, CHR 0x89, CHR 0x8C],
     [CHR 0xE5, CHR 0xAF, CHR 0x86, CHR 0xE9, CHR 0x92, CHR 0xA5],
     [CHR 0xE7, CHR 0xA7, CHR 0x98, CHR 0xE9, CHR 0x92, CHR 0xA5],
     [CHR 0xE5, CHR 0xAF, CHR 0x86, CHR 0xE5, CHR 0x8C, CHR 0x99],
     [CHR 0xE5, CHR 0x87, CHR 0xAD, CHR 0xE6, CHR 0x8D, CHR 0xAE],
     [CHR 0xE5, CHR 0x87, CHR 0xAD, CHR 0xE8, CHR 0xAF, CHR 0x81],
     [CHR 0xE7, CHR 0xA7, CHR 0x81, CHR 0xE9, CHR 0x92, CHR 0xA5],
     [CHR 0xE6, CHR 0x8E, CHR 0x88, CHR 0xE6, CHR 0x9D, CHR 0x83, CHR 0xE7, CHR 0xA0, CHR 0x81],
     [CHR 0xE8, CHR 0xAE, CHR 0xBF, CHR 0xE9, CHR 0x97, CHR 0xAE, CHR 0xE5, CHR 0xAF, CHR 0x86, CHR 0xE9, CHR 0x92, CHR 0xA5],
     [CHR 0xE6, CHR 0x8E, CHR 0xA5, CHR 0xE5, CHR 0x8F, CHR 0xA3, CHR 0xE5, CHR 0xAF, CHR 0x86, CHR 0xE9, CHR 0x92, CHR 0xA5]]"

text \<open>The counter of \<^verbatim>\<open>hasNDigits\<close> counts all digits; \<open>need\<close> is \<^verbatim>\<open>n - cnt\<close>.\<close>

fun hasNDigits :: "string \<Rightarrow> int \<Rightarrow> bool" where
  "hasNDigits [] need = False"
| "hasNDigits (c # text) need =
    (if is_digit c then (if need \<le> 1 then True else hasNDigits text (need - 1)) else hasNDigits text need)"

definition is_alnum :: "char \<Rightarrow> bool" where
  "is_alnum c \<longleftrightarrow> between c 48 57 \<or> between c 65 90 \<or> between c 97 122"

text \<open>The counter of \<^verbatim>\<open>hasNAlnum\<close> starts again after every other byte.\<close>

fun alnum_run :: "string \<Rightarrow> int \<Rightarrow> int \<Rightarrow> bool" where
  "alnum_run [] n cnt = False"
| "alnum_run (c # text) n cnt =
    (if is_alnum c then (if n \<le> cnt + 1 then True else alnum_run text n (cnt + 1)) else alnum_run text n 0)"

definition hasNAlnum :: "string \<Rightarrow> int \<Rightarrow> bool" where
  "hasNAlnum text n = alnum_run text n 0"

definition ruleMayHit :: "string \<Rightarrow> string \<Rightarrow> bool" where
  "ruleMayHit text label =
    (if label = ''PRIVATE_KEY'' then contains text ''PRIVATE KEY''
     else if label = ''API_KEY'' then list_ex (contains text) apiPrefixes
     else if label = ''CONNSTR'' then contains text ''://'' \<and> contains text ''@''
     else if label = ''EMAIL'' then contains text ''@''
     else if label = ''PHONE'' then hasNDigits text 11
     else if label = ''IDCARD'' then hasNDigits text 17
     else if label = ''CARD'' then hasNDigits text 13
     else if label = ''SECRET'' then
       list_ex (contains (ToLower text)) secretKeywordsLower \<or> list_ex (contains text) secretKeywordsCN
     else if label = ''JWT'' then contains text ''eyJ''
     else if label = ''TOKEN'' then contains (ToLower text) ''bearer''
     else if label = ''MAC'' then list_ex (\<lambda>c. c \<in> set '':-.'') text
     else if label = ''USCC'' then hasNAlnum text 18
     else True)"

subsection \<open>Candidates\<close>

text \<open>\<^verbatim>\<open>text[a:b]\<close>\<close>

definition slice :: "string \<Rightarrow> nat \<Rightarrow> nat \<Rightarrow> string" where
  "slice s a b = take (b - a) (drop a s)"

definition captureGroup :: "string \<Rightarrow> int list \<Rightarrow> nat \<Rightarrow> string" where
  "captureGroup seg loc g =
    (if g = 0 then slice seg (nat (loc ! 0)) (nat (loc ! 1))
     else
       let gs = loc ! (2 * g); ge = loc ! (2 * g + 1)
       in if gs < 0 \<or> ge < 0 then [] else slice seg (nat gs) (nat ge))"

definition captureGroupBounds :: "int list \<Rightarrow> nat \<Rightarrow> int \<times> int" where
  "captureGroupBounds loc g = (if g = 0 then (loc ! 0, loc ! 1) else (loc ! (2 * g), loc ! (2 * g + 1)))"

text \<open>\<^verbatim>\<open>PlaceholderRe.FindAllStringIndex\<close>, from position \<open>i\<close> on.\<close>

function ph_locs :: "string \<Rightarrow> nat \<Rightarrow> (nat \<times> nat) list" where
  "ph_locs s i =
    (if s = [] then []
     else case ph_at s of
            Some n \<Rightarrow> (i, i + n) # ph_locs (drop n s) (i + n)
          | None \<Rightarrow> ph_locs (tl s) (Suc i))"
  by pat_completeness auto
termination
proof (relation "measure (length \<circ> fst)")
  fix s n and i :: nat
  assume "s \<noteq> []" "ph_at s = Some n"
  with ph_at_shape [of s n] token_length [of "take n s"] show "((drop n s, i + n), s, i) \<in> measure (length \<circ> fst)"
    by auto
qed auto

declare ph_locs.simps [simp del]

lemma ph_locs_Nil [simp]: "ph_locs [] i = []"
  by (simp add: ph_locs.simps)

fun gap_ranges :: "(nat \<times> nat) list \<Rightarrow> nat \<Rightarrow> nat \<Rightarrow> (nat \<times> nat) list" where
  "gap_ranges [] lastEnd len = (if lastEnd < len then [(lastEnd, len)] else [])"
| "gap_ranges ((a, b) # locs) lastEnd len =
    (if lastEnd < a then (lastEnd, a) # gap_ranges locs b len else gap_ranges locs b len)"

definition nonPlaceholderRanges :: "string \<Rightarrow> (nat \<times> nat) list" where
  "nonPlaceholderRanges text =
    (let locs = ph_locs text 0
     in if locs = [] then [(0, length text)] else gap_ranges locs 0 (length text))"

record cand =
  c_origStart :: int
  c_origEnd :: int
  c_isTerm :: bool
  c_ruleIdx :: nat
  c_orig :: string
  c_rule :: Rule

definition rule_cands :: "nat \<Rightarrow> string \<Rightarrow> nat \<Rightarrow> nat \<times> Rule \<Rightarrow> cand list" where
  "rule_cands this_year seg base ir =
    (let rule = snd ir in
     if \<not> ruleMayHit seg (ru_Label rule) then []
     else concat (map (\<lambda>loc.
       let orig = captureGroup seg loc (ru_Group rule) in
       if orig = [] then []
       else if (case builtinValidators this_year (ru_Label rule) of None \<Rightarrow> False | Some v \<Rightarrow> \<not> v orig) then []
       else case captureGroupBounds loc (ru_Group rule) of (os, oe) \<Rightarrow>
         [\<lparr>c_origStart = int base + os, c_origEnd = int base + oe, c_isTerm = (ru_Label rule = ''TERM''),
           c_ruleIdx = fst ir, c_orig = orig, c_rule = rule\<rparr>])
       (ru_Pattern rule seg)))"

definition collect_cands :: "nat \<Rightarrow> string \<Rightarrow> Rule list \<Rightarrow> cand list" where
  "collect_cands this_year text rules =
    concat (map (\<lambda>(a, b). concat (map (rule_cands this_year (slice text a b) a) (enumerate 0 rules)))
      (nonPlaceholderRanges text))"

definition cand_less :: "cand \<Rightarrow> cand \<Rightarrow> bool" where
  "cand_less a b =
    (if c_origStart a \<noteq> c_origStart b then c_origStart a < c_origStart b
     else if c_isTerm a \<noteq> c_isTerm b then c_isTerm a
     else if c_origEnd a \<noteq> c_origEnd b then c_origEnd a > c_origEnd b
     else c_ruleIdx a < c_ruleIdx b)"

text \<open>\<^verbatim>\<open>sort.SliceStable\<close>: insertion in front of the candidates that are not smaller is stable.\<close>

fun insert_cand :: "cand \<Rightarrow> cand list \<Rightarrow> cand list" where
  "insert_cand c [] = [c]"
| "insert_cand c (d # ds) = (if cand_less d c then d # insert_cand c ds else c # d # ds)"

definition SliceStable :: "cand list \<Rightarrow> cand list" where
  "SliceStable cs = foldr insert_cand cs []"

subsection \<open>Replacement\<close>

record mask_state =
  ms_store :: SessionStore
  ms_draws :: nat
  ms_matches :: "Match list"
  ms_seen :: "string list"

definition mask_one :: "(nat \<Rightarrow> string) \<Rightarrow> nat \<Rightarrow> int \<Rightarrow> cand \<Rightarrow> mask_state \<Rightarrow> string \<times> mask_state" where
  "mask_one rnd p now c st =
    (case recall_in rnd p (c_orig c) (ru_Label (c_rule c)) now (ms_store st, ms_draws st) of
       (ph, store, d) \<Rightarrow>
         let st1 = st\<lparr>ms_store := store, ms_draws := d\<rparr>
         in (ph, if c_orig c \<in> set (ms_seen st1) then st1
                 else st1\<lparr>ms_seen := c_orig c # ms_seen st1,
                          ms_matches := ms_matches st1 @
                            [\<lparr>mm_Label = ru_Label (c_rule c), mm_Original = c_orig c, mm_Placeholder = ph\<rparr>]\<rparr>))"

fun mask_loop ::
  "(nat \<Rightarrow> string) \<Rightarrow> nat \<Rightarrow> int \<Rightarrow> string \<Rightarrow> cand list \<Rightarrow> int \<Rightarrow> int \<Rightarrow> mask_state \<Rightarrow> string \<times> mask_state" where
  "mask_loop rnd p now text [] prev lastEnd st = (drop (nat prev) text, st)"
| "mask_loop rnd p now text (c # cs) prev lastEnd st =
    (if c_origStart c < lastEnd then mask_loop rnd p now text cs prev lastEnd st
     else case mask_one rnd p now c st of
            (ph, st1) \<Rightarrow>
              (case mask_loop rnd p now text cs (c_origEnd c) (c_origEnd c) st1 of
                 (out, st2) \<Rightarrow> (slice text (nat prev) (nat (c_origStart c)) @ ph @ out, st2)))"

definition maskCandidates ::
  "(nat \<Rightarrow> string) \<Rightarrow> nat \<Rightarrow> nat \<Rightarrow> int \<Rightarrow> string \<Rightarrow> Rule list \<Rightarrow> mask_state \<Rightarrow> string \<times> mask_state" where
  "maskCandidates rnd this_year p now text rules st =
    (if text = [] \<or> rules = [] then (text, st)
     else
       let cands = collect_cands this_year text rules
       in if cands = [] then (text, st) else mask_loop rnd p now text (SliceStable cands) 0 (-1) st)"

text \<open>\<^verbatim>\<open>restore.go\<close>; the nil mapping is \<open>None\<close>.\<close>

definition RestoreString :: "string \<Rightarrow> Mapping option \<Rightarrow> string" where
  "RestoreString body mapping =
    (case mapping of None \<Rightarrow> body | Some m \<Rightarrow> if body = [] then body else restore (Lookup m) body)"

definition RestoreBytes :: "string \<Rightarrow> Mapping option \<Rightarrow> string" where
  "RestoreBytes body mapping = RestoreString body mapping"

subsection \<open>Candidates lie between placeholders\<close>

text \<open>What \<^verbatim>\<open>regexp\<close> documents of the locations it returns: they lie in the text, or the group took no part.\<close>

definition loc_ok :: "nat \<Rightarrow> nat \<Rightarrow> int list \<Rightarrow> bool" where
  "loc_ok len g loc \<longleftrightarrow> 2 * g + 1 < length loc \<and> 0 \<le> loc ! 0 \<and> loc ! 0 \<le> loc ! 1 \<and> loc ! 1 \<le> int len \<and>
     (loc ! (2 * g) < 0 \<or> loc ! (2 * g + 1) < 0 \<or>
      loc ! (2 * g) \<le> loc ! (2 * g + 1) \<and> loc ! (2 * g + 1) \<le> int len)"

definition rule_ok :: "Rule \<Rightarrow> bool" where
  "rule_ok r \<longleftrightarrow> (\<forall>seg. \<forall>loc \<in> set (ru_Pattern r seg). loc_ok (length seg) (ru_Group r) loc)"

lemma find_term_locs:
  "loc \<in> set (find_term val s i) \<Longrightarrow> \<exists>j. loc = [int j, int (j + length val)] \<and> j + length val \<le> length s"
proof (induction val s i rule: find_term.induct)
  case (1 val s i)
  show ?case
  proof (cases "val = [] \<or> length s < i + length val")
    case True
    with "1.prems" show ?thesis by (simp add: find_term.simps [of val s i])
  next
    case False
    then show ?thesis
    proof (cases "term_at val s i")
      case True
      with "1.prems" False have "loc = [int i, int (i + length val)] \<or> loc \<in> set (find_term val s (i + length val))"
        by (simp add: find_term.simps [of val s i])
      with "1.IH"(1) [OF False True] False show ?thesis by auto
    next
      case t: False
      with "1.prems" False have "loc \<in> set (find_term val s (Suc i))" by (simp add: find_term.simps [of val s i])
      with "1.IH"(2) [OF False t] show ?thesis by blast
    qed
  qed
qed

lemma term_rule_ok: "rule_ok \<lparr>ru_Label = l, ru_Pattern = compileCustomTerm val, ru_Group = 0\<rparr>"
  by (auto simp: rule_ok_def loc_ok_def compileCustomTerm_def dest!: find_term_locs)

definition gap_ok :: "string \<Rightarrow> nat \<Rightarrow> nat \<Rightarrow> bool" where
  "gap_ok text a b \<longleftrightarrow> a \<le> b \<and> b \<le> length text \<and> (\<forall>q. a \<le> q \<and> q \<le> b \<longrightarrow> reached text q) \<and>
     (\<forall>q. a \<le> q \<and> q < b \<longrightarrow> ph_at (drop q text) = None)"

lemma gap_extend:
  assumes "gap_ok text a b" and "b < length text" and "ph_at (drop b text) = None"
  shows "gap_ok text a (Suc b)"
proof -
  have "reached text (Suc b)" using assms reached_advance(1) by (auto simp: gap_ok_def)
  with assms show ?thesis by (auto simp: gap_ok_def le_Suc_eq less_Suc_eq)
qed

lemma gap_ranges_ok:
  assumes "gap_ok text lastEnd i" and "s = drop i text"
    and "(a, b) \<in> set (gap_ranges (ph_locs s i) lastEnd (length text))"
  shows "gap_ok text a b"
  using assms
proof (induction s i arbitrary: lastEnd rule: ph_locs.induct)
  case (1 s i)
  show ?case
  proof (cases "s = []")
    case True
    with "1.prems" have "i = length text" by (auto simp: gap_ok_def)
    with "1.prems" True show ?thesis by (auto split: if_splits)
  next
    case False
    with "1.prems" have i: "i < length text" by auto
    show ?thesis
    proof (cases "ph_at s")
      case None
      with "1.prems"(3) False have "(a, b) \<in> set (gap_ranges (ph_locs (tl s) (Suc i)) lastEnd (length text))"
        by (simp add: ph_locs.simps [of s i])
      moreover have "tl s = drop (Suc i) text" using "1.prems"(2) by (simp add: tl_drop drop_Suc)
      moreover have "gap_ok text lastEnd (Suc i)" using gap_extend [OF "1.prems"(1) i] None "1.prems"(2) by simp
      ultimately show ?thesis using "1.IH"(1) [OF False None] by blast
    next
      case (Some n)
      have "reached text (i + n)" using reached_advance(2) [OF _ i] Some "1.prems"(1,2) by (auto simp: gap_ok_def)
      then have g: "gap_ok text (i + n) (i + n)" using reached_le [of "text" "i + n"] by (auto simp: gap_ok_def)
      have d: "drop n s = drop (i + n) text" using "1.prems"(2) by (simp add: add.commute)
      from "1.prems"(3) False Some have "(a, b) = (lastEnd, i) \<or>
          (a, b) \<in> set (gap_ranges (ph_locs (drop n s) (i + n)) (i + n) (length text))"
        by (auto simp: ph_locs.simps [of s i] split: if_splits)
      with "1.IH"(2) [OF False Some g d] "1.prems"(1) show ?thesis by blast
    qed
  qed
qed


lemma ranges_ok:
  assumes "(a, b) \<in> set (nonPlaceholderRanges text)"
  shows "gap_ok text a b"
proof -
  have g: "gap_ok text 0 0" by (simp add: gap_ok_def)
  show ?thesis
  proof (cases "ph_locs text 0 = [] \<and> text = []")
    case True
    with assms g show ?thesis by (simp add: nonPlaceholderRanges_def Let_def)
  next
    case False
    then have "nonPlaceholderRanges text = gap_ranges (ph_locs text 0) 0 (length text)"
      by (auto simp: nonPlaceholderRanges_def Let_def)
    with assms show ?thesis by (intro gap_ranges_ok [OF g]) simp_all
  qed
qed

lemma gap_slice_plain:
  assumes "gap_ok text a b" and "a \<le> x" and "y \<le> b"
  shows "\<not> IsPlaceholder (slice text x y)"
proof -
  have main: "\<not> IsPlaceholder (take n (drop q text))" if "a \<le> q" "q + n \<le> b" for n q
    using that
  proof (induction n arbitrary: q)
    case (Suc n)
    have "q < b" "q < length text" using Suc.prems assms(1) by (auto simp: gap_ok_def)
    then have d: "take (Suc n) (drop q text) = text ! q # take n (drop (Suc q) text)"
      by (simp add: Cons_nth_drop_Suc [symmetric])
    have "ph_at (drop q text) = None" using assms(1) Suc.prems \<open>q < b\<close> by (simp add: gap_ok_def)
    then have "ph_at (take (Suc n) (drop q text)) = None"
      using ph_at_append [of "take (Suc n) (drop q text)" _ "drop (Suc n) (drop q text)"]
      by (cases "ph_at (take (Suc n) (drop q text))") (auto simp del: drop_drop)
    with Suc.IH [of "Suc q"] Suc.prems show ?case unfolding d by simp
  qed simp
  show ?thesis
  proof (cases "x \<le> y")
    case True
    with main [of x "y - x"] assms show ?thesis by (simp add: slice_def)
  qed (simp add: slice_def)
qed

definition cand_ok :: "string \<Rightarrow> cand \<Rightarrow> bool" where
  "cand_ok text c \<longleftrightarrow> 0 \<le> c_origStart c \<and> c_origStart c < c_origEnd c \<and> c_origEnd c \<le> int (length text) \<and>
     c_orig c = slice text (nat (c_origStart c)) (nat (c_origEnd c)) \<and> \<not> IsPlaceholder (c_orig c) \<and>
     reached text (nat (c_origStart c)) \<and> reached text (nat (c_origEnd c))"

lemma captured_bounds:
  assumes "loc_ok (length seg) g loc" and "captureGroup seg loc g \<noteq> []" and "captureGroupBounds loc g = (os, oe)"
  shows "0 \<le> os \<and> os < oe \<and> oe \<le> int (length seg) \<and> captureGroup seg loc g = slice seg (nat os) (nat oe)"
proof -
  have b: "captureGroup seg loc g = slice seg (nat os) (nat oe)" "0 \<le> os" "os \<le> oe" "oe \<le> int (length seg)"
    using assms by (auto simp: captureGroup_def captureGroupBounds_def loc_ok_def Let_def split: if_splits)
  moreover have "os \<noteq> oe" using assms(2) b(1) by (auto simp: slice_def)
  ultimately show ?thesis by simp
qed

lemma rule_cands_D:
  assumes "c \<in> set (rule_cands yr seg base (i, rule))"
  obtains loc os oe where "loc \<in> set (ru_Pattern rule seg)" "captureGroupBounds loc (ru_Group rule) = (os, oe)"
    "c_orig c = captureGroup seg loc (ru_Group rule)" "c_orig c \<noteq> []" "c_origStart c = int base + os" "c_origEnd c = int base + oe"
proof -
  from assms obtain loc where "loc \<in> set (ru_Pattern rule seg)" "captureGroup seg loc (ru_Group rule) \<noteq> []"
    "c = \<lparr>c_origStart = int base + fst (captureGroupBounds loc (ru_Group rule)),
          c_origEnd = int base + snd (captureGroupBounds loc (ru_Group rule)), c_isTerm = (ru_Label rule = ''TERM''),
          c_ruleIdx = i, c_orig = captureGroup seg loc (ru_Group rule), c_rule = rule\<rparr>"
    by (auto simp: rule_cands_def Let_def case_prod_unfold split: if_splits)
  then show ?thesis using that [OF _ prod.collapse [symmetric]] by simp
qed

lemma slice_slice:
  "x \<le> y \<Longrightarrow> y \<le> b - a \<Longrightarrow> slice (slice text a b) x y = slice text (a + x) (a + y)"
  by (simp add: slice_def drop_take min_def add.commute)

lemma collect_cands_ok:
  assumes "\<And>r. r \<in> set rules \<Longrightarrow> rule_ok r" and "c \<in> set (collect_cands yr text rules)"
  shows "cand_ok text c"
proof -
  from assms(2) obtain a b i rule where ab: "(a, b) \<in> set (nonPlaceholderRanges text)"
    and "(i, rule) \<in> set (enumerate 0 rules)" and c: "c \<in> set (rule_cands yr (slice text a b) a (i, rule))"
    by (auto simp: collect_cands_def)
  then have "rule \<in> set rules" by (auto simp: in_set_enumerate_eq)
  then have "rule_ok rule" by (rule assms(1))
  note g = ranges_ok [OF ab]
  then have len: "length (slice text a b) = b - a" by (auto simp: slice_def gap_ok_def)
  from c obtain loc os oe where loc: "loc \<in> set (ru_Pattern rule (slice text a b))"
    "captureGroupBounds loc (ru_Group rule) = (os, oe)" "c_orig c = captureGroup (slice text a b) loc (ru_Group rule)"
    "c_orig c \<noteq> []" "c_origStart c = int a + os" "c_origEnd c = int a + oe" by (rule rule_cands_D)
  have "loc_ok (length (slice text a b)) (ru_Group rule) loc" using \<open>rule_ok rule\<close> loc(1) by (simp add: rule_ok_def)
  from captured_bounds [OF this _ loc(2)] loc(3,4) len
  have cb: "0 \<le> os" "os < oe" "oe \<le> int (b - a)" "c_orig c = slice (slice text a b) (nat os) (nat oe)" by auto
  have s: "nat (c_origStart c) = a + nat os" "nat (c_origEnd c) = a + nat oe" using loc(5,6) cb by (simp_all add: nat_add_distrib)
  have "c_orig c = slice text (nat (c_origStart c)) (nat (c_origEnd c))"
    unfolding cb(4) s using cb(1-3) by (intro slice_slice) auto
  moreover have "a + nat os \<le> b" "a + nat oe \<le> b" "b \<le> length text" using cb g by (auto simp: gap_ok_def)
  moreover have "\<not> IsPlaceholder (slice text (a + nat os) (a + nat oe))"
    using gap_slice_plain [OF g] \<open>a + nat oe \<le> b\<close> by simp
  moreover have "reached text (a + nat os)" "reached text (a + nat oe)"
    using g \<open>a + nat os \<le> b\<close> \<open>a + nat oe \<le> b\<close> by (auto simp: gap_ok_def)
  moreover have "0 \<le> c_origStart c" "c_origStart c < c_origEnd c" "c_origEnd c \<le> int (length text)"
    using loc(5,6) cb g by (auto simp: gap_ok_def)
  ultimately show ?thesis by (simp add: cand_ok_def s)
qed

lemma set_insert_cand [simp]: "set (insert_cand c cs) = insert c (set cs)"
  by (induction cs) auto

lemma set_SliceStable [simp]: "set (SliceStable cs) = set cs"
  by (induction cs) (auto simp: SliceStable_def)

subsection \<open>Draws that are not in use\<close>

definition token_suffix :: "string \<Rightarrow> string" where
  "token_suffix t = take 6 (drop (length t - 8) t)"

text \<open>The next \<open>n\<close> random suffixes differ from each other and from those of the placeholders in use.\<close>

definition draws_unused :: "(nat \<Rightarrow> string) \<Rightarrow> nat \<Rightarrow> nat \<Rightarrow> Mapping \<Rightarrow> bool" where
  "draws_unused rnd d n m \<longleftrightarrow> inj_on rnd {d ..< d + n} \<and>
     (\<forall>t i. t \<in> mkeys (mp_reverse m) \<and> d \<le> i \<and> i < d + n \<longrightarrow> token_suffix t \<noteq> rnd i)"

definition mapping_extends :: "Mapping \<Rightarrow> Mapping \<Rightarrow> bool" where
  "mapping_extends m m' \<longleftrightarrow> (\<forall>t x. Lookup m t = Some x \<longrightarrow> Lookup m' t = Some x) \<and>
     (\<forall>x t. map_of (mp_forward m) x = Some t \<longrightarrow> map_of (mp_forward m') x = Some t)"

lemma mapping_extends_refl [simp, intro]: "mapping_extends m m"
  by (simp add: mapping_extends_def)

lemma mapping_extends_trans: "mapping_extends a b \<Longrightarrow> mapping_extends b c \<Longrightarrow> mapping_extends a c"
  by (simp add: mapping_extends_def)

lemma token_suffix_new: "length sfx = 6 \<Longrightarrow> token_suffix (NewToken label sfx) = sfx"
proof -
  assume "length sfx = 6"
  moreover have t: "NewToken label sfx = (''{{'' @ safeLabel label @ ''_'') @ sfx @ ''}}''" by (simp add: NewToken_def)
  ultimately have "length (NewToken label sfx) - 8 = length (''{{'' @ safeLabel label @ ''_'')" by simp
  then have "drop (length (NewToken label sfx) - 8) (NewToken label sfx) = sfx @ ''}}''"
    unfolding t by (metis append_eq_conv_conj)
  with \<open>length sfx = 6\<close> show ?thesis by (simp add: token_suffix_def)
qed

lemma draws_unused_mono: "draws_unused rnd d n m \<Longrightarrow> k \<le> n \<Longrightarrow> draws_unused rnd d k m"
  by (auto simp: draws_unused_def intro: inj_on_subset)

lemma new_token_unused:
  assumes "draws_ok rnd" and "draws_unused rnd d (Suc n) m"
  shows "NewToken label (rnd d) \<notin> mkeys (mp_reverse m)"
proof
  assume "NewToken label (rnd d) \<in> mkeys (mp_reverse m)"
  moreover have "token_suffix (NewToken label (rnd d)) = rnd d"
    using assms(1) by (intro token_suffix_new) (simp add: draws_ok_def suffix_ok_def)
  ultimately show False using assms(2) unfolding draws_unused_def by (metis add_Suc_right le_add1 le_refl less_Suc_eq_le)
qed

lemma recall_unused:
  assumes "mapping_ok m" and "draws_ok rnd" and "\<not> IsPlaceholder original" and "draws_unused rnd d (Suc n) m"
    and "Recall rnd original label (m, d) = (tok, (m', d'), bound)"
  shows "mapping_ok m' \<and> map_of (mp_forward m') original = Some tok \<and> mapping_extends m m' \<and> draws_unused rnd d' n m'"
proof -
  note new = new_token_unused [OF assms(2,4), of label]
  then have "\<exists>i < 20. NewToken label (rnd (d + i)) \<notin> mkeys (mp_reverse m)" by (metis add_0_right zero_less_numeral)
  then have "fresh_draw rnd label m d" by (simp only: fresh_draw_def)
  from recall_spec [OF assms(1-3) this assms(5)]
  have s: "mapping_ok m'" "map_of (mp_forward m') original = Some tok" "mapping_extends m m'"
    by (auto simp: mapping_extends_def)
  moreover have "draws_unused rnd d' n m'"
  proof (cases "map_of (mp_forward m) original")
    case (Some t)
    then have "m' = m \<and> d' = d" using assms(3,5) by (simp add: Recall_def Let_def unwrap_plain)
    then show ?thesis using draws_unused_mono [OF assms(4)] by simp
  next
    case None
    have "draw_token 20 rnd label (map fst (mp_reverse m)) d [] = (NewToken label (rnd d), Suc d)"
      using new by (simp add: numeral_eq_Suc Let_def)
    then have r: "d' = Suc d" "m' = bind_token original (NewToken label (rnd d)) m"
      using assms(3,5) None by (auto simp: Recall_def Let_def unwrap_plain)
    have key: "t \<in> mkeys (mp_reverse m) \<or> token_suffix t = rnd d" if "t \<in> mkeys (mp_reverse m')" for t
    proof -
      have "mhas (mput (NewToken label (rnd d)) original (mp_reverse m)) t"
        using that unfolding r(2) bind_token_def mhas_keys by simp
      then have "t = NewToken label (rnd d) \<or> t \<in> mkeys (mp_reverse m)" using mhas_mput mhas_keys by metis
      then show ?thesis using assms(2) token_suffix_new [of "rnd d" label] by (auto simp: draws_ok_def suffix_ok_def)
    qed
    have inj: "inj_on rnd {d ..< d + Suc n}" using assms(4) by (simp add: draws_unused_def)
    have "token_suffix t \<noteq> rnd i" if "t \<in> mkeys (mp_reverse m')" "Suc d \<le> i" "i < Suc d + n" for t i
      using key [OF that(1)]
    proof
      assume "t \<in> mkeys (mp_reverse m)"
      then show ?thesis using assms(4) that(2,3) by (simp add: draws_unused_def)
    next
      assume "token_suffix t = rnd d"
      moreover have "rnd d \<noteq> rnd i" using inj_onD [OF inj, of d i] that(2,3) by auto
      ultimately show ?thesis by simp
    qed
    moreover have "inj_on rnd {Suc d ..< Suc d + n}" using inj by (rule inj_on_subset) auto
    ultimately show ?thesis by (auto simp: draws_unused_def r(1))
  qed
  ultimately show ?thesis by blast
qed

subsection \<open>The replacement loop\<close>

definition mapping_at :: "nat \<Rightarrow> mask_state \<Rightarrow> Mapping" where
  "mapping_at p st = st_heap (ms_store st) ! p"

definition mask_ready :: "(nat \<Rightarrow> string) \<Rightarrow> nat \<Rightarrow> nat \<Rightarrow> mask_state \<Rightarrow> bool" where
  "mask_ready rnd p n st \<longleftrightarrow> p < length (st_heap (ms_store st)) \<and> mapping_ok (mapping_at p st) \<and> draws_ok rnd \<and>
     draws_unused rnd (ms_draws st) n (mapping_at p st)"

lemma publish_heap [simp]: "st_heap (publishSession key m now st) = st_heap st"
  by (simp add: publishSession_def Let_def)

lemma mask_one_spec:
  assumes "mask_ready rnd p (Suc n) st" and "\<not> IsPlaceholder (c_orig c)" and "mask_one rnd p now c st = (ph, st1)"
  shows "mask_ready rnd p n st1 \<and> map_of (mp_forward (mapping_at p st1)) (c_orig c) = Some ph \<and>
    mapping_extends (mapping_at p st) (mapping_at p st1)"
proof -
  obtain tok m' d' bound where r: "Recall rnd (c_orig c) (ru_Label (c_rule c)) (mapping_at p st, ms_draws st) = (tok, (m', d'), bound)"
    by (metis prod.collapse)
  have p: "p < length (st_heap (ms_store st))" using assms(1) by (simp add: mask_ready_def)
  have e: "ph = tok" "mapping_at p st1 = m'" "ms_draws st1 = d'" "p < length (st_heap (ms_store st1))"
    using assms(3) r p
    by (auto simp: mask_one_def recall_in_def mapping_at_def Let_def split: option.splits if_splits)
  from recall_unused [OF _ _ assms(2) _ r, of n] assms(1)
  have "mapping_ok m' \<and> map_of (mp_forward m') (c_orig c) = Some tok \<and> mapping_extends (mapping_at p st) m' \<and>
      draws_unused rnd d' n m'" by (simp add: mask_ready_def)
  with e(4) assms(1) show ?thesis unfolding e(1) mask_ready_def e(2,3) by blast
qed

text \<open>The candidates the loop does not skip, and the text with them replaced.\<close>

fun picked :: "int \<Rightarrow> cand list \<Rightarrow> cand list" where
  "picked lastEnd [] = []"
| "picked lastEnd (c # cs) =
    (if c_origStart c < lastEnd then picked lastEnd cs else c # picked (c_origEnd c) cs)"

fun splice_text :: "string \<Rightarrow> (cand \<Rightarrow> string) \<Rightarrow> int \<Rightarrow> cand list \<Rightarrow> string" where
  "splice_text text tok prev [] = drop (nat prev) text"
| "splice_text text tok prev (c # cs) = slice text (nat prev) (nat (c_origStart c)) @ tok c @ splice_text text tok (c_origEnd c) cs"

fun chained :: "int \<Rightarrow> cand list \<Rightarrow> bool" where
  "chained prev [] = True"
| "chained prev (c # cs) = (prev \<le> c_origStart c \<and> chained (c_origEnd c) cs)"

definition issued :: "Mapping \<Rightarrow> cand \<Rightarrow> string" where
  "issued m c = (case map_of (mp_forward m) (c_orig c) of Some t \<Rightarrow> t | None \<Rightarrow> [])"

lemma picked_subset: "set (picked e cs) \<subseteq> set cs"
  by (induction e cs rule: picked.induct) auto

lemma picked_chained:
  "(\<And>c. c \<in> set cs \<Longrightarrow> 0 \<le> c_origStart c \<and> c_origStart c < c_origEnd c) \<Longrightarrow> chained (max 0 e) (picked e cs)"
proof (induction e cs rule: picked.induct)
  case (2 e c cs)
  have "0 \<le> c_origStart c" "c_origStart c < c_origEnd c" using "2.prems" by simp_all
  moreover from this have "max 0 (c_origEnd c) = c_origEnd c" by simp
  ultimately show ?case using 2 by (cases "c_origStart c < e") auto
qed simp

lemma mask_loop_spec:
  assumes "\<And>c. c \<in> set cs \<Longrightarrow> cand_ok text c" and "prev = max 0 lastEnd"
    and "mask_ready rnd p (spare + (length text - nat prev)) st" and "mask_loop rnd p now text cs prev lastEnd st = (out, st')"
  shows "mask_ready rnd p spare st' \<and> mapping_extends (mapping_at p st) (mapping_at p st') \<and>
    out = splice_text text (issued (mapping_at p st')) prev (picked lastEnd cs) \<and>
    (\<forall>c \<in> set (picked lastEnd cs). map_of (mp_forward (mapping_at p st')) (c_orig c) \<noteq> None)"
  using assms
proof (induction cs arbitrary: prev lastEnd st out)
  case Nil
  then show ?case using draws_unused_mono by (auto simp: mask_ready_def)
next
  case (Cons c cs)
  show ?case
  proof (cases "c_origStart c < lastEnd")
    case True
    with Cons show ?thesis by simp
  next
    case False
    have ok: "cand_ok text c" using Cons.prems(1) by simp
    obtain ph st1 where one: "mask_one rnd p now c st = (ph, st1)" by fastforce
    obtain out1 where rest: "mask_loop rnd p now text cs (c_origEnd c) (c_origEnd c) st1 = (out1, st')"
      and out: "out = slice text (nat prev) (nat (c_origStart c)) @ ph @ out1"
      using Cons.prems(4) False one by (auto split: prod.splits)
    define n where "n = spare + (length text - nat (c_origEnd c))"
    have "Suc n \<le> spare + (length text - nat prev)"
      using ok False Cons.prems(2) unfolding n_def cand_ok_def by linarith
    then have "mask_ready rnd p (Suc n) st" using Cons.prems(3) draws_unused_mono by (auto simp: mask_ready_def)
    from mask_one_spec [OF this _ one] ok
    have s: "mask_ready rnd p n st1" "map_of (mp_forward (mapping_at p st1)) (c_orig c) = Some ph"
      "mapping_extends (mapping_at p st) (mapping_at p st1)" by (auto simp: cand_ok_def)
    have "c_origEnd c = max 0 (c_origEnd c)" using ok by (auto simp: cand_ok_def)
    from Cons.IH [OF Cons.prems(1) this _ rest] s(1)
    have r: "mask_ready rnd p spare st'" "mapping_extends (mapping_at p st1) (mapping_at p st')"
      "out1 = splice_text text (issued (mapping_at p st')) (c_origEnd c) (picked (c_origEnd c) cs)"
      "\<forall>c \<in> set (picked (c_origEnd c) cs). map_of (mp_forward (mapping_at p st')) (c_orig c) \<noteq> None"
      by (simp_all add: n_def)
    have "map_of (mp_forward (mapping_at p st')) (c_orig c) = Some ph"
      using r(2) s(2) by (simp add: mapping_extends_def)
    moreover from this have "issued (mapping_at p st') c = ph" by (simp add: issued_def)
    ultimately show ?thesis using r False out mapping_extends_trans [OF s(3) r(2)] by simp
  qed
qed

lemma restore_splice:
  assumes "\<And>c. c \<in> set cs \<Longrightarrow> cand_ok text c \<and> token_shape (tok c) \<and> look (tok c) = Some (c_orig c)"
    and "chained prev cs" and "0 \<le> prev" and "reached text (nat prev)"
  shows "restore look (splice_text text tok prev cs) = restore look (drop (nat prev) text)"
  using assms
proof (induction cs arbitrary: prev)
  case (Cons c cs)
  let ?a = "nat (c_origStart c)" and ?b = "nat (c_origEnd c)" and ?p = "nat prev"
  have c: "cand_ok text c" "token_shape (tok c)" "look (tok c) = Some (c_orig c)" using Cons.prems(1) by auto
  then have r: "reached text ?a" "reached text ?b" and ord: "?p \<le> ?a" "?a \<le> ?b" and orig: "c_orig c = slice text ?a ?b"
    and plain: "\<not> IsPlaceholder (c_orig c)" and "0 \<le> c_origEnd c"
    using Cons.prems(2) by (auto simp: cand_ok_def)
  have IH: "restore look (splice_text text tok (c_origEnd c) cs) = restore look (drop ?b text)"
    using Cons.IH [of "c_origEnd c"] Cons.prems(1,2) \<open>0 \<le> c_origEnd c\<close> r(2) by simp
  have "restore look (drop ?p text) = restore look (slice text ?p ?a) @ restore look (drop ?a text)"
    using reached_split [OF reached_drop [OF Cons.prems(4) r(1) ord(1)]] ord(1) by (simp add: slice_def)
  moreover have "restore look (drop ?a text) = c_orig c @ restore look (drop ?b text)"
    using reached_split [OF reached_drop [OF r ord(2)]] ord(2) restore_plain [OF plain] by (simp add: slice_def orig)
  ultimately show ?case using IH c(2,3) by (simp add: restore_around_token replacement_def)
qed simp

lemma insert_cand_sorted:
  "sorted_wrt (\<lambda>a b. c_origStart a \<le> c_origStart b) cs \<Longrightarrow> sorted_wrt (\<lambda>a b. c_origStart a \<le> c_origStart b) (insert_cand c cs)"
proof (induction cs)
  case (Cons d ds)
  have "cand_less d c \<Longrightarrow> c_origStart d \<le> c_origStart c" "\<not> cand_less d c \<Longrightarrow> c_origStart c \<le> c_origStart d"
    by (auto simp: cand_less_def split: if_splits)
  with Cons show ?case by (auto intro: order_trans)
qed simp

lemma SliceStable_sorted: "sorted_wrt (\<lambda>a b. c_origStart a \<le> c_origStart b) (SliceStable cs)"
  by (induction cs) (auto simp: SliceStable_def insert_cand_sorted)

lemma picked_covers:
  assumes "sorted_wrt (\<lambda>a b. c_origStart a \<le> c_origStart b) cs" and "\<And>c. c \<in> set cs \<Longrightarrow> c_origStart c < c_origEnd c"
    and "c \<in> set cs"
  shows "c_origStart c < e \<or> (\<exists>a \<in> set (picked e cs). c_origStart a \<le> c_origStart c \<and> c_origStart c < c_origEnd a)"
  using assms
proof (induction e cs rule: picked.induct)
  case (2 e x cs)
  show ?case
  proof (cases "c_origStart x < e")
    case True
    with 2 show ?thesis by (cases "c = x") auto
  next
    case False
    show ?thesis
    proof (cases "c = x \<or> c_origStart c < c_origEnd x")
      case True
      with "2.prems" have "c_origStart x \<le> c_origStart c" "c_origStart c < c_origEnd x" by auto
      with False show ?thesis by auto
    next
      case c: False
      with "2.IH"(2) [OF False] "2.prems" False show ?thesis by auto
    qed
  qed
qed simp

lemma mask_spec:
  assumes "\<forall>r \<in> set rules. rule_ok r" and "mask_ready rnd p (spare + length text) st"
    and "maskCandidates rnd yr p now text rules st = (out, st')"
  defines "m' \<equiv> mapping_at p st'" and "cs \<equiv> collect_cands yr text rules"
  defines "ps \<equiv> picked (-1) (SliceStable cs)"
  shows "out = splice_text text (issued m') 0 ps" and "mapping_ok m'" and "mapping_extends (mapping_at p st) m'"
    and "\<And>c. c \<in> set ps \<Longrightarrow> cand_ok text c \<and> map_of (mp_forward m') (c_orig c) \<noteq> None"
    and "chained 0 ps"
    and "\<And>c. c \<in> set cs \<Longrightarrow> \<exists>a \<in> set ps. c_origStart a \<le> c_origStart c \<and> c_origStart c < c_origEnd a"
    and "mask_ready rnd p spare st'"
proof -
  have ok: "cand_ok text c" if "c \<in> set (SliceStable cs)" for c
    using that collect_cands_ok [OF bspec [OF assms(1)]] by (simp add: cs_def)
  have bounds: "0 \<le> c_origStart c \<and> c_origStart c < c_origEnd c" if "c \<in> set (SliceStable cs)" for c
    using ok [OF that] by (simp add: cand_ok_def)
  have main: "mask_ready rnd p spare st' \<and> mapping_extends (mapping_at p st) m' \<and> out = splice_text text (issued m') 0 ps \<and>
      (\<forall>c \<in> set ps. map_of (mp_forward m') (c_orig c) \<noteq> None)"
  proof (cases "cs = []")
    case True
    then have "out = text \<and> st' = st" using assms(3) by (auto simp: maskCandidates_def cs_def Let_def split: if_splits)
    moreover have "mask_ready rnd p spare st" using assms(2) draws_unused_mono by (auto simp: mask_ready_def)
    ultimately show ?thesis using True by (simp add: ps_def m'_def SliceStable_def)
  next
    case False
    then obtain c where "c \<in> set cs" by (cases cs) auto
    then have "cand_ok text c" using ok by simp
    then have "text \<noteq> []" by (auto simp: cand_ok_def)
    moreover have "rules \<noteq> []" using False by (auto simp: cs_def collect_cands_def)
    ultimately have "mask_loop rnd p now text (SliceStable cs) 0 (-1) st = (out, st')"
      using assms(3) False by (simp add: maskCandidates_def cs_def Let_def)
    from mask_loop_spec [OF ok _ _ this, of spare] assms(2) show ?thesis by (simp add: m'_def ps_def)
  qed
  then show "mask_ready rnd p spare st'" by blast
  from main show "out = splice_text text (issued m') 0 ps" "mapping_ok m'" "mapping_extends (mapping_at p st) m'"
    by (auto simp: mask_ready_def m'_def)
  show "cand_ok text c \<and> map_of (mp_forward m') (c_orig c) \<noteq> None" if "c \<in> set ps" for c
    using that main ok picked_subset [of "-1" "SliceStable cs"] unfolding ps_def by blast
  show "chained 0 ps" using picked_chained [of "SliceStable cs" "-1"] bounds by (simp add: ps_def)
  show "\<exists>a \<in> set ps. c_origStart a \<le> c_origStart c \<and> c_origStart c < c_origEnd a" if "c \<in> set cs" for c
    using picked_covers [OF SliceStable_sorted, of cs c "-1"] bounds [of c] bounds that unfolding ps_def by force
qed

text \<open>Restoring with the mapping the loop leaves behind, or with any later one.\<close>

lemma mask_restores_later:
  assumes "\<forall>r \<in> set rules. rule_ok r" and "mask_ready rnd p (spare + length text) st"
    and "maskCandidates rnd yr p now text rules st = (out, st')" and "mapping_extends (mapping_at p st') m"
  shows "restore (Lookup m) out = restore (Lookup m) text"
proof -
  let ?m = "mapping_at p st'" and ?ps = "picked (-1) (SliceStable (collect_cands yr text rules))"
  note s = mask_spec [OF assms(1-3)]
  have tok: "cand_ok text c \<and> token_shape (issued ?m c) \<and> Lookup m (issued ?m c) = Some (c_orig c)" if "c \<in> set ?ps" for c
    using s(4) [OF that] s(2) assms(4) by (auto simp: issued_def mapping_ok_def Lookup_def mapping_extends_def)
  show ?thesis using restore_splice [OF tok s(5)] by (simp add: s(1))
qed


definition demo_rnd :: "nat \<Rightarrow> string" where
  "demo_rnd d = consonants ! (d mod 20) # ''bcdfg''"

definition demo_term :: "string \<Rightarrow> Rule" where
  "demo_term val = \<lparr>ru_Label = ''TERM'', ru_Pattern = compileCustomTerm val, ru_Group = 0\<rparr>"

definition demo_mask_state :: mask_state where
  "demo_mask_state = \<lparr>ms_store = NewSessionStore\<lparr>st_heap := [newMapping]\<rparr>, ms_draws = 0, ms_matches = [], ms_seen = []\<rparr>"

lemma demo_rnd_ok: "draws_ok demo_rnd" "inj_on demo_rnd {0 ..< 20}"
proof -
  have "distinct consonants" "length consonants = 20" by (simp_all add: consonants_def)
  then show "inj_on demo_rnd {0 ..< 20}" by (auto simp: inj_on_def demo_rnd_def nth_eq_iff_index_eq)
  have "is_consonant (consonants ! (d mod 20))" for d
    using \<open>length consonants = 20\<close> nth_mem [of "d mod 20" consonants] by (simp add: is_consonant_def)
  moreover have "list_all is_consonant ''bcdfg''" by (simp add: is_consonant_def consonants_def)
  ultimately show "draws_ok demo_rnd" by (simp add: draws_ok_def suffix_ok_def demo_rnd_def)
qed

lemma demo_mask_ready: "n \<le> 20 \<Longrightarrow> mask_ready demo_rnd 0 n demo_mask_state"
  using demo_rnd_ok
  by (auto simp: mask_ready_def demo_mask_state_def mapping_at_def draws_unused_def newMapping_def [symmetric] intro: inj_on_subset)
    (simp add: newMapping_def)


text \<open>
  C22. What masking replaces (\<^verbatim>\<open>maskCandidates\<close>). The masked text is the text with a list of stretches
  replaced, each by the placeholder the mapping holds for it; the stretches are in order and do not
  overlap, none cuts a placeholder, and every match that passed its validator begins inside one of
  them.
\<close>

theorem mask_covers_matches:
  assumes "\<forall>r \<in> set rules. rule_ok r" and "mask_ready rnd p (length text) st"
    and "maskCandidates rnd yr p now text rules st = (out, st')"
  shows "\<exists>ps. out = splice_text text (issued (mapping_at p st')) 0 ps \<and> chained 0 ps \<and>
    (\<forall>a \<in> set ps. a \<in> set (collect_cands yr text rules) \<and> token_shape (issued (mapping_at p st') a) \<and>
       slice text (nat (c_origStart a)) (nat (c_origEnd a)) = c_orig a \<and>
       reached text (nat (c_origStart a)) \<and> reached text (nat (c_origEnd a))) \<and>
    (\<forall>c \<in> set (collect_cands yr text rules). \<exists>a \<in> set ps. c_origStart a \<le> c_origStart c \<and> c_origStart c < c_origEnd a)"
proof -
  let ?m = "mapping_at p st'" and ?ps = "picked (-1) (SliceStable (collect_cands yr text rules))"
  have "mask_ready rnd p (0 + length text) st" using assms(2) by simp
  note s = mask_spec [OF assms(1) this assms(3)]
  have "a \<in> set (collect_cands yr text rules) \<and> token_shape (issued ?m a) \<and>
      slice text (nat (c_origStart a)) (nat (c_origEnd a)) = c_orig a \<and>
      reached text (nat (c_origStart a)) \<and> reached text (nat (c_origEnd a))" if "a \<in> set ?ps" for a
    using s(4) [OF that] s(2) that picked_subset [of "-1" "SliceStable (collect_cands yr text rules)"]
    by (auto simp: issued_def mapping_ok_def cand_ok_def)
  with s(1,5,6) show ?thesis by (intro exI [of _ ?ps]) blast
qed

theorem mask_covers_matches_witness:
  "\<exists>ps. fst (maskCandidates demo_rnd 2025 0 7 ''to: alice'' [demo_term ''alice''] demo_mask_state) =
      splice_text ''to: alice'' (issued (mapping_at 0 (snd (maskCandidates demo_rnd 2025 0 7 ''to: alice''
        [demo_term ''alice''] demo_mask_state)))) 0 ps \<and> ps \<noteq> []"
proof -
  have "\<forall>r \<in> set [demo_term ''alice'']. rule_ok r" by (simp add: demo_term_def term_rule_ok)
  moreover have "mask_ready demo_rnd 0 (length ''to: alice'') demo_mask_state" by (intro demo_mask_ready) simp
  moreover have "map c_orig (collect_cands 2025 ''to: alice'' [demo_term ''alice'']) = [''alice'']" by code_simp
  then have "collect_cands 2025 ''to: alice'' [demo_term ''alice''] \<noteq> []" by auto
  then obtain c where "c \<in> set (collect_cands 2025 ''to: alice'' [demo_term ''alice''])" by (meson last_in_set)
  ultimately show ?thesis using mask_covers_matches [OF _ _ prod.collapse [symmetric]] by fastforce
qed

text \<open>
  An example of the limit of that theorem: of two terms that overlap, the one that starts later is
  dropped, and the part of it behind the first one stays readable.
\<close>

lemma overlap_tail_exposed:
  "map c_orig (collect_cands 2025 ''ab cd ef'' [demo_term ''ab cd'', demo_term ''cd ef'']) = [''ab cd'', ''cd ef''] \<and>
   fst (maskCandidates demo_rnd 2025 0 7 ''ab cd ef'' [demo_term ''ab cd'', demo_term ''cd ef''] demo_mask_state)
     = ''{{TERM_bbcdfg}} ef''"
  by (intro conjI) code_simp+

end
