(* ===== verification/Mask_Stream.thy ===== *)
theory Mask_Stream
  imports Mask_Engine
begin

text \<open>
  \<^verbatim>\<open>internal/relay/mask/stream_restore.go\<close>: restoring a stream that arrives in chunks, with one buffer per
  channel for a placeholder cut by a chunk boundary. The theorems: the pieces handed out together are
  the restored text, however it was cut, except at one kind of boundary, for which an example shows
  that a placeholder is missed.
\<close>

definition pendingMax :: nat where
  "pendingMax = 64"

record StreamRestorer =
  rs_mapping :: "Mapping option"
  rs_pending :: "(string, string) gomap"

definition NewStreamRestorer :: "Mapping option \<Rightarrow> StreamRestorer" where
  "NewStreamRestorer mapping = \<lparr>rs_mapping = mapping, rs_pending = []\<rparr>"

definition DefaultChannel :: string where
  "DefaultChannel = ''default''"

text \<open>\<^verbatim>\<open>bytes.LastIndex\<close> of the opening braces.\<close>

definition last_open :: "string \<Rightarrow> nat option" where
  "last_open buf = find (\<lambda>i. take 2 (drop i buf) = ''{{'') (rev [0..<length buf])"

definition restoreComplete :: "Mapping option \<Rightarrow> string \<Rightarrow> string" where
  "restoreComplete mapping buf =
    (case mapping of None \<Rightarrow> buf | Some m \<Rightarrow> if buf = [] then buf else restore (Lookup m) buf)"

text \<open>The second result is the pending text, \<open>None\<close> for nil.\<close>

definition scanAndRestore :: "Mapping option \<Rightarrow> string \<Rightarrow> string \<times> string option" where
  "scanAndRestore mapping buf =
    (case last_open buf of
       None \<Rightarrow>
         if buf \<noteq> [] \<and> last buf = CHR ''{'' then (restoreComplete mapping (butlast buf), Some [last buf])
         else (restoreComplete mapping buf, None)
     | Some idx \<Rightarrow>
         if contains (drop idx buf) ''}}'' then (restoreComplete mapping buf, None)
         else (restoreComplete mapping (take idx buf), Some (drop idx buf)))"

definition pending_of :: "StreamRestorer \<Rightarrow> string \<Rightarrow> string" where
  "pending_of r channel = (case map_of (rs_pending r) channel of None \<Rightarrow> [] | Some b \<Rightarrow> b)"

definition PushChannel :: "string \<Rightarrow> string \<Rightarrow> StreamRestorer \<Rightarrow> string \<times> StreamRestorer" where
  "PushChannel channel chunk r =
    (let buf = pending_of r channel @ chunk in
     case scanAndRestore (rs_mapping r) buf of
       (out, None) \<Rightarrow> (out, r\<lparr>rs_pending := mdel channel (rs_pending r)\<rparr>)
     | (out, Some remain) \<Rightarrow>
         if pendingMax < length remain then (out @ remain, r\<lparr>rs_pending := mdel channel (rs_pending r)\<rparr>)
         else (out, r\<lparr>rs_pending := mput channel remain (rs_pending r)\<rparr>))"

definition Push :: "string \<Rightarrow> StreamRestorer \<Rightarrow> string \<times> StreamRestorer" where
  "Push chunk r = PushChannel DefaultChannel chunk r"

definition FlushChannel :: "string \<Rightarrow> StreamRestorer \<Rightarrow> string \<times> StreamRestorer" where
  "FlushChannel channel r = (pending_of r channel, r\<lparr>rs_pending := mdel channel (rs_pending r)\<rparr>)"

definition Flush :: "StreamRestorer \<Rightarrow> string \<times> StreamRestorer" where
  "Flush r = FlushChannel DefaultChannel r"

definition PendingChannels :: "StreamRestorer \<Rightarrow> string list" where
  "PendingChannels r = map fst (rs_pending r)"

definition FlushChannels :: "StreamRestorer \<Rightarrow> (string, string) gomap \<times> StreamRestorer" where
  "FlushChannels r = (rs_pending r, r\<lparr>rs_pending := []\<rparr>)"

subsection \<open>Where a stream may be cut\<close>

definition lookup_of :: "Mapping option \<Rightarrow> string \<Rightarrow> string option" where
  "lookup_of mapping = (case mapping of None \<Rightarrow> (\<lambda>_. None) | Some m \<Rightarrow> Lookup m)"

lemma restore_nothing: "restore (\<lambda>_. None) s = s"
proof (induction s rule: length_induct)
  case (1 s)
  show ?case
  proof (cases "s = []")
    case False
    show ?thesis
    proof (cases "ph_at s")
      case None
      have "length (tl s) < length s" using False by simp
      with 1 False None show ?thesis by (simp add: restore_unfold)
    next
      case (Some n)
      have "length (drop n s) < length s" using False ph_at_shape [OF Some] token_length [of "take n s"] by auto
      with 1 have "restore (\<lambda>_. None) (drop n s) = drop n s" by blast
      with False Some show ?thesis by (simp add: restore_unfold replacement_def)
    qed
  qed simp
qed

lemma restoreComplete_restore: "restoreComplete mapping buf = restore (lookup_of mapping) buf"
  by (simp add: restoreComplete_def lookup_of_def restore_nothing split: option.split)

text \<open>A text after which a cut loses nothing: none of its suffixes can begin a placeholder.\<close>

definition clean_cut :: "string \<Rightarrow> string \<Rightarrow> bool" where
  "clean_cut x y \<longleftrightarrow> (\<forall>v u. x = v @ u \<and> u \<noteq> [] \<longrightarrow> ph_at (u @ y) = ph_at u)"

lemma restore_cut:
  assumes "clean_cut x y"
  shows "restore look (x @ y) = restore look x @ restore look y"
  using assms
proof (induction x rule: length_induct)
  case (1 x)
  show ?case
  proof (cases "x = []")
    case False
    have e: "ph_at (x @ y) = ph_at x" using "1.prems" False unfolding clean_cut_def by (metis append_Nil)
    have sub: "clean_cut (drop k x) y" for k
      using "1.prems" unfolding clean_cut_def by (metis append_assoc append_take_drop_id)
    show ?thesis
    proof (cases "ph_at x")
      case None
      then show ?thesis using e "1.IH" sub [of 1] False by (simp add: restore_unfold drop_Suc)
    next
      case (Some n)
      note s = ph_at_shape [OF Some]
      then have "length (drop n x) < length x" using token_length [of "take n x"] by auto
      with "1.IH" sub have IH: "restore look (drop n x @ y) = restore look (drop n x) @ restore look y" by blast
      have "x @ y = take n x @ (drop n x @ y)" by simp
      then have "restore look (x @ y) = replacement look (take n x) @ restore look (drop n x @ y)"
        using restore_token s by metis
      moreover have "restore look x = replacement look (take n x) @ restore look (drop n x)"
        using restore_token [of "take n x" look "drop n x"] s by simp
      ultimately show ?thesis using IH by simp
    qed
  qed simp
qed

lemma token_closes:
  assumes "token_shape t"
  obtains u where "t = u @ ''}}''" "CHR ''}'' \<notin> set u"
proof -
  from assms obtain l sfx where t: "list_all is_label_char l" "suffix_ok sfx" "t = ''{{'' @ l @ ''_'' @ sfx @ ''}}''"
    by (auto simp: token_shape_def)
  have "\<not> is_label_char (CHR ''}'')" "\<not> is_consonant (CHR ''}'')"
    by (simp_all add: is_label_char_def between_def byte_def is_consonant_def consonants_def)
  then have "CHR ''}'' \<notin> set (''{{'' @ l @ ''_'' @ sfx)" using t(1,2) by (auto simp: list_all_iff suffix_ok_def)
  then show ?thesis using that [of "''{{'' @ l @ ''_'' @ sfx"] t(3) by simp
qed

lemma token_prefix_open:
  assumes "token_shape t" and "k < length t"
  shows "\<not> contains (take k t) ''}}''"
proof
  assume "contains (take k t) ''}}''"
  then obtain pre post where p: "take k t = pre @ ''}}'' @ post" by (auto simp: contains_iff)
  obtain u where u: "t = u @ ''}}''" "CHR ''}'' \<notin> set u" by (rule token_closes [OF assms(1)])
  have "length (take k t) < length t" using assms(2) by simp
  then have "length pre + 2 < length t" unfolding p by simp
  then have "length pre < length u" unfolding u(1) by simp
  moreover have "t ! length pre = CHR ''}''"
    using p \<open>length pre + 2 < length t\<close> by (metis append_take_drop_id append_assoc append_Cons nth_append_length)
  ultimately have "u ! length pre = CHR ''}''" using u(1) by (simp add: nth_append)
  with u(2) \<open>length pre < length u\<close> show False using nth_mem by metis
qed

lemma open_prefix:
  assumes "ph_at (u @ y) \<noteq> ph_at u" and "u \<noteq> []"
  shows "u = ''{'' \<or> (\<exists>w. u = ''{{'' @ w \<and> CHR ''{'' \<notin> set w \<and> \<not> contains u ''}}'' \<and> length u \<le> 22)"
proof -
  have "ph_at u = None" using assms(1) ph_at_append [of u _ y] by (cases "ph_at u") auto
  with assms(1) obtain n where n: "ph_at (u @ y) = Some n" by (cases "ph_at (u @ y)") auto
  have "length u < n" using ph_at_prefix [OF n] \<open>ph_at u = None\<close> by (cases "n \<le> length u") auto
  define t where "t = take n (u @ y)"
  have t: "token_shape t" "length t = n" using ph_at_shape [OF n] by (auto simp: t_def)
  have u: "u = take (length u) t" using \<open>length u < n\<close> by (simp add: t_def)
  show ?thesis
  proof (cases "length u = 1")
    case True
    then have "u = take 1 (take 2 t)" using u by simp
    then show ?thesis by (simp add: token_inner(1) [OF t(1)])
  next
    case False
    then have "2 \<le> length u" using assms(2) by (cases u) (auto simp: Suc_le_eq)
    then have "take 2 u = ''{{''" using u token_inner(1) [OF t(1)] by (metis min.absorb1 take_take)
    then have e: "u = ''{{'' @ drop 2 u" by (metis append_take_drop_id)
    have "set (drop 2 u) \<subseteq> set (drop 2 t)" using u by (metis drop_take set_take_subset)
    then have "CHR ''{'' \<notin> set (drop 2 u)" using token_inner(2) [OF t(1)] by blast
    moreover have "\<not> contains u ''}}''" using token_prefix_open [OF t(1), of "length u"] u t(2) \<open>length u < n\<close> by simp
    moreover have "length u \<le> 22" using token_length [OF t(1)] t(2) \<open>length u < n\<close> by simp
    ultimately show ?thesis using e by blast
  qed
qed

text \<open>The last opening braces.\<close>

lemma find_rev_last:
  "find P (rev [0..<n]) = Some i \<Longrightarrow> P i \<and> i < n \<and> (\<forall>j. i < j \<and> j < n \<longrightarrow> \<not> P j)"
proof (induction n)
  case (Suc n)
  then show ?case by (cases "P n") (auto simp: less_Suc_eq)
qed simp

lemma find_rev_none: "find P (rev [0..<n]) = None \<Longrightarrow> j < n \<Longrightarrow> \<not> P j"
  by (simp add: find_None_iff)

lemma last_open_Some:
  assumes "last_open buf = Some i"
  shows "buf = take i buf @ ''{{'' @ drop (i + 2) buf" and "buf = v @ ''{{'' @ w \<Longrightarrow> length v \<le> i"
proof -
  note s = find_rev_last [OF assms [unfolded last_open_def]]
  then show "buf = take i buf @ ''{{'' @ drop (i + 2) buf" by (metis append_take_drop_id drop_drop add.commute)
  assume "buf = v @ ''{{'' @ w"
  then have "take 2 (drop (length v) buf) = ''{{''" "length v < length buf" by simp_all
  with s show "length v \<le> i" using not_less by blast
qed

lemma last_open_None: "last_open buf = None \<Longrightarrow> buf \<noteq> v @ ''{{'' @ w"
  using find_rev_none [of "\<lambda>i. take 2 (drop i buf) = ''{{''" "length buf" "length v"] by (auto simp: last_open_def)

text \<open>If a suffix of the text begins with the last opening braces it is the rest from there.\<close>

lemma last_open_suffix:
  assumes "last_open buf = Some i" and "buf = v @ u" and "u = ''{{'' @ w" and "CHR ''{'' \<notin> set w"
  shows "u = drop i buf"
proof -
  note o = last_open_Some [OF assms(1)]
  have "length v \<le> i" using o(2) assms(2,3) by simp
  moreover have "\<not> length v < i"
  proof
    assume "length v < i"
    then have d: "drop i buf = drop (i - length v) (''{{'' @ w)" using assms(2,3) by simp
    have "take 2 (drop i buf) = ''{{''" using find_rev_last assms(1) unfolding last_open_def by blast
    then have "drop i buf ! 1 = CHR ''{''" "1 < length (drop i buf)" by (cases "drop i buf" rule: remdups_adj.cases; simp)+
    then have "(''{{'' @ w) ! Suc (i - length v) = CHR ''{''" "Suc (i - length v) < length (''{{'' @ w)"
      unfolding d by (simp_all add: nth_drop)
    then have "w ! (i - length v - 1) = CHR ''{''" "i - length v - 1 < length w"
      using \<open>length v < i\<close> by (auto simp: nth_append nth_Cons' split: if_splits)
    then show False using assms(4) nth_mem by metis
  qed
  ultimately show ?thesis using assms(2) by simp
qed

lemma no_close_plain: "\<not> contains s ''}}'' \<Longrightarrow> \<not> IsPlaceholder s"
proof (induction s)
  case (Cons c s)
  have "ph_at (c # s) = None"
  proof (rule ccontr)
    assume "ph_at (c # s) \<noteq> None"
    then obtain n where n: "ph_at (c # s) = Some n" by auto
    obtain u where "take n (c # s) = u @ ''}}''" using ph_at_shape [OF n] token_closes by metis
    then have "c # s = u @ ''}}'' @ drop n (c # s)" by (metis append_assoc append_take_drop_id)
    then show False using Cons.prems contains_iff by blast
  qed
  moreover have "\<not> contains s ''}}''" using Cons.prems by simp
  ultimately show ?case using Cons.IH by simp
qed simp

lemma clean_cutI:
  assumes "x = [] \<or> last x \<noteq> CHR ''{''"
    and "\<And>v u w. x = v @ u \<Longrightarrow> u = ''{{'' @ w \<Longrightarrow> CHR ''{'' \<notin> set w \<Longrightarrow> \<not> contains u ''}}'' \<Longrightarrow> length u \<le> 22 \<Longrightarrow> False"
  shows "clean_cut x y"
  unfolding clean_cut_def
proof (intro allI impI)
  fix v u assume u: "x = v @ u \<and> u \<noteq> []"
  then have "last u \<noteq> CHR ''{''" using assms(1) by auto
  then have "u \<noteq> ''{''" by auto
  with u open_prefix [of u y] assms(2) show "ph_at (u @ y) = ph_at u" by blast
qed

lemma scan_emits_all:
  assumes "scanAndRestore mapping buf = (out, None)" and "buf = [] \<or> last buf \<noteq> CHR ''{''"
  shows "restore (lookup_of mapping) (buf @ y) = out @ restore (lookup_of mapping) y"
proof -
  have "out = restore (lookup_of mapping) buf"
    using assms(1) by (auto simp: scanAndRestore_def restoreComplete_restore split: option.splits if_splits)
  moreover have "clean_cut buf y"
  proof (rule clean_cutI [OF assms(2)])
    fix v u w assume u: "buf = v @ u" "u = ''{{'' @ w" "CHR ''{'' \<notin> set w" "\<not> contains u ''}}''"
    show False
    proof (cases "last_open buf")
      case None
      then show False using last_open_None u by blast
    next
      case (Some i)
      then have "contains (drop i buf) ''}}''" using assms(1) by (auto simp: scanAndRestore_def split: if_splits)
      then show False using last_open_suffix [OF Some u(1-3)] u(4) by simp
    qed
  qed
  ultimately show ?thesis using restore_cut by blast
qed

lemma scan_holds_back:
  assumes "scanAndRestore mapping buf = (out, Some rem)"
  shows "restore (lookup_of mapping) (buf @ y) = out @ restore (lookup_of mapping) (rem @ y)"
    and "\<not> contains rem ''}}''" and "rem \<noteq> []" and "buf \<noteq> [] \<and> last rem = last buf"
    and "pendingMax < length rem \<Longrightarrow> last buf \<noteq> CHR ''{'' \<Longrightarrow>
      restore (lookup_of mapping) (rem @ y) = rem @ restore (lookup_of mapping) y"
proof -
  let ?look = "lookup_of mapping"
  consider (brace) "last_open buf = None" "buf \<noteq> []" "last buf = CHR ''{''"
      "out = restore ?look (butlast buf)" "rem = ''{''"
    | (cut) i where "last_open buf = Some i" "\<not> contains (drop i buf) ''}}''"
      "out = restore ?look (take i buf)" "rem = drop i buf"
    using assms by (auto simp: scanAndRestore_def restoreComplete_restore split: option.splits if_splits)
  note cases = this
  show "restore ?look (buf @ y) = out @ restore ?look (rem @ y)"
  proof (cases rule: cases)
    case brace
    then have buf: "buf = butlast buf @ ''{''" by (metis append_butlast_last_id)
    have "clean_cut (butlast buf) (''{'' @ y)"
    proof (rule clean_cutI)
      show "butlast buf = [] \<or> last (butlast buf) \<noteq> CHR ''{''"
        using buf last_open_None [OF brace(1), of "butlast (butlast buf)" "[]"]
        by (metis append.assoc append_Cons append_Nil append_butlast_last_id)
      show False if "butlast buf = v @ u" "u = ''{{'' @ w" for v u w
        using that buf last_open_None [OF brace(1), of v "w @ ''{''"] by (metis append.assoc)
    qed
    from restore_cut [OF this, of ?look] brace buf show ?thesis by (metis append.assoc)
  next
    case (cut i)
    note o = last_open_Some(1) [OF cut(1)]
    then have "drop i buf = ''{{'' @ drop (i + 2) buf" by (metis append_take_drop_id same_append_eq)
    then show ?thesis using restore_append_open [of ?look "take i buf" "drop (i + 2) buf @ y"] cut(3,4)
      by (metis append.assoc append_take_drop_id)
  qed
  show "\<not> contains rem ''}}''" by (cases rule: cases) auto
  show ne: "rem \<noteq> []"
  proof (cases rule: cases)
    case (cut i)
    then show ?thesis using last_open_Some(1) [OF cut(1)] by (metis append_Cons append_Nil2 append_take_drop_id append_same_eq list.distinct(1) same_append_eq append_is_Nil_conv)
  qed simp
  show "buf \<noteq> [] \<and> last rem = last buf"
  proof (cases rule: cases)
    case (cut i)
    with ne have "drop i buf \<noteq> []" by simp
    with cut(4) show ?thesis by (auto simp: last_drop)
  qed simp
  show "restore ?look (rem @ y) = rem @ restore ?look y" if long: "pendingMax < length rem" "last buf \<noteq> CHR ''{''"
  proof (cases rule: cases)
    case brace
    then show ?thesis using long by simp
  next
    case (cut i)
    have "clean_cut rem y"
    proof (rule clean_cutI)
      show "rem = [] \<or> last rem \<noteq> CHR ''{''" using long(2) ne cut(4) by (auto simp: last_drop)
      fix v u w assume u: "rem = v @ u" "u = ''{{'' @ w" "CHR ''{'' \<notin> set w" "length u \<le> 22"
      have "buf = (take i buf @ v) @ u" using cut(4) u(1) by simp
      from last_open_suffix [OF cut(1) this u(2,3)] cut(4) u(4) long(1) show False by (simp add: pendingMax_def)
    qed
    moreover have "restore ?look rem = rem" using cut(2,4) no_close_plain restore_plain by simp
    ultimately show ?thesis using restore_cut by metis
  qed
qed

subsection \<open>Runs\<close>

text \<open>A sequence of pushes on several channels, with what each handed out.\<close>

fun run_pushes :: "(string \<times> string) list \<Rightarrow> StreamRestorer \<Rightarrow> (string \<times> string) list \<times> StreamRestorer" where
  "run_pushes [] r = ([], r)"
| "run_pushes ((channel, chunk) # cs) r =
    (case PushChannel channel chunk r of
       (out, r1) \<Rightarrow> (case run_pushes cs r1 of (outs, r2) \<Rightarrow> ((channel, out) # outs, r2)))"

definition on_channel :: "string \<Rightarrow> (string \<times> string) list \<Rightarrow> string" where
  "on_channel channel ps = concat (map snd (filter (\<lambda>p. fst p = channel) ps))"

text \<open>A push that hands out everything it has does not end in an opening brace.\<close>

definition clean_push :: "string \<Rightarrow> string \<Rightarrow> StreamRestorer \<Rightarrow> bool" where
  "clean_push channel chunk r \<longleftrightarrow>
     (let buf = pending_of r channel @ chunk
      in pending_of (snd (PushChannel channel chunk r)) channel \<noteq> [] \<or> buf = [] \<or> last buf \<noteq> CHR ''{'')"

fun clean_pushes :: "string \<Rightarrow> (string \<times> string) list \<Rightarrow> StreamRestorer \<Rightarrow> bool" where
  "clean_pushes channel [] r = True"
| "clean_pushes channel ((ch, chunk) # cs) r =
    ((ch = channel \<longrightarrow> clean_push ch chunk r) \<and> clean_pushes channel cs (snd (PushChannel ch chunk r)))"

definition pending_ok :: "StreamRestorer \<Rightarrow> bool" where
  "pending_ok r \<longleftrightarrow> (\<forall>ch. \<not> contains (pending_of r ch) ''}}'' \<and> length (pending_of r ch) \<le> pendingMax)"

lemma push_cases:
  assumes "PushChannel ch chunk r = (out, r')"
  obtains (all) "scanAndRestore (rs_mapping r) (pending_of r ch @ chunk) = (out, None)"
      "r' = r\<lparr>rs_pending := mdel ch (rs_pending r)\<rparr>"
  | (long) o1 rem where "scanAndRestore (rs_mapping r) (pending_of r ch @ chunk) = (o1, Some rem)"
      "pendingMax < length rem" "out = o1 @ rem" "r' = r\<lparr>rs_pending := mdel ch (rs_pending r)\<rparr>"
  | (hold) rem where "scanAndRestore (rs_mapping r) (pending_of r ch @ chunk) = (out, Some rem)"
      "length rem \<le> pendingMax" "r' = r\<lparr>rs_pending := mput ch rem (rs_pending r)\<rparr>"
  using assms by (auto simp: PushChannel_def Let_def not_less split: prod.splits option.splits if_splits)

lemma pending_of_put [simp]:
  "pending_of (r\<lparr>rs_pending := mput ch rem (rs_pending r)\<rparr>) c = (if c = ch then rem else pending_of r c)"
  "pending_of (r\<lparr>rs_pending := mdel ch (rs_pending r)\<rparr>) c = (if c = ch then [] else pending_of r c)"
  by (simp_all add: pending_of_def)

lemma push_keeps:
  assumes "PushChannel ch chunk r = (out, r')"
  shows "rs_mapping r' = rs_mapping r" and "c \<noteq> ch \<Longrightarrow> pending_of r' c = pending_of r c"
    and "pending_ok r \<Longrightarrow> pending_ok r'"
proof -
  show "rs_mapping r' = rs_mapping r" "c \<noteq> ch \<Longrightarrow> pending_of r' c = pending_of r c"
    using assms by (auto elim: push_cases)
  show "pending_ok r'" if ok: "pending_ok r"
    using assms
  proof (cases rule: push_cases)
    case (hold rem)
    with ok scan_holds_back(2) [OF hold(1)] show ?thesis by (simp add: pending_ok_def)
  qed (use ok in \<open>simp_all add: pending_ok_def\<close>)
qed

lemma push_restores:
  assumes "PushChannel ch chunk r = (out, r')" and "clean_push ch chunk r"
  shows "restore (lookup_of (rs_mapping r)) (pending_of r ch @ chunk @ y) =
    out @ restore (lookup_of (rs_mapping r)) (pending_of r' ch @ y)"
  using assms(1)
proof (cases rule: push_cases)
  case all
  have "pending_of r ch @ chunk = [] \<or> last (pending_of r ch @ chunk) \<noteq> CHR ''{''"
    using assms all(2) by (auto simp: clean_push_def Let_def)
  from scan_emits_all [OF all(1) this, of y] show ?thesis using all(2) by simp
next
  case (long o1 rem)
  have "last (pending_of r ch @ chunk) \<noteq> CHR ''{''"
    using assms long(4) scan_holds_back(4) [OF long(1)] by (auto simp: clean_push_def Let_def)
  from scan_holds_back(5) [OF long(1,2) this, of y] scan_holds_back(1) [OF long(1), of y] long(3,4) show ?thesis by simp
next
  case (hold rem)
  from scan_holds_back(1) [OF hold(1), of y] hold(3) show ?thesis by simp
qed

lemma run_restores:
  assumes "run_pushes cs r = (outs, r')" and "clean_pushes ch cs r" and "pending_ok r"
  shows "restore (lookup_of (rs_mapping r)) (pending_of r ch @ on_channel ch cs @ y) =
      on_channel ch outs @ restore (lookup_of (rs_mapping r)) (pending_of r' ch @ y) \<and> pending_ok r'"
  using assms
proof (induction cs arbitrary: r outs)
  case (Cons p cs)
  obtain c chunk where p: "p = (c, chunk)" by fastforce
  obtain out r1 where push: "PushChannel c chunk r = (out, r1)" by fastforce
  obtain outs1 where rest: "run_pushes cs r1 = (outs1, r')" and outs: "outs = (c, out) # outs1"
    using Cons.prems(1) p push by (auto split: prod.splits)
  have "clean_pushes ch cs r1" using Cons.prems(2) p push by simp
  note IH = Cons.IH [OF rest this push_keeps(3) [OF push Cons.prems(3)]]
  show ?case
  proof (cases "c = ch")
    case True
    then have "clean_push ch chunk r" using Cons.prems(2) p by simp
    from push_restores [OF push [unfolded True] this, of "on_channel ch cs @ y"] IH push_keeps(1) [OF push] True outs p
    show ?thesis by (simp add: on_channel_def)
  next
    case False
    then show ?thesis using IH push_keeps(1,2) [OF push] outs p by (simp add: on_channel_def)
  qed
qed (simp add: on_channel_def)

text \<open>
  C25. Restoring a stream (\<^verbatim>\<open>StreamRestorer\<close>). However a text is cut into chunks and however the chunks of
  several channels interleave, what the pushes on a channel hand out, followed by the final flush, is
  the restored text of the channel, provided no push hands out a buffer that ends in an opening
  brace; and never more than 64 bytes are held back.
\<close>

theorem stream_restores:
  assumes "run_pushes cs (NewStreamRestorer mapping) = (outs, r)" and "clean_pushes channel cs (NewStreamRestorer mapping)"
  shows "on_channel channel outs @ fst (FlushChannel channel r) = RestoreString (on_channel channel cs) mapping \<and>
    length (fst (FlushChannel channel r)) \<le> 64"
proof -
  have e: "pending_of (NewStreamRestorer mapping) ch = []" for ch by (simp add: pending_of_def NewStreamRestorer_def)
  then have "pending_ok (NewStreamRestorer mapping)" by (simp add: pending_ok_def)
  from run_restores [OF assms this, of "[]"]
  have s: "restore (lookup_of mapping) (on_channel channel cs) = on_channel channel outs @ restore (lookup_of mapping) (pending_of r channel)"
    "pending_ok r" unfolding e by (simp_all add: NewStreamRestorer_def)
  have "restore (lookup_of mapping) (pending_of r channel) = pending_of r channel"
    using s(2) no_close_plain restore_plain by (simp add: pending_ok_def)
  moreover have "RestoreString (on_channel channel cs) mapping = restore (lookup_of mapping) (on_channel channel cs)"
    using restoreComplete_restore by (simp add: RestoreString_def restoreComplete_def)
  ultimately show ?thesis using s by (simp add: FlushChannel_def pending_ok_def pendingMax_def)
qed

definition demo_pair :: Mapping where
  "demo_pair = bind_token ''bob'' ''{{B_ghjklm}}'' (bind_token ''alice'' ''{{A_bcdfgh}}'' newMapping)"

theorem stream_restores_witness:
  "on_channel ''c'' (fst (run_pushes [(''c'', ''hi {''), (''d'', ''x''), (''c'', ''{A_bcd''), (''c'', ''fgh}} !'')]
     (NewStreamRestorer (Some demo_pair)))) = ''hi alice !''"
proof -
  let ?cs = "[(''c'', ''hi {''), (''d'', ''x''), (''c'', ''{A_bcd''), (''c'', ''fgh}} !'')]"
  have c: "clean_pushes ''c'' ?cs (NewStreamRestorer (Some demo_pair))" by code_simp
  have "on_channel ''c'' (fst (run_pushes ?cs (NewStreamRestorer (Some demo_pair)))) @
      fst (FlushChannel ''c'' (snd (run_pushes ?cs (NewStreamRestorer (Some demo_pair))))) =
      RestoreString (on_channel ''c'' ?cs) (Some demo_pair)"
    using stream_restores [OF prod.collapse [symmetric] c] by blast
  moreover have "fst (FlushChannel ''c'' (snd (run_pushes ?cs (NewStreamRestorer (Some demo_pair))))) = []" by code_simp
  moreover have "RestoreString (on_channel ''c'' ?cs) (Some demo_pair) = ''hi alice !''" by code_simp
  ultimately show ?thesis by simp
qed

text \<open>
  A boundary that loses a placeholder (\<^verbatim>\<open>scanAndRestore\<close>). Two adjacent placeholders cut between the
  opening braces of the second one: the first chunk is handed out up to its last brace, and the
  second placeholder reaches the client unrestored, although the whole text restores both.
\<close>

lemma stream_misses_split_braces:
  "(let r0 = NewStreamRestorer (Some demo_pair); cs = [(''c'', ''{{A_bcdfgh}}{''), (''c'', ''{B_ghjklm}}'')];
        run = run_pushes cs r0
    in on_channel ''c'' (fst run) @ fst (FlushChannel ''c'' (snd run)) = ''alice{{B_ghjklm}}'' \<and>
       RestoreString (on_channel ''c'' cs) (Some demo_pair) = ''alicebob'')"
  by code_simp

end
