(* ===== verification/Mask_JSON.thy ===== *)
theory Mask_JSON
  imports Mask_Stream
begin

text \<open>
  The JSON side of \<^verbatim>\<open>internal/relay/mask/engine.go\<close> (\<^verbatim>\<open>mapJSONStringValues\<close> and below), \<^verbatim>\<open>Engine.Apply\<close>, and the
  calls of the engine in \<^verbatim>\<open>internal/relay/mask_integration.go\<close>. The decoder of \<^verbatim>\<open>encoding/json\<close> is the stream of
  its tokens, the encoder of strings is modelled byte for byte. The theorem: a JSON body keeps its
  structure, its keys, numbers and literals, and exactly its string values are masked.
\<close>

subsection \<open>Writing strings\<close>

definition hex_digit :: "nat \<Rightarrow> char" where
  "hex_digit n = (if n < 10 then char_of (48 + n) else char_of (87 + n))"

text \<open>\<^verbatim>\<open>encoding/json\<close> with HTML escaping, one rune at a time.\<close>

definition json_rune :: "string \<Rightarrow> string" where
  "json_rune r =
    (if r = [CHR 0x22] then [CHR 0x5C, CHR 0x22]
     else if r = [CHR 0x5C] then [CHR 0x5C, CHR 0x5C]
     else if r = [CHR 0x08] then [CHR 0x5C, CHR ''b'']
     else if r = [CHR 0x0C] then [CHR 0x5C, CHR ''f'']
     else if r = [CHR 0x0A] then [CHR 0x5C, CHR ''n'']
     else if r = [CHR 0x0D] then [CHR 0x5C, CHR ''r'']
     else if r = [CHR 0x09] then [CHR 0x5C, CHR ''t'']
     else if length r = 1 \<and> (byte (hd r) < 32 \<or> hd r \<in> {CHR ''<'', CHR ''>'', CHR ''&''})
     then CHR 0x5C # ''u00'' @ [hex_digit (byte (hd r) div 16), hex_digit (byte (hd r) mod 16)]
     else if r = [CHR 0xE2, CHR 0x80, CHR 0xA8] then CHR 0x5C # ''u2028''
     else if r = [CHR 0xE2, CHR 0x80, CHR 0xA9] then CHR 0x5C # ''u2029''
     else r)"

function json_body :: "string \<Rightarrow> string" where
  "json_body s =
    (if s = [] then []
     else case rune_size s of
            Some n \<Rightarrow> json_rune (take n s) @ json_body (drop n s)
          | None \<Rightarrow> CHR 0x5C # ''ufffd'' @ json_body (tl s))"
  by pat_completeness auto
termination
proof (relation "measure length")
  fix s :: string and n
  assume "s \<noteq> []" and "rune_size s = Some n"
  then have "0 < n" using rune_size_SomeD by blast
  with \<open>s \<noteq> []\<close> show "(drop n s, s) \<in> measure length" by simp
qed simp_all

declare json_body.simps [simp del]

definition writeJSONString :: "string \<Rightarrow> string" where
  "writeJSONString s = CHR 0x22 # json_body s @ [CHR 0x22]"

subsection \<open>The token stream\<close>

datatype json_token = TString string | TNumber string | TBool bool | TNull | TDelim char

text \<open>\<^verbatim>\<open>dec.More()\<close>: there is a token and it closes nothing.\<close>

definition dec_More :: "json_token list \<Rightarrow> bool" where
  "dec_More ts = (case ts of [] \<Rightarrow> False | t # _ \<Rightarrow> t \<noteq> TDelim (CHR ''}'') \<and> t \<noteq> TDelim (CHR '']''))"

definition writeJSONScalar :: "(string \<Rightarrow> 's \<Rightarrow> string \<times> 's) \<Rightarrow> json_token \<Rightarrow> 's \<Rightarrow> string \<times> 's" where
  "writeJSONScalar mk tok s =
    (case tok of
       TString v \<Rightarrow> (case mk v s of (out, s') \<Rightarrow> (writeJSONString out, s'))
     | TNumber v \<Rightarrow> (v, s)
     | TBool b \<Rightarrow> (if b then ''true'' else ''false'', s)
     | TNull \<Rightarrow> (''null'', s)
     | TDelim _ \<Rightarrow> ([], s))"

text \<open>
  The three mutually recursive writers, with fuel for the nesting. \<open>mk\<close> is the argument \<^verbatim>\<open>mask\<close>, which
  changes the state \<open>'s\<close>; the result is the text written and the tokens left, \<open>None\<close> for an error, and
  the state, which an error leaves changed. The two loops carry the flag \<^verbatim>\<open>first\<close>.
\<close>

type_synonym 's json_writer = "json_token list \<Rightarrow> 's \<Rightarrow> (string \<times> json_token list) option \<times> 's"

definition written :: "string \<Rightarrow> (string \<times> json_token list) option \<times> 's \<Rightarrow> (string \<times> json_token list) option \<times> 's" where
  "written pre res = (map_option (\<lambda>(out, ts). (pre @ out, ts)) (fst res), snd res)"

fun maskJSONStream :: "nat \<Rightarrow> (string \<Rightarrow> 's \<Rightarrow> string \<times> 's) \<Rightarrow> 's json_writer"
  and maskJSONObject :: "nat \<Rightarrow> (string \<Rightarrow> 's \<Rightarrow> string \<times> 's) \<Rightarrow> bool \<Rightarrow> 's json_writer"
  and maskJSONArray :: "nat \<Rightarrow> (string \<Rightarrow> 's \<Rightarrow> string \<times> 's) \<Rightarrow> bool \<Rightarrow> 's json_writer"
where
  "maskJSONStream 0 mk ts s = (None, s)"
| "maskJSONStream (Suc k) mk ts s =
    (case ts of
       [] \<Rightarrow> (None, s)
     | TDelim d # ts1 \<Rightarrow>
         if d = CHR ''{'' then written ''{'' (maskJSONObject k mk True ts1 s)
         else if d = CHR ''['' then written ''['' (maskJSONArray k mk True ts1 s)
         else (None, s)
     | tok # ts1 \<Rightarrow> (case writeJSONScalar mk tok s of (out, s1) \<Rightarrow> (Some (out, ts1), s1)))"
| "maskJSONObject 0 mk isfirst ts s = (None, s)"
| "maskJSONObject (Suc k) mk isfirst ts s =
    (if dec_More ts
     then (let key = (case hd ts of TString v \<Rightarrow> v | _ \<Rightarrow> []) in
           case maskJSONStream k mk (tl ts) s of
             (None, s1) \<Rightarrow> (None, s1)
           | (Some (out, ts1), s1) \<Rightarrow>
               written ((if isfirst then [] else '','') @ writeJSONString key @ '':'' @ out)
                 (maskJSONObject k mk False ts1 s1))
     else (case ts of [] \<Rightarrow> (None, s) | _ # ts1 \<Rightarrow> (Some (''}'', ts1), s)))"
| "maskJSONArray 0 mk isfirst ts s = (None, s)"
| "maskJSONArray (Suc k) mk isfirst ts s =
    (if dec_More ts
     then (case maskJSONStream k mk ts s of
             (None, s1) \<Rightarrow> (None, s1)
           | (Some (out, ts1), s1) \<Rightarrow>
               written ((if isfirst then [] else '','') @ out) (maskJSONArray k mk False ts1 s1))
     else (case ts of [] \<Rightarrow> (None, s) | _ # ts1 \<Rightarrow> (Some ('']'', ts1), s)))"

text \<open>\<open>tokens\<close> gives the tokens of the body; an error or a rest falls back to masking the whole body.\<close>

definition mapJSONStringValues ::
  "(string \<Rightarrow> json_token list) \<Rightarrow> string \<Rightarrow> (string \<Rightarrow> 's \<Rightarrow> string \<times> 's) \<Rightarrow> 's \<Rightarrow> string \<times> 's" where
  "mapJSONStringValues tokens body mk s =
    (let ts = tokens body in
     case maskJSONStream (2 * length ts + 2) mk ts s of
       (None, s1) \<Rightarrow> mk body s1
     | (Some (out, rest), s1) \<Rightarrow> if dec_More rest then mk body s1 else (out, s1))"

subsection \<open>JSON values\<close>

text \<open>The values behind the tokens, how they are printed, and the masking of their strings.\<close>

datatype json = JString string | JNumber string | JBool bool | JNull | JArray "json list" | JObject "(string \<times> json) list"

fun json_tokens :: "json \<Rightarrow> json_token list"
  and elem_tokens :: "json list \<Rightarrow> json_token list"
  and field_tokens :: "(string \<times> json) list \<Rightarrow> json_token list"
where
  "json_tokens (JString v) = [TString v]"
| "json_tokens (JNumber v) = [TNumber v]"
| "json_tokens (JBool b) = [TBool b]"
| "json_tokens JNull = [TNull]"
| "json_tokens (JArray xs) = TDelim (CHR ''['') # elem_tokens xs @ [TDelim (CHR '']'')]"
| "json_tokens (JObject fs) = TDelim (CHR ''{'') # field_tokens fs @ [TDelim (CHR ''}'')]"
| "elem_tokens [] = []"
| "elem_tokens (x # xs) = json_tokens x @ elem_tokens xs"
| "field_tokens [] = []"
| "field_tokens ((k, x) # fs) = TString k # json_tokens x @ field_tokens fs"

fun json_print :: "json \<Rightarrow> string"
  and print_elems :: "bool \<Rightarrow> json list \<Rightarrow> string"
  and print_fields :: "bool \<Rightarrow> (string \<times> json) list \<Rightarrow> string"
where
  "json_print (JString v) = writeJSONString v"
| "json_print (JNumber v) = v"
| "json_print (JBool b) = (if b then ''true'' else ''false'')"
| "json_print JNull = ''null''"
| "json_print (JArray xs) = ''['' @ print_elems True xs @ '']''"
| "json_print (JObject fs) = ''{'' @ print_fields True fs @ ''}''"
| "print_elems isfirst [] = []"
| "print_elems isfirst (x # xs) = (if isfirst then [] else '','') @ json_print x @ print_elems False xs"
| "print_fields isfirst [] = []"
| "print_fields isfirst ((k, x) # fs) =
    (if isfirst then [] else '','') @ writeJSONString k @ '':'' @ json_print x @ print_fields False fs"

fun mask_json :: "(string \<Rightarrow> 's \<Rightarrow> string \<times> 's) \<Rightarrow> json \<Rightarrow> 's \<Rightarrow> json \<times> 's"
  and mask_elems :: "(string \<Rightarrow> 's \<Rightarrow> string \<times> 's) \<Rightarrow> json list \<Rightarrow> 's \<Rightarrow> json list \<times> 's"
  and mask_fields :: "(string \<Rightarrow> 's \<Rightarrow> string \<times> 's) \<Rightarrow> (string \<times> json) list \<Rightarrow> 's \<Rightarrow> (string \<times> json) list \<times> 's"
where
  "mask_json mk (JString v) s = (case mk v s of (out, s1) \<Rightarrow> (JString out, s1))"
| "mask_json mk (JNumber v) s = (JNumber v, s)"
| "mask_json mk (JBool b) s = (JBool b, s)"
| "mask_json mk JNull s = (JNull, s)"
| "mask_json mk (JArray xs) s = (case mask_elems mk xs s of (ys, s1) \<Rightarrow> (JArray ys, s1))"
| "mask_json mk (JObject fs) s = (case mask_fields mk fs s of (gs, s1) \<Rightarrow> (JObject gs, s1))"
| "mask_elems mk [] s = ([], s)"
| "mask_elems mk (x # xs) s =
    (case mask_json mk x s of (y, s1) \<Rightarrow> (case mask_elems mk xs s1 of (ys, s2) \<Rightarrow> (y # ys, s2)))"
| "mask_fields mk [] s = ([], s)"
| "mask_fields mk ((k, x) # fs) s =
    (case mask_json mk x s of (y, s1) \<Rightarrow> (case mask_fields mk fs s1 of (gs, s2) \<Rightarrow> ((k, y) # gs, s2)))"

lemma json_tokens_start:
  "json_tokens v \<noteq> []" "hd (json_tokens v) \<noteq> TDelim (CHR ''}'')" "hd (json_tokens v) \<noteq> TDelim (CHR '']'')"
  by (cases v; simp)+

lemma more_tokens: "dec_More (json_tokens v @ ts)"
  using json_tokens_start [of v] by (cases "json_tokens v") (auto simp: dec_More_def)

lemma stream_scalar:
  "0 < k \<Longrightarrow> (\<And>d. t \<noteq> TDelim d) \<Longrightarrow>
    maskJSONStream k mk (t # ts) s = (Some (fst (writeJSONScalar mk t s), ts), snd (writeJSONScalar mk t s))"
  by (cases k) (auto split: json_token.splits prod.splits)

lemma loops_end:
  "0 < k \<Longrightarrow> maskJSONArray k mk b (TDelim (CHR '']'') # ts) s = (Some ('']'', ts), s)"
  "0 < k \<Longrightarrow> maskJSONObject k mk b (TDelim (CHR ''}'') # ts) s = (Some (''}'', ts), s)"
  by (cases k; simp add: dec_More_def)+

lemma mask_writes:
  fixes mk :: "string \<Rightarrow> 's \<Rightarrow> string \<times> 's"
  shows "2 * length (json_tokens v) \<le> k \<Longrightarrow> mask_json mk v s = (w, s1) \<Longrightarrow>
      maskJSONStream k mk (json_tokens v @ rest) s = (Some (json_print w, rest), s1)"
    and "2 * length (elem_tokens xs) + 1 \<le> k \<Longrightarrow> mask_elems mk xs s = (ys, s1) \<Longrightarrow>
      maskJSONArray k mk fst1 (elem_tokens xs @ TDelim (CHR '']'') # rest) s = (Some (print_elems fst1 ys @ '']'', rest), s1)"
    and "2 * length (field_tokens fs) + 1 \<le> k \<Longrightarrow> mask_fields mk fs s = (gs, s1) \<Longrightarrow>
      maskJSONObject k mk fst2 (field_tokens fs @ TDelim (CHR ''}'') # rest) s = (Some (print_fields fst2 gs @ ''}'', rest), s1)"
proof (induction v and xs and fs arbitrary: k s w s1 rest and k s ys s1 rest fst1 and k s gs s1 rest fst2
    rule: json_tokens_elem_tokens_field_tokens.induct)
  case (5 xs)
  then obtain k' where k: "k = Suc k'" by (cases k) auto
  obtain ys where ys: "mask_elems mk xs s = (ys, s1)" "w = JArray ys" using "5.prems"(2) by (auto split: prod.splits)
  from "5.IH" [OF _ ys(1), of k' True rest] "5.prems"(1) k ys(2) show ?case by (simp add: written_def)
next
  case (6 fs)
  then obtain k' where k: "k = Suc k'" by (cases k) auto
  obtain gs where gs: "mask_fields mk fs s = (gs, s1)" "w = JObject gs" using "6.prems"(2) by (auto split: prod.splits)
  from "6.IH" [OF _ gs(1), of k' True rest] "6.prems"(1) k gs(2) show ?case by (simp add: written_def)
next
  case (8 x xs)
  then obtain k' where k: "k = Suc k'" by (cases k) auto
  obtain y sy zs where e: "mask_json mk x s = (y, sy)" "mask_elems mk xs sy = (zs, s1)" "ys = y # zs"
    using "8.prems"(2) by (auto split: prod.splits)
  have "0 < length (json_tokens x)" using json_tokens_start(1) [of x] by simp
  moreover have "2 * (length (json_tokens x) + length (elem_tokens xs)) \<le> k'" using "8.prems"(1) k by simp
  ultimately have "2 * length (json_tokens x) \<le> k' \<and> 2 * length (elem_tokens xs) + 1 \<le> k'" by arith
  then have l1: "2 * length (json_tokens x) \<le> k'" and l2: "2 * length (elem_tokens xs) + 1 \<le> k'" by blast+
  from "8.IH"(1) [OF l1 e(1)] "8.IH"(2) [OF l2 e(2)] k e(3) more_tokens show ?case by (simp add: written_def)
next
  case (10 key x fs)
  then obtain k' where k: "k = Suc k'" by (cases k) auto
  obtain y sy zs where e: "mask_json mk x s = (y, sy)" "mask_fields mk fs sy = (zs, s1)" "gs = (key, y) # zs"
    using "10.prems"(2) by (auto split: prod.splits)
  have l: "2 * length (json_tokens x) \<le> k'" "2 * length (field_tokens fs) + 1 \<le> k'" using "10.prems"(1) k by auto
  from "10.IH"(1) [OF l(1) e(1)] "10.IH"(2) [OF l(2) e(2)] k e(3) show ?case by (simp add: written_def dec_More_def)
qed (auto simp: writeJSONScalar_def stream_scalar loops_end split: prod.splits)

text \<open>The string values in document order, the masking of a list of texts one after the other, and what is left
  of a value without its strings.\<close>

fun json_strings :: "json \<Rightarrow> string list"
  and elem_strings :: "json list \<Rightarrow> string list"
  and field_strings :: "(string \<times> json) list \<Rightarrow> string list"
where
  "json_strings (JString v) = [v]"
| "json_strings (JNumber v) = []"
| "json_strings (JBool b) = []"
| "json_strings JNull = []"
| "json_strings (JArray xs) = elem_strings xs"
| "json_strings (JObject fs) = field_strings fs"
| "elem_strings [] = []"
| "elem_strings (x # xs) = json_strings x @ elem_strings xs"
| "field_strings [] = []"
| "field_strings ((k, x) # fs) = json_strings x @ field_strings fs"

fun mask_all :: "(string \<Rightarrow> 's \<Rightarrow> string \<times> 's) \<Rightarrow> string list \<Rightarrow> 's \<Rightarrow> string list \<times> 's" where
  "mask_all mk [] s = ([], s)"
| "mask_all mk (v # vs) s = (case mk v s of (w, s1) \<Rightarrow> (case mask_all mk vs s1 of (ws, s2) \<Rightarrow> (w # ws, s2)))"

fun json_shape :: "json \<Rightarrow> json"
  and elem_shapes :: "json list \<Rightarrow> json list"
  and field_shapes :: "(string \<times> json) list \<Rightarrow> (string \<times> json) list"
where
  "json_shape (JString v) = JString []"
| "json_shape (JNumber v) = JNumber v"
| "json_shape (JBool b) = JBool b"
| "json_shape JNull = JNull"
| "json_shape (JArray xs) = JArray (elem_shapes xs)"
| "json_shape (JObject fs) = JObject (field_shapes fs)"
| "elem_shapes [] = []"
| "elem_shapes (x # xs) = json_shape x # elem_shapes xs"
| "field_shapes [] = []"
| "field_shapes ((k, x) # fs) = (k, json_shape x) # field_shapes fs"

lemma mask_all_append:
  "mask_all mk (vs @ us) s = (case mask_all mk vs s of (ws, s1) \<Rightarrow> (case mask_all mk us s1 of (zs, s2) \<Rightarrow> (ws @ zs, s2)))"
  by (induction mk vs s rule: mask_all.induct) (auto split: prod.splits)

lemma mask_shape:
  fixes mk :: "string \<Rightarrow> 's \<Rightarrow> string \<times> 's"
  shows "mask_json mk v s = (w, s1) \<Longrightarrow> json_shape w = json_shape v \<and> mask_all mk (json_strings v) s = (json_strings w, s1)"
    and "mask_elems mk xs s = (ys, s1) \<Longrightarrow> elem_shapes ys = elem_shapes xs \<and> mask_all mk (elem_strings xs) s = (elem_strings ys, s1)"
    and "mask_fields mk fs s = (gs, s1) \<Longrightarrow> field_shapes gs = field_shapes fs \<and> mask_all mk (field_strings fs) s = (field_strings gs, s1)"
proof (induction v and xs and fs arbitrary: s w s1 and s ys s1 and s gs s1 rule: json_strings_elem_strings_field_strings.induct)
  case (8 x xs)
  obtain y sy zs where e: "mask_json mk x s = (y, sy)" "mask_elems mk xs sy = (zs, s1)" "ys = y # zs"
    using "8.prems" by (auto split: prod.splits)
  from "8.IH"(1) [OF e(1)] "8.IH"(2) [OF e(2)] e(3) show ?case by (simp add: mask_all_append)
next
  case (10 key x fs)
  obtain y sy zs where e: "mask_json mk x s = (y, sy)" "mask_fields mk fs sy = (zs, s1)" "gs = (key, y) # zs"
    using "10.prems" by (auto split: prod.splits)
  from "10.IH"(1) [OF e(1)] "10.IH"(2) [OF e(2)] e(3) show ?case by (simp add: mask_all_append)
qed (auto split: prod.splits)

text \<open>
  C24. Masking a JSON body (\<^verbatim>\<open>mapJSONStringValues\<close>). For a body whose tokens are those of a value, the result
  is the printed form of a value with the same structure, keys, numbers and literals, whose strings
  are the body's strings masked one after the other; the recursion never runs out of fuel and the
  fallback on the whole text is not taken.
\<close>

theorem json_mask_structure:
  assumes "tokens body = json_tokens v"
  shows "\<exists>w. mapJSONStringValues tokens body mk s = (json_print w, snd (mask_all mk (json_strings v) s)) \<and>
    json_shape w = json_shape v \<and> json_strings w = fst (mask_all mk (json_strings v) s)"
proof -
  obtain w s1 where w: "mask_json mk v s = (w, s1)" by fastforce
  have "maskJSONStream (2 * length (json_tokens v) + 2) mk (json_tokens v) s = (Some (json_print w, []), s1)"
    using mask_writes(1) [OF _ w, of "2 * length (json_tokens v) + 2" "[]"] by simp
  then have "mapJSONStringValues tokens body mk s = (json_print w, s1)"
    using assms by (simp add: mapJSONStringValues_def Let_def dec_More_def)
  with mask_shape(1) [OF w] show ?thesis by (intro exI [of _ w]) simp
qed

theorem json_mask_structure_witness:
  "\<exists>w. mapJSONStringValues (\<lambda>_. json_tokens (JObject [(''k'', JArray [JString ''ab'', JNumber ''7''])])) ''body''
      (\<lambda>v n. (CHR ''x'' # v, Suc n)) (0::nat) = (json_print w, 1) \<and> json_strings w = [''xab'']"
  using json_mask_structure [of "\<lambda>_. json_tokens (JObject [(''k'', JArray [JString ''ab'', JNumber ''7''])])" "''body''"
      "JObject [(''k'', JArray [JString ''ab'', JNumber ''7''])]" "\<lambda>v n. (CHR ''x'' # v, Suc n)" "0::nat"] by auto

subsection \<open>Applying the engine\<close>

text \<open>A pattern that is not valid UTF-8 does not compile: \<^verbatim>\<open>regexp.MustCompile\<close> panics.\<close>

definition utf8_ok :: "string \<Rightarrow> bool" where
  "utf8_ok s \<longleftrightarrow> concat (runes s) = s"

definition terms_panic :: "CustomTerm list \<Rightarrow> term_table \<Rightarrow> bool" where
  "terms_panic terms current \<longleftrightarrow> \<not> customTermTableHits current terms \<and>
     list_ex (\<lambda>t. \<not> mhas current (ct_Value t) \<and> \<not> utf8_ok (ct_Value t)) (nonempty_terms terms)"

record MaskEngine =
  en_store :: SessionStore
  en_rules :: "Rule list"
  en_cache :: term_table
  en_draws :: nat

record MaskResult =
  mr_Masked :: string
  mr_Mapping :: nat
  mr_Matches :: "Match list"

text \<open>What the engine takes from its surroundings: random suffixes, the clock, the outcome of the
  compare-and-swap, and \<^verbatim>\<open>encoding/json\<close>.\<close>

record mask_env =
  me_rnd :: "nat \<Rightarrow> string"
  me_year :: nat
  me_now :: int
  me_won :: bool
  me_valid :: "string \<Rightarrow> bool"
  me_tokens :: "string \<Rightarrow> json_token list"

definition term_rules :: "term_table \<Rightarrow> CustomTerm list \<Rightarrow> Rule list" where
  "term_rules table terms =
    map (\<lambda>t. \<lparr>ru_Label = ''TERM'',
              ru_Pattern = (case map_of table (ct_Value t) of Some rx \<Rightarrow> rx | None \<Rightarrow> (\<lambda>_. [])), ru_Group = 0\<rparr>)
      (nonempty_terms terms)"

definition looks_json :: "string \<Rightarrow> bool" where
  "looks_json body \<longleftrightarrow> (let trimmed = TrimSpace body in trimmed \<noteq> [] \<and> hd trimmed \<in> {CHR ''{'', CHR ''['', CHR 0x22})"

text \<open>\<open>None\<close> is the error of a recovered panic; the deferred calls run in every case.\<close>

definition Apply ::
  "mask_env \<Rightarrow> string \<Rightarrow> string \<Rightarrow> (string \<Rightarrow> bool) \<Rightarrow> CustomTerm list \<Rightarrow> MaskEngine \<Rightarrow> MaskResult option \<times> MaskEngine" where
  "Apply env body sessionKey enabledRules terms e =
    (case GetOrCreate sessionKey (me_now env) (en_store e) of
       (p, st0) \<Rightarrow>
         if body = [] then
           (Some \<lparr>mr_Masked = [], mr_Mapping = p, mr_Matches = []\<rparr>, e\<lparr>en_store := EndSession sessionKey (me_now env) st0\<rparr>)
         else if terms \<noteq> [] \<and> terms_panic terms (en_cache e) then
           (None, e\<lparr>en_store := EndSession sessionKey (me_now env) st0\<rparr>)
         else
           let (table, cache) = (if terms \<noteq> [] then customTermTable (me_won env) terms (en_cache e) else ([], en_cache e));
               rules = term_rules table terms @ filter (\<lambda>r. enabledRules (ru_Label r)) (en_rules e);
               maskText = (\<lambda>text. maskCandidates (me_rnd env) (me_year env) p (me_now env) text rules);
               st1 = \<lparr>ms_store = st0, ms_draws = en_draws e, ms_matches = [], ms_seen = []\<rparr>;
               (out, st2) =
                 (if rules = [] then (body, st1)
                  else if looks_json body \<and> me_valid env body
                  then mapJSONStringValues (me_tokens env) body maskText st1
                  else maskText body st1)
           in (Some \<lparr>mr_Masked = out, mr_Mapping = p, mr_Matches = ms_matches st2\<rparr>,
               e\<lparr>en_store := EndSession sessionKey (me_now env) (ms_store st2), en_cache := cache, en_draws := ms_draws st2\<rparr>))"

end
