(* ===== verification/Mask_Integration.thy ===== *)
theory Mask_Integration
  imports Mask_JSON
begin

text \<open>
  \<^verbatim>\<open>internal/relay/mask_integration.go\<close>: the masking of a request and the restoring of its response around the
  engine, with the invariant of the engine (sessions, mappings, compiled terms).
\<close>

subsection \<open>The engine's invariant\<close>

definition cache_ok :: "term_table \<Rightarrow> bool" where
  "cache_ok cache \<longleftrightarrow> (\<forall>k rx. map_of cache k = Some rx \<longrightarrow> rx = compileCustomTerm k)"

definition engine_ok :: "MaskEngine \<Rightarrow> bool" where
  "engine_ok e \<longleftrightarrow> store_ok (en_store e) \<and> (\<forall>m \<in> set (st_heap (en_store e)). mapping_ok m) \<and>
     cache_ok (en_cache e) \<and> (\<forall>r \<in> set (en_rules e). rule_ok r)"

lemma table_fold:
  assumes "cache_ok current" and "cache_ok acc"
  defines "step \<equiv> \<lambda>t next. case map_of current (ct_Value t) of
      Some rx \<Rightarrow> mput (ct_Value t) rx next
    | None \<Rightarrow> mput (ct_Value t) (compileCustomTerm (ct_Value t)) next"
  shows "cache_ok (fold step ts acc) \<and>
    (\<forall>k. (k \<in> ct_Value ` set ts \<or> mhas acc k) \<longrightarrow> map_of (fold step ts acc) k = Some (compileCustomTerm k))"
  using assms(2)
proof (induction ts arbitrary: acc)
  case Nil
  then show ?case by (auto simp: mhas_def cache_ok_def split: option.splits)
next
  case (Cons t ts)
  have s: "step t acc = mput (ct_Value t) (compileCustomTerm (ct_Value t)) acc"
    using assms(1) by (auto simp: step_def cache_ok_def split: option.splits)
  have "cache_ok (step t acc)" using Cons.prems unfolding s by (simp add: cache_ok_def)
  from Cons.IH [OF this] show ?case unfolding fold_simps by (auto simp: s)
qed

lemma term_table_ok:
  assumes "cache_ok current" and "customTermTable won terms current = (table, cache)"
  shows "cache_ok cache" and "t \<in> set (nonempty_terms terms) \<Longrightarrow> map_of table (ct_Value t) = Some (compileCustomTerm (ct_Value t))"
proof -
  show "cache_ok cache"
    using assms table_fold [OF assms(1), of "[]"]
    by (auto simp: customTermTable_def Let_def cache_ok_def split: if_splits)
  assume t: "t \<in> set (nonempty_terms terms)"
  show "map_of table (ct_Value t) = Some (compileCustomTerm (ct_Value t))"
  proof (cases "customTermTableHits current terms")
    case True
    then have "mhas current (ct_Value t)" using t by (auto simp: customTermTableHits_def list_all_iff split: if_splits)
    moreover have "table = current" using assms(2) True by (simp add: customTermTable_def)
    ultimately show ?thesis using assms(1) by (auto simp: mhas_def cache_ok_def split: option.splits)
  next
    case False
    have "cache_ok []" by (simp add: cache_ok_def)
    from table_fold [OF assms(1) this] t False assms(2) show ?thesis
      by (auto simp: customTermTable_def Let_def split: if_splits)
  qed
qed

lemma term_rules_ok:
  assumes "cache_ok current" and "customTermTable won terms current = (table, cache)"
  shows "\<forall>r \<in> set (term_rules table terms). rule_ok r"
  using term_table_ok(2) [OF assms] term_rule_ok by (auto simp: term_rules_def)

lemma get_or_create:
  assumes "GetOrCreate key now st = (p, st0)" and "store_ok st" and "\<forall>m \<in> set (st_heap st). mapping_ok m"
  shows "p < length (st_heap st0)" and "\<forall>m \<in> set (st_heap st0). mapping_ok m"
proof -
  show "\<forall>m \<in> set (st_heap st0). mapping_ok m"
    using assms(1,3) by (auto simp: GetOrCreate_def new_mapping_object_def split: if_splits option.splits)
  have ptr: "map_of (st_sessions st) k = Some rec \<Longrightarrow> sr_mapping rec < length (st_heap st)"
    "map_of (st_inflight st) k = Some fl \<Longrightarrow> if_mapping fl < length (st_heap st)" for k rec fl
    using assms(2) by (auto simp: store_ok_def dest!: map_of_SomeD)
  show "p < length (st_heap st0)"
    using assms(1) ptr by (auto simp: GetOrCreate_def new_mapping_object_def split: if_splits option.splits)
qed

lemma end_heap [simp]: "st_heap (EndSession key now st) = st_heap st"
  by (auto simp: EndSession_def Let_def split: option.splits)

subsection \<open>Requests\<close>

record MaskConfig =
  mc_Enabled :: bool
  mc_CustomTerms :: "CustomTerm list"
  mc_BuiltinRuleSwitch :: "string \<Rightarrow> bool"

datatype mask_error = MaskConfigError | MaskPanic

text \<open>\<open>None\<close> is a failure of \<^verbatim>\<open>op.MaskConfigGet\<close>; the results are the body, the mapping and the matches.\<close>

definition applyRequestMask ::
  "mask_env \<Rightarrow> MaskConfig option \<Rightarrow> string \<Rightarrow> string \<Rightarrow> bool \<Rightarrow> MaskEngine \<Rightarrow>
    (mask_error + string \<times> nat option \<times> Match list) \<times> MaskEngine" where
  "applyRequestMask env cfg body sessionKey groupMaskEnabled e =
    (case cfg of
       None \<Rightarrow> (Inl MaskConfigError, e)
     | Some c \<Rightarrow>
         if \<not> mc_Enabled c \<or> \<not> groupMaskEnabled then (Inr (body, None, []), e)
         else
           let terms = List.map_filter (\<lambda>t. let v = TrimSpace (ct_Value t) in
                 if v = [] then None else Some \<lparr>ct_Value = v, ct_Category = ct_Category t\<rparr>) (mc_CustomTerms c)
           in case Apply env body sessionKey (mc_BuiltinRuleSwitch c) terms e of
                (None, e1) \<Rightarrow> (Inl MaskPanic, e1)
              | (Some res, e1) \<Rightarrow>
                  if mr_Matches res = [] then (Inr (body, None, []), e1)
                  else (Inr (mr_Masked res, Some (mr_Mapping res), mr_Matches res), e1))"

definition restoreNonStream :: "string \<Rightarrow> Mapping option \<Rightarrow> string" where
  "restoreNonStream body mapping = (case mapping of None \<Rightarrow> body | Some m \<Rightarrow> RestoreBytes body (Some m))"

definition pruneMaskSessions :: "int \<Rightarrow> MaskEngine \<Rightarrow> MaskEngine" where
  "pruneMaskSessions now e = e\<lparr>en_store := snd (PruneExpired now (en_store e))\<rparr>"

text \<open>The copies of the matches kept for display.\<close>

definition maxMaskMatchesPerRequest :: nat where
  "maxMaskMatchesPerRequest = 128"

definition maxMaskMatchesTotalBytes :: nat where
  "maxMaskMatchesTotalBytes = 32 * 1024"

definition truncateMatch :: "Match \<Rightarrow> Match" where
  "truncateMatch m = \<lparr>mm_Label = truncateUTF8Bytes (mm_Label m) 32, mm_Original = truncateUTF8Bytes (mm_Original m) 256,
     mm_Placeholder = truncateUTF8Bytes (mm_Placeholder m) 64\<rparr>"

definition match_bytes :: "Match \<Rightarrow> nat" where
  "match_bytes m = length (mm_Label m) + length (mm_Original m) + length (mm_Placeholder m)"

fun truncate_loop :: "Match list \<Rightarrow> nat \<Rightarrow> nat \<Rightarrow> Match list \<times> bool" where
  "truncate_loop [] count used = ([], False)"
| "truncate_loop (m # ms) count used =
    (if maxMaskMatchesPerRequest \<le> count then ([], True)
     else
       let t = truncateMatch m in
       if maxMaskMatchesTotalBytes < used + match_bytes t then ([], True)
       else case truncate_loop ms (Suc count) (used + match_bytes t) of (res, cutoff) \<Rightarrow> (t # res, cutoff))"

definition truncateMaskMatches :: "Match list \<Rightarrow> Match list \<times> bool" where
  "truncateMaskMatches matches = truncate_loop matches 0 0"

lemma truncate_loop_bounds:
  assumes "truncate_loop ms count used = (res, cutoff)" and "count \<le> maxMaskMatchesPerRequest"
    and "used \<le> maxMaskMatchesTotalBytes"
  shows "count + length res \<le> maxMaskMatchesPerRequest \<and> used + sum_list (map match_bytes res) \<le> maxMaskMatchesTotalBytes \<and>
    (\<exists>n. res = map truncateMatch (take n ms)) \<and> (\<not> cutoff \<longrightarrow> res = map truncateMatch ms)"
  using assms
proof (induction ms count used arbitrary: res rule: truncate_loop.induct)
  case (2 m ms count used)
  show ?case
  proof (cases "maxMaskMatchesPerRequest \<le> count \<or> maxMaskMatchesTotalBytes < used + match_bytes (truncateMatch m)")
    case True
    with "2.prems"(1) have "res = [] \<and> cutoff" by (auto simp: Let_def split: if_splits)
    with "2.prems"(2,3) show ?thesis by (auto intro: exI [of _ 0])
  next
    case False
    then obtain res1 where r: "truncate_loop ms (Suc count) (used + match_bytes (truncateMatch m)) = (res1, cutoff)"
      "res = truncateMatch m # res1" using "2.prems"(1) by (auto simp: Let_def split: prod.splits)
    have f: "\<not> maxMaskMatchesPerRequest \<le> count" "\<not> maxMaskMatchesTotalBytes < used + match_bytes (truncateMatch m)"
      using False by simp_all
    have IH: "Suc count + length res1 \<le> maxMaskMatchesPerRequest \<and>
        used + match_bytes (truncateMatch m) + sum_list (map match_bytes res1) \<le> maxMaskMatchesTotalBytes \<and>
        (\<exists>n. res1 = map truncateMatch (take n ms)) \<and> (\<not> cutoff \<longrightarrow> res1 = map truncateMatch ms)"
      using "2.IH" [OF f(1) refl f(2) r(1)] f by simp
    then obtain n where "res1 = map truncateMatch (take n ms)" by blast
    then have "res = map truncateMatch (take (Suc n) (m # ms))" using r(2) by simp
    then have "\<exists>n. res = map truncateMatch (take n (m # ms))" by blast
    with IH r(2) show ?thesis by simp
  qed
qed (auto intro: exI [of _ 0])

subsection \<open>Masking several texts\<close>

lemma mask_all_restores:
  assumes "\<forall>r \<in> set rules. rule_ok r" and "mask_ready rnd p (spare + sum_list (map length vs)) st"
    and "mask_all (\<lambda>text. maskCandidates rnd yr p now text rules) vs st = (ws, st')"
  shows "mask_ready rnd p spare st' \<and> mapping_extends (mapping_at p st) (mapping_at p st') \<and>
    (\<forall>m. mapping_extends (mapping_at p st') m \<longrightarrow> map (restore (Lookup m)) ws = map (restore (Lookup m)) vs)"
  using assms(2,3)
proof (induction vs arbitrary: st ws)
  case (Cons v vs)
  obtain w st1 where w: "maskCandidates rnd yr p now v rules st = (w, st1)" by fastforce
  obtain zs where zs: "mask_all (\<lambda>text. maskCandidates rnd yr p now text rules) vs st1 = (zs, st')" "ws = w # zs"
    using Cons.prems(2) w by (auto split: prod.splits)
  let ?n = "spare + sum_list (map length vs)"
  have r: "mask_ready rnd p (?n + length v) st" using Cons.prems(1) by (simp add: algebra_simps)
  note s = mask_spec [OF assms(1) r w]
  note IH = Cons.IH [OF s(7) zs(1)]
  have "restore (Lookup m) w = restore (Lookup m) v" if "mapping_extends (mapping_at p st') m" for m
    using mask_restores_later [OF assms(1) r w] IH that mapping_extends_trans by blast
  with IH zs(2) s(3) mapping_extends_trans show ?case by auto
qed simp

text \<open>The mapping a request works with, and the draws it may need.\<close>

definition session_mapping :: "mask_env \<Rightarrow> string \<Rightarrow> MaskEngine \<Rightarrow> Mapping" where
  "session_mapping env key e = (case GetOrCreate key (me_now env) (en_store e) of (p, st0) \<Rightarrow> st_heap st0 ! p)"

definition draws_ready :: "mask_env \<Rightarrow> string \<Rightarrow> nat \<Rightarrow> MaskEngine \<Rightarrow> bool" where
  "draws_ready env key n e \<longleftrightarrow> draws_ok (me_rnd env) \<and> draws_unused (me_rnd env) (en_draws e) n (session_mapping env key e)"

text \<open>A masked body means what the body means: its text, or for JSON the text of each of its strings.\<close>

definition same_meaning :: "mask_env \<Rightarrow> Mapping \<Rightarrow> string \<Rightarrow> string \<Rightarrow> bool" where
  "same_meaning env m body out \<longleftrightarrow>
     (if looks_json body \<and> me_valid env body
      then out = body \<or> (\<exists>v w. me_tokens env body = json_tokens v \<and> out = json_print w \<and> json_shape w = json_shape v \<and>
        map (restore (Lookup m)) (json_strings w) = map (restore (Lookup m)) (json_strings v))
      else restore (Lookup m) out = restore (Lookup m) body)"

definition draws_needed :: "mask_env \<Rightarrow> string \<Rightarrow> nat" where
  "draws_needed env body = sum_list (map (\<lambda>t. case t of TString v \<Rightarrow> length v | _ \<Rightarrow> 0) (me_tokens env body)) + length body"

lemma strings_of_tokens:
  "sum_list (map length (json_strings v)) \<le> sum_list (map (\<lambda>t. case t of TString u \<Rightarrow> length u | _ \<Rightarrow> 0) (json_tokens v))"
  "sum_list (map length (elem_strings xs)) \<le> sum_list (map (\<lambda>t. case t of TString u \<Rightarrow> length u | _ \<Rightarrow> 0) (elem_tokens xs))"
  "sum_list (map length (field_strings fs)) \<le> sum_list (map (\<lambda>t. case t of TString u \<Rightarrow> length u | _ \<Rightarrow> 0) (field_tokens fs))"
  by (induction v and xs and fs rule: json_strings_elem_strings_field_strings.induct) auto

lemma ready_mono: "mask_ready rnd p n st \<Longrightarrow> k \<le> n \<Longrightarrow> mask_ready rnd p k st"
  using draws_unused_mono by (auto simp: mask_ready_def)

lemma mask_body_meaning:
  assumes "\<forall>r \<in> set rules. rule_ok r" and "mask_ready (me_rnd env) p (draws_needed env body) st"
    and "me_valid env body \<Longrightarrow> \<exists>v. me_tokens env body = json_tokens v"
    and "(if rules = [] then (body, st)
          else if looks_json body \<and> me_valid env body
          then mapJSONStringValues (me_tokens env) body (\<lambda>text. maskCandidates (me_rnd env) (me_year env) p (me_now env) text rules) st
          else maskCandidates (me_rnd env) (me_year env) p (me_now env) body rules st) = (out, st')"
  shows "same_meaning env (mapping_at p st') body out \<and> mapping_extends (mapping_at p st) (mapping_at p st')"
proof -
  consider (empty) "rules = []" | (js) "rules \<noteq> []" "looks_json body" "me_valid env body"
    | (plain) "rules \<noteq> []" "\<not> (looks_json body \<and> me_valid env body)" by blast
  then show ?thesis
  proof cases
    case empty
    with assms(4) show ?thesis by (auto simp: same_meaning_def)
  next
    case js
    let ?mk = "\<lambda>text. maskCandidates (me_rnd env) (me_year env) p (me_now env) text rules"
    obtain v where v: "me_tokens env body = json_tokens v" using assms(3) js by blast
    obtain w s1 where w: "mask_json ?mk v st = (w, s1)" by fastforce
    have "maskJSONStream (2 * length (json_tokens v) + 2) ?mk (json_tokens v) st = (Some (json_print w, []), s1)"
      using mask_writes(1) [OF _ w, of "2 * length (json_tokens v) + 2" "[]"] by simp
    then have out: "out = json_print w" "st' = s1"
      using assms(4) js v by (simp_all add: mapJSONStringValues_def Let_def dec_More_def)
    note sh = mask_shape(1) [OF w]
    have "sum_list (map length (json_strings v)) \<le> draws_needed env body"
      using strings_of_tokens(1) [of v] v by (simp add: draws_needed_def)
    then have "mask_ready (me_rnd env) p (0 + sum_list (map length (json_strings v))) st"
      using ready_mono [OF assms(2)] by simp
    from mask_all_restores [OF assms(1) this] sh out(2)
    have "mapping_extends (mapping_at p st) (mapping_at p st') \<and>
        map (restore (Lookup (mapping_at p st'))) (json_strings w) = map (restore (Lookup (mapping_at p st'))) (json_strings v)"
      by blast
    with js v out(1) sh show ?thesis by (auto simp: same_meaning_def)
  next
    case plain
    then have out: "maskCandidates (me_rnd env) (me_year env) p (me_now env) body rules st = (out, st')"
      using assms(4) by (auto split: if_splits)
    have r: "mask_ready (me_rnd env) p (0 + length body) st" using ready_mono [OF assms(2)] by (simp add: draws_needed_def)
    show ?thesis
      using mask_restores_later [OF assms(1) r out mapping_extends_refl] mask_spec(3) [OF assms(1) r out] plain(2)
      by (auto simp: same_meaning_def)
  qed
qed

lemma apply_spec:
  assumes "engine_ok e" and "draws_ready env key (draws_needed env body) e"
    and "me_valid env body \<Longrightarrow> \<exists>v. me_tokens env body = json_tokens v"
    and "Apply env body key enabled terms e = (Some res, e')"
  defines "m' \<equiv> st_heap (en_store e') ! mr_Mapping res"
  shows "same_meaning env m' body (mr_Masked res) \<and> mapping_extends (session_mapping env key e) m'"
proof -
  obtain p st0 where g: "GetOrCreate key (me_now env) (en_store e) = (p, st0)" by fastforce
  note gc = get_or_create [OF g] 
  have ok: "p < length (st_heap st0)" "mapping_ok (st_heap st0 ! p)"
    using gc assms(1) by (auto simp: engine_ok_def)
  show ?thesis
  proof (cases "body = []")
    case True
    then have "mr_Masked res = []" "m' = session_mapping env key e"
      using assms(4) g by (auto simp: Apply_def m'_def session_mapping_def)
    with True show ?thesis by (simp add: same_meaning_def looks_json_def trim_space_Nil)
  next
    case False
    obtain table cache where t: "(if terms \<noteq> [] then customTermTable (me_won env) terms (en_cache e) else ([], en_cache e)) = (table, cache)"
      by fastforce
    define rules where "rules = term_rules table terms @ filter (\<lambda>r. enabled (ru_Label r)) (en_rules e)"
    define st1 where "st1 = \<lparr>ms_store = st0, ms_draws = en_draws e, ms_matches = [], ms_seen = []\<rparr>"
    obtain out st2 where m: "(if rules = [] then (body, st1)
        else if looks_json body \<and> me_valid env body
        then mapJSONStringValues (me_tokens env) body (\<lambda>text. maskCandidates (me_rnd env) (me_year env) p (me_now env) text rules) st1
        else maskCandidates (me_rnd env) (me_year env) p (me_now env) body rules st1) = (out, st2)" by fastforce
    have "\<not> (terms \<noteq> [] \<and> terms_panic terms (en_cache e))" using assms(4) False g by (auto simp: Apply_def)
    then have r: "mr_Masked res = out" "m' = mapping_at p st2"
      using assms(4) False g t m unfolding Apply_def m'_def mapping_at_def rules_def st1_def by (auto simp: Let_def)
    have "\<forall>r \<in> set rules. rule_ok r"
      using term_rules_ok [of "en_cache e" "me_won env" terms table cache] t assms(1)
      by (auto simp: rules_def engine_ok_def term_rules_def nonempty_terms_def split: if_splits)
    moreover have "mask_ready (me_rnd env) p (draws_needed env body) st1"
      using assms(2) ok g by (simp add: mask_ready_def st1_def mapping_at_def draws_ready_def session_mapping_def)
    ultimately have "same_meaning env (mapping_at p st2) body out \<and> mapping_extends (mapping_at p st1) (mapping_at p st2)"
      using assms(3) m by (rule mask_body_meaning)
    then show ?thesis using r g by (simp add: st1_def mapping_at_def session_mapping_def)
  qed
qed


definition demo_engine :: MaskEngine where
  "demo_engine = \<lparr>en_store = NewSessionStore, en_rules = [], en_cache = [], en_draws = 0\<rparr>"

definition demo_mask_env :: mask_env where
  "demo_mask_env = \<lparr>me_rnd = demo_rnd, me_year = 2025, me_now = 7, me_won = True, me_valid = (\<lambda>_. False), me_tokens = (\<lambda>_. [])\<rparr>"

definition demo_mask_config :: MaskConfig where
  "demo_mask_config = \<lparr>mc_Enabled = True, mc_CustomTerms = [\<lparr>ct_Value = '' alice '', ct_Category = []\<rparr>],
     mc_BuiltinRuleSwitch = (\<lambda>_. False)\<rparr>"


text \<open>
  Restoring inside JSON (\<^verbatim>\<open>restoreNonStream\<close>). The original is put into the response byte for byte, so
  an original with a quotation mark (a quoted password, say) ends the JSON string early: the restored
  response differs from the JSON text of the restored string.
\<close>

lemma raw_restore_breaks_json:
  "(let m = bind_token [CHR ''a'', CHR 0x22, CHR ''b''] ''{{A_bcdfgh}}'' newMapping
    in restoreNonStream (json_print (JString ''{{A_bcdfgh}}'')) (Some m) = [CHR 0x22, CHR ''a'', CHR 0x22, CHR ''b'', CHR 0x22] \<and>
       json_print (JString (RestoreString ''{{A_bcdfgh}}'' (Some m))) =
         [CHR 0x22, CHR ''a'', CHR 0x5C, CHR 0x22, CHR ''b'', CHR 0x22])"
  by code_simp

end
