(* ===== verification/Stream_Relay.thy ===== *)
theory Stream_Relay
  imports Request_Lifecycle Group_Model
begin

text \<open>
  How a streamed answer is judged and passed on: the verdict on one event
  (\<^verbatim>\<open>internal/relay/protocol.go\<close>), the loop of \<^verbatim>\<open>handler.go\<close> that writes events to the client, and the
  decision it ends with.
\<close>

subsection \<open>Errors of the stream\<close>

definition plain_error :: "string \<Rightarrow> relay_error" where
  "plain_error msg = \<lparr>er_is = [], er_http = None, er_op = False, er_net = False, er_response = None, er_text = msg\<rparr>"

definition sentinel_error :: "sentinel \<Rightarrow> string \<Rightarrow> relay_error" where
  "sentinel_error s msg = (plain_error msg)\<lparr>er_is := [s]\<rparr>"

text \<open>\<^verbatim>\<open>fmt.Errorf("prefix: %w", err)\<close> keeps what the chain answers.\<close>

definition wrap_error :: "string \<Rightarrow> relay_error \<Rightarrow> relay_error" where
  "wrap_error prefix e = e\<lparr>er_text := prefix @ '': '' @ er_text e\<rparr>"

definition err_abnormal_finish :: "string \<Rightarrow> relay_error" where
  "err_abnormal_finish detail = plain_error (''upstream reported abnormal finish reason: '' @ detail)"

definition err_stream_early_close :: relay_error where
  "err_stream_early_close = plain_error ''upstream stream closed before the terminal event''"

definition err_no_answer_stop :: relay_error where
  "err_no_answer_stop = sentinel_error errNoAnswerStop ''upstream finished with reasoning only and no answer content''"

definition err_zero_output :: relay_error where
  "err_zero_output = sentinel_error errZeroOutput ''upstream reported zero output tokens: output tokens reported as 0''"

subsection \<open>Finish reasons\<close>

definition validChatFinishReason :: "string \<Rightarrow> bool" where
  "validChatFinishReason reason \<longleftrightarrow>
     reason \<in> {'''', ''stop'', ''length'', ''tool_calls'', ''function_call'', ''other''}"

definition validAnthropicStopReason :: "string \<Rightarrow> bool" where
  "validAnthropicStopReason reason \<longleftrightarrow>
     reason \<in> {'''', ''end_turn'', ''max_tokens'', ''stop_sequence'', ''tool_use'', ''pause_turn'', ''refusal''}"

definition validUnifiedFinishReason :: "string \<Rightarrow> bool" where
  "validUnifiedFinishReason reason = validChatFinishReason reason"

definition validEmptyOutputTerminal :: "string \<Rightarrow> bool" where
  "validEmptyOutputTerminal reason \<longleftrightarrow>
     reason \<in> {''length'', ''tool_calls'', ''function_call'', ''max_tokens'', ''tool_use''}"

definition validateRoundUsage :: "Usage option \<Rightarrow> string \<Rightarrow> relay_error option" where
  "validateRoundUsage usage terminal =
    (case usage of
       None \<Rightarrow> None
     | Some u \<Rightarrow>
         if us_CompletionTokens u \<noteq> 0 then None
         else if validEmptyOutputTerminal terminal then None
         else Some err_zero_output)"

subsection \<open>The verdict on an event\<close>

record StreamEvent =
  ev_LastEventID :: string
  ev_Type :: string
  ev_Data :: string

record streamEventVerdict =
  sv_terminal :: bool
  sv_inspectErr :: "relay_error option"
  sv_abnormalErr :: "relay_error option"
  sv_hasContent :: bool
  sv_hasAnswer :: bool
  sv_hasReasoning :: bool
  sv_stopFinish :: bool
  sv_finishSeen :: bool

definition no_verdict :: streamEventVerdict where
  "no_verdict = \<lparr>sv_terminal = False, sv_inspectErr = None, sv_abnormalErr = None, sv_hasContent = False,
     sv_hasAnswer = False, sv_hasReasoning = False, sv_stopFinish = False, sv_finishSeen = False\<rparr>"

definition terminal_verdict :: streamEventVerdict where
  "terminal_verdict = no_verdict\<lparr>sv_terminal := True\<rparr>"

definition failed_verdict :: "relay_error \<Rightarrow> streamEventVerdict" where
  "failed_verdict e = no_verdict\<lparr>sv_terminal := True, sv_inspectErr := Some e\<rparr>"

text \<open>
  What \<^verbatim>\<open>encoding/json\<close> and the transformer library decode is a parameter of the verdict: the probes
  below are the decoded structs, with raw JSON kept as text, \<open>cd_quote\<close> is the verb \<^verbatim>\<open>%q\<close>. \<open>None\<close> in a list of choices is a
  choice that did not decode.
\<close>

record ErrorDetail =
  ed_Code :: string
  ed_Message :: string
  ed_Type :: string
  ed_RequestID :: string

record chatStreamChoiceProbe =
  cc_FinishReason :: string
  cc_Content :: string
  cc_ReasoningContent :: string
  cc_ToolCalls :: string

record chatStreamEventProbe =
  ce_Error :: "ErrorDetail option"
  ce_Choices :: "chatStreamChoiceProbe option list"

record anthropicEvent =
  ae_Type :: string
  ae_StopReason :: "string option"

record responsesBody =
  rb_Status :: "string option"
  rb_Error :: "ErrorDetail option"
  rb_IncompleteReason :: string

record responsesEvent =
  re_Type :: string
  re_Code :: string
  re_Message :: string
  re_Response :: "responsesBody option"

record stream_codec =
  cd_chat :: "string \<Rightarrow> relay_error + chatStreamEventProbe"
  cd_anthropic :: "string \<Rightarrow> relay_error + anthropicEvent"
  cd_anthropicError :: "string \<Rightarrow> relay_error + ErrorDetail"
  cd_responses :: "string \<Rightarrow> relay_error + responsesEvent"
  cd_unquote :: "string \<Rightarrow> string option"
  cd_quote :: "string \<Rightarrow> string"
  cd_responseError :: "ErrorDetail \<Rightarrow> string"

text \<open>\<^verbatim>\<open>&llm.ResponseError{Detail: d}\<close>: a response error with status code 0.\<close>

definition response_error :: "stream_codec \<Rightarrow> ErrorDetail \<Rightarrow> relay_error" where
  "response_error cd d = (plain_error (cd_responseError cd d))\<lparr>er_response := Some 0\<rparr>"

definition message_detail :: "string \<Rightarrow> string \<Rightarrow> ErrorDetail" where
  "message_detail msg typ = \<lparr>ed_Code = [], ed_Message = msg, ed_Type = typ, ed_RequestID = []\<rparr>"

definition rawToolCallsPresent :: "string \<Rightarrow> bool" where
  "rawToolCallsPresent raw \<longleftrightarrow> raw \<noteq> [] \<and> raw \<noteq> ''null''"

definition rawStringBytes :: "string \<Rightarrow> bool" where
  "rawStringBytes raw \<longleftrightarrow> 2 < length raw \<and> hd raw = CHR 0x22"

definition rawFinishReason :: "stream_codec \<Rightarrow> string \<Rightarrow> string option" where
  "rawFinishReason cd raw =
    (if raw = [] \<or> raw = ''null'' then None
     else if 2 \<le> length raw \<and> hd raw = CHR 0x22
     then (case cd_unquote cd raw of None \<Rightarrow> Some raw | Some v \<Rightarrow> Some v)
     else Some raw)"

definition judge_choice :: "stream_codec \<Rightarrow> chatStreamChoiceProbe \<Rightarrow> streamEventVerdict \<Rightarrow> streamEventVerdict" where
  "judge_choice cd choice v =
    (let v1 = (case rawFinishReason cd (cc_FinishReason choice) of
                 None \<Rightarrow> v
               | Some reason \<Rightarrow>
                   v\<lparr>sv_abnormalErr := (if \<not> validChatFinishReason reason \<and> sv_abnormalErr v = None
                        then Some (err_abnormal_finish (''finish_reason '' @ cd_quote cd reason)) else sv_abnormalErr v),
                     sv_stopFinish := sv_stopFinish v \<or> reason = ''stop'',
                     sv_finishSeen := sv_finishSeen v \<or> (reason \<noteq> [] \<and> validChatFinishReason reason)\<rparr>);
         answer = rawStringBytes (cc_Content choice) \<or> rawToolCallsPresent (cc_ToolCalls choice);
         reasoning = rawStringBytes (cc_ReasoningContent choice)
     in v1\<lparr>sv_hasAnswer := sv_hasAnswer v1 \<or> answer, sv_hasReasoning := sv_hasReasoning v1 \<or> reasoning,
           sv_hasContent := sv_hasContent v1 \<or> answer \<or> reasoning\<rparr>)"

fun judge_choices :: "stream_codec \<Rightarrow> chatStreamChoiceProbe option list \<Rightarrow> streamEventVerdict \<Rightarrow> streamEventVerdict" where
  "judge_choices cd [] v = v"
| "judge_choices cd (None # cs) v = judge_choices cd cs v"
| "judge_choices cd (Some c # cs) v = judge_choices cd cs (judge_choice cd c v)"

definition error_reported :: "ErrorDetail option \<Rightarrow> bool" where
  "error_reported e = (case e of None \<Rightarrow> False | Some d \<Rightarrow> ed_Message d \<noteq> [] \<or> ed_Type d \<noteq> [] \<or> ed_Code d \<noteq> [])"

definition analyzeChatStreamEvent :: "stream_codec \<Rightarrow> StreamEvent \<Rightarrow> streamEventVerdict" where
  "analyzeChatStreamEvent cd event =
    (if ev_Data event = ''[DONE]'' then terminal_verdict
     else case cd_chat cd (ev_Data event) of
            Inl e \<Rightarrow> failed_verdict (wrap_error ''decode openai stream event'' e)
          | Inr probe \<Rightarrow>
              if ev_Type event = ''error'' \<or> error_reported (ce_Error probe)
              then
                let detail = (case ce_Error probe of None \<Rightarrow> message_detail [] [] | Some d \<Rightarrow> d);
                    detail = (if ed_Message detail = [] then detail\<lparr>ed_Message := ''openai stream error''\<rparr> else detail)
                in failed_verdict (response_error cd detail)
              else judge_choices cd (ce_Choices probe) no_verdict)"

definition analyzeAnthropicEvent :: "stream_codec \<Rightarrow> StreamEvent \<Rightarrow> streamEventVerdict" where
  "analyzeAnthropicEvent cd event =
    (case cd_anthropic cd (ev_Data event) of
       Inl e \<Rightarrow> failed_verdict (wrap_error ''decode anthropic stream event'' e)
     | Inr parsed \<Rightarrow>
         if ae_Type parsed = [] then failed_verdict (plain_error ''anthropic stream event type is empty'')
         else if ev_Type event \<noteq> [] \<and> ev_Type event \<noteq> ae_Type parsed
         then failed_verdict (plain_error (''anthropic stream event type mismatch: '' @ ev_Type event @ '' != '' @ ae_Type parsed))
         else if ae_Type parsed = ''message_stop'' then terminal_verdict
         else if ae_Type parsed = ''error'' then
           (case cd_anthropicError cd (ev_Data event) of
              Inl e \<Rightarrow> failed_verdict (wrap_error ''decode anthropic stream error'' e)
            | Inr d \<Rightarrow>
                failed_verdict (response_error cd
                  (if ed_Message d = [] then d\<lparr>ed_Message := ''anthropic stream error''\<rparr> else d)))
         else
           let v = no_verdict\<lparr>sv_hasContent := (ae_Type parsed \<in> {''content_block_start'', ''content_block_delta''})\<rparr>
           in case (if ae_Type parsed = ''message_delta'' then ae_StopReason parsed else None) of
                None \<Rightarrow> v
              | Some reason \<Rightarrow>
                  if \<not> validAnthropicStopReason reason then v\<lparr>sv_abnormalErr := Some (err_abnormal_finish (''stop_reason '' @ cd_quote cd reason))\<rparr>
                  else v\<lparr>sv_finishSeen := (reason \<noteq> [])\<rparr>)"


definition ends_with :: "string \<Rightarrow> string \<Rightarrow> bool" where
  "ends_with s suf \<longleftrightarrow> length suf \<le> length s \<and> drop (length s - length suf) s = suf"

text \<open>An event of the Responses API that ends the answer badly.\<close>

definition bad_response :: "string \<Rightarrow> relay_error \<Rightarrow> streamEventVerdict" where
  "bad_response detail e = (failed_verdict e)\<lparr>sv_abnormalErr := Some (err_abnormal_finish detail)\<rparr>"

definition response_detail :: "responsesBody option \<Rightarrow> ErrorDetail option" where
  "response_detail r =
    (case r of
       None \<Rightarrow> None
     | Some b \<Rightarrow> map_option (\<lambda>d. \<lparr>ed_Code = ed_Code d, ed_Message = ed_Message d, ed_Type = ed_Type d, ed_RequestID = []\<rparr>)
         (rb_Error b))"

definition analyzeResponsesEvent :: "stream_codec \<Rightarrow> StreamEvent \<Rightarrow> streamEventVerdict" where
  "analyzeResponsesEvent cd event =
    (case cd_responses cd (ev_Data event) of
       Inl e \<Rightarrow> failed_verdict (wrap_error ''decode responses stream event'' e)
     | Inr parsed \<Rightarrow>
         let bad = bad_response (''responses event '' @ re_Type parsed);
             fail = (\<lambda>msg typ. response_error cd (message_detail msg typ)) in
         if re_Type parsed = ''response.completed'' then
           (case re_Response parsed of
              None \<Rightarrow> terminal_verdict
            | Some b \<Rightarrow>
                (case rb_Status b of
                   None \<Rightarrow> terminal_verdict
                 | Some status \<Rightarrow>
                     if status = [] \<or> status = ''completed'' then terminal_verdict
                     else bad_response (''response status '' @ cd_quote cd status)
                       (case response_detail (Some b) of
                          Some d \<Rightarrow> response_error cd d
                        | None \<Rightarrow> fail (''response '' @ status) (''response_'' @ status))))
         else if re_Type parsed = ''response.failed'' then
           bad (case response_detail (re_Response parsed) of
                  Some d \<Rightarrow> response_error cd d | None \<Rightarrow> fail ''response failed'' ''response_failed'')
         else if re_Type parsed = ''response.incomplete'' then
           bad (fail (''response incomplete'' @
                  (case re_Response parsed of
                     None \<Rightarrow> []
                   | Some b \<Rightarrow> if rb_IncompleteReason b = [] then [] else '': '' @ rb_IncompleteReason b)) ''response_incomplete'')
         else if re_Type parsed = ''response.cancelled'' then bad (fail ''response cancelled'' ''response_cancelled'')
         else if re_Type parsed = ''error'' then
           bad (response_error cd
                  \<lparr>ed_Code = re_Code parsed,
                   ed_Message = (if re_Message parsed = [] then ''responses stream error'' else re_Message parsed),
                   ed_Type = ''stream_error'', ed_RequestID = []\<rparr>)
         else no_verdict\<lparr>sv_hasContent := (ends_with (re_Type parsed) ''.delta'' \<or>
                re_Type parsed = ''output_item.added'' \<or> re_Type parsed = ''output_item.done'')\<rparr>)"

text \<open>The client's protocol, \<^verbatim>\<open>llm.APIFormat\<close>; the media formats are kept together.\<close>

datatype APIFormat = APIFormatOpenAIChatCompletion | APIFormatAnthropicMessage | APIFormatOpenAIResponse | APIFormatOther

definition analyzeStreamEvent :: "stream_codec \<Rightarrow> APIFormat \<Rightarrow> StreamEvent option \<Rightarrow> streamEventVerdict" where
  "analyzeStreamEvent cd format event =
    (case event of
       None \<Rightarrow> no_verdict
     | Some ev \<Rightarrow>
         if ev_Data ev = [] then no_verdict
         else (case format of
                 APIFormatOpenAIChatCompletion \<Rightarrow> analyzeChatStreamEvent cd ev
               | APIFormatAnthropicMessage \<Rightarrow> analyzeAnthropicEvent cd ev
               | APIFormatOpenAIResponse \<Rightarrow> analyzeResponsesEvent cd ev
               | APIFormatOther \<Rightarrow> no_verdict))"

definition inspectStreamEvent :: "stream_codec \<Rightarrow> APIFormat \<Rightarrow> StreamEvent option \<Rightarrow> bool \<times> relay_error option" where
  "inspectStreamEvent cd format event =
    (let v = analyzeStreamEvent cd format event in (sv_terminal v, sv_inspectErr v))"

definition streamEventAbnormalFinish :: "stream_codec \<Rightarrow> APIFormat \<Rightarrow> StreamEvent option \<Rightarrow> relay_error option" where
  "streamEventAbnormalFinish cd format event = sv_abnormalErr (analyzeStreamEvent cd format event)"

definition streamEventHasContent :: "stream_codec \<Rightarrow> APIFormat \<Rightarrow> StreamEvent option \<Rightarrow> bool" where
  "streamEventHasContent cd format event = sv_hasContent (analyzeStreamEvent cd format event)"

lemma judge_choice_props:
  "sv_terminal (judge_choice cd c v) = sv_terminal v"
  "sv_inspectErr (judge_choice cd c v) = sv_inspectErr v"
  "sv_hasContent v = (sv_hasAnswer v \<or> sv_hasReasoning v) \<Longrightarrow>
     sv_hasContent (judge_choice cd c v) = (sv_hasAnswer (judge_choice cd c v) \<or> sv_hasReasoning (judge_choice cd c v))"
  by (cases "rawFinishReason cd (cc_FinishReason c)"; force simp: judge_choice_def Let_def)+

lemma judge_choices_props:
  "sv_terminal (judge_choices cd cs v) = sv_terminal v"
  "sv_inspectErr (judge_choices cd cs v) = sv_inspectErr v"
  "sv_hasContent v = (sv_hasAnswer v \<or> sv_hasReasoning v) \<Longrightarrow>
     sv_hasContent (judge_choices cd cs v) = (sv_hasAnswer (judge_choices cd cs v) \<or> sv_hasReasoning (judge_choices cd cs v))"
  by (induction cd cs v rule: judge_choices.induct) (simp_all add: judge_choice_props)

lemmas verdict_defs = failed_verdict_def terminal_verdict_def no_verdict_def bad_response_def

text \<open>An event that carries an error ends the stream.\<close>

lemma chat_error_terminal: "sv_inspectErr (analyzeChatStreamEvent cd ev) \<noteq> None \<Longrightarrow> sv_terminal (analyzeChatStreamEvent cd ev)"
  by (simp add: analyzeChatStreamEvent_def verdict_defs judge_choices_props Let_def split: sum.splits if_splits)

lemma anthropic_error_terminal: "sv_inspectErr (analyzeAnthropicEvent cd ev) \<noteq> None \<Longrightarrow> sv_terminal (analyzeAnthropicEvent cd ev)"
  unfolding analyzeAnthropicEvent_def Let_def verdict_defs
  by (cases "cd_anthropic cd (ev_Data ev)"; cases "cd_anthropicError cd (ev_Data ev)") (auto split: if_splits option.splits)

lemma responses_error_terminal: "sv_inspectErr (analyzeResponsesEvent cd ev) \<noteq> None \<Longrightarrow> sv_terminal (analyzeResponsesEvent cd ev)"
  unfolding analyzeResponsesEvent_def Let_def verdict_defs
  by (cases "cd_responses cd (ev_Data ev)") (simp_all split: if_splits option.splits)

lemma verdict_error_terminal:
  "sv_inspectErr (analyzeStreamEvent cd format event) \<noteq> None \<Longrightarrow> sv_terminal (analyzeStreamEvent cd format event)"
  using chat_error_terminal anthropic_error_terminal responses_error_terminal
  by (cases event; cases format) (auto simp: analyzeStreamEvent_def no_verdict_def split: if_splits)


subsection \<open>The relay loop\<close>

definition streamIdleSeconds :: "GroupRelayConfig \<Rightarrow> int" where
  "streamIdleSeconds config =
    (if 0 < MemberStreamIdleTimeoutSeconds config then MemberStreamIdleTimeoutSeconds config
     else if MemberStreamIdleTimeoutSeconds config = 0 then 0
     else MemberStreamIdleTimeoutSeconds DefaultGroupRelayConfig)"

definition streamMaxBytes :: "GroupRelayConfig \<Rightarrow> int" where
  "streamMaxBytes config =
    (if 0 \<le> MemberStreamMaxBytes config then MemberStreamMaxBytes config else MemberStreamMaxBytes DefaultGroupRelayConfig)"

definition streamMaxEvents :: "GroupRelayConfig \<Rightarrow> int" where
  "streamMaxEvents config =
    (if 0 \<le> MemberStreamMaxEvents config then MemberStreamMaxEvents config else MemberStreamMaxEvents DefaultGroupRelayConfig)"

text \<open>
  What the loop is given: the format, the configuration, the request and the libraries it calls
  (\<open>se_encode\<close> is \<^verbatim>\<open>sse.Encode\<close>, \<open>se_echo\<close> replaces the model name, \<open>se_budget\<close> prints the budget error).
  One turn sees one event (\<open>None\<close> is \<^verbatim>\<open>nil\<close>), the time, the restorer's effect on the data and whether
  the write to the client fails.
\<close>

record stream_env =
  se_codec :: stream_codec
  se_format :: APIFormat
  se_config :: GroupRelayConfig
  se_request :: nat
  se_masked :: bool
  se_echo :: "string \<Rightarrow> string"
  se_encode :: "StreamEvent \<Rightarrow> relay_error + string"
  se_budget :: "int \<Rightarrow> int \<Rightarrow> string"

record stream_turn =
  tu_event :: "StreamEvent option"
  tu_now :: int
  tu_restore :: "string \<Rightarrow> string"
  tu_write :: "relay_error option"

record stream_st =
  ss_chunks :: "StreamEvent list"
  ss_committed :: bool
  ss_terminalSeen :: bool
  ss_clientGone :: bool
  ss_polluted :: bool
  ss_polluteErr :: "relay_error option"
  ss_noAnswerStop :: bool
  ss_answered :: bool
  ss_reasoned :: bool
  ss_finished :: bool
  ss_last :: bool
  ss_firstErr :: "relay_error option"
  ss_bytes :: int
  ss_events :: int
  ss_written :: "string list"
  ss_requests :: request_world

definition init_stream :: "bool \<Rightarrow> request_world \<Rightarrow> stream_st" where
  "init_stream terminated w = \<lparr>ss_chunks = [], ss_committed = False, ss_terminalSeen = terminated, ss_clientGone = False,
     ss_polluted = False, ss_polluteErr = None, ss_noAnswerStop = False, ss_answered = False, ss_reasoned = False,
     ss_finished = False, ss_last = False, ss_firstErr = None, ss_bytes = 0, ss_events = 0, ss_written = [], ss_requests = w\<rparr>"

definition first_error :: "relay_error option \<Rightarrow> relay_error option \<Rightarrow> relay_error option" where
  "first_error old new = (case old of None \<Rightarrow> new | Some e \<Rightarrow> Some e)"

definition over_budget :: "GroupRelayConfig \<Rightarrow> stream_st \<Rightarrow> bool" where
  "over_budget config st \<longleftrightarrow>
     0 < streamMaxBytes config \<and> streamMaxBytes config < ss_bytes st \<or>
     0 < streamMaxEvents config \<and> streamMaxEvents config < ss_events st"

definition count_event :: "StreamEvent \<Rightarrow> stream_st \<Rightarrow> stream_st" where
  "count_event ev st = st\<lparr>ss_events := ss_events st + 1, ss_bytes := ss_bytes st + int (length (ev_Data ev))\<rparr>"

definition keep_chunk :: "StreamEvent \<Rightarrow> stream_st \<Rightarrow> stream_st" where
  "keep_chunk ev st = st\<lparr>ss_chunks := ss_chunks st @ [ev]\<rparr>"

text \<open>What the verdict changes before the event is passed on.\<close>

definition note_verdict :: "streamEventVerdict \<Rightarrow> stream_st \<Rightarrow> stream_st" where
  "note_verdict v st =
    (let st1 = st\<lparr>ss_answered := ss_answered st \<or> sv_hasAnswer v, ss_reasoned := ss_reasoned st \<or> sv_hasReasoning v,
                  ss_finished := ss_finished st \<or> sv_finishSeen v\<rparr>
     in if sv_inspectErr v \<noteq> None \<or> sv_terminal v
        then st1\<lparr>ss_last := True, ss_terminalSeen := True, ss_firstErr := first_error (ss_firstErr st1) (sv_inspectErr v)\<rparr>
        else st1)"

text \<open>The event as it goes to the client.\<close>

definition shape_event :: "stream_env \<Rightarrow> stream_turn \<Rightarrow> StreamEvent \<Rightarrow> StreamEvent" where
  "shape_event se tu ev =
    (let ev1 = (if se_masked se then ev\<lparr>ev_Data := tu_restore tu (ev_Data ev)\<rparr> else ev)
     in if EchoResponseModel (se_config se) then ev1\<lparr>ev_Data := se_echo se (ev_Data ev1)\<rparr> else ev1)"

definition commit_stream :: "stream_env \<Rightarrow> stream_turn \<Rightarrow> stream_st \<Rightarrow> stream_st" where
  "commit_stream se tu st =
    (if ss_committed st then st
     else st\<lparr>ss_committed := True, ss_requests := markCommitted (se_request se) (tu_now tu) (ss_requests st)\<rparr>)"

text \<open>The flag says that the loop breaks.\<close>

definition write_event :: "stream_env \<Rightarrow> stream_turn \<Rightarrow> StreamEvent \<Rightarrow> stream_st \<Rightarrow> stream_st \<times> bool" where
  "write_event se tu ev st =
    (let ev1 = shape_event se tu ev; st1 = keep_chunk ev1 st in
     case se_encode se ev1 of
       Inl e \<Rightarrow> (st1\<lparr>ss_firstErr := first_error (ss_firstErr st1) (Some e)\<rparr>, True)
     | Inr frame \<Rightarrow>
         let st2 = commit_stream se tu st1 in
         (case tu_write tu of
            Some e \<Rightarrow> (st2\<lparr>ss_firstErr := first_error (ss_firstErr st2) (Some e), ss_clientGone := True\<rparr>, True)
          | None \<Rightarrow>
              (st2\<lparr>ss_written := ss_written st2 @ [frame],
                   ss_requests := noteOutputChars (se_request se) (int (length (runes (ev_Data ev1)))) (tu_now tu) (ss_requests st2)\<rparr>,
               ss_last st2)))"

definition stream_step :: "stream_env \<Rightarrow> stream_turn \<Rightarrow> stream_st \<Rightarrow> stream_st \<times> bool" where
  "stream_step se tu st =
    (case tu_event tu of
       None \<Rightarrow> (st, False)
     | Some ev \<Rightarrow>
         let st1 = count_event ev st in
         if over_budget (se_config se) st1
         then (st1\<lparr>ss_firstErr := first_error (ss_firstErr st1)
                (Some (sentinel_error errStreamBudgetExceeded (se_budget se (ss_events st1) (ss_bytes st1))))\<rparr>, True)
         else if ss_polluted st1 then (keep_chunk ev st1, False)
         else
           let v = analyzeStreamEvent (se_codec se) (se_format se) (Some ev); st2 = note_verdict v st1 in
           (case sv_abnormalErr v of
              Some e \<Rightarrow> (keep_chunk ev (st2\<lparr>ss_polluted := True, ss_polluteErr := Some e\<rparr>), False)
            | None \<Rightarrow>
                let st3 = (if sv_stopFinish v \<and> ss_reasoned st2 \<and> \<not> ss_answered st2 then st2\<lparr>ss_noAnswerStop := True\<rparr> else st2)
                in if ss_noAnswerStop st3 then (keep_chunk ev st3, ss_last st3)
                   else write_event se tu ev st3))"

text \<open>The buffered window first, then the upstream until it has no more events; the rest of the turns is not read.\<close>

fun stream_loop :: "stream_env \<Rightarrow> stream_turn list \<Rightarrow> stream_turn list \<Rightarrow> stream_st \<Rightarrow> stream_st" where
  "stream_loop se (tu # window) upstream st =
    (case stream_step se tu st of (st', stop) \<Rightarrow> if stop then st' else stream_loop se window upstream st')"
| "stream_loop se [] [] st = st"
| "stream_loop se [] (tu # upstream) st =
    (if ss_last st then st
     else case stream_step se tu st of (st', stop) \<Rightarrow> if stop then st' else stream_loop se [] upstream st')"

text \<open>
  How the round ended: \<open>idle\<close> says the idle timer cancelled it, \<open>streamErr\<close> is \<^verbatim>\<open>events.Err()\<close>,
  \<open>aggregated\<close> the result of \<^verbatim>\<open>AggregateStreamChunks\<close>.
\<close>

record stream_end =
  en_firstErr :: "relay_error option"
  en_frameFailure :: "relay_error option"

definition close_stream_errors ::
  "stream_st \<Rightarrow> bool \<Rightarrow> relay_error option \<Rightarrow> relay_error + string \<times> Usage option \<Rightarrow> stream_end" where
  "close_stream_errors st idle streamErr aggregated =
    (let e1 = first_error (ss_firstErr st) (if idle then Some (sentinel_error errStreamIdleTimeout ''upstream stream idle timeout exceeded'') else None);
         firstErr = first_error e1 streamErr;
         frame = (if ss_polluted st then None
                  else if ss_noAnswerStop st \<and> firstErr = None then Some err_no_answer_stop
                  else if firstErr = None \<and> \<not> ss_terminalSeen st \<and> \<not> ss_finished st then Some err_stream_early_close
                  else firstErr);
         frame' = (if frame = None \<and> \<not> ss_polluted st \<and> \<not> ss_noAnswerStop st
                   then (case aggregated of Inl e \<Rightarrow> Some (wrap_error ''aggregate stream chunks'' e) | Inr _ \<Rightarrow> None)
                   else frame)
     in \<lparr>en_firstErr = firstErr, en_frameFailure = frame'\<rparr>)"

definition stream_failed :: "stream_st \<Rightarrow> stream_end \<Rightarrow> bool" where
  "stream_failed st en \<longleftrightarrow> en_firstErr en \<noteq> None \<or> ss_polluted st \<or> en_frameFailure en \<noteq> None"

definition final_error :: "stream_st \<Rightarrow> stream_end \<Rightarrow> relay_error option" where
  "final_error st en =
    (let e1 = en_firstErr en; e2 = (if e1 = None \<and> ss_polluted st then ss_polluteErr st else e1)
     in if e2 = None then en_frameFailure en else e2)"


subsection \<open>What reaches the client\<close>

definition clean :: "stream_st \<Rightarrow> bool" where
  "clean st \<longleftrightarrow> ss_firstErr st = None \<and> \<not> ss_polluted st \<and> \<not> ss_noAnswerStop st"

text \<open>A turn whose event is passed on: the verdict finds no fault, it encodes and the write succeeds.\<close>

definition passes :: "stream_env \<Rightarrow> stream_turn \<Rightarrow> bool" where
  "passes se tu \<longleftrightarrow>
    (case tu_event tu of
       None \<Rightarrow> True
     | Some ev \<Rightarrow>
         sv_inspectErr (analyzeStreamEvent (se_codec se) (se_format se) (Some ev)) = None \<and>
         sv_abnormalErr (analyzeStreamEvent (se_codec se) (se_format se) (Some ev)) = None \<and>
         \<not> isl (se_encode se (shape_event se tu ev)) \<and> tu_write tu = None)"

definition passed_events :: "stream_env \<Rightarrow> stream_turn list \<Rightarrow> StreamEvent list" where
  "passed_events se tus = List.map_filter (\<lambda>tu. map_option (shape_event se tu) (tu_event tu)) tus"

definition frames :: "stream_env \<Rightarrow> stream_turn list \<Rightarrow> string list" where
  "frames se tus = map (projr \<circ> se_encode se) (passed_events se tus)"

lemma passed_events_simps [simp]:
  "passed_events se [] = []"
  "passed_events se (tu # tus) = (case tu_event tu of None \<Rightarrow> [] | Some ev \<Rightarrow> [shape_event se tu ev]) @ passed_events se tus"
  by (simp_all add: passed_events_def List.map_filter_simps split: option.splits)

lemma frames_Cons:
  "frames se (tu # tus) = (case tu_event tu of None \<Rightarrow> [] | Some ev \<Rightarrow> [projr (se_encode se (shape_event se tu ev))]) @ frames se tus"
  by (simp add: frames_def split: option.splits)

text \<open>One turn, step by step through its branches.\<close>

lemma first_error_None [simp]: "first_error a b = None \<longleftrightarrow> a = None \<and> b = None"
  by (simp add: first_error_def split: option.splits)

lemma commit_stream_fields [simp]:
  "ss_chunks (commit_stream se tu st) = ss_chunks st" "ss_firstErr (commit_stream se tu st) = ss_firstErr st"
  "ss_polluted (commit_stream se tu st) = ss_polluted st" "ss_noAnswerStop (commit_stream se tu st) = ss_noAnswerStop st"
  "ss_written (commit_stream se tu st) = ss_written st" "ss_bytes (commit_stream se tu st) = ss_bytes st"
  "ss_events (commit_stream se tu st) = ss_events st" "ss_last (commit_stream se tu st) = ss_last st"
  by (simp_all add: commit_stream_def)

lemma note_verdict_fields [simp]:
  "ss_chunks (note_verdict v st) = ss_chunks st" "ss_polluted (note_verdict v st) = ss_polluted st"
  "ss_noAnswerStop (note_verdict v st) = ss_noAnswerStop st" "ss_written (note_verdict v st) = ss_written st"
  "ss_bytes (note_verdict v st) = ss_bytes st" "ss_events (note_verdict v st) = ss_events st"
  "ss_firstErr (note_verdict v st) = None \<longleftrightarrow> ss_firstErr st = None \<and> sv_inspectErr v = None"
  by (auto simp: note_verdict_def Let_def)

lemma write_event_clean:
  assumes "write_event se tu ev st = (st', stop)" and "ss_firstErr st' = None"
  shows "ss_firstErr st = None \<and> ss_polluted st' = ss_polluted st \<and> ss_noAnswerStop st' = ss_noAnswerStop st \<and>
    ss_bytes st' = ss_bytes st \<and> ss_events st' = ss_events st \<and>
    \<not> isl (se_encode se (shape_event se tu ev)) \<and> tu_write tu = None \<and>
    ss_written st' = ss_written st @ [projr (se_encode se (shape_event se tu ev))] \<and>
    ss_chunks st' = ss_chunks st @ [shape_event se tu ev]"
  using assms by (auto simp: write_event_def keep_chunk_def Let_def split: sum.splits option.splits)

lemma stream_step_clean:
  assumes step: "stream_step se tu st = (st', stop)" and c: "clean st'" and b: "\<not> over_budget (se_config se) st"
  shows "clean st \<and> \<not> over_budget (se_config se) st' \<and> passes se tu \<and>
    ss_written st' = ss_written st @ frames se [tu] \<and> ss_chunks st' = ss_chunks st @ passed_events se [tu]"
proof (cases "tu_event tu")
  case None
  with assms show ?thesis by (simp add: stream_step_def passes_def frames_def)
next
  case (Some ev)
  let ?v = "analyzeStreamEvent (se_codec se) (se_format se) (Some ev)"
  let ?st1 = "count_event ev st" let ?st2 = "note_verdict ?v ?st1"
  have nb: "\<not> over_budget (se_config se) ?st1" and np: "\<not> ss_polluted st"
    and na: "sv_abnormalErr ?v = None" and nn: "\<not> (sv_stopFinish ?v \<and> ss_reasoned ?st2 \<and> \<not> ss_answered ?st2)" "\<not> ss_noAnswerStop st"
    using step c Some unfolding stream_step_def clean_def
    by (auto simp: count_event_def keep_chunk_def Let_def split: if_splits option.splits)
  have np': "\<not> ss_polluted ?st1" and nn': "\<not> ss_noAnswerStop ?st2" using np nn(2) by (simp_all add: count_event_def)
  have w: "write_event se tu ev ?st2 = (st', stop)"
    using step unfolding stream_step_def Some option.case Let_def if_not_P [OF nb] if_not_P [OF np'] na
      if_not_P [OF nn(1)] if_not_P [OF nn'] by simp
  have "ss_firstErr st' = None" using c by (simp add: clean_def)
  from write_event_clean [OF w this] have f: "ss_firstErr ?st2 = None" "ss_bytes st' = ss_bytes ?st1" "ss_events st' = ss_events ?st1"
      "\<not> isl (se_encode se (shape_event se tu ev))" "tu_write tu = None"
      "ss_written st' = ss_written st @ [projr (se_encode se (shape_event se tu ev))]" "ss_chunks st' = ss_chunks st @ [shape_event se tu ev]"
    by (simp_all add: count_event_def)
  have "\<not> over_budget (se_config se) st'" using nb f(2,3) by (simp add: over_budget_def)
  moreover have "clean st" "sv_inspectErr ?v = None" using f(1) np nn(2) by (auto simp: clean_def count_event_def)
  ultimately show ?thesis using Some na f(4-7) by (simp add: passes_def frames_def)
qed

lemma stream_step_budget:
  assumes "stream_step se tu st = (st', False)" and "\<not> over_budget (se_config se) st"
  shows "\<not> over_budget (se_config se) st'"
proof (cases "tu_event tu")
  case None
  with assms show ?thesis by (simp add: stream_step_def)
next
  case (Some ev)
  with assms(1) have "\<not> over_budget (se_config se) (count_event ev st)"
    by (auto simp: stream_step_def Let_def split: if_splits)
  moreover have "ss_bytes st' = ss_bytes (count_event ev st) \<and> ss_events st' = ss_events (count_event ev st)"
    using assms(1) Some
    by (auto simp: stream_step_def write_event_def keep_chunk_def Let_def split: if_splits option.splits sum.splits)
  ultimately show ?thesis by (simp add: over_budget_def)
qed

text \<open>From state \<open>st\<close> to \<open>r\<close>, a prefix of the turns was passed on completely.\<close>

definition relayed :: "stream_env \<Rightarrow> stream_turn list \<Rightarrow> stream_st \<Rightarrow> stream_st \<Rightarrow> bool" where
  "relayed se tus st r \<longleftrightarrow>
    (\<exists>read rest. tus = read @ rest \<and> list_all (passes se) read \<and> ss_written r = ss_written st @ frames se read \<and>
       ss_chunks r = ss_chunks st @ passed_events se read) \<and>
    clean st \<and> \<not> over_budget (se_config se) r"

lemma relayed_turn:
  assumes s: "stream_step se tu st = (st', stop)" and b: "\<not> over_budget (se_config se) st" and c: "clean r"
    and stopped: "stop \<Longrightarrow> r = st'" and more: "\<not> stop \<Longrightarrow> \<not> over_budget (se_config se) st' \<Longrightarrow> relayed se tus st' r"
  shows "relayed se (tu # tus) st r"
proof (cases stop)
  case True
  with stopped c have "clean st'" "r = st'" by simp_all
  with stream_step_clean [OF s _ b] show ?thesis
    unfolding relayed_def by (intro conjI exI [of _ "[tu]"] exI [of _ tus]) auto
next
  case False
  with more stream_step_budget [of se tu st st'] s b obtain read rest where p: "tus = read @ rest" "list_all (passes se) read"
      "clean st'" "ss_written r = ss_written st' @ frames se read" "ss_chunks r = ss_chunks st' @ passed_events se read"
      "\<not> over_budget (se_config se) r" by (auto simp: relayed_def)
  from stream_step_clean [OF s p(3) b] p show ?thesis
    unfolding relayed_def by (intro conjI exI [of _ "tu # read"] exI [of _ rest]) (auto simp: frames_def)
qed

lemma stream_loop_clean:
  assumes "clean (stream_loop se window upstream st)" and "\<not> over_budget (se_config se) st"
  shows "relayed se (window @ upstream) st (stream_loop se window upstream st)"
  using assms
proof (induction se window upstream st rule: stream_loop.induct)
  case (1 se tu window upstream st)
  obtain st' stop where s: "stream_step se tu st = (st', stop)" by fastforce
  show ?case
    unfolding append_Cons by (rule relayed_turn [OF s 1(3,2)]) (use 1(1) [OF s [symmetric]] s 1(2) in auto)
next
  case (2 se st)
  then show ?case by (auto simp: relayed_def frames_def)
next
  case (3 se tu upstream st)
  obtain st' stop where s: "stream_step se tu st = (st', stop)" by fastforce
  show ?case
  proof (cases "ss_last st")
    case True
    with 3 show ?thesis by (auto simp: relayed_def frames_def intro: exI [of _ "[]"])
  next
    case False
    have "relayed se (tu # upstream) st (stream_loop se [] (tu # upstream) st)"
      by (rule relayed_turn [OF s 3(3,2)]) (use 3(1) [OF False s [symmetric]] s 3(2) False in auto)
    then show ?thesis by simp
  qed
qed




text \<open>A sample stream: one chunk with text, then \<^verbatim>\<open>[DONE]\<close>, through decoders that know just these.\<close>

definition demo_codec :: stream_codec where
  "demo_codec = \<lparr>cd_chat = (\<lambda>d. Inr \<lparr>ce_Error = None, ce_Choices =
       [Some \<lparr>cc_FinishReason = (if d = ''stop'' then [CHR 0x22, CHR ''s'', CHR 0x22] else []), cc_Content = [CHR 0x22, CHR ''a'', CHR 0x22],
              cc_ReasoningContent = [], cc_ToolCalls = []\<rparr>]\<rparr>),
     cd_anthropic = (\<lambda>d. Inl (plain_error [])), cd_anthropicError = (\<lambda>d. Inl (plain_error [])),
     cd_responses = (\<lambda>d. Inl (plain_error [])), cd_unquote = (\<lambda>_. Some ''stop''), cd_quote = (\<lambda>s. s),
     cd_responseError = (\<lambda>d. ed_Message d)\<rparr>"

definition demo_stream_env :: stream_env where
  "demo_stream_env = \<lparr>se_codec = demo_codec, se_format = APIFormatOpenAIChatCompletion,
     se_config = DefaultGroupRelayConfig\<lparr>MemberStreamMaxEvents := 3\<rparr>, se_request = 1, se_masked = False,
     se_echo = (\<lambda>d. d), se_encode = (\<lambda>ev. Inr (''data: '' @ ev_Data ev)), se_budget = (\<lambda>_ _. ''budget'')\<rparr>"

definition demo_turn :: "string \<Rightarrow> stream_turn" where
  "demo_turn d = \<lparr>tu_event = Some \<lparr>ev_LastEventID = [], ev_Type = [], ev_Data = d\<rparr>, tu_now = 5, tu_restore = (\<lambda>x. x), tu_write = None\<rparr>"


text \<open>The counters grow by one event a turn and nothing is written over the budget.\<close>

definition in_budget :: "GroupRelayConfig \<Rightarrow> stream_st \<Rightarrow> bool" where
  "in_budget config st \<longleftrightarrow> int (length (ss_written st)) \<le> ss_events st \<and> \<not> over_budget config st"

definition budget_kept :: "GroupRelayConfig \<Rightarrow> stream_st \<Rightarrow> bool" where
  "budget_kept config st \<longleftrightarrow> (0 < streamMaxEvents config \<longrightarrow>
     int (length (ss_written st)) \<le> streamMaxEvents config \<and> ss_events st \<le> streamMaxEvents config + 1)"

lemma in_budget_kept: "in_budget config st \<Longrightarrow> budget_kept config st"
  by (auto simp: in_budget_def budget_kept_def over_budget_def)

lemma write_event_counts:
  "write_event se tu ev st = (st', stop) \<Longrightarrow> ss_events st' = ss_events st \<and> ss_bytes st' = ss_bytes st \<and>
     length (ss_written st') \<le> Suc (length (ss_written st))"
  by (auto simp: write_event_def keep_chunk_def Let_def split: sum.splits option.splits)

lemma stream_step_within:
  assumes s: "stream_step se tu st = (st', stop)" and "in_budget (se_config se) st"
  shows "budget_kept (se_config se) st' \<and> (\<not> stop \<longrightarrow> in_budget (se_config se) st')"
proof (cases "tu_event tu")
  case None
  with assms in_budget_kept show ?thesis by (auto simp: stream_step_def)
next
  case (Some ev)
  show ?thesis
  proof (cases "over_budget (se_config se) (count_event ev st)")
    case True
    with s Some have "ss_written st' = ss_written st" "ss_events st' = ss_events st + 1" stop
      by (auto simp: stream_step_def Let_def count_event_def)
    with assms(2) show ?thesis by (auto simp: in_budget_def budget_kept_def over_budget_def)
  next
    case False
    let ?c = "count_event ev st"
    have "length (ss_written st') \<le> Suc (length (ss_written st)) \<and> ss_events st' = ss_events ?c \<and> ss_bytes st' = ss_bytes ?c"
      using s False Some unfolding stream_step_def
      by (auto simp: Let_def keep_chunk_def count_event_def split: if_splits option.splits dest!: write_event_counts)
    then have "in_budget (se_config se) st'" using assms(2) False by (auto simp: in_budget_def over_budget_def count_event_def)
    with in_budget_kept show ?thesis by blast
  qed
qed

lemma stream_loop_bounded: "in_budget (se_config se) st \<Longrightarrow> budget_kept (se_config se) (stream_loop se window upstream st)"
proof (induction se window upstream st rule: stream_loop.induct)
  case (1 se tu window upstream st)
  obtain st' stop where s: "stream_step se tu st = (st', stop)" by fastforce
  with stream_step_within [OF s 1(2)] 1(1) [OF s [symmetric]] show ?case by auto
next
  case (2 se st)
  then show ?case by (simp add: in_budget_kept)
next
  case (3 se tu upstream st)
  obtain st' stop where s: "stream_step se tu st = (st', stop)" by fastforce
  with stream_step_within [OF s 3(2)] 3(1) [OF _ s [symmetric]] in_budget_kept [OF 3(2)] show ?case by auto
qed



end
