(* ===== verification/Relay_Reply.thy ===== *)
theory Relay_Reply
  imports Stream_Relay
begin

text \<open>
  The helpers of \<^verbatim>\<open>internal/relay/handler.go\<close>: the limits of a request, the errors it can end with and the
  status the client gets, the headers that are passed on, and the log of failures.
\<close>

subsection \<open>Limits\<close>

definition routeRecheckIntervalSeconds :: "GroupRelayConfig \<Rightarrow> rat" where
  "routeRecheckIntervalSeconds config =
    (if 0 < MemberRetryIntervalSeconds config then MemberRetryIntervalSeconds config
     else MemberRetryIntervalSeconds DefaultGroupRelayConfig)"

definition maxRequestRounds :: "GroupRelayConfig \<Rightarrow> int" where
  "maxRequestRounds config =
    (if 0 < MaxRequestRounds config then MaxRequestRounds config else MaxRequestRounds DefaultGroupRelayConfig)"

text \<open>Times are in nanoseconds.\<close>

definition requestDeadlineExceeded :: "GroupRelayConfig \<Rightarrow> int \<Rightarrow> int \<Rightarrow> bool" where
  "requestDeadlineExceeded config startedAt now =
    (let seconds = MaxRequestSeconds config in
     if seconds = 0 then False
     else (if seconds < 0 then MaxRequestSeconds DefaultGroupRelayConfig else seconds) * 10 ^ 9 \<le> now - startedAt)"

definition memberTimeoutSeconds :: "GroupRelayConfig \<Rightarrow> bool \<Rightarrow> int" where
  "memberTimeoutSeconds config streaming =
    (if streaming then
       (if 0 < MemberStreamFirstEventTimeoutSeconds config then MemberStreamFirstEventTimeoutSeconds config
        else MemberStreamFirstEventTimeoutSeconds DefaultGroupRelayConfig)
     else if 0 < MemberNonStreamResponseTimeoutSeconds config then MemberNonStreamResponseTimeoutSeconds config
     else MemberNonStreamResponseTimeoutSeconds DefaultGroupRelayConfig)"

text \<open>The pause when every member cools: growing with every round that found them so, up to the cap.\<close>

definition all_cooldown_interval :: "GroupRelayConfig \<Rightarrow> int \<Rightarrow> int" where
  "all_cooldown_interval config clears =
    (let interval = AllCooldownRetryBaseSeconds config * clears; cap = AllCooldownRetryMaxSeconds config
     in if 0 < cap \<and> cap < interval then cap else interval)"

lemma limits_positive: "0 < maxRequestRounds c" "0 < memberTimeoutSeconds c streaming" "0 < routeRecheckIntervalSeconds c"
  by (auto simp: maxRequestRounds_def memberTimeoutSeconds_def routeRecheckIntervalSeconds_def DefaultGroupRelayConfig_def)

lemma deadline_monotone:
  "requestDeadlineExceeded c t0 now \<Longrightarrow> now \<le> later \<Longrightarrow> requestDeadlineExceeded c t0 later"
  by (auto simp: requestDeadlineExceeded_def Let_def)

lemma all_cooldown_interval_bounds:
  assumes "0 < AllCooldownRetryBaseSeconds c" and "0 < clears"
  shows "0 < all_cooldown_interval c clears \<and>
    (0 < AllCooldownRetryMaxSeconds c \<longrightarrow> all_cooldown_interval c clears \<le> AllCooldownRetryMaxSeconds c)"
  using assms by (auto simp: all_cooldown_interval_def Let_def)

subsection \<open>The errors a request ends with\<close>

text \<open>A Chinese message of the source, by its UTF-8 bytes.\<close>

definition utf8 :: "nat list \<Rightarrow> string" where
  "utf8 bs = map char_of bs"

definition err_no_available_channels :: relay_error where
  "err_no_available_channels = plain_error (utf8
    [0xE6, 0x9A, 0x82, 0xE6, 0x97, 0xA0, 0xE5, 0x8F, 0xAF, 0xE7, 0x94, 0xA8, 0xE6, 0xB8, 0xA0, 0xE9, 0x81, 0x93])"

definition err_context_window_exceeded :: relay_error where
  "err_context_window_exceeded = sentinel_error errContextWindowExceeded (utf8
    [0xE8, 0xAF, 0xB7, 0xE6, 0xB1, 0x82, 0xE4, 0xB8, 0x8A, 0xE4, 0xB8, 0x8B, 0xE6, 0x96, 0x87, 0xE8, 0xB6, 0x85, 0xE5, 0x87, 0xBA,
     0xE6, 0xA8, 0xA1, 0xE5, 0x9E, 0x8B, 0xE4, 0xB8, 0x8A, 0xE9, 0x99, 0x90, 0xEF, 0xBC, 0x8C, 0xE8, 0xAF, 0xB7, 0xE5, 0x87, 0x8F,
     0xE5, 0xB0, 0x91, 0xE8, 0xBE, 0x93, 0xE5, 0x85, 0xA5, 0xE6, 0x88, 0x96, 0xE6, 0x8F, 0x90, 0xE9, 0xAB, 0x98, 0xE6, 0xA8, 0xA1,
     0xE5, 0x9E, 0x8B, 0xE7, 0xAA, 0x97, 0xE5, 0x8F, 0xA3])"

definition err_request_too_large :: relay_error where
  "err_request_too_large = sentinel_error errRequestTooLarge (utf8
    [0xE8, 0xAF, 0xB7, 0xE6, 0xB1, 0x82, 0xE4, 0xBD, 0x93, 0xE8, 0xB6, 0x85, 0xE8, 0xBF, 0x87, 0xE4, 0xB8, 0x8A, 0xE6, 0xB8, 0xB8,
     0xE9, 0x99, 0x90, 0xE5, 0x88, 0xB6, 0xEF, 0xBC, 0x88, 0x34, 0x31, 0x33, 0xEF, 0xBC, 0x89, 0xEF, 0xBC, 0x8C, 0xE8, 0xAF, 0xB7,
     0xE5, 0x87, 0x8F, 0xE5, 0xB0, 0x8F, 0xE4, 0xB8, 0x8A, 0xE4, 0xB8, 0x8B, 0xE6, 0x96, 0x87, 0xE5, 0x90, 0x8E, 0xE9, 0x87, 0x8D,
     0xE8, 0xAF, 0x95])"

definition context_hint :: string where
  "context_hint = utf8
    [0xEF, 0xBC, 0x88, 0xE8, 0xBE, 0x93, 0xE5, 0x85, 0xA5, 0xE5, 0x8F, 0xAF, 0xE8, 0x83, 0xBD, 0xE8, 0xB6, 0x85, 0xE5, 0x87, 0xBA,
     0xE4, 0xB8, 0x8A, 0xE6, 0xB8, 0xB8, 0xE4, 0xB8, 0x8A, 0xE4, 0xB8, 0x8B, 0xE6, 0x96, 0x87, 0xE7, 0xAA, 0x97, 0xE5, 0x8F, 0xA3,
     0xEF, 0xBC, 0x89]"

definition err_all_requests_stopped :: relay_error where
  "err_all_requests_stopped = sentinel_error errAllRequestsStopped (utf8
    [0xE6, 0x9C, 0x8D, 0xE5, 0x8A, 0xA1, 0xE5, 0x99, 0xA8, 0xE8, 0xBF, 0x87, 0xE8, 0xBD, 0xBD, 0xEF, 0xBC, 0x8C, 0xE8, 0xAF, 0xB7,
     0xE7, 0xA8, 0x8D, 0xE5, 0x80, 0x99])"

definition err_all_channels_busy :: relay_error where
  "err_all_channels_busy = sentinel_error errAllChannelsBusy (utf8
    [0xE6, 0xB8, 0xA0, 0xE9, 0x81, 0x93, 0xE5, 0xB9, 0xB6, 0xE5, 0x8F, 0x91, 0xE5, 0xB7, 0xB2, 0xE6, 0xBB, 0xA1, 0xEF, 0xBC, 0x8C,
     0xE8, 0xAF, 0xB7, 0xE7, 0xA8, 0x8D, 0xE5, 0x80, 0x99, 0xE9, 0x87, 0x8D, 0xE8, 0xAF, 0x95])"

definition err_rounds_exceeded :: relay_error where
  "err_rounds_exceeded = sentinel_error errRoundsExceeded (utf8
    [0xE8, 0xAF, 0xB7, 0xE6, 0xB1, 0x82, 0xE5, 0xB0, 0x9D, 0xE8, 0xAF, 0x95, 0xE8, 0xBD, 0xAE, 0xE6, 0xAC, 0xA1, 0xE8, 0xB6, 0x85,
     0xE9, 0x99, 0x90])"

definition err_deadline_exceeded :: relay_error where
  "err_deadline_exceeded = sentinel_error errDeadlineExceeded (utf8
    [0xE8, 0xAF, 0xB7, 0xE6, 0xB1, 0x82, 0xE6, 0x80, 0xBB, 0xE6, 0x97, 0xB6, 0xE9, 0x95, 0xBF, 0xE8, 0xB6, 0x85, 0xE9, 0x99, 0x90])"

definition mask_error_prefix :: string where
  "mask_error_prefix = utf8
    [0xE8, 0x84, 0xB1, 0xE6, 0x95, 0x8F, 0xE5, 0xA4, 0xB1, 0xE8, 0xB4, 0xA5, 0x2C, 0x20, 0xE6, 0x8B, 0x92, 0xE7, 0xBB, 0x9D, 0xE6, 0x94,
     0xBE, 0xE8, 0xA1, 0x8C, 0xE6, 0x98, 0x8E, 0xE6, 0x96, 0x87, 0x3A, 0x20]"

definition err_context_window_too_small :: string where
  "err_context_window_too_small = utf8
    [0xE6, 0xB2, 0xA1, 0xE6, 0x9C, 0x89, 0xE5, 0x80, 0x99, 0xE9, 0x80, 0x89, 0xE6, 0xA8, 0xA1, 0xE5, 0x9E, 0x8B, 0xE7, 0x9A, 0x84,
     0xE6, 0x89, 0x8B, 0xE5, 0x8A, 0xA8, 0xE4, 0xB8, 0x8A, 0xE4, 0xB8, 0x8B, 0xE6, 0x96, 0x87, 0xE7, 0xAA, 0x97, 0xE5, 0x8F, 0xA3,
     0xE8, 0x83, 0xBD, 0xE5, 0xAE, 0xB9, 0xE7, 0xBA, 0xB3, 0xE5, 0xBD, 0x93, 0xE5, 0x89, 0x8D, 0xE8, 0xAF, 0xB7, 0xE6, 0xB1, 0x82]"

text \<open>\<open>seen\<close> maps members to the status they refused the request with.\<close>

definition requestInfeasibleError :: "(int, int) gomap \<Rightarrow> bool \<Rightarrow> relay_error option" where
  "requestInfeasibleError seen tooLargeContextHint =
    (if list_ex (\<lambda>(k, code). code = 413) seen
     then Some (if tooLargeContextHint
                then err_request_too_large\<lparr>er_text := er_text err_request_too_large @ context_hint\<rparr>
                else err_request_too_large)
     else if seen \<noteq> [] then Some err_context_window_exceeded
     else None)"

text \<open>\<^verbatim>\<open>rejectRequest\<close>: the status and the \<^verbatim>\<open>Retry-After\<close> header; \<open>busy\<close> is the delay of a WARP pool that is full.\<close>

definition rejectRequest :: "relay_error \<Rightarrow> int option \<Rightarrow> int \<times> int option" where
  "rejectRequest err busy =
    (if errors_Is (Some err) errAllRequestsStopped \<or> errors_Is (Some err) errAllChannelsBusy then (503, Some 5)
     else case busy of
            Some delay \<Rightarrow> (503, Some (max 1 ((delay + 10 ^ 9 - 1) div 10 ^ 9)))
          | None \<Rightarrow> if errors_Is (Some err) errRequestTooLarge then (413, None) else (400, None))"

subsection \<open>Refusals of the upstream\<close>

definition deterministicClientRejectionMarkers :: "string list" where
  "deterministicClientRejectionMarkers =
    [''invalid_request_error'', ''invalid_request'', ''context_length_exceeded'', ''maximum context length'',
     ''string_above_max_length'', ''prompt is too long'']"

definition isDeterministicClientResponse :: "int \<Rightarrow> string \<Rightarrow> bool" where
  "isDeterministicClientResponse status body =
    ((status = 400 \<or> status = 422) \<and> list_ex (contains (ToLower body)) deterministicClientRejectionMarkers)"

text \<open>\<open>http_body\<close> is the body of the \<^verbatim>\<open>httpclient.Error\<close> in the chain, empty when there is none.\<close>

definition isDeterministicRequestRejection :: "(relay_error \<Rightarrow> string) \<Rightarrow> relay_error option \<Rightarrow> bool" where
  "isDeterministicRequestRejection http_body err =
    (case err of
       None \<Rightarrow> False
     | Some e \<Rightarrow>
         (case UpstreamStatusCode (Some e) of
            None \<Rightarrow> False
          | Some status \<Rightarrow> isDeterministicClientResponse status (if http_body e \<noteq> [] then http_body e else er_text e)))"

definition contextOverflowHints :: "string list" where
  "contextOverflowHints =
    [''context_length'', ''context length'', ''context window'', ''maximum context'', ''too many tokens'', ''too long'',
     ''exceed'', ''max_tokens'', ''token limit'', utf8 [0xE4, 0xB8, 0x8A, 0xE4, 0xB8, 0x8B, 0xE6, 0x96, 0x87],
     utf8 [0xE8, 0xB6, 0x85, 0xE5, 0x87, 0xBA], utf8 [0xE8, 0xBF, 0x87, 0xE9, 0x95, 0xBF], utf8 [0xE5, 0xA4, 0xAA, 0xE9, 0x95, 0xBF]]"

definition looksLikeContextOverflow :: "string \<Rightarrow> bool" where
  "looksLikeContextOverflow detail = list_ex (contains (ToLower detail)) contextOverflowHints"

definition isContextOverflowRejection :: "(relay_error \<Rightarrow> string) \<Rightarrow> relay_error option \<Rightarrow> bool" where
  "isContextOverflowRejection http_body err =
    (case err of
       None \<Rightarrow> False
     | Some e \<Rightarrow> looksLikeContextOverflow (if http_body e \<noteq> [] then http_body e else er_text e))"


subsection \<open>Headers of the answer\<close>

text \<open>
  \<^verbatim>\<open>http.Header\<close> is an association list from keys to values. \<^verbatim>\<open>http.CanonicalHeaderKey\<close> capitalises each word
  of a key made of token characters and leaves any other key alone.
\<close>

type_synonym header = "(string, string list) gomap"

definition is_token_char :: "char \<Rightarrow> bool" where
  "is_token_char c \<longleftrightarrow> between c 48 57 \<or> between c 65 90 \<or> between c 97 122 \<or>
     c \<in> set ''!#$%&*+-.^_|~'' \<or> c = CHR 0x27 \<or> c = CHR 0x60"

definition upper_char :: "char \<Rightarrow> char" where
  "upper_char c = (if between c 97 122 then char_of ((of_char c :: nat) - 32) else c)"

definition lower_char :: "char \<Rightarrow> char" where
  "lower_char c = (if between c 65 90 then char_of ((of_char c :: nat) + 32) else c)"

fun canon_from :: "bool \<Rightarrow> string \<Rightarrow> string" where
  "canon_from up [] = []"
| "canon_from up (c # cs) = (if up then upper_char c else lower_char c) # canon_from (c = CHR ''-'') cs"

definition CanonicalHeaderKey :: "string \<Rightarrow> string" where
  "CanonicalHeaderKey key = (if list_all is_token_char key then canon_from True key else key)"

text \<open>\<^verbatim>\<open>strings.Split(s, ",")\<close>\<close>

fun split_comma :: "string \<Rightarrow> string list" where
  "split_comma [] = [[]]"
| "split_comma (c # cs) =
    (if c = CHR '','' then [] # split_comma cs
     else case split_comma cs of [] \<Rightarrow> [[c]] | part # parts \<Rightarrow> (c # part) # parts)"

definition droppedUpstreamHeaders :: "string list" where
  "droppedUpstreamHeaders =
    [''Set-Cookie'', ''Set-Cookie2'', ''Location'', ''Www-Authenticate'', ''Proxy-Authenticate'', ''Connection'', ''Keep-Alive'',
     ''Proxy-Authorization'', ''Te'', ''Trailer'', ''Transfer-Encoding'', ''Upgrade'', ''X-Accel-Redirect'', ''X-Accel-Buffering'',
     ''X-Sendfile'']"

definition connectionHeaderTokens :: "header \<Rightarrow> string list" where
  "connectionHeaderTokens src =
    (case map_of src ''Connection'' of
       None \<Rightarrow> []
     | Some raw \<Rightarrow>
         filter (\<lambda>name. name \<noteq> []) (map (\<lambda>part. CanonicalHeaderKey (TrimSpace part)) (concat (map split_comma raw))))"

definition header_passes :: "header \<Rightarrow> bool \<Rightarrow> string \<Rightarrow> bool" where
  "header_passes src streaming key =
    (let canon = CanonicalHeaderKey key in
     \<not> (canon \<in> set droppedUpstreamHeaders \<or> canon \<in> set (connectionHeaderTokens src)) \<and>
     \<not> (streaming \<and> canon = ''Content-Length''))"

definition copyUpstreamHeaders :: "header \<Rightarrow> header \<Rightarrow> bool \<Rightarrow> header" where
  "copyUpstreamHeaders dst src streaming =
    fold (\<lambda>(key, values) d. if header_passes src streaming key then mput key values d else d) src dst"

lemma copy_fold:
  "map_of (fold (\<lambda>(key, values) d. if P key then mput key values d else d) xs dst) k =
    (if P k then (case map_of (rev xs) k of Some v \<Rightarrow> Some v | None \<Rightarrow> map_of dst k) else map_of dst k)"
  by (induction xs arbitrary: dst) (auto simp: map_of_append map_add_def split: option.splits)

text \<open>
  The headers of an upstream answer (\<^verbatim>\<open>copyUpstreamHeaders\<close>). A header whose canonical name is one of the
  dropped ones, or is named by the \<^verbatim>\<open>Connection\<close> header, never changes what the client gets, nor does the
  length of a streamed answer; any other header of the answer replaces the client's.
\<close>

lemma upstream_headers_filtered:
  assumes "distinct (map fst src)"
  shows "map_of (copyUpstreamHeaders dst src streaming) key =
    (if CanonicalHeaderKey key \<in> set droppedUpstreamHeaders \<or> CanonicalHeaderKey key \<in> set (connectionHeaderTokens src) \<or>
        streaming \<and> CanonicalHeaderKey key = ''Content-Length''
     then map_of dst key
     else case map_of src key of Some v \<Rightarrow> Some v | None \<Rightarrow> map_of dst key)"
proof -
  have "map_of (rev src) key = map_of src key"
    using assms by (metis distinct_rev map_of_eqI map_of_inject_set rev_map set_map set_rev)
  then show ?thesis unfolding copyUpstreamHeaders_def copy_fold by (auto simp: header_passes_def Let_def)
qed

subsection \<open>The log of failed requests\<close>

text \<open>
  \<^verbatim>\<open>recordErrorLog\<close>: every failure is counted, running out of rounds is not logged, and the first three
  failures of a class keep the request body and the matches.
\<close>

record error_log =
  el_Class :: ErrClass
  el_Brief :: string
  el_Model :: string
  el_Channel :: string
  el_Body :: string
  el_Matches :: "MaskMatch list"

record error_logs =
  lg_total :: nat
  lg_counts :: "(ErrClass, int) gomap"
  lg_entries :: "error_log list"

definition completeLogQuota :: int where
  "completeLogQuota = 3"

definition recordErrorLog :: "RequestState \<Rightarrow> error_logs \<Rightarrow> error_logs" where
  "recordErrorLog r lg =
    (let lg1 = lg\<lparr>lg_total := Suc (lg_total lg)\<rparr> in
     if rq_Class r = ErrClassRoundsExhausted then lg1
     else
       let seq = mget0 (lg_counts lg1) (rq_Class r) + 1;
           full = seq \<le> completeLogQuota;
           entry = \<lparr>el_Class = rq_Class r, el_Brief = rq_Error r, el_Model = rq_Model r, el_Channel = rq_TargetChannel r,
                    el_Body = (if full then rq_body r else []), el_Matches = (if full then rq_MaskMatches r else [])\<rparr>
       in lg1\<lparr>lg_counts := mput (rq_Class r) seq (lg_counts lg1), lg_entries := lg_entries lg1 @ [entry]\<rparr>)"

definition full_entries :: "ErrClass \<Rightarrow> error_logs \<Rightarrow> error_log list" where
  "full_entries c lg = filter (\<lambda>e. el_Class e = c \<and> (el_Body e \<noteq> [] \<or> el_Matches e \<noteq> [])) (lg_entries lg)"

lemma error_log_quota_step:
  assumes "int (length (full_entries c lg)) \<le> min completeLogQuota (mget0 (lg_counts lg) c)"
  shows "int (length (full_entries c (recordErrorLog r lg))) \<le> min completeLogQuota (mget0 (lg_counts (recordErrorLog r lg)) c)"
  using assms by (auto simp: full_entries_def recordErrorLog_def Let_def mget0_def min_def split: if_splits)

text \<open>However many requests fail, at most three logged failures of a class carry bodies.\<close>

lemma error_log_quota:
  "int (length (full_entries c (fold recordErrorLog rs \<lparr>lg_total = 0, lg_counts = [], lg_entries = []\<rparr>))) \<le> completeLogQuota"
proof -
  have "int (length (full_entries c (fold recordErrorLog rs lg))) \<le> min completeLogQuota (mget0 (lg_counts (fold recordErrorLog rs lg)) c)"
    if "int (length (full_entries c lg)) \<le> min completeLogQuota (mget0 (lg_counts lg) c)" for lg
    using that by (induction rs arbitrary: lg) (simp_all add: error_log_quota_step del: min.bounded_iff)
  from this [of "\<lparr>lg_total = 0, lg_counts = [], lg_entries = []\<rparr>"] show ?thesis
    by (simp add: full_entries_def mget0_def completeLogQuota_def)
qed

end
