(* ===== verification/Context_Fit.thy ===== *)
theory Context_Fit
  imports Route_Pick Utf8_Text
begin

text \<open>
  \<^verbatim>\<open>internal/relay/context_fit.go\<close>, the model limits of \<^verbatim>\<open>channel.go\<close> and the candidate counts of \<^verbatim>\<open>route.go\<close>:
  the estimate of a request's tokens, the scan that leaves out members whose configured window is
  too small, and the number of members a request can reach through group references. Densities
  are \<^verbatim>\<open>float64\<close> in the code and rationals here.
\<close>

subsection \<open>Windows and estimates\<close>

text \<open>
  \<open>eqfold\<close> is \<^verbatim>\<open>strings.EqualFold\<close>. The second search is over a Go map: any entry that matches may be
  found, here the first of the list.
\<close>

definition lookupModelLimit ::
  "(string \<Rightarrow> string \<Rightarrow> bool) \<Rightarrow> (string, ChannelModelLimit) gomap \<Rightarrow> string \<Rightarrow> ChannelModelLimit option" where
  "lookupModelLimit eqfold limits modelName =
    (if limits = [] \<or> modelName = [] then None
     else case map_of limits modelName of
            Some l \<Rightarrow> Some l
          | None \<Rightarrow> map_option snd (find (\<lambda>(name, l). eqfold name modelName) limits))"

definition effectiveContextWindow ::
  "(string \<Rightarrow> string \<Rightarrow> bool) \<Rightarrow> (string, ChannelModelLimit) gomap \<Rightarrow> ChannelModel option \<Rightarrow> int" where
  "effectiveContextWindow eqfold limits channelModel =
    (case channelModel of
       None \<Rightarrow> 0
     | Some cm \<Rightarrow>
         (case lookupModelLimit eqfold limits (cm_Name cm) of
            None \<Rightarrow> 0
          | Some l \<Rightarrow> (case ml_ContextWindow l of None \<Rightarrow> 0 | Some v \<Rightarrow> if 0 < v then v else 0)))"

text \<open>An ASCII character is a rune of one byte; an invalid byte counts as U+FFFD.\<close>

definition estimateRequestTokens :: "string \<Rightarrow> int" where
  "estimateRequestTokens body =
    (let narrow = length (filter (\<lambda>r. length r = 1) (runes body));
         wide = length (filter (\<lambda>r. length r \<noteq> 1) (runes body))
     in int wide + int narrow div 4)"

definition defaultTokenDensity :: rat where
  "defaultTokenDensity = 40 / 71"

fun trim_right_char :: "char \<Rightarrow> string \<Rightarrow> string" where
  "trim_right_char c s = rev (dropWhile (\<lambda>x. x = c) (rev s))"

definition tokenDensityKey :: "string \<Rightarrow> string \<Rightarrow> string" where
  "tokenDensityKey baseURL modelName = trim_right_char (CHR ''/'') baseURL @ '':'' @ modelName"

definition clampTokenDensity :: "rat \<Rightarrow> rat" where
  "clampTokenDensity d = (if d < 1 / 4 then 1 / 4 else if 16 < d then 16 else d)"

text \<open>\<open>cache\<close> is \<^verbatim>\<open>tokenDensityCache\<close>.\<close>

definition modelTokenDensity :: "(string, rat) gomap \<Rightarrow> string \<Rightarrow> string \<Rightarrow> rat" where
  "modelTokenDensity cache baseURL modelName =
    (case map_of cache (tokenDensityKey baseURL modelName) of
       Some d \<Rightarrow> if 0 < d then d else defaultTokenDensity
     | None \<Rightarrow> defaultTokenDensity)"

definition scaleBaseTokens :: "int \<Rightarrow> rat \<Rightarrow> int" where
  "scaleBaseTokens base density = (if base \<le> 0 then 0 else max 1 \<lfloor>rat_of_int base * density\<rfloor>)"

definition estimateModelTokensFromBase :: "(string, rat) gomap \<Rightarrow> int \<Rightarrow> string \<Rightarrow> string \<Rightarrow> int" where
  "estimateModelTokensFromBase cache base baseURL modelName = scaleBaseTokens base (modelTokenDensity cache baseURL modelName)"

definition estimateModelTokens :: "(string, rat) gomap \<Rightarrow> string \<Rightarrow> string \<Rightarrow> string \<Rightarrow> int" where
  "estimateModelTokens cache body baseURL modelName =
    estimateModelTokensFromBase cache (estimateRequestTokens body) baseURL modelName"

definition estimateDefaultTokens :: "int \<Rightarrow> int" where
  "estimateDefaultTokens base = scaleBaseTokens base defaultTokenDensity"

definition contextFitsWindow :: "(string, rat) gomap \<Rightarrow> string \<Rightarrow> int \<Rightarrow> string \<Rightarrow> string \<Rightarrow> bool" where
  "contextFitsWindow cache body contextWindow baseURL modelName =
    (if contextWindow \<le> 0 then True else estimateModelTokens cache body baseURL modelName \<le> contextWindow)"

subsection \<open>The scan of a group\<close>

record contextFitScan =
  sc_baseTokens :: int
  sc_candidates :: nat
  sc_fitting :: nat
  sc_maxWindow :: int
  sc_skipped :: "int list"
  sc_blockedRefs :: "int list"

record fit_env =
  fe_route :: route_env
  fe_eqfold :: "string \<Rightarrow> string \<Rightarrow> bool"
  fe_density :: "(string, rat) gomap"

definition count_candidate :: "contextFitScan \<Rightarrow> contextFitScan" where
  "count_candidate s = s\<lparr>sc_candidates := Suc (sc_candidates s)\<rparr>"

definition count_fitting :: "contextFitScan \<Rightarrow> contextFitScan" where
  "count_fitting s = s\<lparr>sc_fitting := Suc (sc_fitting s)\<rparr>"

text \<open>The part of the loop for a member that is not a reference.\<close>

definition scan_leaf ::
  "fit_env \<Rightarrow> Group \<Rightarrow> GroupItem \<Rightarrow> contextFitScan \<times> relay_world \<Rightarrow> contextFitScan \<times> relay_world" where
  "scan_leaf fe g item sw =
    (let s = fst sw; w = snd sw in
     case it_ChannelModel item of
       None \<Rightarrow> (count_fitting (count_candidate s), w)
     | Some cm \<Rightarrow>
         (case env_channel (fe_route fe) (cm_ChannelID cm) of
            None \<Rightarrow> (count_fitting (count_candidate s), w)
          | Some c \<Rightarrow>
              if \<not> ch_Enabled c then (s, w)
              else
                let window = effectiveContextWindow (fe_eqfold fe) (ch_ModelLimits c) (Some cm);
                    s1 = count_candidate s;
                    s2 = (if sc_maxWindow s1 < window then s1\<lparr>sc_maxWindow := window\<rparr> else s1)
                in if window \<le> 0 \<or>
                      estimateModelTokensFromBase (fe_density fe) (sc_baseTokens s2) (ch_BaseURL c) (cm_Name cm) \<le> window
                   then (count_fitting s2, w)
                   else (s2\<lparr>sc_skipped := it_ID item # sc_skipped s2\<rparr>,
                         clearSessionStickyByItem (g_ID g) (it_ID item) w)))"

text \<open>\<open>depth\<close> is \<^verbatim>\<open>MaxGroupRefDepth - refDepth\<close>; \<open>visiting\<close> holds the groups on the path.\<close>

function scanGroup ::
  "fit_env \<Rightarrow> nat \<Rightarrow> int list \<Rightarrow> Group \<Rightarrow> contextFitScan \<times> relay_world \<Rightarrow> contextFitScan \<times> relay_world"
  and scan_items ::
  "fit_env \<Rightarrow> nat \<Rightarrow> int list \<Rightarrow> Group \<Rightarrow> GroupItem list \<Rightarrow> contextFitScan \<times> relay_world \<Rightarrow> contextFitScan \<times> relay_world"
where
  "scanGroup fe depth visiting g sw =
    (if g_ID g \<in> set visiting then sw else scan_items fe depth (g_ID g # visiting) g (g_Items g) sw)"
| "scan_items fe depth visiting g [] sw = sw"
| "scan_items fe depth visiting g (item # items) sw =
    (if g_Mode g = GroupModeManual \<and> it_ID item \<noteq> g_ActiveItemID g then scan_items fe depth visiting g items sw
     else if IsGroupRef item then
       (case depth of
          0 \<Rightarrow> scan_items fe depth visiting g items sw
        | Suc d \<Rightarrow>
            (case env_group (fe_route fe) (it_RefGroupName item) of
               None \<Rightarrow> scan_items fe depth visiting g items sw
             | Some ref \<Rightarrow>
                 let sw1 = scanGroup fe d visiting ref sw in
                 if sc_candidates (fst sw) < sc_candidates (fst sw1) \<and> sc_fitting (fst sw1) = sc_fitting (fst sw)
                 then scan_items fe depth visiting g items
                        ((fst sw1)\<lparr>sc_blockedRefs := it_ID item # sc_blockedRefs (fst sw1)\<rparr>,
                         clearSessionStickyByItem (g_ID g) (it_ID item) (snd sw1))
                 else scan_items fe depth visiting g items sw1))
     else scan_items fe depth visiting g items (scan_leaf fe g item sw))"
  by pat_completeness auto
termination
  by (relation "measures [\<lambda>x. case x of Inl (fe, d, v, g, sw) \<Rightarrow> d | Inr (fe, d, v, g, is, sw) \<Rightarrow> d,
        \<lambda>x. case x of Inl (fe, d, v, g, sw) \<Rightarrow> Suc (length (g_Items g)) | Inr (fe, d, v, g, is, sw) \<Rightarrow> length is]") auto

definition scanContextFit :: "fit_env \<Rightarrow> Group \<Rightarrow> string \<Rightarrow> relay_world \<Rightarrow> contextFitScan \<times> relay_world" where
  "scanContextFit fe g body w =
    scanGroup fe MaxGroupRefDepth [] g
      (\<lparr>sc_baseTokens = estimateRequestTokens body, sc_candidates = 0, sc_fitting = 0, sc_maxWindow = 0,
        sc_skipped = [], sc_blockedRefs = []\<rparr>, w)"

subsection \<open>What the scan computes\<close>

text \<open>The members a request can end at, path by path, and whether a member's window is large enough.\<close>

definition leaf_channel :: "fit_env \<Rightarrow> GroupItem \<Rightarrow> (ChannelModel \<times> Channel) option" where
  "leaf_channel fe item =
    (case it_ChannelModel item of
       None \<Rightarrow> None
     | Some cm \<Rightarrow> map_option (Pair cm) (env_channel (fe_route fe) (cm_ChannelID cm)))"

definition leaf_window :: "fit_env \<Rightarrow> GroupItem \<Rightarrow> int" where
  "leaf_window fe item =
    (case leaf_channel fe item of
       None \<Rightarrow> 0
     | Some (cm, c) \<Rightarrow> effectiveContextWindow (fe_eqfold fe) (ch_ModelLimits c) (Some cm))"

definition leaf_fits :: "fit_env \<Rightarrow> int \<Rightarrow> GroupItem \<Rightarrow> bool" where
  "leaf_fits fe base item =
    (case leaf_channel fe item of
       None \<Rightarrow> True
     | Some (cm, c) \<Rightarrow>
         leaf_window fe item \<le> 0 \<or> estimateModelTokensFromBase (fe_density fe) base (ch_BaseURL c) (cm_Name cm) \<le> leaf_window fe item)"

definition leaf_routable :: "fit_env \<Rightarrow> GroupItem \<Rightarrow> bool" where
  "leaf_routable fe item = (case leaf_channel fe item of None \<Rightarrow> True | Some (cm, c) \<Rightarrow> ch_Enabled c)"

definition scanned_items :: "Group \<Rightarrow> GroupItem list" where
  "scanned_items g = filter (\<lambda>i. g_Mode g = GroupModeManual \<longrightarrow> it_ID i = g_ActiveItemID g) (g_Items g)"

fun leaves :: "fit_env \<Rightarrow> nat \<Rightarrow> int list \<Rightarrow> Group \<Rightarrow> GroupItem list"
  and item_leaves :: "fit_env \<Rightarrow> nat \<Rightarrow> int list \<Rightarrow> GroupItem \<Rightarrow> GroupItem list"
where
  "leaves fe 0 visiting g = []"
| "leaves fe (Suc k) visiting g =
    (if g_ID g \<in> set visiting then []
     else concat (map (item_leaves fe k (g_ID g # visiting)) (scanned_items g)))"
| "item_leaves fe k visiting item =
    (if IsGroupRef item
     then (case env_group (fe_route fe) (it_RefGroupName item) of None \<Rightarrow> [] | Some ref \<Rightarrow> leaves fe k visiting ref)
     else if leaf_routable fe item then [item] else [])"

fun blocked_refs :: "fit_env \<Rightarrow> int \<Rightarrow> nat \<Rightarrow> int list \<Rightarrow> Group \<Rightarrow> int list" where
  "blocked_refs fe base 0 visiting g = []"
| "blocked_refs fe base (Suc k) visiting g =
    (if g_ID g \<in> set visiting then []
     else concat (map (\<lambda>item.
       if IsGroupRef item then
         (case env_group (fe_route fe) (it_RefGroupName item) of
            None \<Rightarrow> []
          | Some ref \<Rightarrow>
              (if leaves fe k (g_ID g # visiting) ref \<noteq> [] \<and> \<not> list_ex (leaf_fits fe base) (leaves fe k (g_ID g # visiting) ref)
               then [it_ID item] else []) @ blocked_refs fe base k (g_ID g # visiting) ref)
       else []) (scanned_items g)))"

definition scanned :: "fit_env \<Rightarrow> contextFitScan \<Rightarrow> GroupItem list \<Rightarrow> int list \<Rightarrow> contextFitScan \<Rightarrow> bool" where
  "scanned fe s ls bs s' \<longleftrightarrow>
     sc_baseTokens s' = sc_baseTokens s \<and> sc_candidates s' = sc_candidates s + length ls \<and>
     sc_fitting s' = sc_fitting s + length (filter (leaf_fits fe (sc_baseTokens s)) ls) \<and>
     sc_maxWindow s' = foldl max (sc_maxWindow s) (map (leaf_window fe) ls) \<and>
     set (sc_skipped s') = set (sc_skipped s) \<union> it_ID ` {i \<in> set ls. \<not> leaf_fits fe (sc_baseTokens s) i} \<and>
     set (sc_blockedRefs s') = set (sc_blockedRefs s) \<union> set bs"

lemma scanned_refl: "scanned fe s [] [] s"
  by (simp add: scanned_def)

lemma scanned_append:
  assumes "scanned fe s ls bs s1" and "scanned fe s1 ls' bs' s2"
  shows "scanned fe s (ls @ ls') (bs @ bs') s2"
  using assms by (auto simp: scanned_def)

lemma scan_leaf_scanned:
  assumes "\<not> IsGroupRef item" and "0 \<le> sc_maxWindow (fst sw)"
  shows "scanned fe (fst sw) (if leaf_routable fe item then [item] else []) [] (fst (scan_leaf fe g item sw))"
  using assms
  by (auto simp: scanned_def scan_leaf_def leaf_routable_def leaf_fits_def leaf_window_def leaf_channel_def Let_def
      count_candidate_def count_fitting_def split: option.splits)

lemma scanned_window: "scanned fe s ls bs s' \<Longrightarrow> 0 \<le> sc_maxWindow s \<Longrightarrow> 0 \<le> sc_maxWindow s'"
proof -
  have "0 \<le> foldl max (a::int) xs" if "0 \<le> a" for a xs using that by (induction xs arbitrary: a) auto
  then show "scanned fe s ls bs s' \<Longrightarrow> 0 \<le> sc_maxWindow s \<Longrightarrow> 0 \<le> sc_maxWindow s'" by (simp add: scanned_def)
qed

lemma filter_none: "length (filter P xs) = 0 \<longleftrightarrow> \<not> list_ex P xs"
  by (induction xs) auto

text \<open>The leaves and blocked references of a list of members of one group.\<close>

definition items_leaves :: "fit_env \<Rightarrow> nat \<Rightarrow> int list \<Rightarrow> Group \<Rightarrow> GroupItem list \<Rightarrow> GroupItem list" where
  "items_leaves fe k vis g items =
    concat (map (item_leaves fe k vis) (filter (\<lambda>i. g_Mode g = GroupModeManual \<longrightarrow> it_ID i = g_ActiveItemID g) items))"

definition item_blocked :: "fit_env \<Rightarrow> int \<Rightarrow> nat \<Rightarrow> int list \<Rightarrow> GroupItem \<Rightarrow> int list" where
  "item_blocked fe base k vis item =
    (if IsGroupRef item then
       (case env_group (fe_route fe) (it_RefGroupName item) of
          None \<Rightarrow> []
        | Some ref \<Rightarrow>
            (if leaves fe k vis ref \<noteq> [] \<and> \<not> list_ex (leaf_fits fe base) (leaves fe k vis ref) then [it_ID item] else [])
            @ blocked_refs fe base k vis ref)
     else [])"

definition items_blocked :: "fit_env \<Rightarrow> int \<Rightarrow> nat \<Rightarrow> int list \<Rightarrow> Group \<Rightarrow> GroupItem list \<Rightarrow> int list" where
  "items_blocked fe base k vis g items =
    concat (map (item_blocked fe base k vis) (filter (\<lambda>i. g_Mode g = GroupModeManual \<longrightarrow> it_ID i = g_ActiveItemID g) items))"

lemma leaves_Suc:
  "leaves fe (Suc k) vis g = (if g_ID g \<in> set vis then [] else items_leaves fe k (g_ID g # vis) g (g_Items g))"
  "blocked_refs fe base (Suc k) vis g = (if g_ID g \<in> set vis then [] else items_blocked fe base k (g_ID g # vis) g (g_Items g))"
  by (simp_all add: items_leaves_def items_blocked_def item_blocked_def [abs_def] scanned_items_def)

lemma items_ref:
  assumes "\<not> (g_Mode g = GroupModeManual \<and> it_ID item \<noteq> g_ActiveItemID g)"
  shows "items_leaves fe d vis g (item # items) = item_leaves fe d vis item @ items_leaves fe d vis g items"
    and "items_blocked fe base d vis g (item # items) = item_blocked fe base d vis item @ items_blocked fe base d vis g items"
  using assms by (auto simp: items_leaves_def items_blocked_def)

lemma scan_spec:
  shows "0 \<le> sc_maxWindow (fst sw) \<Longrightarrow>
      scanned fe (fst sw) (leaves fe (Suc d) vis g) (blocked_refs fe (sc_baseTokens (fst sw)) (Suc d) vis g) (fst (scanGroup fe d vis g sw))"
    and "0 \<le> sc_maxWindow (fst sw) \<Longrightarrow>
      scanned fe (fst sw) (items_leaves fe d vis g items) (items_blocked fe (sc_baseTokens (fst sw)) d vis g items)
        (fst (scan_items fe d vis g items sw))"
proof (induction fe d vis g sw and fe d vis g items sw rule: scanGroup_scan_items.induct)
  case (1 fe d vis g sw)
  then show ?case by (auto simp: scanned_refl leaves_Suc simp del: scan_items.simps leaves.simps blocked_refs.simps)
next
  case (2 fe d vis g sw)
  then show ?case by (simp add: items_leaves_def items_blocked_def scanned_refl)
next
  case (3 fe d vis g item items sw)
  note IH = "3.IH" and w = "3.prems"
  consider (inactive) "g_Mode g = GroupModeManual \<and> it_ID item \<noteq> g_ActiveItemID g"
    | (ref) "\<not> (g_Mode g = GroupModeManual \<and> it_ID item \<noteq> g_ActiveItemID g)" "IsGroupRef item"
    | (leaf) "\<not> (g_Mode g = GroupModeManual \<and> it_ID item \<noteq> g_ActiveItemID g)" "\<not> IsGroupRef item" by blast
  then show ?case
  proof cases
    case inactive
    with IH(1) w show ?thesis by (simp add: items_leaves_def items_blocked_def)
  next
    case leaf
    let ?sw = "scan_leaf fe g item sw"
    have l: "scanned fe (fst sw) (if leaf_routable fe item then [item] else []) [] (fst ?sw)"
      by (rule scan_leaf_scanned [OF leaf(2) w])
    have "scanned fe (fst ?sw) (items_leaves fe d vis g items) (items_blocked fe (sc_baseTokens (fst ?sw)) d vis g items)
        (fst (scan_items fe d vis g items ?sw))"
      using IH(7) [OF leaf] scanned_window [OF l w] by simp
    note after = this
    have step: "scan_items fe d vis g (item # items) sw = scan_items fe d vis g items ?sw"
      by (simp only: scan_items.simps(2) leaf if_False)
    have n: "item_leaves fe d vis item = (if leaf_routable fe item then [item] else [])"
        "item_blocked fe (sc_baseTokens (fst sw)) d vis item = []"
      using leaf(2) by (simp_all add: item_blocked_def)
    have b: "sc_baseTokens (fst ?sw) = sc_baseTokens (fst sw)" using l by (simp add: scanned_def)
    show ?thesis
      using scanned_append [OF l after] unfolding step items_ref [OF leaf(1)] n b by simp
  next
    case ref
    show ?thesis
    proof (cases "\<exists>d' rg. d = Suc d' \<and> env_group (fe_route fe) (it_RefGroupName item) = Some rg")
      case False
      then have n: "item_leaves fe d vis item = []" "item_blocked fe (sc_baseTokens (fst sw)) d vis item = []"
        using ref(2) by (cases d; cases "env_group (fe_route fe) (it_RefGroupName item)"; simp add: item_blocked_def)+
      have step: "scan_items fe d vis g (item # items) sw = scan_items fe d vis g items sw"
        using False unfolding scan_items.simps(2) if_not_P [OF ref(1)] if_P [OF ref(2)]
        by (cases d; cases "env_group (fe_route fe) (it_RefGroupName item)") simp_all
      have "scanned fe (fst sw) (items_leaves fe d vis g items) (items_blocked fe (sc_baseTokens (fst sw)) d vis g items)
          (fst (scan_items fe d vis g items sw))"
        using IH(2,3) [OF ref] False w by (cases d; cases "env_group (fe_route fe) (it_RefGroupName item)") auto
      then show ?thesis unfolding step items_ref [OF ref(1)] n by simp
    next
      case True
      then obtain d' rg where r: "d = Suc d'" "env_group (fe_route fe) (it_RefGroupName item) = Some rg" by blast
      define sw1 where "sw1 = scanGroup fe d' vis rg sw"
      let ?ls = "leaves fe d vis rg"
      have g: "scanned fe (fst sw) ?ls (blocked_refs fe (sc_baseTokens (fst sw)) d vis rg) (fst sw1)"
        using IH(4) [OF ref r] w unfolding sw1_def r(1) by simp
      have bl: "sc_candidates (fst sw) < sc_candidates (fst sw1) \<and> sc_fitting (fst sw1) = sc_fitting (fst sw) \<longleftrightarrow>
          ?ls \<noteq> [] \<and> \<not> list_ex (leaf_fits fe (sc_baseTokens (fst sw))) ?ls"
        using g unfolding scanned_def by (simp add: filter_none [symmetric])
      define sw2 where "sw2 = (if ?ls \<noteq> [] \<and> \<not> list_ex (leaf_fits fe (sc_baseTokens (fst sw))) ?ls
        then ((fst sw1)\<lparr>sc_blockedRefs := it_ID item # sc_blockedRefs (fst sw1)\<rparr>, clearSessionStickyByItem (g_ID g) (it_ID item) (snd sw1))
        else sw1)"
      have s2: "scanned fe (fst sw) (item_leaves fe d vis item) (item_blocked fe (sc_baseTokens (fst sw)) d vis item) (fst sw2)"
        using g ref(2) r(2) by (auto simp: scanned_def sw2_def item_blocked_def)
      have step: "scan_items fe d vis g (item # items) sw = scan_items fe d vis g items sw2"
        unfolding scan_items.simps(2) if_not_P [OF ref(1)] if_P [OF ref(2)] sw2_def bl [symmetric] by (simp add: r sw1_def Let_def)
      have "scanned fe (fst sw2) (items_leaves fe d vis g items) (items_blocked fe (sc_baseTokens (fst sw2)) d vis g items)
          (fst (scan_items fe d vis g items sw2))"
        using IH(5,6) [OF ref r sw1_def [unfolded r(1)]] scanned_window [OF s2 w] bl unfolding sw2_def r(1) by (auto split: if_splits)
      from scanned_append [OF s2 this] s2 show ?thesis
        unfolding step items_ref [OF ref(1)] by (simp add: scanned_def)
    qed
  qed
qed


text \<open>
  C7. The context scan is exact (\<^verbatim>\<open>scanContextFit\<close>). Over the members a request can end at, path by
  path through the references: the candidates are all members whose channel is not disabled, the
  fitting ones are those whose configured window is unset or holds the estimate for their model,
  the largest window is their maximum, the skipped members are the ones that do not fit and the
  blocked references are the ones behind which there is a member and none fits.
\<close>

theorem context_scan_exact:
  fixes fe g body w
  defines "s \<equiv> fst (scanContextFit fe g body w)" and "base \<equiv> estimateRequestTokens body"
    and "ls \<equiv> leaves fe (Suc MaxGroupRefDepth) [] g"
  shows "sc_candidates s = length ls \<and> sc_fitting s = length (filter (leaf_fits fe base) ls) \<and>
    sc_maxWindow s = foldl max 0 (map (leaf_window fe) ls) \<and>
    set (sc_skipped s) = it_ID ` {i \<in> set ls. \<not> leaf_fits fe base i} \<and>
    set (sc_blockedRefs s) = set (blocked_refs fe base (Suc MaxGroupRefDepth) [] g)"
  using scan_spec(1) [of "(\<lparr>sc_baseTokens = base, sc_candidates = 0, sc_fitting = 0, sc_maxWindow = 0,
        sc_skipped = [], sc_blockedRefs = []\<rparr>, w)" fe MaxGroupRefDepth "[]" g]
  unfolding s_def ls_def scanContextFit_def base_def [symmetric] scanned_def by simp

lemma nothing_fits:
  assumes "sc_fitting (fst (scanContextFit fe g body w)) = 0" and "i \<in> set (leaves fe (Suc MaxGroupRefDepth) [] g)"
  shows "\<not> leaf_fits fe (estimateRequestTokens body) i"
proof -
  have "scanned fe \<lparr>sc_baseTokens = estimateRequestTokens body, sc_candidates = 0, sc_fitting = 0, sc_maxWindow = 0,
        sc_skipped = [], sc_blockedRefs = []\<rparr> (leaves fe (Suc MaxGroupRefDepth) [] g)
        (blocked_refs fe (estimateRequestTokens body) (Suc MaxGroupRefDepth) [] g) (fst (scanContextFit fe g body w))"
    using scan_spec(1) [of "(\<lparr>sc_baseTokens = estimateRequestTokens body, sc_candidates = 0, sc_fitting = 0, sc_maxWindow = 0,
        sc_skipped = [], sc_blockedRefs = []\<rparr>, w)" fe MaxGroupRefDepth "[]" g]
    unfolding scanContextFit_def by simp
  with assms show ?thesis by (auto simp: scanned_def filter_empty_conv)
qed

subsection \<open>How many members a request can reach\<close>

text \<open>
  The counts of \<^verbatim>\<open>route.go\<close> share one \<^verbatim>\<open>visited\<close> set over the whole search, which the functions return.
  The recursion is bounded by fuel, and \<open>None\<close> is running out of it.
\<close>

function routableLeafCountFrom :: "nat \<Rightarrow> route_env \<Rightarrow> int \<Rightarrow> Group \<Rightarrow> int list \<Rightarrow> (nat \<times> int list) option"
  and leaf_count_items :: "nat \<Rightarrow> route_env \<Rightarrow> int \<Rightarrow> GroupItem list \<Rightarrow> int list \<Rightarrow> (nat \<times> int list) option"
  and routableItemLeafCount :: "nat \<Rightarrow> route_env \<Rightarrow> int \<Rightarrow> GroupItem \<Rightarrow> int list \<Rightarrow> (nat \<times> int list) option"
where
  "routableLeafCountFrom fuel env now g visited =
    (if g_ID g \<in> set visited then Some (0, visited)
     else case fuel of
            0 \<Rightarrow> None
          | Suc k \<Rightarrow> leaf_count_items k env now (g_Items g) (g_ID g # visited))"
| "leaf_count_items fuel env now [] visited = Some (0, visited)"
| "leaf_count_items fuel env now (item # items) visited =
    (if IsGroupRef item then
       (case env_group env (it_RefGroupName item) of
          None \<Rightarrow> leaf_count_items fuel env now items visited
        | Some ref \<Rightarrow>
            if g_ID ref \<in> set visited then leaf_count_items fuel env now items visited
            else if g_Mode ref = GroupModeManual then
              (let next_item = itemOf ref (g_ActiveItemID ref) in
               if it_ID next_item \<noteq> 0 then
                 (case fuel of
                    0 \<Rightarrow> None
                  | Suc k \<Rightarrow>
                      (case routableItemLeafCount k env now next_item (g_ID ref # visited) of
                         None \<Rightarrow> None
                       | Some (n, v) \<Rightarrow> map_option (apfst ((+) n)) (leaf_count_items fuel env now items v)))
               else leaf_count_items fuel env now items (g_ID ref # visited))
            else
              (case routableLeafCountFrom fuel env now ref visited of
                 None \<Rightarrow> None
               | Some (n, v) \<Rightarrow> map_option (apfst ((+) n)) (leaf_count_items fuel env now items v)))
     else if channelDisabledForRouting env now item then leaf_count_items fuel env now items visited
     else map_option (apfst Suc) (leaf_count_items fuel env now items visited))"
| "routableItemLeafCount fuel env now item visited =
    (if \<not> IsGroupRef item then Some (if channelDisabledForRouting env now item then 0 else 1, visited)
     else case env_group env (it_RefGroupName item) of
            None \<Rightarrow> Some (0, visited)
          | Some ref \<Rightarrow>
              if g_ID ref \<in> set visited then Some (0, visited)
              else if g_Mode ref = GroupModeManual then
                (let next_item = itemOf ref (g_ActiveItemID ref) in
                 if it_ID next_item = 0 then Some (0, g_ID ref # visited)
                 else case fuel of
                        0 \<Rightarrow> None
                      | Suc k \<Rightarrow> routableItemLeafCount k env now next_item (g_ID ref # visited))
              else routableLeafCountFrom fuel env now ref visited)"
  by pat_completeness auto
termination
  by (relation "measures [\<lambda>x. case x of Inl (f, e, n, g, v) \<Rightarrow> f | Inr (Inl (f, e, n, is, v)) \<Rightarrow> f | Inr (Inr (f, e, n, i, v)) \<Rightarrow> f,
        \<lambda>x. case x of Inl (f, e, n, g, v) \<Rightarrow> 0 | Inr (Inl (f, e, n, is, v)) \<Rightarrow> Suc (length is) | Inr (Inr (f, e, n, i, v)) \<Rightarrow> 1]") auto

declare routableLeafCountFrom.simps [simp del] routableItemLeafCount.simps [simp del]

definition routableLeafCount :: "nat \<Rightarrow> route_env \<Rightarrow> int \<Rightarrow> Group \<Rightarrow> nat option" where
  "routableLeafCount fuel env now g = map_option fst (routableLeafCountFrom fuel env now g [])"

definition routableCandidateCount :: "nat \<Rightarrow> route_env \<Rightarrow> int \<Rightarrow> Group \<Rightarrow> nat option" where
  "routableCandidateCount fuel env now g =
    (if g_Mode g \<noteq> GroupModeManual then routableLeafCount fuel env now g
     else let item = itemOf g (g_ActiveItemID g) in
          if it_ID item = 0 then Some 0
          else map_option fst (routableItemLeafCount fuel env now item [g_ID g]))"


text \<open>One round of the loop is the count of its member.\<close>

lemma leaf_count_step:
  "leaf_count_items k env now (item # items) v =
    (case routableItemLeafCount k env now item v of
       None \<Rightarrow> None
     | Some (n, v1) \<Rightarrow> map_option (apfst ((+) n)) (leaf_count_items k env now items v1))"
proof -
  have z: "apfst ((+) (0::nat)) = (\<lambda>x. x)" and o: "apfst ((+) (Suc 0)) = apfst Suc"
    by (auto simp: fun_eq_iff apfst_def)
  note u = routableItemLeafCount.simps [of k env now item v] and w = leaf_count_items.simps(2) [of k env now item items v]
  show ?thesis
  proof (cases "IsGroupRef item")
    case False
    then show ?thesis unfolding u w by (simp add: z o option.map_ident)
  next
    case True
    show ?thesis
    proof (cases "env_group env (it_RefGroupName item)")
      case None
      with True show ?thesis unfolding u w by (simp add: z option.map_ident)
    next
      case (Some ref)
      with True show ?thesis unfolding u w by (cases k) (simp_all add: z option.map_ident Let_def)
    qed
  qed
qed

text \<open>Every descent visits a new group, so as much fuel as there are unvisited groups is enough.\<close>

lemma unvisited_step:
  assumes "finite S" and "x \<in> S" and "x \<notin> set v" and "card (S - set v) \<le> k"
  obtains j where "k = Suc j" and "card (S - set (x # v)) \<le> j"
proof -
  have "card (S - set v - {x}) = card (S - set v) - 1" "0 < card (S - set v)"
    using assms by (auto simp: card_gt_0_iff card_Diff_singleton)
  moreover have "S - set (x # v) = S - set v - {x}" by auto
  ultimately show thesis using assms(4) that [of "k - 1"] by simp
qed

definition counted :: "nat \<Rightarrow> (nat \<Rightarrow> (nat \<times> int list) option) \<Rightarrow> int list \<Rightarrow> bool" where
  "counted k f v \<longleftrightarrow> (\<exists>n v'. set v \<subseteq> set v' \<and> (\<forall>k'\<ge>k. f k' = Some (n, v')))"

lemma countedI: "set v \<subseteq> set v' \<Longrightarrow> (\<And>k'. k \<le> k' \<Longrightarrow> f k' = Some (n, v')) \<Longrightarrow> counted k f v"
  unfolding counted_def by blast

lemma countedE:
  assumes "counted k f v"
  obtains n v' where "set v \<subseteq> set v'" and "\<forall>k'\<ge>k. f k' = Some (n, v')"
  using assms unfolding counted_def by blast

lemma from_counted:
  assumes fin: "finite S" and g: "g_ID g \<in> S" and c: "card (S - set v) \<le> k"
    and IH: "\<And>j w. j < k \<Longrightarrow> card (S - set w) \<le> j \<Longrightarrow> counted j (\<lambda>k. leaf_count_items k env now (g_Items g) w) w"
  shows "counted k (\<lambda>k. routableLeafCountFrom k env now g v) v"
proof (cases "g_ID g \<in> set v")
  case True
  then show ?thesis by (intro countedI [of v v]) (auto simp: routableLeafCountFrom.simps)
next
  case False
  then obtain j where j: "k = Suc j" "card (S - set (g_ID g # v)) \<le> j" using unvisited_step [OF fin g _ c] by blast
  have "j < k" using j(1) by simp
  from IH [OF this j(2)] obtain n v' where r: "set (g_ID g # v) \<subseteq> set v'"
      "\<forall>k'\<ge>j. leaf_count_items k' env now (g_Items g) (g_ID g # v) = Some (n, v')" by (rule countedE) blast
  show ?thesis
  proof (rule countedI [of v v'])
    fix k' assume "k \<le> k'"
    then obtain i where "k' = Suc i" "j \<le> i" using j(1) by (cases k') auto
    then show "routableLeafCountFrom k' env now g v = Some (n, v')" using r(2) False by (simp add: routableLeafCountFrom.simps)
  qed (use r(1) in auto)
qed

lemma item_counted:
  assumes fin: "finite S" and env: "\<And>name g. env_group env name = Some g \<Longrightarrow> g_ID g \<in> S" and c: "card (S - set v) \<le> k"
    and sub_group: "\<And>g. g_ID g \<in> S \<Longrightarrow> counted k (\<lambda>k. routableLeafCountFrom k env now g v) v"
    and IH: "\<And>j w i. j < k \<Longrightarrow> card (S - set w) \<le> j \<Longrightarrow> counted j (\<lambda>k. routableItemLeafCount k env now i w) w"
  shows "counted k (\<lambda>k. routableItemLeafCount k env now item v) v"
proof (cases "\<exists>ref. IsGroupRef item \<and> env_group env (it_RefGroupName item) = Some ref \<and> g_ID ref \<notin> set v")
  case False
  define n where "n = (if IsGroupRef item \<or> channelDisabledForRouting env now item then 0 else 1 :: nat)"
  have "routableItemLeafCount k' env now item v = Some (n, v)" for k'
    using False by (auto simp: n_def routableItemLeafCount.simps [of _ env now item v] split: option.splits)
  then show ?thesis by (intro countedI [of v v]) auto
next
  case True
  then obtain ref where r: "IsGroupRef item" "env_group env (it_RefGroupName item) = Some ref" "g_ID ref \<notin> set v" by blast
  obtain j where j: "k = Suc j" "card (S - set (g_ID ref # v)) \<le> j" using unvisited_step [OF fin env [OF r(2)] r(3) c] by blast
  let ?next = "itemOf ref (g_ActiveItemID ref)"
  note u = routableItemLeafCount.simps [of _ env now item v]
  consider (none) "g_Mode ref = GroupModeManual" "it_ID ?next = 0" | (manual) "g_Mode ref = GroupModeManual" "it_ID ?next \<noteq> 0"
    | (down) "g_Mode ref \<noteq> GroupModeManual" by blast
  then show ?thesis
  proof cases
    case none
    then show ?thesis using r by (intro countedI [of v "g_ID ref # v"]) (auto simp: u)
  next
    case manual
    have "j < k" using j(1) by simp
    from IH [OF this j(2), of ?next] obtain n v' where 1: "set (g_ID ref # v) \<subseteq> set v'"
        "\<forall>k'\<ge>j. routableItemLeafCount k' env now ?next (g_ID ref # v) = Some (n, v')" by (rule countedE) blast
    show ?thesis
    proof (rule countedI [of v v'])
      fix k' assume "k \<le> k'"
      then obtain i where "k' = Suc i" "j \<le> i" using j(1) by (cases k') auto
      then show "routableItemLeafCount k' env now item v = Some (n, v')" using r manual 1(2) by (simp add: u)
    qed (use 1(1) in auto)
  next
    case down
    then have "routableItemLeafCount k' env now item v = routableLeafCountFrom k' env now ref v" for k' using r by (simp add: u)
    then show ?thesis using sub_group [OF env [OF r(2)]] by simp
  qed
qed

lemma items_counted:
  assumes fin: "finite S" and item: "\<And>v item. card (S - set v) \<le> k \<Longrightarrow> counted k (\<lambda>k. routableItemLeafCount k env now item v) v"
    and c: "card (S - set v) \<le> k"
  shows "counted k (\<lambda>k. leaf_count_items k env now items v) v"
  using c
proof (induction items arbitrary: v)
  case Nil
  show ?case by (rule countedI [of v v]) auto
next
  case (Cons i items)
  from item [OF Cons.prems, of i] obtain n v1 where 1: "set v \<subseteq> set v1"
      "\<forall>k'\<ge>k. routableItemLeafCount k' env now i v = Some (n, v1)" by (rule countedE) blast
  then have "card (S - set v1) \<le> card (S - set v)" by (intro card_mono) (auto simp: fin)
  with Cons.prems have "card (S - set v1) \<le> k" by simp
  from Cons.IH [OF this] obtain m v2 where 2: "set v1 \<subseteq> set v2"
      "\<forall>k'\<ge>k. leaf_count_items k' env now items v1 = Some (m, v2)" by (rule countedE) blast
  show ?case
  proof (rule countedI [of v v2])
    fix k' assume "k \<le> k'"
    then show "leaf_count_items k' env now (i # items) v = Some (n + m, v2)" using 1(2) 2(2) unfolding leaf_count_step by simp
  qed (use 1(1) 2(1) in auto)
qed

lemma count_enough:
  assumes fin: "finite S" and env: "\<And>name g. env_group env name = Some g \<Longrightarrow> g_ID g \<in> S"
  shows "(\<forall>v item. card (S - set v) \<le> k \<longrightarrow> counted k (\<lambda>k. routableItemLeafCount k env now item v) v) \<and>
    (\<forall>v g. card (S - set v) \<le> k \<longrightarrow> g_ID g \<in> S \<longrightarrow> counted k (\<lambda>k. routableLeafCountFrom k env now g v) v)"
proof (induction k rule: less_induct)
  case (less k)
  have g: "counted k (\<lambda>k. routableLeafCountFrom k env now g v) v" if "card (S - set v) \<le> k" "g_ID g \<in> S" for g v
    by (rule from_counted [OF fin that(2,1)]) (use less.IH items_counted [OF fin] in blast)
  moreover have "counted k (\<lambda>k. routableItemLeafCount k env now i v) v" if "card (S - set v) \<le> k" for i v
    by (rule item_counted [OF fin env that g]) (use less.IH that in auto)
  ultimately show ?case by blast
qed

text \<open>
  The candidate count ends (\<^verbatim>\<open>routableCandidateCount\<close>). However the groups refer to each other, in
  cycles too, the count returns: as much fuel as there are groups is enough, and more fuel does
  not change the count.
\<close>

lemma candidate_count_ends:
  assumes "finite S" and "\<And>name h. env_group env name = Some h \<Longrightarrow> g_ID h \<in> S" and "g_ID g \<in> S"
  shows "\<exists>n. \<forall>fuel\<ge>card S. routableCandidateCount fuel env now g = Some n"
proof -
  have ok: "(\<forall>v item. card (S - set v) \<le> card S \<longrightarrow> counted (card S) (\<lambda>k. routableItemLeafCount k env now item v) v) \<and>
    (\<forall>v g. card (S - set v) \<le> card S \<longrightarrow> g_ID g \<in> S \<longrightarrow> counted (card S) (\<lambda>k. routableLeafCountFrom k env now g v) v)"
    by (rule count_enough [OF assms(1)]) (rule assms(2))
  have "card (S - set [g_ID g]) \<le> card S" by (intro card_mono) (use assms in auto)
  with ok have i: "counted (card S) (\<lambda>k. routableItemLeafCount k env now i [g_ID g]) [g_ID g]" for i by blast
  have f: "counted (card S) (\<lambda>k. routableLeafCountFrom k env now g []) []" using ok assms(3) by auto
  show ?thesis
    using i [of "itemOf g (g_ActiveItemID g)"] f
    by (cases "g_Mode g = GroupModeManual"; cases "it_ID (itemOf g (g_ActiveItemID g)) = 0")
      (auto simp: routableCandidateCount_def routableLeafCount_def Let_def elim!: countedE)
qed


text \<open>A group that refers to itself beside one member.\<close>

definition loop_group :: Group where
  "loop_group = demo_group\<lparr>g_Items := [(demo_item 10)\<lparr>it_ChannelModelID := 0, it_RefGroupName := ''loop''\<rparr>, demo_item 20]\<rparr>"

definition loop_env :: route_env where
  "loop_env = demo_env\<lparr>env_group := (\<lambda>name. if name = ''loop'' then Some loop_group else None)\<rparr>"

end
