(* ===== verification/Relay_Loop.thy ===== *)
theory Relay_Loop
  imports Relay_Reply Context_Fit Route_World Key_Select Mask_Integration
begin

text \<open>
  \<^verbatim>\<open>Forward\<close> of \<^verbatim>\<open>internal/relay/handler.go\<close>: the loop that serves one request. A round is a chain of
  sections, in the order of the source; each one continues, starts the next round or returns. The
  state is the request's own variables and the shared state of the packages it calls; everything a
  round learns from outside (clock, contexts, upstream answers) is an observation.
\<close>

subsection \<open>State and observations\<close>

record loop_st =
  lp_body :: string
  lp_failureCounts :: "(int, memberFailureCounts) gomap"
  lp_mapping :: "nat option"
  lp_maskDone :: bool
  lp_exclude :: int
  lp_refSkips :: nat
  lp_nonRetryable :: "int list"
  lp_infeasible :: "(int, int) gomap"
  lp_tooLargeHint :: bool
  lp_contextSkipped :: "int list"
  lp_maxWindow :: int
  lp_busyRejected :: "int list"
  lp_rounds :: int
  lp_config :: GroupRelayConfig
  lp_earlyEofRetried :: "int list"
  lp_sanitizeRetried :: "int list"
  lp_accountRetries :: "(int, int) gomap"
  lp_allCooldownClears :: int

definition init_loop :: "string \<Rightarrow> loop_st" where
  "init_loop body = \<lparr>lp_body = body, lp_failureCounts = [], lp_mapping = None, lp_maskDone = False, lp_exclude = 0,
     lp_refSkips = 0, lp_nonRetryable = [], lp_infeasible = [], lp_tooLargeHint = False, lp_contextSkipped = [],
     lp_maxWindow = 0, lp_busyRejected = [], lp_rounds = 0, lp_config = DefaultGroupRelayConfig, lp_earlyEofRetried = [],
     lp_sanitizeRetried = [], lp_accountRetries = [], lp_allCooldownClears = 0\<rparr>"

text \<open>The shared state, the replies and bodies written to the client, and the pauses made.\<close>

record fwd_world =
  fw_relay :: relay_world
  fw_req :: request_world
  fw_keys :: keyhealth
  fw_mask :: MaskEngine
  fw_logs :: error_logs
  fw_replies :: "(int \<times> int option) list"
  fw_written :: "string list"
  fw_waits :: "rat list"

type_synonym fwd = "loop_st \<times> fwd_world"

record fwd_call =
  fc_id :: nat
  fc_model :: string
  fc_format :: string
  fc_api :: APIFormat
  fc_streaming :: bool
  fc_scopeKey :: string
  fc_startedAt :: int
  fc_texts :: "string \<Rightarrow> nat list"
  fc_clientLabel :: string
  fc_upstreamLabel :: "Channel \<Rightarrow> ChannelModel \<Rightarrow> string"
  fc_proxyLabel :: "Channel \<Rightarrow> Channel \<Rightarrow> string"
  fc_resolveProxy :: "string \<Rightarrow> int \<Rightarrow> string \<Rightarrow> string option"
  fc_httpBody :: "relay_error \<Rightarrow> string"
  fc_setModel :: "string \<Rightarrow> string \<Rightarrow> relay_error + string"
  fc_setUsage :: "string \<Rightarrow> relay_error + string"
  fc_inject :: "Channel \<Rightarrow> string \<Rightarrow> string"
  fc_sanitize :: "string \<Rightarrow> string \<times> bool"
  fc_echo :: "string \<Rightarrow> string"
  fc_codec :: stream_codec
  fc_encode :: "StreamEvent \<Rightarrow> relay_error + string"
  fc_budget :: "int \<Rightarrow> int \<Rightarrow> string"
  fc_terminal :: "string list"
  fc_aggregate :: "StreamEvent list \<Rightarrow> relay_error + string \<times> Usage option"

text \<open>How \<^verbatim>\<open>pickWarpSlot\<close> and the resolution of its address ended.\<close>

datatype warp_pick = WarpLeased string | WarpBusy | WarpFailed relay_error

record upstream_answer =
  ua_body :: string
  ua_usage :: "Usage option"
  ua_terminated :: bool
  ua_window :: "stream_turn list"
  ua_events :: "stream_turn list"
  ua_streamErr :: "relay_error option"
  ua_idle :: bool
  ua_flush :: "string list"

text \<open>
  The observations of a round. \<open>ob_now\<close> is the clock in nanoseconds when the round starts, \<open>ob_end\<close>
  when its answer is in; \<open>ob_ctx\<dots>\<close> are the answers of \<^verbatim>\<open>ctx.Err()\<close> at the places that ask; \<open>ob_waiting\<close>
  and \<open>ob_sending\<close> are what other goroutines do during a pause and during the call of the upstream.
\<close>

record round_obs =
  ob_now :: int
  ob_end :: int
  ob_ctx0 :: "string option"
  ob_fit :: fit_env
  ob_fuel :: nat
  ob_maskenv :: mask_env
  ob_maskcfg :: "MaskConfig option"
  ob_maskErr :: "mask_error \<Rightarrow> relay_error"
  ob_pick :: pick_oracle
  ob_hops :: pick_oracle
  ob_wait :: wait_outcome
  ob_waiting :: "fwd_world \<Rightarrow> fwd_world"
  ob_core :: "int \<Rightarrow> Channel option"
  ob_accountErr :: "relay_error option"
  ob_account :: string
  ob_ctx1 :: "string option"
  ob_rpmErr :: "string option"
  ob_warp :: warp_pick
  ob_cancel :: nat
  ob_sending :: "fwd_world \<Rightarrow> fwd_world"
  ob_buildErr :: "relay_error option"
  ob_sent :: "relay_error + upstream_answer"
  ob_roundDone :: bool
  ob_cause :: "relay_error option"
  ob_ctx2 :: "string option"
  ob_write :: "relay_error option"
  ob_ctx3 :: "string option"

abbreviation ob_ms :: "round_obs \<Rightarrow> int" where
  "ob_ms ob \<equiv> ob_now ob div 10 ^ 6"

abbreviation ob_end_ms :: "round_obs \<Rightarrow> int" where
  "ob_end_ms ob \<equiv> ob_end ob div 10 ^ 6"

abbreviation ob_env :: "round_obs \<Rightarrow> route_env" where
  "ob_env ob \<equiv> fe_route (ob_fit ob)"

subsection \<open>Control flow\<close>

text \<open>\<open>Next\<close> goes on in the round, \<open>Again\<close> is \<^verbatim>\<open>continue\<close>, \<open>Done\<close> is \<^verbatim>\<open>return\<close>.\<close>

datatype 'a flow = Next 'a | Again | Done

definition bind_flow :: "'a flow \<times> fwd \<Rightarrow> ('a \<Rightarrow> fwd \<Rightarrow> 'b flow \<times> fwd) \<Rightarrow> 'b flow \<times> fwd" where
  "bind_flow r k = (case r of (Next a, s) \<Rightarrow> k a s | (Again, s) \<Rightarrow> (Again, s) | (Done, s) \<Rightarrow> (Done, s))"

definition on_relay :: "(relay_world \<Rightarrow> relay_world) \<Rightarrow> fwd \<Rightarrow> fwd" where
  "on_relay f s = (fst s, (snd s)\<lparr>fw_relay := f (fw_relay (snd s))\<rparr>)"

definition on_req :: "(request_world \<Rightarrow> request_world) \<Rightarrow> fwd \<Rightarrow> fwd" where
  "on_req f s = (fst s, (snd s)\<lparr>fw_req := f (fw_req (snd s))\<rparr>)"

definition on_loop :: "(loop_st \<Rightarrow> loop_st) \<Rightarrow> fwd \<Rightarrow> fwd" where
  "on_loop f s = (f (fst s), snd s)"

definition release_hops :: "refHop list \<Rightarrow> fwd \<Rightarrow> fwd" where
  "release_hops hops = on_relay (releaseRefChainHops hops)"

definition clear_sticky :: "int \<Rightarrow> int \<Rightarrow> fwd \<Rightarrow> fwd" where
  "clear_sticky gid itemID = on_relay (clearSessionStickyByItem gid itemID)"

definition set_exclude :: "int \<Rightarrow> fwd \<Rightarrow> fwd" where
  "set_exclude i = on_loop (\<lambda>l. l\<lparr>lp_exclude := i\<rparr>)"

definition log_request :: "fwd_call \<Rightarrow> fwd \<Rightarrow> fwd" where
  "log_request fc s =
    (case map_of (qw_heap (fw_req (snd s))) (fc_id fc) of
       None \<Rightarrow> s
     | Some r \<Rightarrow> (fst s, (snd s)\<lparr>fw_logs := recordErrorLog r (fw_logs (snd s))\<rparr>))"

definition reply :: "relay_error \<Rightarrow> fwd \<Rightarrow> fwd" where
  "reply err s = (fst s, (snd s)\<lparr>fw_replies := fw_replies (snd s) @ [rejectRequest err None]\<rparr>)"

text \<open>\<^verbatim>\<open>markFailed; recordErrorLog; rejectRequest; return\<close>\<close>

definition fail_request :: "fwd_call \<Rightarrow> relay_error \<Rightarrow> relay_error \<Rightarrow> int \<Rightarrow> fwd \<Rightarrow> 'a flow \<times> fwd" where
  "fail_request fc stateErr replyErr now s =
    (Done, reply replyErr (log_request fc (on_req (markFailed (fc_texts fc) (fc_id fc) stateErr [] None now) s)))"

definition cancel_request :: "fwd_call \<Rightarrow> string \<Rightarrow> int \<Rightarrow> fwd \<Rightarrow> 'a flow \<times> fwd" where
  "cancel_request fc err now s = (Done, on_req (markCanceled (fc_texts fc) (fc_id fc) err [] None now) s)"

text \<open>\<^verbatim>\<open>if !request.wait(ctx, seconds) { return }; continue\<close>\<close>

definition wait_again :: "fwd_call \<Rightarrow> round_obs \<Rightarrow> rat \<Rightarrow> fwd \<Rightarrow> 'a flow \<times> fwd" where
  "wait_again fc ob seconds s =
    (let w = ob_waiting ob ((snd s)\<lparr>fw_waits := fw_waits (snd s) @ [seconds]\<rparr>) in
     case request_wait (fc_texts fc) (fc_id fc) (ob_wait ob) (ob_now ob) (fw_req w) of
       (ok, q) \<Rightarrow> (if ok then Again else Done, (fst s, w\<lparr>fw_req := q\<rparr>)))"

definition stop_requested :: "fwd_call \<Rightarrow> fwd \<Rightarrow> bool" where
  "stop_requested fc s =
    (case map_of (qw_heap (fw_req (snd s))) (fc_id fc) of None \<Rightarrow> False | Some r \<Rightarrow> rq_stopRequested r)"

definition candidates :: "round_obs \<Rightarrow> Group \<Rightarrow> nat" where
  "candidates ob g = (case routableCandidateCount (ob_fuel ob) (ob_env ob) (ob_ms ob) g of None \<Rightarrow> 0 | Some n \<Rightarrow> n)"


subsection \<open>Before a member is chosen\<close>

definition round_guards :: "fwd_call \<Rightarrow> round_obs \<Rightarrow> fwd \<Rightarrow> unit flow \<times> fwd" where
  "round_guards fc ob s =
    (case ob_ctx0 ob of
       Some err \<Rightarrow> cancel_request fc err (ob_now ob) s
     | None \<Rightarrow>
         if stop_requested fc s then cancel_request fc errAdminStopped (ob_now ob) s
         else if qw_allStopped (fw_req (snd s)) then fail_request fc err_all_requests_stopped err_all_requests_stopped (ob_now ob) s
         else
           let s1 = on_loop (\<lambda>l. l\<lparr>lp_rounds := lp_rounds l + 1\<rparr>) s in
           if maxRequestRounds (lp_config (fst s1)) < lp_rounds (fst s1)
           then fail_request fc err_rounds_exceeded err_no_available_channels (ob_now ob) s1
           else if requestDeadlineExceeded (lp_config (fst s1)) (fc_startedAt fc) (ob_now ob)
           then fail_request fc err_deadline_exceeded err_no_available_channels (ob_now ob) s1
           else (Next (), s1))"

definition round_group :: "fwd_call \<Rightarrow> round_obs \<Rightarrow> fwd \<Rightarrow> Group flow \<times> fwd" where
  "round_group fc ob s =
    (case env_group (ob_env ob) (fc_model fc) of
       None \<Rightarrow> wait_again fc ob (MemberRetryIntervalSeconds DefaultGroupRelayConfig) s
     | Some g \<Rightarrow> (Next g, on_loop (\<lambda>l. l\<lparr>lp_config := g_RelayConfig g\<rparr>) s))"

definition display_matches :: "Match list \<Rightarrow> Request_State.MaskMatch list" where
  "display_matches ms = map (\<lambda>m. \<lparr>MaskMatch.mm_Label = Match.mm_Label m,
     MaskMatch.mm_Original = Match.mm_Original m, MaskMatch.mm_Placeholder = Match.mm_Placeholder m\<rparr>) ms"

definition set_masked :: "nat \<Rightarrow> request_world \<Rightarrow> request_world" where
  "set_masked i = with_request i (\<lambda>r. put_request (r\<lparr>rq_Masked := True\<rparr>))"

definition round_mask :: "fwd_call \<Rightarrow> round_obs \<Rightarrow> Group \<Rightarrow> fwd \<Rightarrow> unit flow \<times> fwd" where
  "round_mask fc ob g s =
    (if lp_maskDone (fst s) then (Next (), s)
     else case applyRequestMask (ob_maskenv ob) (ob_maskcfg ob) (lp_body (fst s)) (fc_scopeKey fc)
                 (MaskEnabled (g_RelayConfig g)) (fw_mask (snd s)) of
            (res, engine) \<Rightarrow>
              let s1 = (fst s, (snd s)\<lparr>fw_mask := engine\<rparr>) in
              (case res of
                 Inl e \<Rightarrow>
                   let err = (ob_maskErr ob e)\<lparr>er_text := mask_error_prefix @ er_text (ob_maskErr ob e)\<rparr>
                   in fail_request fc err err (ob_now ob) s1
               | Inr (masked, mapping, matches) \<Rightarrow>
                   let (trimmed, truncated) = truncateMaskMatches matches;
                       s2 = (if mapping \<noteq> None then on_req (set_masked (fc_id fc)) s1 else s1);
                       s3 = on_req (applyMaskResult (fc_id fc) masked (display_matches trimmed) truncated) s2
                   in (Next (), on_loop (\<lambda>l. l\<lparr>lp_body := masked, lp_mapping := mapping, lp_maskDone := True\<rparr>) s3)))"

text \<open>The members this round leaves out, and whether no candidate's window holds the request.\<close>

definition round_context :: "round_obs \<Rightarrow> Group \<Rightarrow> fwd \<Rightarrow> (int list \<times> bool) flow \<times> fwd" where
  "round_context ob g s =
    (let infeasible = map fst (lp_infeasible (fst s)) in
     if \<not> ContextFitEnabled (lp_config (fst s)) then (Next (lp_contextSkipped (fst s) @ infeasible, False), s)
     else case scanContextFit (ob_fit ob) g (lp_body (fst s)) (fw_relay (snd s)) of
            (scan, w) \<Rightarrow>
              let skipped = fold List.insert (sc_skipped scan) (lp_contextSkipped (fst s));
                  l = (fst s)\<lparr>lp_contextSkipped := skipped, lp_maxWindow := max (lp_maxWindow (fst s)) (sc_maxWindow scan)\<rparr>
              in (Next (skipped @ sc_blockedRefs scan @ infeasible, 0 < sc_candidates scan \<and> sc_fitting scan = 0),
                  (l, (snd s)\<lparr>fw_relay := w\<rparr>)))"

definition context_detail :: "fwd \<Rightarrow> relay_error" where
  "context_detail s = plain_error (err_context_window_too_small @
     utf8 [0xEF, 0xBC, 0x88, 0xE8, 0xAF, 0xB7, 0xE6, 0xB1, 0x82, 0xE7, 0xBA, 0xA6, 0x20] @
     Itoa (estimateDefaultTokens (estimateRequestTokens (lp_body (fst s)))) @
     utf8 [0x20, 0x74, 0x6F, 0x6B, 0x65, 0x6E, 0xEF, 0xBC, 0x8C, 0xE6, 0x89, 0x8B, 0xE5, 0x8A, 0xA8, 0xE7, 0xAA, 0x97, 0xE5, 0x8F,
       0xA3, 0xE6, 0x9C, 0x80, 0xE5, 0xA4, 0xA7, 0xE5, 0x80, 0xBC, 0x20] @
     Itoa (lp_maxWindow (fst s)) @ utf8 [0x20, 0x74, 0x6F, 0x6B, 0x65, 0x6E, 0xEF, 0xBC, 0x89])"

subsection \<open>Choosing a member\<close>

definition choose_item :: "fwd_call \<Rightarrow> round_obs \<Rightarrow> Group \<Rightarrow> int list \<Rightarrow> fwd \<Rightarrow> GroupItem \<times> fwd" where
  "choose_item fc ob g skipped s =
    (let (item, w) = (if sessionStickyEnabled g (fc_scopeKey fc)
           then pickSessionStickyLocked (ob_env ob) g (fc_scopeKey fc) (lp_exclude (fst s)) skipped (ob_ms ob) (fw_relay (snd s))
           else (zero_GroupItem, fw_relay (snd s)));
         (item, w) = (if it_ID item = 0
           then pickGroupItemSkipping (ob_env ob) (ob_pick ob) g (lp_exclude (fst s)) skipped (fc_format fc) (ob_ms ob) w
           else (item, w))
     in (item, (fst s, (snd s)\<lparr>fw_relay := w\<rparr>)))"

definition no_item :: "fwd_call \<Rightarrow> round_obs \<Rightarrow> Group \<Rightarrow> bool \<Rightarrow> fwd \<Rightarrow> 'a flow \<times> fwd" where
  "no_item fc ob g allSkipped s =
    (let n = candidates ob g in
     if allSkipped \<or> (0 < n \<and> n \<le> length (lp_contextSkipped (fst s)))
     then fail_request fc (context_detail s) (context_detail s) (ob_now ob) s
     else if 0 < AllCooldownRetryBaseSeconds (g_RelayConfig g) \<and> allMembersInCooldown (ob_env ob) g (ob_ms ob) (fw_relay (snd s))
     then
       let s1 = on_relay (\<lambda>w. snd (ResetGroupCooldown (g_ID g) w))
                  (on_loop (\<lambda>l. l\<lparr>lp_allCooldownClears := lp_allCooldownClears l + 1\<rparr>) s)
       in wait_again fc ob (of_int (all_cooldown_interval (g_RelayConfig g) (lp_allCooldownClears (fst s1)))) s1
     else wait_again fc ob (routeRecheckIntervalSeconds (g_RelayConfig g)) (set_exclude 0 s))"

definition round_select :: "fwd_call \<Rightarrow> round_obs \<Rightarrow> Group \<Rightarrow> int list \<times> bool \<Rightarrow> fwd \<Rightarrow> GroupItem flow \<times> fwd" where
  "round_select fc ob g sel s =
    (case choose_item fc ob g (fst sel) s of
       (item, s1) \<Rightarrow> if it_ID item = 0 then no_item fc ob g (snd sel) s1 else (Next item, s1))"

text \<open>A reference that leads nowhere: the whole chain is released and the member is skipped once.\<close>

definition broken_chain :: "fwd_call \<Rightarrow> round_obs \<Rightarrow> Group \<Rightarrow> GroupItem \<Rightarrow> refHop list \<Rightarrow> nat \<Rightarrow> fwd \<Rightarrow> 'a flow \<times> fwd" where
  "broken_chain fc ob g item hops failedIdx s =
    (let s1 = on_loop (\<lambda>l. l\<lparr>lp_refSkips := Suc (lp_refSkips l)\<rparr>) s in
     if length (g_Items g) < lp_refSkips (fst s1)
     then wait_again fc ob (routeRecheckIntervalSeconds (g_RelayConfig g))
            (release_hops hops (set_exclude 0 (on_loop (\<lambda>l. l\<lparr>lp_refSkips := 0\<rparr>) s1)))
     else
       let broken = hops ! failedIdx;
           s2 = clear_sticky (g_ID (hop_group broken)) (it_ID (hop_item broken)) (release_hops hops s1);
           s3 = (if it_ID (hop_item broken) \<noteq> it_ID item then clear_sticky (g_ID g) (it_ID item) s2 else s2)
       in (Again, set_exclude (it_ID item) s3))"

definition round_chain :: "fwd_call \<Rightarrow> round_obs \<Rightarrow> Group \<Rightarrow> int list \<Rightarrow> GroupItem \<Rightarrow> fwd \<Rightarrow> refHop list flow \<times> fwd" where
  "round_chain fc ob g skipped item s =
    (case resolveGroupRefChainSkipping (ob_env ob) (ob_hops ob) g item (fc_scopeKey fc) (lp_exclude (fst s)) skipped
            (fc_format fc) (ob_ms ob) (fw_relay (snd s)) of
       ((hops, failed), w) \<Rightarrow>
         let s1 = (fst s, (snd s)\<lparr>fw_relay := w\<rparr>) in
         (case failed of
            Some k \<Rightarrow> broken_chain fc ob g item hops k s1
          | None \<Rightarrow> (Next hops, on_loop (\<lambda>l. l\<lparr>lp_refSkips := 0\<rparr>) s1)))"

subsection \<open>The member's channel\<close>

definition leaf_group :: "refHop list \<Rightarrow> Group" where
  "leaf_group hops = hop_group (last hops)"

definition leaf_item :: "refHop list \<Rightarrow> GroupItem" where
  "leaf_item hops = hop_item (last hops)"

definition clear_leaf :: "refHop list \<Rightarrow> fwd \<Rightarrow> fwd" where
  "clear_leaf hops = clear_sticky (g_ID (leaf_group hops)) (it_ID (leaf_item hops))"

definition unusable_member :: "fwd_call \<Rightarrow> round_obs \<Rightarrow> refHop list \<Rightarrow> fwd \<Rightarrow> 'a flow \<times> fwd" where
  "unusable_member fc ob hops s =
    wait_again fc ob (routeRecheckIntervalSeconds (g_RelayConfig (leaf_group hops))) (set_exclude 0 (clear_leaf hops (release_hops hops s)))"

definition round_channel :: "fwd_call \<Rightarrow> round_obs \<Rightarrow> refHop list \<Rightarrow> fwd \<Rightarrow> (ChannelModel \<times> Channel) flow \<times> fwd" where
  "round_channel fc ob hops s =
    (case it_ChannelModel (leaf_item hops) of
       None \<Rightarrow> unusable_member fc ob hops s
     | Some cm \<Rightarrow>
         (case ob_core ob (cm_ChannelID cm) of
            None \<Rightarrow> unusable_member fc ob hops s
          | Some c \<Rightarrow> if \<not> ch_Enabled c then unusable_member fc ob hops s else (Next (cm, c), s)))"

text \<open>The body is rewritten for the member: its model name, the usage option of a stream, reasoning.\<close>

definition round_body :: "fwd_call \<Rightarrow> round_obs \<Rightarrow> refHop list \<Rightarrow> ChannelModel \<Rightarrow> Channel \<Rightarrow> fwd \<Rightarrow> unit flow \<times> fwd" where
  "round_body fc ob hops cm c s =
    (case fc_setModel fc (lp_body (fst s)) (cm_Name cm) of
       Inl e \<Rightarrow> fail_request fc e e (ob_now ob) (release_hops hops s)
     | Inr body1 \<Rightarrow>
         (case (if fc_streaming fc \<and> fc_api fc = APIFormatOpenAIChatCompletion then fc_setUsage fc body1 else Inr body1) of
            Inl e \<Rightarrow> fail_request fc e e (ob_now ob) (release_hops hops s)
          | Inr body2 \<Rightarrow>
              (Next (), on_req (setRelayMode (fc_id fc) (if env_native (ob_env ob) c cm (fc_format fc) then ''passthrough'' else ''converted''))
                 (on_loop (\<lambda>l. l\<lparr>lp_body := fc_inject fc c body2\<rparr>) s))))"

definition round_window :: "fwd_call \<Rightarrow> round_obs \<Rightarrow> refHop list \<Rightarrow> ChannelModel \<Rightarrow> Channel \<Rightarrow> fwd \<Rightarrow> unit flow \<times> fwd" where
  "round_window fc ob hops cm c s =
    (let window = effectiveContextWindow (fe_eqfold (ob_fit ob)) (ch_ModelLimits c) (Some cm) in
     if ContextFitEnabled (lp_config (fst s)) \<and>
        \<not> contextFitsWindow (fe_density (ob_fit ob)) (lp_body (fst s)) window (ch_BaseURL c) (cm_Name cm)
     then
       let s1 = on_loop (\<lambda>l. l\<lparr>lp_contextSkipped := List.insert (it_ID (leaf_item hops)) (lp_contextSkipped l),
                                lp_maxWindow := max (lp_maxWindow l) window\<rparr>) s;
           s2 = clear_leaf hops (release_hops hops s1)
       in if candidates ob (hop_group (hd hops)) \<le> length (lp_contextSkipped (fst s2))
          then fail_request fc (context_detail s2) (context_detail s2) (ob_now ob) s2
          else (Again, set_exclude (it_ID (leaf_item hops)) s2)
     else (Next (), s))"


subsection \<open>Dispatch\<close>

text \<open>What a round sends with: the chain, the model, the channel and its copy for the chosen key.\<close>

record leg =
  le_hops :: "refHop list"
  le_cm :: ChannelModel
  le_channel :: Channel
  le_index :: nat
  le_key :: ChannelKey
  le_effective :: Channel
  le_account :: string
  le_lease :: bool

definition leg_group :: "leg \<Rightarrow> Group" where
  "leg_group le = leaf_group (le_hops le)"

definition leg_item :: "leg \<Rightarrow> GroupItem" where
  "leg_item le = leaf_item (le_hops le)"

definition key_error_of :: "key_error \<Rightarrow> relay_error" where
  "key_error_of e = plain_error (case e of ErrAllChannelKeysCooling \<Rightarrow> ''all keys cooling'' | _ \<Rightarrow> ''proxy template invalid'')"

definition zero_Channel :: Channel where
  "zero_Channel = \<lparr>ch_ID = 0, ch_Name = [], ch_Type = [], ch_Enabled = False, ch_IsFree = False, ch_Builtin = False, ch_BaseURL = [], ch_Key = [], ch_Keys = [], ch_FixedReply = [], ch_Proxy = False, ch_AutoSync = False, ch_OpencodeCompat = False,
     ch_OpencodeLane = [], ch_Keyed = False, ch_CustomHeader = [], ch_ParamOverride = None, ch_MatchRegex = None, ch_Tags = [], ch_Sort = 0,
     ch_PassThroughBodyEnabled = False, ch_ChannelProxy = None,
     ch_ModelLimits = [], ch_RateLimitRPM = 0, ch_MaxConcurrent = 0\<rparr>"

definition choose_key ::
  "fwd_call \<Rightarrow> round_obs \<Rightarrow> refHop list \<Rightarrow> ChannelModel \<Rightarrow> Channel \<Rightarrow> fwd \<Rightarrow> (leg \<times> relay_error option) \<times> fwd" where
  "choose_key fc ob hops cm c s =
    (case selectChannelKey c (ob_now ob) (fw_keys (snd s)) of
       ((idx, key, ok), ks) \<Rightarrow>
         let (eff, err) = (if \<not> ok then (c, Some (key_error_of ErrAllChannelKeysCooling))
                           else case effectiveChannelForKey (fc_resolveProxy fc) c key of
                                  Inl e \<Rightarrow> (zero_Channel, Some (key_error_of e))
                                | Inr eff \<Rightarrow> (eff, None));
             err2 = (if err = None \<and> \<not> isWarpProxy c then ob_accountErr ob else err);
             account = (if err2 = None \<and> \<not> isWarpProxy c then ob_account ob else [])
         in ((\<lparr>le_hops = hops, le_cm = cm, le_channel = c, le_index = idx, le_key = key, le_effective = eff,
               le_account = account, le_lease = False\<rparr>, err2),
             (fst s, (snd s)\<lparr>fw_keys := ks\<rparr>)))"

definition round_target :: "fwd_call \<Rightarrow> round_obs \<Rightarrow> leg \<Rightarrow> string \<Rightarrow> RoundTarget" where
  "round_target fc ob le thinking =
    \<lparr>rt_MemberID = it_ID (leg_item le), rt_ChannelID = ch_ID (le_channel le), rt_ChannelName = ch_Name (le_channel le),
     rt_Model = cm_Name (le_cm le), rt_KeyLabel = channelKeyLabel (int (le_index le)) (le_key le), rt_ThinkingLevel = thinking,
     rt_ClientFormat = fc_clientLabel fc, rt_UpstreamType = fc_upstreamLabel fc (le_channel le) (le_cm le),
     rt_Passthrough = env_native (ob_env ob) (le_channel le) (le_cm le) (fc_format fc),
     rt_ProxyAddr = fc_proxyLabel fc (le_channel le) (le_effective le)\<rparr>"

text \<open>\<^verbatim>\<open>recordRouteFailureIfReal\<close> on the leaf of the chain; the flag says the member is to be left.\<close>

definition leaf_failure :: "leg \<Rightarrow> relay_error \<Rightarrow> int \<Rightarrow> fwd \<Rightarrow> bool \<times> fwd" where
  "leaf_failure le err now s =
    (case recordRouteFailureIfReal (leg_group le) (it_ID (leg_item le)) (isInfrastructureError (Some err)) now
            (lp_failureCounts (fst s)) (fw_relay (snd s)) of
       (leave, counts, w) \<Rightarrow> (leave, ((fst s)\<lparr>lp_failureCounts := counts\<rparr>, (snd s)\<lparr>fw_relay := w\<rparr>)))"

text \<open>The chain above the leaf is released, the leaf gets the failure: on to the next member, or again after a pause.\<close>

definition settle_failure :: "fwd_call \<Rightarrow> round_obs \<Rightarrow> leg \<Rightarrow> relay_error \<Rightarrow> int \<Rightarrow> fwd \<Rightarrow> 'a flow \<times> fwd" where
  "settle_failure fc ob le err now s =
    (case leaf_failure le err now (release_hops (butlast (le_hops le)) s) of
       (leave, s1) \<Rightarrow>
         if leave then (Again, set_exclude (it_ID (leg_item le)) (clear_leaf (le_hops le) s1))
         else wait_again fc ob (MemberRetryIntervalSeconds (g_RelayConfig (leg_group le))) (set_exclude 0 s1))"

definition dispatch_failed :: "fwd_call \<Rightarrow> round_obs \<Rightarrow> leg \<Rightarrow> relay_error \<Rightarrow> fwd \<Rightarrow> 'a flow \<times> fwd" where
  "dispatch_failed fc ob le err s =
    (case ob_ctx1 ob of
       Some e \<Rightarrow> cancel_request fc e (ob_now ob) (release_hops (le_hops le) s)
     | None \<Rightarrow>
         let s1 = on_req (startRound (fc_id fc) (Some (ob_cancel ob)) (round_target fc ob le []) (ob_now ob)) s;
             s2 = on_req (finishRound (fc_id fc) AttemptFailed (classifyRound (Some err) False None) (er_text err) (ob_now ob)) s1;
             s3 = on_req (releaseRoundLifecycle (fc_id fc)) s2
         in settle_failure fc ob le err (ob_ms ob) s3)"

definition round_dispatch ::
  "fwd_call \<Rightarrow> round_obs \<Rightarrow> refHop list \<Rightarrow> ChannelModel \<Rightarrow> Channel \<Rightarrow> fwd \<Rightarrow> leg flow \<times> fwd" where
  "round_dispatch fc ob hops cm c s =
    (case choose_key fc ob hops cm c s of
       ((le, Some err), s1) \<Rightarrow> dispatch_failed fc ob le err s1
     | ((le, None), s1) \<Rightarrow> (Next le, s1))"

text \<open>The channel's rate limit: a wait that is broken off ends the request.\<close>

definition round_rpm :: "fwd_call \<Rightarrow> round_obs \<Rightarrow> leg \<Rightarrow> fwd \<Rightarrow> unit flow \<times> fwd" where
  "round_rpm fc ob le s =
    (case ob_rpmErr ob of
       None \<Rightarrow> (Next (), s)
     | Some e \<Rightarrow>
         let s1 = release_hops (le_hops le) s
         in cancel_request fc (if stop_requested fc s1 then errAdminStopped else e) (ob_now ob) s1)"

definition needs_slot :: "Channel \<Rightarrow> bool" where
  "needs_slot c = (isWarpProxy c \<and> (case ch_ChannelProxy c of None \<Rightarrow> False | Some p \<Rightarrow> HasAccountPlaceholder p))"

definition round_slot :: "fwd_call \<Rightarrow> round_obs \<Rightarrow> leg \<Rightarrow> fwd \<Rightarrow> leg flow \<times> fwd" where
  "round_slot fc ob le s =
    (if \<not> needs_slot (le_channel le) then (Next le, s)
     else case ob_warp ob of
            WarpLeased account \<Rightarrow> (Next (le\<lparr>le_account := account, le_lease := True\<rparr>), s)
          | WarpBusy \<Rightarrow> wait_again fc ob (routeRecheckIntervalSeconds (g_RelayConfig (leg_group le))) (release_hops (le_hops le) s)
          | WarpFailed e \<Rightarrow> fail_request fc e e (ob_now ob) (release_hops (le_hops le) s))"

subsection \<open>The call of the upstream\<close>

definition isAuthRejectionError :: "relay_error option \<Rightarrow> bool" where
  "isAuthRejectionError err = (UpstreamStatusCode err \<in> {Some 401, Some 403})"

definition isKeyRateLimitError :: "relay_error option \<Rightarrow> bool" where
  "isKeyRateLimitError err = (UpstreamStatusCode err = Some 429)"

definition isWarpProxyRejection :: "relay_error option \<Rightarrow> bool" where
  "isWarpProxyRejection err =
    (case err of
       None \<Rightarrow> False
     | Some e \<Rightarrow>
         let t = ToLower (er_text e) in
         contains t ''407'' \<or> contains t ''proxy authentication required'' \<or> contains t ''connection not allowed'' \<or>
         contains t ''proxyconnect'' \<or> contains t ''503'' \<and> (contains t ''proxy'' \<or> contains t ''tunnel''))"

definition isWarpSlotUnavailable :: "relay_error option \<Rightarrow> bool" where
  "isWarpSlotUnavailable err = (case err of None \<Rightarrow> False | Some e \<Rightarrow> contains (ToLower (er_text e)) ''service unavailable'')"

text \<open>A refusal that is blamed on the proxy account or WARP slot, not on the member or its key.\<close>

definition proxy_rejected :: "round_obs \<Rightarrow> leg \<Rightarrow> relay_error option \<Rightarrow> bool" where
  "proxy_rejected ob le err =
    (if err = None then False
     else if le_lease le then
       (if ob_buildErr ob \<noteq> None then False
        else case UpstreamStatusCode err of
               Some code \<Rightarrow> code = 403 \<or> code = 429 \<or> isWarpProxyRejection err
             | None \<Rightarrow> isWarpProxyRejection err \<or> isWarpSlotUnavailable err)
     else if le_account le \<noteq> [] then UpstreamStatusCode err \<in> {Some 403, Some 429}
     else isWarpProxy (le_channel le) \<and> UpstreamStatusCode err \<in> {Some 403, Some 429})"

definition memberTimeoutError :: "bool \<Rightarrow> int \<Rightarrow> relay_error" where
  "memberTimeoutError streaming seconds = plain_error (
     (if streaming
      then utf8 [0xE7, 0xAD, 0x89, 0xE5, 0xBE, 0x85, 0xE6, 0x88, 0x90, 0xE5, 0x91, 0x98, 0xE6, 0xB5, 0x81, 0xE5, 0xBC, 0x8F, 0xE9, 0xA6,
             0x96, 0xE4, 0xB8, 0xAA, 0xE4, 0xBA, 0x8B, 0xE4, 0xBB, 0xB6, 0xE8, 0xB6, 0x85, 0xE6, 0x97, 0xB6, 0x28]
      else utf8 [0xE7, 0xAD, 0x89, 0xE5, 0xBE, 0x85, 0xE6, 0x88, 0x90, 0xE5, 0x91, 0x98, 0xE9, 0x9D, 0x9E, 0xE6, 0xB5, 0x81, 0xE5, 0xBC,
             0x8F, 0xE5, 0xAE, 0x8C, 0xE6, 0x95, 0xB4, 0xE5, 0x93, 0x8D, 0xE5, 0xBA, 0x94, 0xE8, 0xB6, 0x85, 0xE6, 0x97, 0xB6, 0x28]) @
     Itoa seconds @ utf8 [0x20, 0xE7, 0xA7, 0x92, 0x29])"

text \<open>The round is opened, the upstream is called while others go on, and a stream that came too late is an error.\<close>

definition round_send :: "fwd_call \<Rightarrow> round_obs \<Rightarrow> leg \<Rightarrow> fwd \<Rightarrow> (relay_error + upstream_answer) \<times> fwd" where
  "round_send fc ob le s =
    (let limit = lookupModelLimit (fe_eqfold (ob_fit ob)) (ch_ModelLimits (le_channel le)) (cm_Name (le_cm le));
         thinking = (case limit of None \<Rightarrow> [] | Some l \<Rightarrow> ml_ThinkingLevel l);
         s1 = on_req (startRound (fc_id fc) (Some (ob_cancel ob)) (round_target fc ob le thinking) (ob_now ob)) s;
         s2 = (fst s1, ob_sending ob (snd s1));
         sent = (case ob_buildErr ob of Some e \<Rightarrow> Inl e | None \<Rightarrow> ob_sent ob)
     in case sent of
          Inl e \<Rightarrow> (Inl e, s2)
        | Inr a \<Rightarrow>
            if fc_streaming fc \<and> ob_roundDone ob
            then (Inl (memberTimeoutError True (memberTimeoutSeconds (g_RelayConfig (leg_group le)) True)), s2)
            else (Inr a, s2))"


subsection \<open>A round that failed\<close>

definition timed_out :: "round_obs \<Rightarrow> bool" where
  "timed_out ob = errors_Is (ob_cause ob) errMemberResponseTimeout"

definition round_error_of :: "fwd_call \<Rightarrow> round_obs \<Rightarrow> leg \<Rightarrow> relay_error \<Rightarrow> relay_error" where
  "round_error_of fc ob le err =
    (if timed_out ob then memberTimeoutError (fc_streaming fc) (memberTimeoutSeconds (g_RelayConfig (leg_group le)) (fc_streaming fc))
     else err)"

definition round_outcome :: "round_obs \<Rightarrow> AttemptOutcome" where
  "round_outcome ob =
    (if ob_ctx2 ob \<noteq> None then AttemptCanceled
     else if ob_roundDone ob \<and> \<not> timed_out ob then AttemptCanceled else AttemptFailed)"

text \<open>\<^verbatim>\<open>releaseRoundLifecycle; releaseRefChainHops(hops)\<close>\<close>

definition drop_round :: "fwd_call \<Rightarrow> leg \<Rightarrow> fwd \<Rightarrow> fwd" where
  "drop_round fc le s = release_hops (le_hops le) (on_req (releaseRoundLifecycle (fc_id fc)) s)"

text \<open>One of several keys was refused: the key cools, the member is kept.\<close>

definition key_refused :: "round_obs \<Rightarrow> leg \<Rightarrow> relay_error \<Rightarrow> bool \<Rightarrow> bool" where
  "key_refused ob le err rejected =
    (round_outcome ob = AttemptFailed \<and> \<not> rejected \<and> 1 < length (ch_Keys (le_channel le)) \<and>
     (isAuthRejectionError (Some err) \<or> isKeyRateLimitError (Some err)))"

definition cool_key :: "fwd_call \<Rightarrow> round_obs \<Rightarrow> leg \<Rightarrow> relay_error \<Rightarrow> fwd \<Rightarrow> 'a flow \<times> fwd" where
  "cool_key fc ob le err s =
    (let s1 = (fst s, (snd s)\<lparr>fw_keys := markChannelKeyCooldown (ch_ID (le_channel le)) (ck_ID (le_key le))
                 (MemberCooldownSeconds (g_RelayConfig (leg_group le))) (ob_end ob) (fw_keys (snd s))\<rparr>);
         s2 = on_req (finishRound (fc_id fc) AttemptFailed (classifyUpstreamStatus (Some err)) (er_text err) (ob_end ob)) s1
     in (Again, drop_round fc le s2))"

text \<open>The request itself is too large for the member: never again for this request.\<close>

definition too_large :: "fwd_call \<Rightarrow> round_obs \<Rightarrow> leg \<Rightarrow> int \<Rightarrow> bool \<Rightarrow> fwd \<Rightarrow> 'a flow \<times> fwd" where
  "too_large fc ob le code hint s =
    (let s1 = clear_leaf (le_hops le) (release_hops (le_hops le) (on_loop (\<lambda>l. l\<lparr>lp_infeasible := mput (it_ID (leg_item le)) code (lp_infeasible l),
                  lp_tooLargeHint := lp_tooLargeHint l \<or> hint\<rparr>) s)) in
     if candidates ob (hop_group (hd (le_hops le))) \<le> length (lp_infeasible (fst s1))
     then (case requestInfeasibleError (lp_infeasible (fst s1)) (lp_tooLargeHint (fst s1)) of
             Some detail \<Rightarrow> fail_request fc detail detail (ob_end ob) s1
           | None \<Rightarrow> (Done, s1))
     else (Again, set_exclude (it_ID (leg_item le)) s1))"

definition channel_full :: "fwd_call \<Rightarrow> round_obs \<Rightarrow> leg \<Rightarrow> fwd \<Rightarrow> 'a flow \<times> fwd" where
  "channel_full fc ob le s =
    (let s1 = release_hops (le_hops le) (on_loop (\<lambda>l. l\<lparr>lp_busyRejected := List.insert (it_ID (leg_item le)) (lp_busyRejected l)\<rparr>) s) in
     if candidates ob (hop_group (hd (le_hops le))) \<le> length (lp_busyRejected (fst s1))
     then fail_request fc err_all_channels_busy err_all_channels_busy (ob_end ob) s1
     else (Again, set_exclude (it_ID (leg_item le)) s1))"

text \<open>A refusal no retry can change: the member counts as failed and as out of the question.\<close>

definition non_retryable :: "fwd_call \<Rightarrow> round_obs \<Rightarrow> leg \<Rightarrow> relay_error \<Rightarrow> fwd \<Rightarrow> 'a flow \<times> fwd" where
  "non_retryable fc ob le err s =
    (case leaf_failure le err (ob_end_ms ob) (release_hops (butlast (le_hops le)) s) of
       (leave, s1) \<Rightarrow>
         let s2 = on_loop (\<lambda>l. l\<lparr>lp_nonRetryable := List.insert (it_ID (leg_item le)) (lp_nonRetryable l)\<rparr>) (clear_leaf (le_hops le) s1) in
         if candidates ob (hop_group (hd (le_hops le))) \<le> length (lp_nonRetryable (fst s2)) + length (lp_infeasible (fst s2))
         then (case requestInfeasibleError (lp_infeasible (fst s2)) (lp_tooLargeHint (fst s2)) of
                 Some e \<Rightarrow> fail_request fc e e (ob_end ob) s2
               | None \<Rightarrow> fail_request fc err err_no_available_channels (ob_end ob) s2)
         else (Again, set_exclude (it_ID (leg_item le)) s2))"

definition refused_status :: "leg \<Rightarrow> int option \<Rightarrow> bool" where
  "refused_status le code =
    (case code of
       None \<Rightarrow> False
     | Some c \<Rightarrow> c = 400 \<or> c = 404 \<or> c = 422 \<or> (ck_Key (le_key le) = [] \<and> (c = 401 \<or> c = 403)))"

text \<open>The last part: the upstream refused the request, or the member failed.\<close>

definition member_failed :: "fwd_call \<Rightarrow> round_obs \<Rightarrow> leg \<Rightarrow> relay_error \<Rightarrow> fwd \<Rightarrow> 'a flow \<times> fwd" where
  "member_failed fc ob le err s =
    (let code = UpstreamStatusCode (Some err); s1 = on_req (releaseRoundLifecycle (fc_id fc)) s in
     if refused_status le code then
       (if isContextOverflowRejection (fc_httpBody fc) (Some err) then too_large fc ob le (the code) False s1
        else non_retryable fc ob le err s1)
     else settle_failure fc ob le err (ob_end_ms ob) (on_req (releaseRoundLifecycle (fc_id fc)) s1))"

text \<open>A bad request gets one more try with a repaired body, unless the refusal is final.\<close>

definition repair_request :: "fwd_call \<Rightarrow> round_obs \<Rightarrow> leg \<Rightarrow> relay_error \<Rightarrow> fwd \<Rightarrow> 'a flow \<times> fwd" where
  "repair_request fc ob le err s =
    (let item = it_ID (leg_item le) in
     if UpstreamStatusCode (Some err) = Some 400 \<and> item \<notin> set (lp_sanitizeRetried (fst s)) then
       (case fc_sanitize fc (lp_body (fst s)) of
          (body, changed) \<Rightarrow>
            let s1 = on_loop (\<lambda>l. l\<lparr>lp_sanitizeRetried := item # lp_sanitizeRetried l, lp_body := body\<rparr>) s in
            if changed \<or> \<not> isDeterministicRequestRejection (fc_httpBody fc) (Some err)
            then (Again, drop_round fc le s1)
            else member_failed fc ob le err s1)
     else member_failed fc ob le err s)"

definition ocProxyMaxRetries :: int where
  "ocProxyMaxRetries = 3"

definition retry_or_fail :: "fwd_call \<Rightarrow> round_obs \<Rightarrow> leg \<Rightarrow> relay_error \<Rightarrow> bool \<Rightarrow> fwd \<Rightarrow> 'a flow \<times> fwd" where
  "retry_or_fail fc ob le err rejected s =
    (let item = it_ID (leg_item le) in
     if rejected \<and> mget0 (lp_accountRetries (fst s)) item < ocProxyMaxRetries
     then (Again, drop_round fc le (on_loop (\<lambda>l. l\<lparr>lp_accountRetries := mput item (mget0 (lp_accountRetries l) item + 1) (lp_accountRetries l)\<rparr>) s))
     else if errors_Is (Some err) errStreamEarlyEof \<and> item \<notin> set (lp_earlyEofRetried (fst s))
     then (Again, drop_round fc le (on_loop (\<lambda>l. l\<lparr>lp_earlyEofRetried := item # lp_earlyEofRetried l\<rparr>) s))
     else if UpstreamStatusCode (Some err) = Some 413
     then too_large fc ob le 413 (isContextOverflowRejection (fc_httpBody fc) (Some err)) (on_req (releaseRoundLifecycle (fc_id fc)) s)
     else if errors_Is (Some err) errChannelConcurrencyFull
     then channel_full fc ob le (on_req (releaseRoundLifecycle (fc_id fc)) s)
     else repair_request fc ob le err s)"

definition round_failed :: "fwd_call \<Rightarrow> round_obs \<Rightarrow> leg \<Rightarrow> relay_error \<Rightarrow> fwd \<Rightarrow> 'a flow \<times> fwd" where
  "round_failed fc ob le err0 s =
    (let rejected = proxy_rejected ob le (Some err0);
         err = round_error_of fc ob le err0;
         outcome = round_outcome ob;
         brief = (if outcome = AttemptFailed then er_text err else []) in
     if key_refused ob le err rejected then cool_key fc ob le err s
     else
       let s1 = on_req (finishRound (fc_id fc) outcome (classifyRound (Some err) (ob_ctx2 ob \<noteq> None) (ob_cause ob)) brief (ob_end ob)) s in
       if stop_requested fc s1 then cancel_request fc errAdminStopped (ob_end ob) (drop_round fc le s1)
       else (case ob_ctx2 ob of
               Some e \<Rightarrow> cancel_request fc e (ob_end ob) (drop_round fc le s1)
             | None \<Rightarrow>
                 if ob_roundDone ob \<and> \<not> timed_out ob then (Again, drop_round fc le s1)
                 else retry_or_fail fc ob le err rejected s1))"


subsection \<open>A round that got an answer\<close>

text \<open>Every hop of the chain gets the success, then the session is bound along it.\<close>

definition commitRouteOutcome :: "refHop list \<Rightarrow> string \<Rightarrow> int \<Rightarrow> relay_world \<Rightarrow> relay_world" where
  "commitRouteOutcome hops scopeKey now w =
    fold (\<lambda>h w. if sessionStickyEnabled (hop_group h) scopeKey
                then bindSessionSticky (hop_group h) scopeKey (it_ID (hop_item h)) now w else w) hops
      (fold (\<lambda>h. recordRouteSuccess (hop_group h) (it_ID (hop_item h)) now) hops w)"

definition request_mapping :: "fwd \<Rightarrow> Mapping option" where
  "request_mapping s = map_option (\<lambda>p. st_heap (en_store (fw_mask (snd s))) ! p) (lp_mapping (fst s))"

definition answer_body :: "fwd_call \<Rightarrow> upstream_answer \<Rightarrow> fwd \<Rightarrow> string" where
  "answer_body fc a s =
    (let body = restoreNonStream (ua_body a) (request_mapping s)
     in if EchoResponseModel (lp_config (fst s)) then fc_echo fc body else body)"

definition write_out :: "string list \<Rightarrow> fwd \<Rightarrow> fwd" where
  "write_out out s = (fst s, (snd s)\<lparr>fw_written := fw_written (snd s) @ out\<rparr>)"

text \<open>The end of a request that failed while its answer was being written; no reply can follow.\<close>

definition fail_written :: "fwd_call \<Rightarrow> relay_error \<Rightarrow> string \<Rightarrow> Usage option \<Rightarrow> int \<Rightarrow> fwd \<Rightarrow> fwd" where
  "fail_written fc err body usage now s = log_request fc (on_req (markFailed (fc_texts fc) (fc_id fc) err body usage now) s)"

definition round_answer :: "fwd_call \<Rightarrow> round_obs \<Rightarrow> leg \<Rightarrow> upstream_answer \<Rightarrow> fwd \<Rightarrow> unit flow \<times> fwd" where
  "round_answer fc ob le a s =
    (let s1 = on_req (finishRound (fc_id fc) AttemptSuccess ErrClassNone [] (ob_end ob)) s;
         s2 = on_relay (commitRouteOutcome (le_hops le) (fc_scopeKey fc) (ob_end_ms ob)) s1;
         s3 = on_req (markCommitted (fc_id fc) (ob_end ob)) (on_req (releaseRoundLifecycle (fc_id fc)) s2);
         body = answer_body fc a s3
     in case ob_write ob of
          None \<Rightarrow> (Done, on_req (markSucceeded (fc_texts fc) (fc_id fc) body (ua_usage a) (ob_end ob)) (write_out [body] s3))
        | Some e \<Rightarrow>
            (case ob_ctx3 ob of
               Some c \<Rightarrow> (Done, on_req (markCanceled (fc_texts fc) (fc_id fc) c body (ua_usage a) (ob_end ob)) s3)
             | None \<Rightarrow> (Done, fail_written fc e body (ua_usage a) (ob_end ob) s3)))"

definition stream_env_of :: "fwd_call \<Rightarrow> fwd \<Rightarrow> stream_env" where
  "stream_env_of fc s = \<lparr>se_codec = fc_codec fc, se_format = fc_api fc, se_config = lp_config (fst s), se_request = fc_id fc,
     se_masked = (lp_mapping (fst s) \<noteq> None), se_echo = fc_echo fc, se_encode = fc_encode fc, se_budget = fc_budget fc\<rparr>"

text \<open>A stream that broke after its answer had begun: a strike against the member, and the whole chain is released.\<close>

definition stream_broken ::
  "fwd_call \<Rightarrow> round_obs \<Rightarrow> leg \<Rightarrow> bool \<Rightarrow> relay_error \<Rightarrow> string \<Rightarrow> Usage option \<Rightarrow> fwd \<Rightarrow> unit flow \<times> fwd" where
  "stream_broken fc ob le clientGone err body usage s =
    (if stop_requested fc s
     then (Done, on_req (markCanceled (fc_texts fc) (fc_id fc) errAdminStopped body usage (ob_end ob)) (release_hops (le_hops le) s))
     else
       let s1 = (if ob_ctx3 ob = None \<and> \<not> clientGone
                 then (case recordPostCommitFailure (leg_group le) (it_ID (leg_item le)) (ob_end_ms ob) (fw_relay (snd s)) of
                         (leave, w) \<Rightarrow>
                           let s0 = (fst s, (snd s)\<lparr>fw_relay := w\<rparr>) in if leave then clear_leaf (le_hops le) s0 else s0)
                 else s);
           s2 = (case ob_ctx3 ob of
                   Some c \<Rightarrow> on_req (markCanceled (fc_texts fc) (fc_id fc) c body usage (ob_end ob)) s1
                 | None \<Rightarrow> fail_written fc err body usage (ob_end ob) s1)
       in (Done, release_hops (le_hops le) s2))"

definition round_stream :: "fwd_call \<Rightarrow> round_obs \<Rightarrow> leg \<Rightarrow> upstream_answer \<Rightarrow> fwd \<Rightarrow> unit flow \<times> fwd" where
  "round_stream fc ob le a s =
    (let s1 = on_req (finishRound (fc_id fc) AttemptSuccess ErrClassNone [] (ob_end ob)) s;
         st = stream_loop (stream_env_of fc s1) (ua_window a) (ua_events a) (init_stream (ua_terminated a) (fw_req (snd s1)));
         s2 = write_out (ss_written st @ ua_flush a) (on_req (\<lambda>_. ss_requests st) s1);
         s3 = on_req (releaseRoundLifecycle (fc_id fc)) s2;
         aggregated = fc_aggregate fc (ss_chunks st);
         body = (case aggregated of Inl _ \<Rightarrow> [] | Inr (b, _) \<Rightarrow> b);
         usage = (case aggregated of Inl _ \<Rightarrow> ua_usage a | Inr (_, u) \<Rightarrow> u);
         en = close_stream_errors st (ua_idle a) (ua_streamErr a) aggregated;
         s4 = (if ss_committed st \<and> \<not> ss_clientGone st \<and> ob_ctx3 ob = None \<and> \<not> ss_polluted st \<and> en_frameFailure en = None \<and>
                  \<not> ss_terminalSeen st
               then write_out (fc_terminal fc) s3 else s3)
     in if stream_failed st en
        then stream_broken fc ob le (ss_clientGone st)
               (case final_error st en of Some err \<Rightarrow> err | None \<Rightarrow> plain_error []) body usage s4
        else
            (Done, on_req (markSucceeded (fc_texts fc) (fc_id fc) body usage (ob_end ob))
               (on_relay (commitRouteOutcome (le_hops le) (fc_scopeKey fc) (ob_end_ms ob)) s4)))"

subsection \<open>The loop\<close>

definition forward_send :: "fwd_call \<Rightarrow> round_obs \<Rightarrow> leg \<Rightarrow> fwd \<Rightarrow> unit flow \<times> fwd" where
  "forward_send fc ob le s =
    (case round_send fc ob le s of
       (Inl err, s1) \<Rightarrow> round_failed fc ob le err s1
     | (Inr a, s1) \<Rightarrow> if fc_streaming fc then round_stream fc ob le a s1 else round_answer fc ob le a s1)"

definition forward_leg :: "fwd_call \<Rightarrow> round_obs \<Rightarrow> refHop list \<Rightarrow> fwd \<Rightarrow> unit flow \<times> fwd" where
  "forward_leg fc ob hops s =
    bind_flow (round_channel fc ob hops s) (\<lambda>(cm, c) s.
    bind_flow (round_body fc ob hops cm c s) (\<lambda>_ s.
    bind_flow (round_window fc ob hops cm c s) (\<lambda>_ s.
    bind_flow (round_dispatch fc ob hops cm c s) (\<lambda>le s.
    bind_flow (round_rpm fc ob le s) (\<lambda>_ s.
    bind_flow (round_slot fc ob le s) (\<lambda>le s. forward_send fc ob le s))))))"

definition forward_choice :: "fwd_call \<Rightarrow> round_obs \<Rightarrow> fwd \<Rightarrow> refHop list flow \<times> fwd" where
  "forward_choice fc ob s =
    bind_flow (round_guards fc ob s) (\<lambda>_ s.
    bind_flow (round_group fc ob s) (\<lambda>g s.
    bind_flow (round_mask fc ob g s) (\<lambda>_ s.
    bind_flow (round_context ob g s) (\<lambda>sel s.
    bind_flow (round_select fc ob g sel s) (\<lambda>item s. round_chain fc ob g (fst sel) item s)))))"

definition forward_round :: "fwd_call \<Rightarrow> round_obs \<Rightarrow> fwd \<Rightarrow> unit flow \<times> fwd" where
  "forward_round fc ob s = bind_flow (forward_choice fc ob s) (\<lambda>hops s. forward_leg fc ob hops s)"

text \<open>\<open>obs i\<close> are the observations of round \<open>i\<close>; \<open>None\<close> is fuel that ran out.\<close>

fun forward_loop :: "nat \<Rightarrow> fwd_call \<Rightarrow> (nat \<Rightarrow> round_obs) \<Rightarrow> nat \<Rightarrow> fwd \<Rightarrow> fwd option" where
  "forward_loop 0 fc obs i s = None"
| "forward_loop (Suc k) fc obs i s =
    (case forward_round fc (obs i) s of
       (Done, s') \<Rightarrow> Some s'
     | (Again, s') \<Rightarrow> forward_loop k fc obs (Suc i) s'
     | (Next _, s') \<Rightarrow> forward_loop k fc obs (Suc i) s')"

subsection \<open>Admission\<close>

text \<open>
  What happens before the loop: the body is read and charged, the key's models and the group are
  checked, the request is registered, and title requests may be refused. \<open>ad_title\<close> is
  \<^verbatim>\<open>isTitleGenerationRequest(raw.Body)\<close>.
\<close>

datatype body_read = BodyTooLarge | BodyError relay_error | BodyRead string

record admission =
  ad_read :: body_read
  ad_budget :: bool
  ad_allowed :: string
  ad_group :: "string \<Rightarrow> Group option"
  ad_title :: bool
  ad_clientIP :: string
  ad_apiKey :: string
  ad_keyName :: string
  ad_model :: string
  ad_now :: int

definition err_title :: relay_error where
  "err_title = sentinel_error errTitleRequestRejected ''title generation request rejected by group policy''"

definition say :: "int \<times> int option \<Rightarrow> fwd_world \<Rightarrow> fwd_world" where
  "say r w = w\<lparr>fw_replies := fw_replies w @ [r]\<rparr>"

definition admit_request :: "fwd_call \<Rightarrow> admission \<Rightarrow> fwd_world \<Rightarrow> (nat \<times> string) option \<times> fwd_world" where
  "admit_request fc ad w =
    (if qw_allStopped (fw_req w) then (None, say (rejectRequest err_all_requests_stopped None) w)
     else case ad_read ad of
            BodyTooLarge \<Rightarrow> (None, say (413, None) w)
          | BodyError e \<Rightarrow> (None, say (rejectRequest e None) w)
          | BodyRead body \<Rightarrow>
              if \<not> ad_budget ad then (None, say (413, None) w)
              else if ad_allowed ad \<noteq> [] \<and> ad_model ad \<notin> set (split_comma (ad_allowed ad))
              then (None, say (rejectRequest (plain_error ''model not supported by this api key'') None) w)
              else (case ad_group ad (ad_model ad) of
                      None \<Rightarrow> (None, say (rejectRequest (plain_error ''model not found'') None) w)
                    | Some g \<Rightarrow>
                        (case newRequestState (ad_model ad) body (ad_clientIP ad) (ad_apiKey ad) (ad_keyName ad) (ad_now ad) (fw_req w) of
                           (i, q) \<Rightarrow>
                             if RejectTitleRequests (g_RelayConfig g) \<and> ad_title ad
                             then (None, say (rejectRequest err_title None)
                                     (w\<lparr>fw_req := markFailed (fc_texts fc) i err_title [] None (ad_now ad) q\<rparr>))
                             else (Some (i, body), w\<lparr>fw_req := q\<rparr>))))"

definition Forward :: "nat \<Rightarrow> fwd_call \<Rightarrow> admission \<Rightarrow> (nat \<Rightarrow> round_obs) \<Rightarrow> fwd_world \<Rightarrow> fwd_world option" where
  "Forward fuel fc ad obs w =
    (case admit_request fc ad w of
       (None, w') \<Rightarrow> Some w'
     | (Some (i, body), w') \<Rightarrow>
         map_option snd (forward_loop fuel (fc\<lparr>fc_id := i, fc_model := ad_model ad\<rparr>) obs 0 (init_loop body, w')))"

subsection \<open>Projections\<close>

text \<open>The operations on one part of the state leave the other parts alone.\<close>

lemma part_simps [simp]:
  "fst (on_relay f s) = fst s" "fw_req (snd (on_relay f s)) = fw_req (snd s)"
  "fst (on_req h s) = fst s" "fw_req (snd (on_req h s)) = h (fw_req (snd s))"
  "fst (on_loop u s) = u (fst s)" "snd (on_loop u s) = snd s"
  "fst (release_hops hops s) = fst s" "fw_req (snd (release_hops hops s)) = fw_req (snd s)"
  "fst (clear_sticky gid i s) = fst s" "fw_req (snd (clear_sticky gid i s)) = fw_req (snd s)"
  "fst (clear_leaf hops s) = fst s" "fw_req (snd (clear_leaf hops s)) = fw_req (snd s)"
  "fst (set_exclude i s) = (fst s)\<lparr>lp_exclude := i\<rparr>" "snd (set_exclude i s) = snd s"
  "fw_req (snd (reply err s)) = fw_req (snd s)" "fst (write_out out s) = fst s" "fw_req (snd (write_out out s)) = fw_req (snd s)"
  by (simp_all add: on_relay_def on_req_def on_loop_def release_hops_def clear_sticky_def clear_leaf_def set_exclude_def
      reply_def write_out_def)

lemma relay_parts [simp]:
  "fw_relay (snd (on_relay f s)) = f (fw_relay (snd s))" "fw_relay (snd (on_req h s)) = fw_relay (snd s)"
  "fw_relay (snd (release_hops hops s)) = releaseRefChainHops hops (fw_relay (snd s))"
  "fw_relay (snd (clear_sticky gid i s)) = clearSessionStickyByItem gid i (fw_relay (snd s))"
  "fw_relay (snd (clear_leaf hops s)) = clearSessionStickyByItem (g_ID (leaf_group hops)) (it_ID (leaf_item hops)) (fw_relay (snd s))"
  "fw_relay (snd (reply err s)) = fw_relay (snd s)" "fw_relay (snd (write_out out s)) = fw_relay (snd s)"
  by (simp_all add: on_relay_def on_req_def release_hops_def clear_sticky_def clear_leaf_def reply_def write_out_def)

lemma log_request_parts [simp]:
  "fst (log_request fc s) = fst s" "fw_req (snd (log_request fc s)) = fw_req (snd s)"
  "fw_relay (snd (log_request fc s)) = fw_relay (snd s)"
  by (simp_all add: log_request_def split: option.splits)

end
