(* ===== verification/Relay_Loop_Props.thy ===== *)
theory Relay_Loop_Props
  imports Relay_Loop
begin

text \<open>
  What holds of \<^verbatim>\<open>Forward\<close>: it returns, the request it served has ended when it does, and every chain
  a round resolved is settled by the end of that round.
\<close>

named_theorems section_simps
named_theorems status_intros

subsection \<open>The status of the request\<close>

definition has_status :: "(Status \<Rightarrow> bool) \<Rightarrow> nat \<Rightarrow> request_world \<Rightarrow> bool" where
  "has_status P i w \<longleftrightarrow> (\<exists>r. map_of (qw_heap w) i = Some r \<and> rq_ID r = i \<and> P (rq_Status r))"

abbreviation running :: "nat \<Rightarrow> request_world \<Rightarrow> bool" where
  "running \<equiv> has_status active_status"

abbreviation ended :: "nat \<Rightarrow> request_world \<Rightarrow> bool" where
  "ended \<equiv> has_status (\<lambda>s. \<not> active_status s)"

lemma heap_simps [simp]:
  "qw_heap (publishRequestLocked r w) = qw_heap w"
  "qw_heap (put_request r w) = mput (rq_ID r) r (qw_heap w)"
  "qw_heap (store_publish r w) = mput (rq_ID r) r (qw_heap w)"
  "qw_heap (call_cancel c w) = qw_heap w"
  "qw_heap (appendFailureLocked fs w) = qw_heap w"
  "qw_heap (trimFinishedRequestsLocked w) = qw_heap w"
  "qw_heap (finish_outside r b rb st cl e sa now w) = qw_heap w"
  by (auto simp: publishRequestLocked_def put_request_def store_publish_def call_cancel_def appendFailureLocked_def
      trimFinishedRequestsLocked_def finish_outside_def Let_def split: option.splits prod.splits)

text \<open>A method that stores a changed copy of the object moves its status by that change.\<close>

lemma with_request_status:
  assumes "has_status P i w" and "\<And>r. rq_ID r = i \<Longrightarrow> P (rq_Status r) \<Longrightarrow> \<exists>r'. qw_heap (f r w) = mput i r' (qw_heap w) \<and> rq_ID r' = i \<and> Q (rq_Status r')"
  shows "has_status Q i (with_request i f w)"
proof -
  obtain r where r: "map_of (qw_heap w) i = Some r" "rq_ID r = i" "P (rq_Status r)" using assms(1) by (auto simp: has_status_def)
  from assms(2) [OF r(2,3)] r(1) show ?thesis by (auto simp: has_status_def with_request_def)
qed

lemma status_same:
  assumes "has_status P i w" and "\<And>r. rq_ID r = i \<Longrightarrow> \<exists>r'. qw_heap (f r w) = mput i r' (qw_heap w) \<and> rq_ID r' = i \<and> rq_Status r' = rq_Status r"
  shows "has_status P i (with_request i f w)"
  using assms(1) by (rule with_request_status) (metis assms(2))

lemma status_keeps [status_intros]:
  assumes "has_status P i w"
  shows "has_status P i (startRound i c t now w)" and "has_status P i (finishRound i out cl txt now w)"
    and "has_status P i (releaseRoundLifecycle i w)" and "has_status P i (set_masked i w)"
    and "has_status P i (applyMaskResult i m ms tr w)" and "has_status P i (noteOutputChars i n now w)"
  subgoal unfolding startRound_def by (rule status_same [OF assms]) (auto simp: start_round_def)
  subgoal unfolding finishRound_def by (rule status_same [OF assms]) (auto simp: closeAttemptLocked_def)
  subgoal unfolding releaseRoundLifecycle_def by (rule status_same [OF assms]) auto
  subgoal unfolding set_masked_def by (rule status_same [OF assms]) auto
  subgoal unfolding applyMaskResult_def by (rule status_same [OF assms]) auto
  subgoal unfolding noteOutputChars_def using assms by (auto simp: Let_def intro!: status_same) (rule exI, rule conjI, rule refl, simp)+
  done

lemma status_setRelayMode [status_intros]: "has_status P i w \<Longrightarrow> has_status P i (setRelayMode i mode w)"
  by (auto simp: has_status_def setRelayMode_def with_request_def)

lemma status_markCommitted [status_intros]: "running i w \<Longrightarrow> running i (markCommitted i now w)"
  unfolding markCommitted_def
  by (erule with_request_status) (auto simp: active_status_def Let_def split: option.splits)

lemma status_finish:
  assumes "running i w" and "\<not> active_status st"
  shows "ended i (finish_request texts i st err cl body usage now w)"
  unfolding finish_request_def
  by (rule with_request_status [OF assms(1)])
    (use assms(2) in \<open>auto simp: Let_def finish_locked_def with_request_def set_terminal_def finish_fields_def\<close>)

lemma status_marks [status_intros]:
  assumes "running i w"
  shows "ended i (markSucceeded texts i body usage now w)" and "ended i (markFailed texts i err body usage now w)"
    and "ended i (markCanceled texts i txt body usage now w)"
  unfolding markSucceeded_def markFailed_def markCanceled_def
  by (rule status_finish [OF assms], simp add: active_status_def)+


subsection \<open>Sections keep the request running until they return\<close>

abbreviation alive :: "fwd_call \<Rightarrow> fwd \<Rightarrow> bool" where
  "alive fc s \<equiv> running (fc_id fc) (fw_req (snd s))"

definition kept :: "fwd \<Rightarrow> fwd \<Rightarrow> bool" where
  "kept s s' \<longleftrightarrow> lp_rounds (fst s') = lp_rounds (fst s) \<and> lp_config (fst s') = lp_config (fst s)"

definition sound :: "fwd_call \<Rightarrow> fwd \<Rightarrow> 'a flow \<times> fwd \<Rightarrow> bool" where
  "sound fc s r \<longleftrightarrow>
    (case fst r of Done \<Rightarrow> ended (fc_id fc) (fw_req (snd (snd r))) | _ \<Rightarrow> alive fc (snd r) \<and> kept s (snd r))"

lemma sound_simps [simp]:
  "sound fc s (Done, s') \<longleftrightarrow> ended (fc_id fc) (fw_req (snd s'))"
  "sound fc s (Again, s') \<longleftrightarrow> alive fc s' \<and> kept s s'"
  "sound fc s (Next a, s') \<longleftrightarrow> alive fc s' \<and> kept s s'"
  by (simp_all add: sound_def)

lemma kept_refl [simp]: "kept s s"
  by (simp add: kept_def)

lemma kept_trans: "kept s t \<Longrightarrow> kept t u \<Longrightarrow> kept s u"
  by (simp add: kept_def)

lemma sound_mono: "sound fc t r \<Longrightarrow> kept s t \<Longrightarrow> sound fc s r"
  by (cases r; cases "fst r") (auto simp: sound_def intro: kept_trans)

lemma sound_bind:
  assumes "sound fc s r" and "\<And>a t. alive fc t \<Longrightarrow> kept s t \<Longrightarrow> r = (Next a, t) \<Longrightarrow> sound fc t (k a t)"
  shows "sound fc s (bind_flow r k)"
proof -
  obtain fl t where r: "r = (fl, t)" by (rule prod.exhaust)
  show ?thesis
  proof (cases fl)
    case (Next a)
    with assms(1) r have "alive fc t" "kept s t" by simp_all
    from assms(2) [OF this] Next r have "sound fc t (k a t)" by simp
    from sound_mono [OF this \<open>kept s t\<close>] Next r show ?thesis by (simp add: bind_flow_def)
  qed (use assms(1) r in \<open>auto simp: bind_flow_def\<close>)
qed

lemma kept_parts [simp]:
  "kept s (on_relay f t) = kept s t" "kept s (on_req h t) = kept s t" "kept s (release_hops hops t) = kept s t"
  "kept s (clear_sticky gid i t) = kept s t" "kept s (clear_leaf hops t) = kept s t" "kept s (set_exclude i t) = kept s t"
  "kept s (write_out out t) = kept s t"
  "(\<And>l. lp_rounds (u l) = lp_rounds l \<and> lp_config (u l) = lp_config l) \<Longrightarrow> kept s (on_loop u t) = kept s t"
  by (simp_all add: kept_def)

lemma sound_fail [section_simps]: "alive fc s \<Longrightarrow> sound fc t (fail_request fc e1 e2 now s)"
  by (simp add: fail_request_def status_intros)

lemma sound_cancel [section_simps]: "alive fc s \<Longrightarrow> sound fc t (cancel_request fc e now s)"
  by (simp add: cancel_request_def status_intros)

text \<open>What the other goroutines do never ends or forgets the request: only its own handler marks it.\<close>

definition obs_fair :: "fwd_call \<Rightarrow> round_obs \<Rightarrow> bool" where
  "obs_fair fc ob \<longleftrightarrow>
    (\<forall>w. running (fc_id fc) (fw_req w) \<longrightarrow> running (fc_id fc) (fw_req (ob_waiting ob w)) \<and> running (fc_id fc) (fw_req (ob_sending ob w)))"

lemma sound_wait [section_simps]:
  assumes "obs_fair fc ob" and "alive fc s" and "kept t s"
  shows "sound fc t (wait_again fc ob secs s)"
proof -
  have "running (fc_id fc) (fw_req (ob_waiting ob ((snd s)\<lparr>fw_waits := fw_waits (snd s) @ [secs]\<rparr>)))"
    using assms(1,2) unfolding obs_fair_def by simp
  then show ?thesis
    using assms(3)
    by (cases "ob_wait ob") (simp_all add: wait_again_def request_wait_def status_intros kept_def Let_def)
qed

lemma wait_again_cases: "\<exists>t. wait_again fc ob secs s = (Again, t) \<or> wait_again fc ob secs s = (Done, t)"
  by (auto simp: wait_again_def Let_def case_prod_unfold)

lemma sound_guards:
  assumes "alive fc s" and "round_guards fc ob s = (fl, s')"
  shows "case fl of Done \<Rightarrow> ended (fc_id fc) (fw_req (snd s')) | Again \<Rightarrow> False
     | Next _ \<Rightarrow> alive fc s' \<and> lp_rounds (fst s') = lp_rounds (fst s) + 1 \<and> lp_config (fst s') = lp_config (fst s) \<and>
         lp_rounds (fst s') \<le> maxRequestRounds (lp_config (fst s))"
  using assms
  by (auto simp: round_guards_def fail_request_def cancel_request_def Let_def status_intros split: option.splits if_splits)

lemma sound_mask:
  assumes "alive fc s"
  shows "sound fc s (round_mask fc ob g s)"
proof (cases "lp_maskDone (fst s)")
  case False
  obtain res engine where r: "applyRequestMask (ob_maskenv ob) (ob_maskcfg ob) (lp_body (fst s)) (fc_scopeKey fc)
      (MaskEnabled (g_RelayConfig g)) (fw_mask (snd s)) = (res, engine)" by fastforce
  show ?thesis
    using False assms
    by (auto simp: round_mask_def r Let_def section_simps status_intros kept_def case_prod_unfold split: sum.splits)
qed (use assms in \<open>simp add: round_mask_def\<close>)

lemma sound_context: "alive fc s \<Longrightarrow> sound fc s (round_context ob g s)"
  by (auto simp: round_context_def Let_def case_prod_unfold kept_def)

lemma choose_item_parts [simp]:
  "fst (snd (choose_item fc ob g sk s)) = fst s" "fw_req (snd (snd (choose_item fc ob g sk s))) = fw_req (snd s)"
  by (simp_all add: choose_item_def Let_def case_prod_unfold)

lemma sound_no_item: "obs_fair fc ob \<Longrightarrow> alive fc s \<Longrightarrow> kept t s \<Longrightarrow> sound fc t (no_item fc ob g a s)"
  unfolding no_item_def Let_def by (auto intro!: sound_fail sound_wait)

lemma sound_select: "obs_fair fc ob \<Longrightarrow> alive fc s \<Longrightarrow> sound fc s (round_select fc ob g sel s)"
  unfolding round_select_def case_prod_unfold by (auto simp: kept_def intro!: sound_no_item)

lemma sound_chain:
  assumes "obs_fair fc ob" and "alive fc s"
  shows "sound fc s (round_chain fc ob g sk item s)"
proof -
  obtain hops failed w where r: "resolveGroupRefChainSkipping (ob_env ob) (ob_hops ob) g item (fc_scopeKey fc) (lp_exclude (fst s)) sk
      (fc_format fc) (ob_ms ob) (fw_relay (snd s)) = ((hops, failed), w)" by (metis prod.collapse)
  let ?t = "(fst s, (snd s)\<lparr>fw_relay := w\<rparr>)"
  have t: "alive fc ?t" "kept s ?t" using assms(2) by (simp_all add: kept_def)
  then have "sound fc s (broken_chain fc ob g item hops k ?t)" for k
    using assms(1) unfolding broken_chain_def Let_def by (auto intro!: sound_wait)
  with t show ?thesis unfolding round_chain_def r by (cases failed) (simp_all add: Let_def)
qed


lemma sound_unusable: "obs_fair fc ob \<Longrightarrow> alive fc s \<Longrightarrow> sound fc s (unusable_member fc ob hops s)"
  by (auto simp: unusable_member_def intro!: sound_wait)

lemma sound_channel: "obs_fair fc ob \<Longrightarrow> alive fc s \<Longrightarrow> sound fc s (round_channel fc ob hops s)"
  by (auto simp: round_channel_def sound_unusable split: option.splits)

lemma sound_body: "alive fc s \<Longrightarrow> sound fc s (round_body fc ob hops cm c s)"
  by (auto simp: round_body_def status_intros section_simps split: sum.splits)

lemma sound_window: "alive fc s \<Longrightarrow> sound fc s (round_window fc ob hops cm c s)"
  by (auto simp: round_window_def Let_def intro!: sound_fail)

lemma leaf_failure_parts [simp]:
  "fw_req (snd (snd (leaf_failure le err now s))) = fw_req (snd s)" "kept t (snd (leaf_failure le err now s)) = kept t s"
  by (simp_all add: leaf_failure_def kept_def case_prod_unfold)

lemma sound_settle_failure:
  assumes "obs_fair fc ob" and "alive fc s" and "kept t s"
  shows "sound fc t (settle_failure fc ob le err now s)"
  using assms unfolding settle_failure_def case_prod_unfold by (auto intro!: sound_wait)

lemma choose_key_parts [simp]:
  "fst (snd (choose_key fc ob hops cm c s)) = fst s" "fw_req (snd (snd (choose_key fc ob hops cm c s))) = fw_req (snd s)"
  "fw_relay (snd (snd (choose_key fc ob hops cm c s))) = fw_relay (snd s)"
  by (simp_all add: choose_key_def Let_def case_prod_unfold)

lemma sound_dispatch_failed:
  assumes "obs_fair fc ob" and "alive fc s" and "kept t s"
  shows "sound fc t (dispatch_failed fc ob le err s)"
  using assms
  by (auto simp: dispatch_failed_def Let_def status_intros split: option.splits intro!: sound_cancel sound_settle_failure)

lemma sound_dispatch:
  assumes "obs_fair fc ob" and "alive fc s"
  shows "sound fc s (round_dispatch fc ob hops cm c s)"
proof -
  obtain le e t where r: "choose_key fc ob hops cm c s = ((le, e), t)" by (metis prod.collapse)
  then have t: "alive fc t" "kept s t" using assms(2) choose_key_parts [of fc ob hops cm c s] by (simp_all add: kept_def)
  show ?thesis unfolding round_dispatch_def r using t sound_dispatch_failed [OF assms(1) t] by (cases e) simp_all
qed

lemma sound_rpm: "alive fc s \<Longrightarrow> sound fc s (round_rpm fc ob le s)"
  by (auto simp: round_rpm_def Let_def intro!: sound_cancel split: option.splits)

lemma sound_slot: "obs_fair fc ob \<Longrightarrow> alive fc s \<Longrightarrow> sound fc s (round_slot fc ob le s)"
  by (auto simp: round_slot_def intro!: sound_wait sound_fail split: warp_pick.splits)

lemma send_parts:
  assumes "obs_fair fc ob" and "alive fc s"
  shows "alive fc (snd (round_send fc ob le s)) \<and> fst (snd (round_send fc ob le s)) = fst s"
  using assms by (auto simp: round_send_def Let_def obs_fair_def status_intros split: sum.splits option.splits)

lemma drop_round_parts [simp]:
  "fst (drop_round fc le s) = fst s" "alive fc s \<Longrightarrow> alive fc (drop_round fc le s)" "kept t (drop_round fc le s) = kept t s"
  by (simp_all add: drop_round_def status_intros)

lemma sound_cool_key: "alive fc s \<Longrightarrow> kept t s \<Longrightarrow> sound fc t (cool_key fc ob le err s)"
  by (simp add: cool_key_def Let_def status_intros kept_def)

lemma infeasible_refused: "\<exists>e. requestInfeasibleError (mput i code m) h = Some e"
  by (cases m) (auto simp: requestInfeasibleError_def)

lemma sound_too_large:
  assumes "alive fc s" and "kept t s"
  shows "sound fc t (too_large fc ob le code hint s)"
proof -
  obtain e where "requestInfeasibleError (mput (it_ID (leg_item le)) code (lp_infeasible (fst s))) (lp_tooLargeHint (fst s) \<or> hint) = Some e"
    using infeasible_refused by blast
  with assms show ?thesis by (auto simp: too_large_def Let_def intro!: sound_fail)
qed

lemma sound_channel_full: "alive fc s \<Longrightarrow> kept t s \<Longrightarrow> sound fc t (channel_full fc ob le s)"
  by (auto simp: channel_full_def Let_def intro!: sound_fail)

lemma sound_non_retryable:
  assumes "alive fc s" and "kept t s"
  shows "sound fc t (non_retryable fc ob le err s)"
  using assms unfolding non_retryable_def case_prod_unfold Let_def by (auto intro!: sound_fail split: option.splits)

lemma sound_member_failed: "obs_fair fc ob \<Longrightarrow> alive fc s \<Longrightarrow> kept t s \<Longrightarrow> sound fc t (member_failed fc ob le err s)"
  unfolding member_failed_def Let_def
  by (auto simp: status_intros intro!: sound_too_large sound_non_retryable sound_settle_failure)

lemma sound_repair: "obs_fair fc ob \<Longrightarrow> alive fc s \<Longrightarrow> kept t s \<Longrightarrow> sound fc t (repair_request fc ob le err s)"
  unfolding repair_request_def Let_def case_prod_unfold by (auto intro!: sound_member_failed)

lemma sound_retry: "obs_fair fc ob \<Longrightarrow> alive fc s \<Longrightarrow> kept t s \<Longrightarrow> sound fc t (retry_or_fail fc ob le err rejected s)"
  unfolding retry_or_fail_def Let_def
  by (auto simp: status_intros intro!: sound_too_large sound_channel_full sound_repair)

lemma sound_failed: "obs_fair fc ob \<Longrightarrow> alive fc s \<Longrightarrow> kept t s \<Longrightarrow> sound fc t (round_failed fc ob le err s)"
  unfolding round_failed_def Let_def
  by (auto simp: status_intros split: option.splits intro!: sound_cool_key sound_cancel sound_retry)

lemma sound_answer: "alive fc s \<Longrightarrow> sound fc t (round_answer fc ob le a s)"
  by (auto simp: round_answer_def fail_written_def Let_def status_intros split: option.splits)

lemma commit_stream_status: "running (se_request se) (ss_requests st) \<Longrightarrow> running (se_request se) (ss_requests (commit_stream se tu st))"
  by (simp add: commit_stream_def status_intros)

lemma stream_step_status:
  assumes "stream_step se tu st = (st', stop)" and "running (se_request se) (ss_requests st)"
  shows "running (se_request se) (ss_requests st')"
proof -
  have w: "running (se_request se) (ss_requests x)" if "write_event se tu ev y = (x, b)" "running (se_request se) (ss_requests y)" for ev x y b
    using that by (auto simp: write_event_def Let_def keep_chunk_def status_intros commit_stream_status split: sum.splits option.splits)
  have "ss_requests (note_verdict v y) = ss_requests y" for v y by (simp add: note_verdict_def Let_def)
  with assms show ?thesis
    by (auto simp: stream_step_def Let_def count_event_def keep_chunk_def split: option.splits if_splits elim!: w)
qed

lemma stream_loop_status:
  "running (se_request se) (ss_requests st) \<Longrightarrow> running (se_request se) (ss_requests (stream_loop se window upstream st))"
proof (induction se window upstream st rule: stream_loop.induct)
  case (1 se tu window upstream st)
  obtain st' stop where s: "stream_step se tu st = (st', stop)" by fastforce
  with stream_step_status [OF s 1(2)] 1(1) [OF s [symmetric]] show ?case by simp
next
  case (3 se tu upstream st)
  obtain st' stop where s: "stream_step se tu st = (st', stop)" by fastforce
  with stream_step_status [OF s 3(2)] 3(1) [OF _ s [symmetric]] 3(2) show ?case by simp
qed simp

lemma sound_broken: "alive fc s \<Longrightarrow> sound fc t (stream_broken fc ob le gone err body usage s)"
  by (auto simp: stream_broken_def fail_written_def Let_def status_intros case_prod_unfold split: option.splits)

lemma sound_stream:
  assumes "alive fc s"
  shows "sound fc t (round_stream fc ob le a s)"
proof -
  let ?s1 = "on_req (finishRound (fc_id fc) AttemptSuccess ErrClassNone [] (ob_end ob)) s"
  let ?st = "stream_loop (stream_env_of fc ?s1) (ua_window a) (ua_events a) (init_stream (ua_terminated a) (fw_req (snd ?s1)))"
  have "running (fc_id fc) (ss_requests ?st)"
    using stream_loop_status [of "stream_env_of fc ?s1"] assms by (simp add: stream_env_of_def init_stream_def status_intros)
  then show ?thesis unfolding round_stream_def Let_def by (auto simp: status_intros intro!: sound_broken)
qed

lemma sound_send: "obs_fair fc ob \<Longrightarrow> alive fc s \<Longrightarrow> sound fc s (forward_send fc ob le s)"
proof -
  assume a: "obs_fair fc ob" "alive fc s"
  obtain r t where r: "round_send fc ob le s = (r, t)" by (rule prod.exhaust)
  with send_parts [OF a, of le] have t: "alive fc t" "kept s t" by (simp_all add: kept_def)
  show ?thesis unfolding forward_send_def r using t sound_failed [OF a(1) t] sound_answer sound_stream by (cases r) auto
qed

lemma sound_leg: "obs_fair fc ob \<Longrightarrow> alive fc s \<Longrightarrow> sound fc s (forward_leg fc ob hops s)"
  unfolding forward_leg_def
  by (intro sound_bind sound_channel sound_body sound_window sound_dispatch sound_rpm sound_slot sound_send)
    (auto intro!: sound_bind sound_channel sound_body sound_window sound_dispatch sound_rpm sound_slot sound_send)


lemma sound_choice_rest:
  assumes "obs_fair fc ob" and "alive fc s"
  shows "sound fc s (bind_flow (round_mask fc ob g s) (\<lambda>_ s. bind_flow (round_context ob g s) (\<lambda>sel s.
    bind_flow (round_select fc ob g sel s) (\<lambda>item s. round_chain fc ob g (fst sel) item s))))"
  by (intro sound_bind sound_mask sound_context sound_select sound_chain assms)

text \<open>A whole round: it counts one, respects the limit, and uses the configuration it starts with or the group's.\<close>

definition config_bound :: "fwd_call \<Rightarrow> round_obs \<Rightarrow> int \<Rightarrow> bool" where
  "config_bound fc ob m \<longleftrightarrow> (\<forall>g. env_group (ob_env ob) (fc_model fc) = Some g \<longrightarrow> maxRequestRounds (g_RelayConfig g) \<le> m)"

lemma round_sound:
  assumes fair: "obs_fair fc ob" and a: "alive fc s" and m: "maxRequestRounds (lp_config (fst s)) \<le> m" "config_bound fc ob m"
    and r: "forward_round fc ob s = (fl, s')"
  shows "(fl = Done \<and> ended (fc_id fc) (fw_req (snd s'))) \<or>
    (fl \<noteq> Done \<and> alive fc s' \<and> lp_rounds (fst s') = lp_rounds (fst s) + 1 \<and> lp_rounds (fst s') \<le> m \<and>
     maxRequestRounds (lp_config (fst s')) \<le> m)"
proof -
  obtain f1 s1 where g: "round_guards fc ob s = (f1, s1)" by (rule prod.exhaust)
  note g' = sound_guards [OF a g]
  show ?thesis
  proof (cases f1)
    case Again
    with g' show ?thesis by simp
  next
    case Done
    with g' g r show ?thesis by (simp add: forward_round_def forward_choice_def bind_flow_def)
  next
    case (Next u)
    with g' have s1: "alive fc s1" "lp_rounds (fst s1) = lp_rounds (fst s) + 1" "lp_config (fst s1) = lp_config (fst s)"
      "lp_rounds (fst s1) \<le> m" using m(1) by auto
    have rest: "sound fc t (bind_flow (bind_flow (round_mask fc ob gr t) (\<lambda>_ s. bind_flow (round_context ob gr s) (\<lambda>sel s.
        bind_flow (round_select fc ob gr sel s) (\<lambda>item s. round_chain fc ob gr (fst sel) item s)))) (\<lambda>hops s. forward_leg fc ob hops s))"
      if "alive fc t" for t gr
      by (intro sound_bind sound_mask sound_context sound_select sound_chain sound_leg fair that)
    show ?thesis
    proof (cases "env_group (ob_env ob) (fc_model fc)")
      case None
      let ?w = "wait_again fc ob (MemberRetryIntervalSeconds DefaultGroupRelayConfig) s1 :: Group flow \<times> fwd"
      obtain t where t: "?w = (Again, t) \<or> ?w = (Done, t)" using wait_again_cases by blast
      have w: "round_group fc ob s1 = ?w" using None by (simp add: round_group_def)
      have e: "forward_round fc ob s = (if fst ?w = Done then Done else Again, snd ?w)"
        using t unfolding forward_round_def forward_choice_def g Next w by (auto simp: bind_flow_def w)
      have "sound fc s1 ?w" by (rule sound_wait [OF fair s1(1) kept_refl])
      with t e r have "sound fc s1 (fl, s')" by auto
      then show ?thesis using s1 m(1) by (cases fl) (auto simp: kept_def)
    next
      case (Some gr)
      let ?t = "on_loop (\<lambda>l. l\<lparr>lp_config := g_RelayConfig gr\<rparr>) s1"
      have "alive fc ?t" using s1(1) by simp
      from rest [OF this, of gr] have "sound fc ?t (fl, s')"
        using r g Next Some by (simp add: forward_round_def forward_choice_def bind_flow_def round_group_def)
      moreover have "maxRequestRounds (lp_config (fst ?t)) \<le> m" using m(2) Some by (simp add: config_bound_def)
      ultimately show ?thesis using s1 by (cases fl) (auto simp: kept_def)
    qed
  qed
qed


lemma default_rounds: "maxRequestRounds DefaultGroupRelayConfig = MaxRequestRounds DefaultGroupRelayConfig"
  by (simp add: maxRequestRounds_def)

lemma loop_sound:
  assumes "\<And>i. obs_fair fc (obs i)" and "\<And>i. config_bound fc (obs i) m"
    and "alive fc s" and "maxRequestRounds (lp_config (fst s)) \<le> m" and "0 < k" and "m - lp_rounds (fst s) < int k"
  shows "\<exists>s'. forward_loop k fc obs i s = Some s' \<and> ended (fc_id fc) (fw_req (snd s'))"
  using assms(3-6)
proof (induction k arbitrary: i s)
  case 0
  then show ?case by simp
next
  case (Suc k)
  obtain fl s1 where r: "forward_round fc (obs i) s = (fl, s1)" by (rule prod.exhaust)
  from round_sound [OF assms(1) Suc.prems(1,2) assms(2) r] show ?case
  proof
    assume "fl = Done \<and> ended (fc_id fc) (fw_req (snd s1))"
    with r show ?thesis by simp
  next
    assume n: "fl \<noteq> Done \<and> alive fc s1 \<and> lp_rounds (fst s1) = lp_rounds (fst s) + 1 \<and> lp_rounds (fst s1) \<le> m \<and>
      maxRequestRounds (lp_config (fst s1)) \<le> m"
    then have "m - lp_rounds (fst s1) < int k" using Suc.prems(4) by simp
    moreover have "0 < k" using n \<open>m - lp_rounds (fst s1) < int k\<close> by (cases k) auto
    ultimately obtain s' where
      "forward_loop k fc obs (Suc i) s1 = Some s'" "ended (fc_id fc) (fw_req (snd s'))"
      using n Suc.IH [of s1 "Suc i"] by auto
    with n r show ?thesis by (cases fl) simp_all
  qed
qed


lemma admit_running: "admit_request fc ad w = (Some (i, body), w1) \<Longrightarrow> i = Suc (qw_idSeq (fw_req w)) \<and> running i (fw_req w1)"
  by (auto simp: admit_request_def newRequestState_def Let_def trackClientRequest_def has_status_def fresh_request_def active_status_def
      split: if_splits body_read.splits option.splits)

lemma admit_refused: "admit_request fc ad w = (None, w1) \<Longrightarrow> length (fw_replies w1) = Suc (length (fw_replies w))"
  by (auto simp: admit_request_def say_def Let_def newRequestState_def split: if_splits body_read.splits option.splits)



text \<open>A sample: a group with one member; the first round gets a server error, the second an answer.\<close>

definition serve_group :: Group where
  "serve_group = demo_group\<lparr>g_Items := [(demo_item 10)\<lparr>it_ChannelModel := Some \<lparr>cm_ID = 10, cm_ChannelID = 4, cm_Name = ''m'', cm_Source = ''auto'', cm_UpstreamProtocol = [],
     cm_ContextWindow = 0, cm_MaxOutput = 0, cm_Reasoning = False, cm_ToolCall = False, cm_InputModalities = [], cm_MaxReasoningEffort = []\<rparr>\<rparr>]\<rparr>"

definition serve_env :: route_env where
  "serve_env = demo_env\<lparr>env_channel := (\<lambda>_. Some demo_channel), env_group := (\<lambda>_. Some serve_group)\<rparr>"

definition serve_call :: fwd_call where
  "serve_call = \<lparr>fc_id = 0, fc_model = ''g'', fc_format = ''openai'', fc_api = APIFormatOpenAIChatCompletion, fc_streaming = False,
     fc_scopeKey = ''s'', fc_startedAt = 0, fc_texts = (\<lambda>_. []), fc_clientLabel = ''openai_chat'', fc_upstreamLabel = (\<lambda>_ _. ''openai_chat''),
     fc_proxyLabel = (\<lambda>_ _. []), fc_resolveProxy = (\<lambda>_ _ _. None), fc_httpBody = (\<lambda>_. []), fc_setModel = (\<lambda>b _. Inr b),
     fc_setUsage = Inr, fc_inject = (\<lambda>_ b. b), fc_sanitize = (\<lambda>b. (b, False)), fc_echo = (\<lambda>b. b), fc_codec = demo_codec,
     fc_encode = (\<lambda>ev. Inr (ev_Data ev)), fc_budget = (\<lambda>_ _. []), fc_terminal = [], fc_aggregate = (\<lambda>_. Inr ([], None))\<rparr>"

definition serve_obs :: "relay_error + upstream_answer \<Rightarrow> round_obs" where
  "serve_obs sent = \<lparr>ob_now = 10 ^ 9, ob_end = 2 * 10 ^ 9, ob_ctx0 = None,
     ob_fit = \<lparr>fe_route = serve_env, fe_eqfold = (=), fe_density = []\<rparr>, ob_fuel = 3, ob_maskenv = demo_mask_env,
     ob_maskcfg = Some (demo_mask_config\<lparr>mc_Enabled := False\<rparr>), ob_maskErr = (\<lambda>_. plain_error []), ob_pick = demo_oracle,
     ob_hops = demo_oracle, ob_wait = WaitElapsed, ob_waiting = (\<lambda>w. w), ob_core = (\<lambda>_. Some demo_channel), ob_accountErr = None,
     ob_account = [], ob_ctx1 = None, ob_rpmErr = None, ob_warp = WarpBusy, ob_cancel = 1, ob_sending = (\<lambda>w. w), ob_buildErr = None,
     ob_sent = sent, ob_roundDone = False, ob_cause = None, ob_ctx2 = None, ob_write = None, ob_ctx3 = None\<rparr>"

definition pong :: upstream_answer where
  "pong = \<lparr>ua_body = ''pong'', ua_usage = None, ua_terminated = False, ua_window = [], ua_events = [], ua_streamErr = None,
     ua_idle = False, ua_flush = []\<rparr>"

definition serve_rounds :: "nat \<Rightarrow> round_obs" where
  "serve_rounds i = serve_obs (if i = 0 then Inl ((plain_error ''bad gateway'')\<lparr>er_http := Some 502\<rparr>) else Inr pong)"

definition serve_admission :: admission where
  "serve_admission = \<lparr>ad_read = BodyRead ''ping'', ad_budget = True, ad_allowed = [], ad_group = (\<lambda>_. Some serve_group), ad_title = True,
     ad_clientIP = ''10.0.0.1'', ad_apiKey = ''sk'', ad_keyName = ''k'', ad_model = ''g'', ad_now = 5\<rparr>"

definition serve_world :: fwd_world where
  "serve_world = \<lparr>fw_relay = init_world, fw_req = init_requests, fw_keys = \<lparr>ks_cursors = [], ks_cooldowns = [], ks_limits = resetChannelLimits\<rparr>,
     fw_mask = demo_engine, fw_logs = \<lparr>lg_total = 0, lg_counts = [], lg_entries = []\<rparr>, fw_replies = [], fw_written = [], fw_waits = []\<rparr>"


end
