(* ===== verification/Relay_Settle.thy ===== *)
theory Relay_Settle
  imports Relay_Loop_Props
begin

text \<open>
  Every hop a round of \<^verbatim>\<open>Forward\<close> resolved is settled by the end of the round: whatever way the round
  ends, no member of the chain is left on probation by it.
\<close>

subsection \<open>Members on probation\<close>

definition held :: "RouteState \<Rightarrow> int \<Rightarrow> bool" where
  "held r i \<longleftrightarrow> (rs_ProbeItemID r = i \<and> i \<noteq> 0) \<or> 0 < mget0 (rs_HalfOpens r) i"

definition probing :: "relay_world \<Rightarrow> int \<Rightarrow> int \<Rightarrow> bool" where
  "probing w gid i \<longleftrightarrow> (\<exists>r. map_of (rw_routes w) gid = Some r \<and> held r i)"

text \<open>No member is on probation in \<open>w'\<close> that was not in \<open>w\<close>.\<close>

definition calms :: "relay_world \<Rightarrow> relay_world \<Rightarrow> bool" where
  "calms w w' \<longleftrightarrow> (\<forall>gid i. probing w' gid i \<longrightarrow> probing w gid i)"

lemma calms_refl [simp]: "calms w w"
  by (simp add: calms_def)

lemma calms_trans: "calms a b \<Longrightarrow> calms b c \<Longrightarrow> calms a c"
  by (simp add: calms_def)

lemma calms_routes: "rw_routes w' = rw_routes w \<Longrightarrow> calms w w'"
  by (simp add: calms_def probing_def)

lemma routes_commit:
  "map_of (rw_routes (commit_route gid r changed w)) k = (if k = gid then Some r else map_of (rw_routes w) k)"
  by (simp add: commit_route_def set_route_def publishRouteLocked_def)

lemma held_sync [simp]: "held (syncEmergencySummaryLocked r) i = held r i"
  by (simp add: held_def syncEmergencySummaryLocked_def Let_def)

lemma held_releaseEmergency [simp]: "held (snd (releaseEmergencyLocked r j)) i = held r i"
  by (auto simp: releaseEmergencyLocked_def Let_def) (simp_all add: held_def)

lemma held_drop_current [simp]: "held (drop_current j r) i = held r i"
  by (simp add: drop_current_def held_def)

lemma held_release: "held (fst (releaseRouteProbe_route j r)) i \<Longrightarrow> held r i \<and> i \<noteq> j"
proof -
  obtain rel r2 where e: "releaseEmergencyLocked (if rs_ProbeItemID r = j \<or> 0 < mget0 (rs_HalfOpens r) j
      then let a = r\<lparr>rs_HalfOpens := mdel j (rs_HalfOpens r)\<rparr> in (if rs_ProbeItemID a = j then a\<lparr>rs_ProbeItemID := 0\<rparr> else a) else r) j
      = (rel, r2)" by fastforce
  have "held r2 i = held (if rs_ProbeItemID r = j \<or> 0 < mget0 (rs_HalfOpens r) j
      then let a = r\<lparr>rs_HalfOpens := mdel j (rs_HalfOpens r)\<rparr> in (if rs_ProbeItemID a = j then a\<lparr>rs_ProbeItemID := 0\<rparr> else a) else r) i"
    using held_releaseEmergency e by (metis snd_conv)
  moreover have "fst (releaseRouteProbe_route j r) = r2"
    using e by (auto simp: releaseRouteProbe_route_def Let_def split: prod.splits if_splits)
  moreover assume "held (fst (releaseRouteProbe_route j r)) i"
  ultimately show ?thesis by (auto simp: held_def Let_def split: if_splits)
qed

lemma held_failure:
  assumes "held (fst (snd (recordRouteFailure_route config j failures threshold now r))) i"
  shows "held r i \<and> i \<noteq> j"
proof -
  have 1: "held (failProbed_route config j failures threshold now r) i \<Longrightarrow> held r i \<and> i \<noteq> j"
    by (auto simp: failProbed_route_def Let_def held_def split: if_splits)
      (auto simp: drop_current_def releaseEmergencyLocked_def syncEmergencySummaryLocked_def Let_def split: if_splits)
  have 2: "held (openMember_route config j now r) i \<Longrightarrow> held r i"
    by (auto simp: openMember_route_def Let_def split: if_splits) (simp_all add: held_def)
  show ?thesis
  proof (cases "rs_ProbeItemID r = j \<or> 0 < mget0 (rs_HalfOpens r) j")
    case True
    with assms 1 show ?thesis by (simp add: recordRouteFailure_route_def)
  next
    case False
    with assms have "held r i" by (auto simp: recordRouteFailure_route_def case_prod_unfold split: if_splits dest: 2)
    with False show ?thesis by (auto simp: held_def)
  qed
qed


lemma held_success:
  assumes "held (fst (recordRouteSuccess_route config j now r)) i"
  shows "held r i \<and> i \<noteq> j"
proof -
  have s: "held (fst (settleSuccess_route config j now e r2)) i = held r2 i" for e r2
    by (auto simp: settleSuccess_route_def Let_def held_def case_prod_unfold releaseEmergencyLocked_def
        syncEmergencySummaryLocked_def split: if_splits)
  have c: "held (fst (confirmProbe_route j now r1)) i \<Longrightarrow> held r1 i \<and> i \<noteq> j" for r1
    by (auto simp: confirmProbe_route_def restoreItemLocked_def Let_def held_def split: if_splits)
  have k: "held (fst (clearStrikes_route j r)) i = held r i" by (simp add: clearStrikes_route_def held_def)
  obtain r1 c1 where r1: "clearStrikes_route j r = (r1, c1)" by fastforce
  obtain r2 c2 where r2: "confirmProbe_route j now r1 = (r2, c2)" by fastforce
  have "fst (recordRouteSuccess_route config j now r) = fst (settleSuccess_route config j now (emergencyHeldLocked r j) r2)"
    by (simp add: recordRouteSuccess_route_def r1 r2 case_prod_unfold)
  with assms s c [of r1] k r1 r2 show ?thesis by simp
qed

lemma held_prune: "held (prune_route g r) i \<Longrightarrow> held r i"
proof -
  have "mget0 (mkeep (\<lambda>k (v :: int). P k) m) i = (if P i then mget0 m i else 0)" for P m
    by (induction m) (auto simp: mkeep_def mget0_def)
  then show "held (prune_route g r) i \<Longrightarrow> held r i"
    by (auto simp: prune_route_def Let_def held_def syncEmergencySummaryLocked_def split: if_splits)
qed

lemma held_postCommit: "held (fst (snd (recordPostCommitFailure_route config j now r))) i = held r i"
  by (auto simp: recordPostCommitFailure_route_def Let_def) (simp_all add: held_def)

subsection \<open>The operations of the handler\<close>

lemma release_calms:
  "calms w (releaseRouteProbe g j w)" and release_settles: "\<not> probing (releaseRouteProbe g j w) (g_ID g) j"
proof -
  have "probing (releaseRouteProbe g j w) gid i \<Longrightarrow> probing w gid i \<and> (gid = g_ID g \<longrightarrow> i \<noteq> j)" for gid i
  proof (cases "map_of (rw_routes w) (g_ID g)")
    case None
    then show "probing (releaseRouteProbe g j w) gid i \<Longrightarrow> ?thesis" by (auto simp: releaseRouteProbe_def probing_def)
  next
    case (Some r)
    then show "probing (releaseRouteProbe g j w) gid i \<Longrightarrow> ?thesis"
      using held_release [of j r i]
      by (auto simp: releaseRouteProbe_def probing_def routes_commit case_prod_unfold split: if_splits)
  qed
  then show "calms w (releaseRouteProbe g j w)" "\<not> probing (releaseRouteProbe g j w) (g_ID g) j" by (auto simp: calms_def)
qed

lemma failure_calms: "calms w (snd (recordRouteFailureWithLimit g j failures threshold now w))"
  and failure_settles: "g_Mode g \<noteq> GroupModeManual \<Longrightarrow> \<not> probing (snd (recordRouteFailureWithLimit g j failures threshold now w)) (g_ID g) j"
proof -
  let ?w = "snd (recordRouteFailureWithLimit g j failures threshold now w)"
  have "probing w gid i \<and> (g_Mode g \<noteq> GroupModeManual \<longrightarrow> gid = g_ID g \<longrightarrow> i \<noteq> j)" if p: "probing ?w gid i" for gid i
  proof (cases "g_Mode g = GroupModeManual \<or> map_of (rw_routes w) (g_ID g) = None")
    case True
    with p show ?thesis by (auto simp: recordRouteFailureWithLimit_def probing_def split: option.splits)
  next
    case False
    then obtain r where r: "g_Mode g \<noteq> GroupModeManual" "map_of (rw_routes w) (g_ID g) = Some r" by auto
    with p held_failure [of "g_RelayConfig g" j failures "max threshold 1" now r i] show ?thesis
      by (auto simp: recordRouteFailureWithLimit_def probing_def routes_commit case_prod_unfold split: if_splits)
  qed
  then show "calms w ?w" "g_Mode g \<noteq> GroupModeManual \<Longrightarrow> \<not> probing ?w (g_ID g) j" by (auto simp: calms_def)
qed

lemma success_calms: "calms w (recordRouteSuccess g j now w)"
  and success_settles: "g_Mode g \<noteq> GroupModeManual \<Longrightarrow> \<not> probing (recordRouteSuccess g j now w) (g_ID g) j"
proof -
  let ?w = "recordRouteSuccess g j now w"
  have "probing w gid i \<and> (g_Mode g \<noteq> GroupModeManual \<longrightarrow> gid = g_ID g \<longrightarrow> i \<noteq> j)" if p: "probing ?w gid i" for gid i
  proof (cases "g_Mode g = GroupModeManual \<or> map_of (rw_routes w) (g_ID g) = None")
    case True
    with p show ?thesis by (auto simp: recordRouteSuccess_def probing_def split: option.splits)
  next
    case False
    then obtain r where r: "g_Mode g \<noteq> GroupModeManual" "map_of (rw_routes w) (g_ID g) = Some r" by auto
    with p held_success [of "g_RelayConfig g" j now r i] show ?thesis
      by (auto simp: recordRouteSuccess_def probing_def routes_commit case_prod_unfold split: if_splits)
  qed
  then show "calms w ?w" "g_Mode g \<noteq> GroupModeManual \<Longrightarrow> \<not> probing ?w (g_ID g) j" by (auto simp: calms_def)
qed

lemma postCommit_calms: "calms w (snd (recordPostCommitFailure g j now w))"
proof (cases "g_Mode g = GroupModeManual")
  case False
  let ?r0 = "case map_of (rw_routes w) (g_ID g) of None \<Rightarrow> fresh_route (g_ID g) | Some r \<Rightarrow> r"
  have "held (fresh_route k) i = False" for k i by (simp add: held_def fresh_route_def mget0_def)
  then have "held (prune_route g ?r0) i \<Longrightarrow> probing w (g_ID g) i" for i
    by (cases "map_of (rw_routes w) (g_ID g)") (auto simp: probing_def dest: held_prune)
  then show ?thesis
    unfolding calms_def recordPostCommitFailure_def groupRouteLocked_def Let_def case_prod_unfold
    using False held_postCommit
    by (auto simp: probing_def routes_commit set_route_def split: if_splits)
qed (simp add: recordPostCommitFailure_def)

lemma sticky_calms [simp]: "calms w (clearSessionStickyByItem gid i w)"
  by (rule calms_routes) (simp add: clearSessionStickyByItem_def Let_def)

lemma bind_calms: "calms w (bindSessionSticky g key i now w)"
  by (rule calms_routes) (auto simp: bindSessionSticky_def Let_def)

text \<open>A chain is settled when none of its members is on probation; manual groups have no probation.\<close>

definition chain_settled :: "refHop list \<Rightarrow> relay_world \<Rightarrow> bool" where
  "chain_settled hops w \<longleftrightarrow>
    (\<forall>h \<in> set hops. g_Mode (hop_group h) \<noteq> GroupModeManual \<longrightarrow> \<not> probing w (g_ID (hop_group h)) (it_ID (hop_item h)))"

lemma settled_mono: "chain_settled hops w \<Longrightarrow> calms w w' \<Longrightarrow> chain_settled hops w'"
  by (auto simp: chain_settled_def calms_def)

lemma settled_append [simp]: "chain_settled (xs @ ys) w \<longleftrightarrow> chain_settled xs w \<and> chain_settled ys w"
  by (auto simp: chain_settled_def)

lemma fold_settles:
  assumes "\<And>h w. calms w (f h w)" and "\<And>h w. chain_settled [h] (f h w)"
  shows "chain_settled hops (fold f hops w)" and "calms w (fold f hops w)"
proof -
  have c: "calms w (fold f hs w)" for hs w by (induction hs arbitrary: w) (auto intro: calms_trans assms(1))
  then show "calms w (fold f hops w)" .
  show "chain_settled hops (fold f hops w)"
  proof (induction hops arbitrary: w)
    case (Cons h hops)
    have "chain_settled [h] (fold f hops (f h w))" using settled_mono [OF assms(2) c] .
    with Cons show ?case by (auto simp: chain_settled_def)
  qed (simp add: chain_settled_def)
qed

lemma release_chain: "chain_settled hops (releaseRefChainHops hops w)" "calms w (releaseRefChainHops hops w)"
  unfolding releaseRefChainHops_def
  by (rule fold_settles; simp add: chain_settled_def release_calms release_settles)+

lemma commit_settles: "chain_settled hops (commitRouteOutcome hops key now w)"
proof -
  let ?f = "\<lambda>h w. if sessionStickyEnabled (hop_group h) key then bindSessionSticky (hop_group h) key (it_ID (hop_item h)) now w else w"
  have "calms w (fold ?f hs w)" for hs w by (induction hs arbitrary: w) (auto intro: calms_trans bind_calms)
  moreover have "chain_settled hops (fold (\<lambda>h. recordRouteSuccess (hop_group h) (it_ID (hop_item h)) now) hops w)"
    by (rule fold_settles; simp add: chain_settled_def success_calms success_settles)
  ultimately show ?thesis unfolding commitRouteOutcome_def by (blast intro: settled_mono)
qed


subsection \<open>Every way out of a round settles the chain\<close>

definition exits_settled :: "refHop list \<Rightarrow> 'a flow \<times> fwd \<Rightarrow> bool" where
  "exits_settled hops r \<longleftrightarrow> (case fst r of Next _ \<Rightarrow> True | _ \<Rightarrow> chain_settled hops (fw_relay (snd (snd r))))"

definition ends_settled :: "refHop list \<Rightarrow> 'a flow \<times> fwd \<Rightarrow> bool" where
  "ends_settled hops r \<longleftrightarrow> (case fst r of Next _ \<Rightarrow> False | _ \<Rightarrow> chain_settled hops (fw_relay (snd (snd r))))"

lemma exits_simps [simp]:
  "exits_settled hops (Next a, s)" "exits_settled hops (Again, s) = chain_settled hops (fw_relay (snd s))"
  "exits_settled hops (Done, s) = chain_settled hops (fw_relay (snd s))"
  "\<not> ends_settled hops (Next a, s)" "ends_settled hops (Again, s) = chain_settled hops (fw_relay (snd s))"
  "ends_settled hops (Done, s) = chain_settled hops (fw_relay (snd s))"
  by (simp_all add: exits_settled_def ends_settled_def)

lemma ends_exits: "ends_settled hops r \<Longrightarrow> exits_settled hops r"
  by (cases "fst r") (auto simp: exits_settled_def ends_settled_def)

lemma ends_bind:
  assumes "exits_settled hops r" and "\<And>a t. r = (Next a, t) \<Longrightarrow> ends_settled hops (k a t)"
  shows "ends_settled hops (bind_flow r k)"
proof -
  obtain fl t where r: "r = (fl, t)" by (rule prod.exhaust)
  show ?thesis using assms r by (cases fl) (auto simp: bind_flow_def)
qed

text \<open>During a pause nobody else puts a member of the chain on probation.\<close>

definition calm_pause :: "round_obs \<Rightarrow> bool" where
  "calm_pause ob \<longleftrightarrow> (\<forall>w. calms (fw_relay w) (fw_relay (ob_waiting ob w)))"

lemma ends_fail [simp]: "ends_settled hops (fail_request fc e1 e2 now s) = chain_settled hops (fw_relay (snd s))"
  by (simp add: fail_request_def)

lemma ends_cancel [simp]: "ends_settled hops (cancel_request fc e now s) = chain_settled hops (fw_relay (snd s))"
  by (simp add: cancel_request_def)

lemma ends_wait:
  assumes "calm_pause ob" and "chain_settled hops (fw_relay (snd s))"
  shows "ends_settled hops (wait_again fc ob secs s)"
proof -
  have "calms (fw_relay (snd s)) (fw_relay (ob_waiting ob ((snd s)\<lparr>fw_waits := fw_waits (snd s) @ [secs]\<rparr>)))"
    using assms(1) unfolding calm_pause_def by (metis fwd_world.select_convs(1) fwd_world.surjective fwd_world.update_convs(8))
  from settled_mono [OF assms(2) this] show ?thesis by (simp add: wait_again_def Let_def case_prod_unfold)
qed

lemma settled_sticky [simp]: "chain_settled hops w \<Longrightarrow> chain_settled hops (clearSessionStickyByItem gid i w)"
  using settled_mono sticky_calms by blast

lemmas release_settled = release_chain(1)

lemma ends_unusable: "calm_pause ob \<Longrightarrow> ends_settled hops (unusable_member fc ob hops s)"
  unfolding unusable_member_def by (rule ends_wait) (simp_all add: release_settled)

lemma exits_channel: "calm_pause ob \<Longrightarrow> exits_settled hops (round_channel fc ob hops s)"
  by (auto simp: round_channel_def intro!: ends_exits ends_unusable split: option.splits)

lemma exits_body: "exits_settled hops (round_body fc ob hops cm c s)"
  by (auto simp: round_body_def release_settled intro!: ends_exits split: sum.splits)

lemma exits_window: "exits_settled hops (round_window fc ob hops cm c s)"
  by (auto simp: round_window_def Let_def release_settled intro!: ends_exits)

text \<open>The leaf's failure settles the leaf, the rest of the chain is released before.\<close>

lemma leaf_failure_settles:
  assumes "le_hops le \<noteq> []"
  shows "chain_settled (le_hops le) (fw_relay (snd (snd (leaf_failure le err now (release_hops (butlast (le_hops le)) s)))))"
proof -
  let ?w = "releaseRefChainHops (butlast (le_hops le)) (fw_relay (snd s))"
  let ?w' = "fw_relay (snd (snd (leaf_failure le err now (release_hops (butlast (le_hops le)) s))))"
  have e: "\<exists>n t. ?w' = snd (recordRouteFailureWithLimit (leg_group le) (it_ID (leg_item le)) n t now ?w)"
    by (auto simp: leaf_failure_def recordRouteFailureIfReal_def recordRouteFailure_def Let_def case_prod_unfold)
  then have "calms ?w ?w'" using failure_calms by metis
  then have "chain_settled (butlast (le_hops le)) ?w'" using settled_mono release_settled by blast
  moreover have "chain_settled [last (le_hops le)] ?w'"
    using e failure_settles by (auto simp: chain_settled_def leg_group_def leg_item_def leaf_group_def leaf_item_def)
  ultimately have "chain_settled (butlast (le_hops le) @ [last (le_hops le)]) ?w'" by simp
  then show ?thesis using assms by simp
qed

lemma ends_settle_failure:
  assumes "calm_pause ob" and "le_hops le \<noteq> []"
  shows "ends_settled (le_hops le) (settle_failure fc ob le err now s)"
  unfolding settle_failure_def case_prod_unfold
  by (simp add: leaf_failure_settles [OF assms(2)] ends_wait [OF assms(1)])

lemma exits_dispatch:
  assumes "calm_pause ob" and "hops \<noteq> []"
  shows "exits_settled hops (round_dispatch fc ob hops cm c s)"
proof -
  obtain le e t where r: "choose_key fc ob hops cm c s = ((le, e), t)" by (metis prod.collapse)
  then have h: "le_hops le = hops" by (auto simp: choose_key_def Let_def case_prod_unfold)
  have "ends_settled (le_hops le) (dispatch_failed fc ob le err t :: leg flow \<times> fwd)" for err
    unfolding dispatch_failed_def Let_def
    using ends_settle_failure [OF assms(1), of le] assms(2) h
    by (cases "ob_ctx1 ob") (simp_all add: release_settled del: split_paired_All)
  then show ?thesis unfolding round_dispatch_def r using h by (cases e) (auto intro: ends_exits)
qed


lemma exits_rpm: "exits_settled (le_hops le) (round_rpm fc ob le s)"
  by (auto simp: round_rpm_def Let_def release_settled intro!: ends_exits split: option.splits)

lemma exits_slot: "calm_pause ob \<Longrightarrow> exits_settled (le_hops le) (round_slot fc ob le s)"
  by (auto simp: round_slot_def release_settled intro!: ends_exits ends_wait split: warp_pick.splits)

lemma drop_settles [simp]: "chain_settled (le_hops le) (fw_relay (snd (drop_round fc le s)))"
  by (simp add: drop_round_def release_settled)

lemma ends_too_large: "ends_settled (le_hops le) (too_large fc ob le code hint s)"
  unfolding too_large_def Let_def by (simp add: release_settled split: option.splits)

lemma ends_channel_full: "ends_settled (le_hops le) (channel_full fc ob le s)"
  unfolding channel_full_def Let_def by (simp add: release_settled)

lemma ends_non_retryable:
  assumes "le_hops le \<noteq> []"
  shows "ends_settled (le_hops le) (non_retryable fc ob le err s)"
  unfolding non_retryable_def case_prod_unfold Let_def
  by (simp add: leaf_failure_settles [OF assms] split: option.splits)

lemma ends_member_failed:
  assumes "calm_pause ob" and "le_hops le \<noteq> []"
  shows "ends_settled (le_hops le) (member_failed fc ob le err s)"
  unfolding member_failed_def Let_def
  by (simp add: ends_too_large ends_non_retryable [OF assms(2)] ends_settle_failure [OF assms])

lemma ends_retry:
  assumes "calm_pause ob" and "le_hops le \<noteq> []"
  shows "ends_settled (le_hops le) (retry_or_fail fc ob le err rejected s)"
  unfolding retry_or_fail_def repair_request_def Let_def case_prod_unfold
  by (simp add: ends_too_large ends_channel_full ends_member_failed [OF assms])

lemma ends_failed:
  assumes "calm_pause ob" and "le_hops le \<noteq> []"
  shows "ends_settled (le_hops le) (round_failed fc ob le err s)"
  unfolding round_failed_def cool_key_def Let_def
  by (cases "ob_ctx2 ob") (simp_all add: ends_retry [OF assms])

lemma ends_answer: "ends_settled (le_hops le) (round_answer fc ob le a s)"
  unfolding round_answer_def Let_def fail_written_def by (simp add: commit_settles split: option.splits)

lemma ends_stream: "ends_settled (le_hops le) (round_stream fc ob le a s)"
proof -
  have "ends_settled (le_hops le) (stream_broken fc ob le gone err body usage t)" for gone err body usage t
    unfolding stream_broken_def Let_def case_prod_unfold fail_written_def by (simp add: release_settled)
  then show ?thesis unfolding round_stream_def Let_def by (simp add: commit_settles)
qed

lemma slot_hops: "round_slot fc ob le s = (Next le', t) \<Longrightarrow> le_hops le' = le_hops le"
  by (auto simp: round_slot_def wait_again_def fail_request_def Let_def case_prod_unfold split: if_splits warp_pick.splits)

lemma dispatch_hops: "round_dispatch fc ob hops cm c s = (Next le, t) \<Longrightarrow> le_hops le = hops"
  by (auto simp: round_dispatch_def choose_key_def dispatch_failed_def settle_failure_def wait_again_def cancel_request_def Let_def
      case_prod_unfold split: if_splits option.splits)

lemma ends_send:
  assumes "calm_pause ob" and "le_hops le \<noteq> []"
  shows "ends_settled (le_hops le) (forward_send fc ob le s)"
  unfolding forward_send_def case_prod_unfold
  by (cases "fst (round_send fc ob le s)") (simp_all add: ends_failed [OF assms] ends_answer ends_stream)

lemma ends_tail:
  assumes "calm_pause ob" and "le_hops le \<noteq> []"
  shows "ends_settled (le_hops le) (bind_flow (round_rpm fc ob le s) (\<lambda>_ s. bind_flow (round_slot fc ob le s) (\<lambda>le s. forward_send fc ob le s)))"
proof (intro ends_bind exits_rpm exits_slot assms(1))
  fix a t le' u
  assume "round_slot fc ob le t = (Next le', u)"
  from slot_hops [OF this] ends_send [OF assms(1), of le' fc u] assms(2) show "ends_settled (le_hops le) (forward_send fc ob le' u)" by simp
qed

text \<open>
  C2. Whatever way a round ends, the chain it resolved is settled (the body of the loop of \<^verbatim>\<open>Forward\<close> from the
  resolved chain on). Every round comes to an end, by returning or going round again, and then no
  member of the chain is on probation in its group, unless the group is a manual one or another
  request took it during the pause: each claim was released, or turned into a success or a failure.
\<close>

theorem round_settles_chain:
  assumes "calm_pause ob" and "hops \<noteq> []" and "forward_leg fc ob hops s = (fl, s')"
  shows "(fl = Again \<or> fl = Done) \<and>
    (\<forall>h \<in> set hops. g_Mode (hop_group h) \<noteq> GroupModeManual \<longrightarrow>
       \<not> probing (fw_relay (snd s')) (g_ID (hop_group h)) (it_ID (hop_item h)))"
proof -
  have "ends_settled hops (forward_leg fc ob hops s)"
    unfolding forward_leg_def case_prod_unfold
  proof (intro ends_bind [OF exits_channel] ends_bind [OF exits_body] ends_bind [OF exits_window] ends_bind [OF exits_dispatch] assms(1,2))
    fix p t u u' w v v' le x
    assume "round_dispatch fc ob hops (fst p) (snd p) v' = (Next le, x)"
    from dispatch_hops [OF this] ends_tail [OF assms(1), of le fc x] assms(2)
    show "ends_settled hops (bind_flow (round_rpm fc ob le x) (\<lambda>_ s. bind_flow (round_slot fc ob le s) (\<lambda>le s. forward_send fc ob le s)))"
      by simp
  qed
  then show ?thesis using assms(3) by (cases fl) (auto simp: chain_settled_def)
qed


text \<open>The sample member on probation, in a round that ends with a server error.\<close>

definition probing_world :: fwd_world where
  "probing_world = serve_world\<lparr>fw_relay := init_world\<lparr>rw_routes := [(1, (fresh_route 1)\<lparr>rs_HalfOpens := [(10, 7)]\<rparr>)]\<rparr>\<rparr>"

definition serve_hop :: refHop where
  "serve_hop = \<lparr>hop_group = serve_group, hop_item = hd (g_Items serve_group)\<rparr>"

theorem round_settles_chain_witness:
  "probing (fw_relay probing_world) 1 10 \<and>
   (\<exists>fl s'. forward_leg serve_call (serve_rounds 0) [serve_hop] (init_loop ''ping'', probing_world) = (fl, s') \<and>
     \<not> probing (fw_relay (snd s')) 1 10)"
proof -
  obtain fl s' where r: "forward_leg serve_call (serve_rounds 0) [serve_hop] (init_loop ''ping'', probing_world) = (fl, s')"
    by (rule prod.exhaust)
  have "calm_pause (serve_rounds 0)" by (simp add: calm_pause_def serve_rounds_def serve_obs_def)
  from round_settles_chain [OF this _ r]
  have "\<not> probing (fw_relay (snd s')) (g_ID serve_group) (it_ID (hd (g_Items serve_group)))"
    by (simp add: serve_hop_def serve_group_def demo_fields)
  then have "\<not> probing (fw_relay (snd s')) 1 10" by (simp add: serve_group_def demo_item_def demo_fields)
  moreover have "probing (fw_relay probing_world) 1 10"
    by (simp add: probing_def probing_world_def held_def mget0_def)
  ultimately show ?thesis using r by blast
qed

end
