(* ===== verification/Warp_Slots.thy ===== *)
theory Warp_Slots
  imports Relay_Prelude
begin

text \<open>
  \<^verbatim>\<open>internal/relay/warp_slots.go\<close>: the pool of egress slots of one WARP gateway. The gateway
  publishes a snapshot of its slots; a request picks an idle slot, holds a lease on it, reports
  how the attempt ended and gives the lease back.

  Every section the code runs under \<^verbatim>\<open>p.mu\<close> is one function here. \<^verbatim>\<open>MarkRateLimited\<close>,
  \<^verbatim>\<open>Release\<close> and \<^verbatim>\<open>MarkNetworkFailure\<close> take the lock several times; they are split where the
  code unlocks (\<open>release\<close>, \<open>finishPending\<close>, \<open>invalidate\<close>), and \<open>warp_step\<close> lets the sections of
  different requests interleave in any order. Times are nanoseconds; \<open>None\<close> is the zero
  \<^verbatim>\<open>time.Time\<close>. The penalty requests posted to the gateway are logged in \<open>ww_penalties\<close>.
  \<^verbatim>\<open>time.Parse(time.RFC3339, _)\<close> is the argument \<open>rfc\<close>.
\<close>

record warpSlotInfo =
  si_Slot :: int
  si_Account :: string
  si_Egress :: string
  si_Prefix :: string
  si_State :: string
  si_InFlight :: int
  si_CoolingUntil :: string
  si_Generation :: int

record warpSlotsSnapshot =
  sn_Size :: int
  sn_UpdatedAt :: string
  sn_Slots :: "warpSlotInfo list"

record warpSlotPending =
  pe_channelID :: int
  pe_egress :: string
  pe_generation :: int
  pe_succeeded :: bool

record warpSlotPool =
  wp_controlBase :: string
  wp_fetchedAt :: "int option"
  wp_snapshot :: warpSlotsSnapshot
  wp_reserved :: "(int, int) gomap"
  wp_suspect :: "(int, int) gomap"
  wp_pending :: "(int, warpSlotPending) gomap"
  wp_next :: nat
  wp_sessionUsed :: "(string, (int, int) gomap) gomap"

record warpSlotLease =
  wl_channelID :: int
  wl_slot :: int
  wl_account :: string
  wl_egress :: string
  wl_generation :: int
  wl_done :: bool

definition second_ns :: int where "second_ns = 10 ^ 9"
definition warpSlotsCacheTTL :: int where "warpSlotsCacheTTL = second_ns"
definition warpSlotRateLimitWindow :: int where "warpSlotRateLimitWindow = 10 * second_ns"
definition warpSlotProxySuspect :: int where "warpSlotProxySuspect = 2 * second_ns"
definition warpSlotNetworkSuspect :: int where "warpSlotNetworkSuspect = 5 * second_ns"
definition warpSlotsRetryCap :: int where "warpSlotsRetryCap = 60 * second_ns"
definition warpSlotSessionTTL :: int where "warpSlotSessionTTL = 24 * 3600 * second_ns"

lemmas warp_times = warpSlotsCacheTTL_def warpSlotRateLimitWindow_def warpSlotProxySuspect_def
  warpSlotNetworkSuspect_def warpSlotsRetryCap_def warpSlotSessionTTL_def second_ns_def

definition warpSlotPoolFor_new :: "string \<Rightarrow> warpSlotPool" where
  "warpSlotPoolFor_new base =
    \<lparr>wp_controlBase = base, wp_fetchedAt = None,
     wp_snapshot = \<lparr>sn_Size = 0, sn_UpdatedAt = [], sn_Slots = []\<rparr>,
     wp_reserved = [], wp_suspect = [], wp_pending = [], wp_next = 0, wp_sessionUsed = []\<rparr>"

subsection \<open>Reading the snapshot\<close>

text \<open>The checks \<^verbatim>\<open>fetch\<close> makes on the decoded answer of \<^verbatim>\<open>/slots\<close>.\<close>

datatype snapshot_error = BadCount int nat | BadSlot int | BadAccount int string

fun fetch_loop :: "int \<Rightarrow> bool list \<Rightarrow> warpSlotInfo list \<Rightarrow> snapshot_error option" where
  "fetch_loop count seen [] = None"
| "fetch_loop count seen (slot # rest) =
    (if si_Slot slot < 0 \<or> count \<le> si_Slot slot \<or> seen ! nat (si_Slot slot)
     then Some (BadSlot (si_Slot slot))
     else if si_Account slot \<noteq> ''warp-'' @ Itoa (si_Slot slot)
     then Some (BadAccount (si_Slot slot) (si_Account slot))
     else fetch_loop count (seen[nat (si_Slot slot) := True]) rest)"

definition fetch_check :: "warpSlotsSnapshot \<Rightarrow> snapshot_error + warpSlotsSnapshot" where
  "fetch_check snapshot =
    (if sn_Size snapshot \<le> 0 \<or> int (length (sn_Slots snapshot)) \<noteq> sn_Size snapshot
     then Inl (BadCount (sn_Size snapshot) (length (sn_Slots snapshot)))
     else case fetch_loop (sn_Size snapshot) (replicate (nat (sn_Size snapshot)) False) (sn_Slots snapshot) of
            Some e \<Rightarrow> Inl e
          | None \<Rightarrow> Inr snapshot)"

definition warp_fresh :: "int \<Rightarrow> warpSlotPool \<Rightarrow> bool" where
  "warp_fresh now p = (case wp_fetchedAt p of None \<Rightarrow> False | Some t \<Rightarrow> now - t < warpSlotsCacheTTL)"

text \<open>
  The last section of \<^verbatim>\<open>refresh\<close>: a slot whose generation or egress changed loses its suspicion.
  Of two old entries for one slot number the later wins, as in the map the code builds.
\<close>

definition previous_slots :: "warpSlotInfo list \<Rightarrow> (int, warpSlotInfo) gomap" where
  "previous_slots slots = fold (\<lambda>slot m. mput (si_Slot slot) slot m) slots []"

definition slot_rotated :: "(int, warpSlotInfo) gomap \<Rightarrow> warpSlotInfo \<Rightarrow> bool" where
  "slot_rotated previous slot =
    (case map_of previous (si_Slot slot) of
       None \<Rightarrow> False
     | Some old \<Rightarrow> si_Generation old \<noteq> si_Generation slot \<or> si_Egress old \<noteq> si_Egress slot)"

definition refresh_install :: "int \<Rightarrow> warpSlotsSnapshot \<Rightarrow> warpSlotPool \<Rightarrow> warpSlotPool" where
  "refresh_install now snapshot p =
    (let previous = previous_slots (sn_Slots (wp_snapshot p)) in
     p\<lparr>wp_suspect := fold (\<lambda>slot m. if slot_rotated previous slot then mdel (si_Slot slot) m else m)
                          (sn_Slots snapshot) (wp_suspect p),
       wp_snapshot := snapshot,
       wp_fetchedAt := Some now\<rparr>)"

text \<open>\<^verbatim>\<open>refresh\<close> with the decoded answer of the gateway, \<open>None\<close> when the request itself failed.\<close>

definition warp_refresh ::
  "int \<Rightarrow> warpSlotsSnapshot option \<Rightarrow> warpSlotPool \<Rightarrow> bool \<times> warpSlotPool" where
  "warp_refresh now answer p =
    (if warp_fresh now p then (True, p)
     else case answer of
       None \<Rightarrow> (False, p)
     | Some snapshot \<Rightarrow>
         (case fetch_check snapshot of
            Inl _ \<Rightarrow> (False, p)
          | Inr snapshot \<Rightarrow> (True, refresh_install now snapshot p)))"

subsection \<open>Picking a slot\<close>

definition session_used :: "warpSlotPool \<Rightarrow> string \<Rightarrow> (int, int) gomap" where
  "session_used p session = (case map_of (wp_sessionUsed p) session of None \<Rightarrow> [] | Some used \<Rightarrow> used)"

definition slot_load :: "warpSlotPool \<Rightarrow> warpSlotInfo \<Rightarrow> int" where
  "slot_load p slot = si_InFlight slot + mget0 (wp_reserved p) (si_Slot slot)"

text \<open>The \<^verbatim>\<open>continue\<close>s of the loop that do not depend on the session, then the session's.\<close>

definition slot_free :: "int \<Rightarrow> warpSlotPool \<Rightarrow> warpSlotInfo \<Rightarrow> bool" where
  "slot_free now p slot \<longleftrightarrow>
    si_State slot = ''active'' \<and> si_Account slot \<noteq> [] \<and> si_Egress slot \<noteq> [] \<and>
    \<not> 0 < slot_load p slot \<and>
    \<not> (case map_of (wp_suspect p) (si_Slot slot) of None \<Rightarrow> False | Some until \<Rightarrow> now < until)"

definition slot_eligible :: "int \<Rightarrow> string \<Rightarrow> warpSlotPool \<Rightarrow> warpSlotInfo \<Rightarrow> bool" where
  "slot_eligible now session p slot \<longleftrightarrow>
    slot_free now p slot \<and> \<not> (session \<noteq> [] \<and> mhas (session_used p session) (si_Slot slot))"

text \<open>The scan from \<^verbatim>\<open>p.next\<close>: the best index so far and its load; \<open>None\<close> is \<^verbatim>\<open>best == -1\<close>.\<close>

fun slot_scan ::
  "int \<Rightarrow> string \<Rightarrow> warpSlotPool \<Rightarrow> nat list \<Rightarrow> (nat \<times> int) option \<Rightarrow> (nat \<times> int) option" where
  "slot_scan now session p [] best = best"
| "slot_scan now session p (offset # rest) best =
    (let slots = sn_Slots (wp_snapshot p);
         index = (wp_next p + offset) mod length slots;
         slot = slots ! index;
         load = slot_load p slot
     in if \<not> slot_eligible now session p slot then slot_scan now session p rest best
        else case best of
          None \<Rightarrow> slot_scan now session p rest (Some (index, load))
        | Some (_, bestLoad) \<Rightarrow>
            slot_scan now session p rest (if load < bestLoad then Some (index, load) else best))"

definition lease_of :: "warpSlotInfo \<Rightarrow> warpSlotLease" where
  "lease_of slot =
    \<lparr>wl_channelID = 0, wl_slot = si_Slot slot, wl_account = si_Account slot,
     wl_egress = si_Egress slot, wl_generation = si_Generation slot, wl_done = False\<rparr>"

definition pickAvailableLocked ::
  "int \<Rightarrow> string \<Rightarrow> warpSlotPool \<Rightarrow> (warpSlotLease \<times> warpSlotPool) option" where
  "pickAvailableLocked now session p =
    (let slots = sn_Slots (wp_snapshot p); count = length slots in
     case slot_scan now session p [0..<count] None of
       None \<Rightarrow> None
     | Some (best, _) \<Rightarrow>
         let slot = slots ! best;
             p1 = p\<lparr>wp_reserved := mput (si_Slot slot) (mget0 (wp_reserved p) (si_Slot slot) + 1) (wp_reserved p),
                    wp_next := (best + 1) mod count\<rparr>;
             p2 = (if session \<noteq> []
                   then p1\<lparr>wp_sessionUsed := mput session (mput (si_Slot slot) now (session_used p1 session))
                                                     (wp_sessionUsed p1)\<rparr>
                   else p1)
         in Some (lease_of slot, p2))"

definition pruneSessionsLocked :: "int \<Rightarrow> warpSlotPool \<Rightarrow> warpSlotPool" where
  "pruneSessionsLocked now p =
    p\<lparr>wp_sessionUsed :=
        mkeep (\<lambda>session used. used \<noteq> [])
          (map (\<lambda>(session, used). (session, mkeep (\<lambda>slot t. \<not> warpSlotSessionTTL \<le> now - t) used))
             (wp_sessionUsed p))\<rparr>"

text \<open>\<^verbatim>\<open>consider\<close> of \<^verbatim>\<open>retryAfterLocked\<close>, over the instants in the order they are visited.\<close>

definition consider_instant :: "int \<Rightarrow> int \<Rightarrow> int \<Rightarrow> int" where
  "consider_instant now until retry =
    (if now < until \<and> (retry = 0 \<or> until - now < retry) then until - now else retry)"

definition retryAfterLocked :: "(string \<Rightarrow> int option) \<Rightarrow> int \<Rightarrow> warpSlotPool \<Rightarrow> int" where
  "retryAfterLocked rfc now p =
    (let cooling = filter (\<lambda>slot. \<not> (si_State slot \<noteq> ''cooling'' \<or> si_CoolingUntil slot = []))
                     (sn_Slots (wp_snapshot p));
         instants = map snd (wp_suspect p) @ List.map_filter (\<lambda>slot. rfc (si_CoolingUntil slot)) cooling;
         retry = fold (consider_instant now) instants 0;
         retry = (if retry = 0 then second_ns else retry);
         retry = (if retry < second_ns then second_ns else retry)
     in if warpSlotsRetryCap < retry then warpSlotsRetryCap else retry)"

text \<open>\<^verbatim>\<open>pick\<close>: two attempts at most, the second with the session's memory dropped.\<close>

fun pick_attempts ::
  "nat \<Rightarrow> int \<Rightarrow> string \<Rightarrow> warpSlotPool \<Rightarrow> warpSlotLease option \<times> warpSlotPool" where
  "pick_attempts 0 now session p = (None, p)"
| "pick_attempts (Suc n) now session p =
    (case pickAvailableLocked now session p of
       Some (lease, p') \<Rightarrow> (Some lease, p')
     | None \<Rightarrow>
         if session = [] \<or> session_used p session = [] then (None, p)
         else pick_attempts n now session (p\<lparr>wp_sessionUsed := mdel session (wp_sessionUsed p)\<rparr>))"

definition warp_pick_slot ::
  "(string \<Rightarrow> int option) \<Rightarrow> int \<Rightarrow> string \<Rightarrow> warpSlotPool \<Rightarrow> (int + warpSlotLease) \<times> warpSlotPool" where
  "warp_pick_slot rfc now session p =
    (case pick_attempts 2 now session (pruneSessionsLocked now p) of
       (Some lease, p') \<Rightarrow> (Inr lease, p')
     | (None, p') \<Rightarrow> (Inl (retryAfterLocked rfc now p'), p'))"

subsection \<open>Leases and reports\<close>

record warp_penalty =
  wn_slot :: int
  wn_base :: string
  wn_egress :: string
  wn_reason :: string
  wn_channelID :: int

record warp_world =
  ww_pool :: warpSlotPool
  ww_leases :: "warpSlotLease list"
  ww_penalties :: "warp_penalty list"

definition warp_start :: "string \<Rightarrow> warp_world" where
  "warp_start base = \<lparr>ww_pool = warpSlotPoolFor_new base, ww_leases = [], ww_penalties = []\<rparr>"

text \<open>\<^verbatim>\<open>pickWarpSlot\<close> after the refresh: the lease carries the channel.\<close>

definition pickWarpSlot ::
  "(string \<Rightarrow> int option) \<Rightarrow> int \<Rightarrow> warpSlotsSnapshot option \<Rightarrow> int \<Rightarrow> string \<Rightarrow> warp_world
    \<Rightarrow> (int + nat) \<times> warp_world" where
  "pickWarpSlot rfc now answer channelID session w =
    (case warp_refresh now answer (ww_pool w) of
       (False, p) \<Rightarrow> (Inl second_ns, w\<lparr>ww_pool := p\<rparr>)
     | (True, p) \<Rightarrow>
         (case warp_pick_slot rfc now session p of
            (Inl retry, p') \<Rightarrow> (Inl retry, w\<lparr>ww_pool := p'\<rparr>)
          | (Inr lease, p') \<Rightarrow>
              (Inr (length (ww_leases w)),
               w\<lparr>ww_pool := p', ww_leases := ww_leases w @ [lease\<lparr>wl_channelID := channelID\<rparr>]\<rparr>)))"

definition warp_release :: "int \<Rightarrow> warpSlotPool \<Rightarrow> warpSlotPool" where
  "warp_release slot p =
    (let count = mget0 (wp_reserved p) slot in
     if count \<le> 1 then p\<lparr>wp_reserved := mdel slot (wp_reserved p)\<rparr>
     else p\<lparr>wp_reserved := mput slot (count - 1) (wp_reserved p)\<rparr>)"

definition invalidate :: "warpSlotPool \<Rightarrow> warpSlotPool" where
  "invalidate p = p\<lparr>wp_fetchedAt := None\<rparr>"

text \<open>\<^verbatim>\<open>warpPenalizeEgress\<close>: nothing is posted without a control address and an egress.\<close>

definition warpPenalizeEgress :: "int \<Rightarrow> string \<Rightarrow> string \<Rightarrow> int \<Rightarrow> warp_world \<Rightarrow> warp_world" where
  "warpPenalizeEgress slot egress reason channelID w =
    (if wp_controlBase (ww_pool w) = [] \<or> egress = [] then w
     else w\<lparr>ww_penalties := ww_penalties w @
       [\<lparr>wn_slot = slot, wn_base = wp_controlBase (ww_pool w), wn_egress = egress,
         wn_reason = reason, wn_channelID = channelID\<rparr>]\<rparr>)"

text \<open>The locked part of \<^verbatim>\<open>finishPending\<close>: the entry it took, if the slot is idle.\<close>

definition take_pending :: "int \<Rightarrow> warpSlotPool \<Rightarrow> warpSlotPending option \<times> warpSlotPool" where
  "take_pending slot p =
    (case map_of (wp_pending p) slot of
       None \<Rightarrow> (None, p)
     | Some pending \<Rightarrow>
         if 0 < mget0 (wp_reserved p) slot then (None, p)
         else (Some pending, p\<lparr>wp_pending := mdel slot (wp_pending p)\<rparr>))"

definition finishPending :: "int \<Rightarrow> warp_world \<Rightarrow> warp_world" where
  "finishPending slot w =
    (case take_pending slot (ww_pool w) of
       (None, p) \<Rightarrow> w\<lparr>ww_pool := p\<rparr>
     | (Some pending, p) \<Rightarrow>
         let w1 = w\<lparr>ww_pool := p\<rparr> in
         if pe_succeeded pending then w1
         else let w2 = warpPenalizeEgress slot (pe_egress pending) ''429'' (pe_channelID pending) w1
              in w2\<lparr>ww_pool := invalidate (ww_pool w2)\<rparr>)"

text \<open>The \<^verbatim>\<open>once\<close> of \<^verbatim>\<open>Release\<close> with the section it guards; \<open>finishPending\<close> follows as its own section.\<close>

definition lease_release :: "nat \<Rightarrow> warp_world \<Rightarrow> warp_world" where
  "lease_release l w =
    (if l < length (ww_leases w) \<and> \<not> wl_done (ww_leases w ! l)
     then w\<lparr>ww_leases := (ww_leases w)[l := (ww_leases w ! l)\<lparr>wl_done := True\<rparr>],
            ww_pool := warp_release (wl_slot (ww_leases w ! l)) (ww_pool w)\<rparr>
     else w)"

definition lease_Release :: "nat \<Rightarrow> warp_world \<Rightarrow> warp_world" where
  "lease_Release l w =
    (if l < length (ww_leases w) \<and> \<not> wl_done (ww_leases w ! l)
     then finishPending (wl_slot (ww_leases w ! l)) (lease_release l w)
     else w)"

definition MarkSuccess :: "warpSlotLease \<Rightarrow> warpSlotPool \<Rightarrow> warpSlotPool" where
  "MarkSuccess l p =
    (let p1 = p\<lparr>wp_suspect := mdel (wl_slot l) (wp_suspect p)\<rparr> in
     case map_of (wp_pending p1) (wl_slot l) of
       None \<Rightarrow> p1
     | Some pending \<Rightarrow>
         if pe_generation pending = wl_generation l
         then p1\<lparr>wp_pending := mput (wl_slot l) (pending\<lparr>pe_succeeded := True\<rparr>) (wp_pending p1)\<rparr>
         else p1)"

definition mark_suspect :: "int \<Rightarrow> int \<Rightarrow> warpSlotPool \<Rightarrow> warpSlotPool" where
  "mark_suspect slot until p = p\<lparr>wp_suspect := mput slot until (wp_suspect p)\<rparr>"

text \<open>The locked part of \<^verbatim>\<open>MarkRateLimited\<close>, then the whole.\<close>

definition note_rate_limit :: "int \<Rightarrow> warpSlotLease \<Rightarrow> warpSlotPool \<Rightarrow> warpSlotPool" where
  "note_rate_limit now l p =
    (let p1 = mark_suspect (wl_slot l) (now + warpSlotRateLimitWindow) p in
     p1\<lparr>wp_pending := mput (wl_slot l)
          \<lparr>pe_channelID = wl_channelID l, pe_egress = wl_egress l, pe_generation = wl_generation l,
           pe_succeeded = False\<rparr> (wp_pending p1)\<rparr>)"

definition MarkRateLimited :: "int \<Rightarrow> warpSlotLease \<Rightarrow> warp_world \<Rightarrow> warp_world" where
  "MarkRateLimited now l w = finishPending (wl_slot l) (w\<lparr>ww_pool := note_rate_limit now l (ww_pool w)\<rparr>)"

definition MarkProxyUnavailable :: "int \<Rightarrow> warpSlotLease \<Rightarrow> warpSlotPool \<Rightarrow> warpSlotPool" where
  "MarkProxyUnavailable now l p = invalidate (mark_suspect (wl_slot l) (now + warpSlotProxySuspect) p)"

definition MarkNetworkFailure :: "int \<Rightarrow> string \<Rightarrow> warpSlotLease \<Rightarrow> warp_world \<Rightarrow> warp_world" where
  "MarkNetworkFailure now reason l w =
    (let w1 = w\<lparr>ww_pool := mark_suspect (wl_slot l) (now + warpSlotNetworkSuspect) (ww_pool w)\<rparr>;
         w2 = warpPenalizeEgress (wl_slot l) (wl_egress l) reason (wl_channelID l) w1
     in w2\<lparr>ww_pool := invalidate (ww_pool w2)\<rparr>)"

text \<open>
  What the requests sharing the pool may do, one section at a time and in any order. The gateway
  is trusted on one point: it reports no negative number of requests in flight, which
  \<^verbatim>\<open>fetch\<close> does not check.
\<close>

definition gateway_counts :: "warpSlotsSnapshot option \<Rightarrow> bool" where
  "gateway_counts answer =
    (case answer of None \<Rightarrow> True | Some s \<Rightarrow> list_all (\<lambda>slot. 0 \<le> si_InFlight slot) (sn_Slots s))"

inductive warp_step :: "(string \<Rightarrow> int option) \<Rightarrow> warp_world \<Rightarrow> warp_world \<Rightarrow> bool"
  for rfc :: "string \<Rightarrow> int option" where
  step_pick: "gateway_counts answer \<Longrightarrow>
    warp_step rfc w (snd (pickWarpSlot rfc now answer channelID session w))"
| step_release: "warp_step rfc w (lease_release l w)"
| step_finish: "warp_step rfc w (finishPending slot w)"
| step_success: "l \<in> set (ww_leases w) \<Longrightarrow> warp_step rfc w (w\<lparr>ww_pool := MarkSuccess l (ww_pool w)\<rparr>)"
| step_limited: "l \<in> set (ww_leases w) \<Longrightarrow> warp_step rfc w (w\<lparr>ww_pool := note_rate_limit now l (ww_pool w)\<rparr>)"
| step_proxy: "l \<in> set (ww_leases w) \<Longrightarrow> warp_step rfc w (w\<lparr>ww_pool := MarkProxyUnavailable now l (ww_pool w)\<rparr>)"
| step_network: "l \<in> set (ww_leases w) \<Longrightarrow> warp_step rfc w (MarkNetworkFailure now reason l w)"

inductive warp_reachable :: "(string \<Rightarrow> int option) \<Rightarrow> string \<Rightarrow> warp_world \<Rightarrow> bool"
  for rfc :: "string \<Rightarrow> int option" and base :: string where
  reach_start: "warp_reachable rfc base (warp_start base)"
| reach_step: "warp_reachable rfc base w \<Longrightarrow> warp_step rfc w w' \<Longrightarrow> warp_reachable rfc base w'"

subsection \<open>A pick is exact\<close>

lemma slot_scan_None:
  "slot_scan now session p offsets best = None \<longleftrightarrow>
    best = None \<and> (\<forall>k \<in> set offsets. \<not> slot_eligible now session p
      (sn_Slots (wp_snapshot p) ! ((wp_next p + k) mod length (sn_Slots (wp_snapshot p)))))"
  by (induction offsets arbitrary: best)
    (auto simp: Let_def simp del: not_None_eq not_Some_eq split: option.splits)

lemma slot_scan_Some:
  assumes "slot_scan now session p offsets best = Some (i, load)"
  shows "best = Some (i, load) \<or> (\<exists>k \<in> set offsets. i = (wp_next p + k) mod length (sn_Slots (wp_snapshot p)) \<and>
    slot_eligible now session p (sn_Slots (wp_snapshot p) ! i))"
  using assms
proof (induction offsets arbitrary: best)
  case (Cons k rest)
  let ?n = "length (sn_Slots (wp_snapshot p))"
  let ?i = "(wp_next p + k) mod ?n"
  let ?slot = "sn_Slots (wp_snapshot p) ! ?i"
  show ?case
  proof (cases "slot_eligible now session p ?slot")
    case False
    with Cons show ?thesis by (auto simp: Let_def)
  next
    case True
    then obtain best' where "slot_scan now session p rest best' = Some (i, load)"
      and "best' = Some (?i, slot_load p ?slot) \<or> best' = best"
      using Cons.prems by (auto simp: Let_def split: option.splits if_splits)
    with Cons.IH [of best'] True show ?thesis by auto
  qed
qed simp

lemma rotated_indices:
  "0 < n \<Longrightarrow> (\<lambda>k. (start + k) mod n) ` set [0..<n] = {..<(n::nat)}"
proof
  assume n: "0 < n"
  then show "(\<lambda>k. (start + k) mod n) ` set [0..<n] \<subseteq> {..<n}" by auto
  show "{..<n} \<subseteq> (\<lambda>k. (start + k) mod n) ` set [0..<n]"
  proof
    fix i assume "i \<in> {..<n}"
    then have i: "i < n" by simp
    let ?k = "(i + (n - start mod n)) mod n"
    have le: "start mod n \<le> n" using n by (simp add: less_imp_le)
    have "(start + ?k) mod n = (start mod n + (i + (n - start mod n))) mod n"
      by (metis mod_add_left_eq mod_add_right_eq)
    also have "start mod n + (i + (n - start mod n)) = i + n" using le by simp
    finally have "i = (start + ?k) mod n" using i by simp
    moreover have "?k \<in> set [0..<n]" using n by simp
    ultimately show "i \<in> (\<lambda>k. (start + k) mod n) ` set [0..<n]" by blast
  qed
qed

lemma pickAvailable_None:
  "pickAvailableLocked now session p = None \<longleftrightarrow>
    (\<forall>slot \<in> set (sn_Slots (wp_snapshot p)). \<not> slot_eligible now session p slot)"
proof -
  let ?slots = "sn_Slots (wp_snapshot p)"
  let ?n = "length ?slots"
  have "pickAvailableLocked now session p = None \<longleftrightarrow> slot_scan now session p [0..<?n] None = None"
    by (simp add: pickAvailableLocked_def Let_def split: option.splits)
  also have "\<dots> \<longleftrightarrow> (\<forall>i \<in> (\<lambda>k. (wp_next p + k) mod ?n) ` set [0..<?n].
      \<not> slot_eligible now session p (?slots ! i))"
    unfolding slot_scan_None by simp
  also have "\<dots> \<longleftrightarrow> (\<forall>i < ?n. \<not> slot_eligible now session p (?slots ! i))"
  proof (cases "?n = 0")
    case False
    then show ?thesis using rotated_indices [of ?n "wp_next p"] by (simp add: Ball_def)
  qed simp
  also have "\<dots> \<longleftrightarrow> (\<forall>slot \<in> set ?slots. \<not> slot_eligible now session p slot)"
    by (metis in_set_conv_nth)
  finally show ?thesis .
qed

lemma pickAvailable_Some:
  assumes "pickAvailableLocked now session p = Some (lease, p')"
  obtains slot where "slot \<in> set (sn_Slots (wp_snapshot p))" "slot_eligible now session p slot"
    "lease = lease_of slot" "wp_snapshot p' = wp_snapshot p" "wp_suspect p' = wp_suspect p"
    "wp_pending p' = wp_pending p" "wp_controlBase p' = wp_controlBase p"
    "wp_reserved p' = mput (si_Slot slot) (mget0 (wp_reserved p) (si_Slot slot) + 1) (wp_reserved p)"
    "session \<noteq> [] \<Longrightarrow> mhas (session_used p' session) (si_Slot slot)"
proof -
  let ?slots = "sn_Slots (wp_snapshot p)"
  let ?n = "length ?slots"
  obtain i load where scan: "slot_scan now session p [0..<?n] None = Some (i, load)"
    using assms by (auto simp: pickAvailableLocked_def Let_def split: option.splits)
  from slot_scan_Some [OF this] obtain k where "k < ?n" and "i = (wp_next p + k) mod ?n"
    and el: "slot_eligible now session p (?slots ! i)"
    by auto
  then have "i < ?n" by (auto intro: mod_less_divisor simp del: length_greater_0_conv)
  then have mem: "?slots ! i \<in> set ?slots" by simp
  have lease: "lease = lease_of (?slots ! i)"
    and p': "p' = snd (the (pickAvailableLocked now session p))"
    using assms by (simp_all add: pickAvailableLocked_def Let_def scan)
  show thesis
    by (rule that [OF mem el lease]) (simp_all add: p' pickAvailableLocked_def Let_def scan session_used_def)
qed

lemma consider_bounds: "0 \<le> retry \<Longrightarrow> 0 \<le> consider_instant now until retry"
  by (simp add: consider_instant_def)

lemma retryAfter_bounds:
  "second_ns \<le> retryAfterLocked rfc now p" "retryAfterLocked rfc now p \<le> warpSlotsRetryCap"
  by (simp_all add: retryAfterLocked_def Let_def warp_times)

lemma consider_le_instant:
  "now < until \<Longrightarrow> 0 \<le> retry \<Longrightarrow> 0 < consider_instant now until retry \<and> consider_instant now until retry \<le> until - now"
  by (auto simp: consider_instant_def)

lemma consider_le_retry:
  "0 < retry \<Longrightarrow> 0 < consider_instant now until retry \<and> consider_instant now until retry \<le> retry"
  by (auto simp: consider_instant_def)

lemma consider_fold_le:
  "0 < retry \<Longrightarrow> 0 < fold (consider_instant now) us retry \<and> fold (consider_instant now) us retry \<le> retry"
proof (induction us arbitrary: retry)
  case (Cons u us)
  have "0 < consider_instant now u retry" "consider_instant now u retry \<le> retry"
    using consider_le_retry [OF Cons.prems] by auto
  with Cons.IH [of "consider_instant now u retry"] show ?case by simp
qed simp

lemma consider_fold_instant:
  "u \<in> set us \<Longrightarrow> now < u \<Longrightarrow> 0 \<le> retry \<Longrightarrow> fold (consider_instant now) us retry \<le> u - now"
proof (induction us arbitrary: retry)
  case (Cons v us)
  show ?case
  proof (cases "u = v")
    case True
    with Cons.prems consider_le_instant [of now u retry] consider_fold_le [of "consider_instant now u retry" now us]
    show ?thesis by fastforce
  next
    case False
    with Cons.prems have "u \<in> set us" by simp
    with Cons show ?thesis by (simp add: consider_bounds)
  qed
qed simp

text \<open>A busy answer never asks for a wait past the end of a suspicion, once that is a second away.\<close>

lemma retryAfter_suspect:
  assumes "(slot, until) \<in> set (wp_suspect p)" and "now < until"
  shows "retryAfterLocked rfc now p \<le> max second_ns (until - now)"
proof -
  let ?us = "map snd (wp_suspect p) @ List.map_filter (\<lambda>slot. rfc (si_CoolingUntil slot))
    (filter (\<lambda>slot. \<not> (si_State slot \<noteq> ''cooling'' \<or> si_CoolingUntil slot = [])) (sn_Slots (wp_snapshot p)))"
  have "until \<in> set ?us" using assms(1) by force
  then have "fold (consider_instant now) ?us 0 \<le> until - now"
    using assms(2) by (intro consider_fold_instant) auto
  then show ?thesis
    unfolding retryAfterLocked_def Let_def by (auto simp: warp_times)
qed

lemma prune_fields [simp]:
  "wp_snapshot (pruneSessionsLocked now p) = wp_snapshot p"
  "wp_reserved (pruneSessionsLocked now p) = wp_reserved p"
  "wp_suspect (pruneSessionsLocked now p) = wp_suspect p"
  "wp_pending (pruneSessionsLocked now p) = wp_pending p"
  "wp_controlBase (pruneSessionsLocked now p) = wp_controlBase p"
  by (simp_all add: pruneSessionsLocked_def)

lemma slot_free_same:
  "wp_reserved p' = wp_reserved p \<Longrightarrow> wp_suspect p' = wp_suspect p \<Longrightarrow> slot_free now p' slot = slot_free now p slot"
  by (simp add: slot_free_def slot_load_def)

definition forget :: "string \<Rightarrow> warpSlotPool \<Rightarrow> warpSlotPool" where
  "forget session p = p\<lparr>wp_sessionUsed := mdel session (wp_sessionUsed p)\<rparr>"

lemma forget_fields [simp]:
  "wp_snapshot (forget session p) = wp_snapshot p" "wp_reserved (forget session p) = wp_reserved p"
  "wp_suspect (forget session p) = wp_suspect p" "wp_pending (forget session p) = wp_pending p"
  "wp_controlBase (forget session p) = wp_controlBase p" "session_used (forget session p) session = []"
  by (simp_all add: forget_def session_used_def)

lemma eligible_free: "slot_eligible now session p slot \<Longrightarrow> slot_free now p slot"
  by (simp add: slot_eligible_def)

lemma eligible_forget: "slot_eligible now session (forget session p) slot = slot_free now p slot"
  by (simp add: slot_eligible_def slot_free_same [of "forget session p" p])

text \<open>\<open>pick_attempts 2\<close> unfolded: which of the two attempts answered.\<close>

lemma pick_attempts_cases:
  assumes "pick_attempts 2 now session p = (r, p')"
  obtains (first) lease where "r = Some lease" "pickAvailableLocked now session p = Some (lease, p')"
  | (again) lease where "r = Some lease" "session \<noteq> []" "session_used p session \<noteq> []"
      "pickAvailableLocked now session p = None"
      "pickAvailableLocked now session (forget session p) = Some (lease, p')"
  | (busy) "r = None" "p' = p \<or> p' = forget session p"
      "\<forall>slot \<in> set (sn_Slots (wp_snapshot p)). \<not> slot_free now p slot"
proof (cases "pickAvailableLocked now session p")
  case (Some q)
  obtain lease p1 where q: "q = (lease, p1)" by (cases q)
  with assms Some show thesis by (intro first) (simp_all add: numeral_2_eq_2)
next
  case None
  note none = None
  show thesis
  proof (cases "session = [] \<or> session_used p session = []")
    case True
    with none assms have "r = None" "p' = p" by (simp_all add: numeral_2_eq_2)
    moreover have "\<forall>slot \<in> set (sn_Slots (wp_snapshot p)). \<not> slot_free now p slot"
      using none True unfolding pickAvailable_None by (auto simp: slot_eligible_def)
    ultimately show thesis by (intro busy) auto
  next
    case False
    with none assms have second: "pick_attempts 1 now session (forget session p) = (r, p')"
      by (simp add: numeral_2_eq_2 forget_def)
    show thesis
    proof (cases "pickAvailableLocked now session (forget session p)")
      case (Some q)
      obtain lease p1 where q: "q = (lease, p1)" by (cases q)
      with second Some False none show thesis by (intro again) simp_all
    next
      case None
      with second False have "r = None" "p' = forget session p" by simp_all
      moreover have "\<forall>slot \<in> set (sn_Slots (wp_snapshot p)). \<not> slot_free now p slot"
        using None unfolding pickAvailable_None by (simp add: eligible_forget)
      ultimately show thesis by (intro busy) auto
    qed
  qed
qed

text \<open>What a pick does to the rest of the pool, and the slot it leases.\<close>

lemma warp_pick_lease:
  assumes "warp_pick_slot rfc now session p = (Inr lease, p')"
  obtains slot where "slot \<in> set (sn_Slots (wp_snapshot p))" "slot_free now p slot" "lease = lease_of slot"
    "wp_snapshot p' = wp_snapshot p" "wp_suspect p' = wp_suspect p" "wp_pending p' = wp_pending p"
    "wp_controlBase p' = wp_controlBase p"
    "wp_reserved p' = mput (si_Slot slot) (mget0 (wp_reserved p) (si_Slot slot) + 1) (wp_reserved p)"
    "session \<noteq> [] \<Longrightarrow> mhas (session_used p' session) (si_Slot slot)"
    "session \<noteq> [] \<Longrightarrow> mhas (session_used (pruneSessionsLocked now p) session) (si_Slot slot) \<Longrightarrow>
      \<forall>other \<in> set (sn_Slots (wp_snapshot p)). slot_free now p other \<longrightarrow>
        mhas (session_used (pruneSessionsLocked now p) session) (si_Slot other)"
proof -
  let ?p = "pruneSessionsLocked now p"
  have at: "pick_attempts 2 now session ?p = (Some lease, p')"
    using assms by (auto simp: warp_pick_slot_def split: prod.splits option.splits)
  have free: "slot_free now ?p s = slot_free now p s" for s
    by (rule slot_free_same) simp_all
  from at show thesis
  proof (cases rule: pick_attempts_cases)
    case (first l)
    from first(2) obtain slot where s: "slot \<in> set (sn_Slots (wp_snapshot ?p))" "slot_eligible now session ?p slot"
      "l = lease_of slot" "wp_snapshot p' = wp_snapshot ?p" "wp_suspect p' = wp_suspect ?p"
      "wp_pending p' = wp_pending ?p" "wp_controlBase p' = wp_controlBase ?p"
      "wp_reserved p' = mput (si_Slot slot) (mget0 (wp_reserved ?p) (si_Slot slot) + 1) (wp_reserved ?p)"
      "session \<noteq> [] \<Longrightarrow> mhas (session_used p' session) (si_Slot slot)"
      by (rule pickAvailable_Some) blast
    have new: "session \<noteq> [] \<Longrightarrow> \<not> mhas (session_used ?p session) (si_Slot slot)"
      using s(2) by (simp add: slot_eligible_def)
    show thesis
      by (rule that [of slot]) (use s first(1) new eligible_free [OF s(2)] in \<open>simp_all add: free\<close>)
  next
    case (again l)
    from again(5) obtain slot where s: "slot \<in> set (sn_Slots (wp_snapshot (forget session ?p)))"
      "slot_eligible now session (forget session ?p) slot"
      "l = lease_of slot" "wp_snapshot p' = wp_snapshot (forget session ?p)"
      "wp_suspect p' = wp_suspect (forget session ?p)"
      "wp_pending p' = wp_pending (forget session ?p)" "wp_controlBase p' = wp_controlBase (forget session ?p)"
      "wp_reserved p' = mput (si_Slot slot) (mget0 (wp_reserved (forget session ?p)) (si_Slot slot) + 1)
         (wp_reserved (forget session ?p))"
      "session \<noteq> [] \<Longrightarrow> mhas (session_used p' session) (si_Slot slot)"
      by (rule pickAvailable_Some) blast
    have all: "\<forall>other \<in> set (sn_Slots (wp_snapshot p)). slot_free now p other \<longrightarrow>
        mhas (session_used ?p session) (si_Slot other)"
      using again(4) unfolding pickAvailable_None by (auto simp: slot_eligible_def free)
    show thesis
      by (rule that [of slot]) (use s again(1) all in \<open>simp_all add: eligible_forget free\<close>)
  next
    case busy
    then show thesis by simp
  qed
qed

lemma warp_pick_busy:
  assumes "warp_pick_slot rfc now session p = (Inl retry, p')"
  shows "\<forall>slot \<in> set (sn_Slots (wp_snapshot p)). \<not> slot_free now p slot"
    and "wp_reserved p' = wp_reserved p" "wp_suspect p' = wp_suspect p" "wp_pending p' = wp_pending p"
    and "wp_snapshot p' = wp_snapshot p" "wp_controlBase p' = wp_controlBase p"
    and "retry = retryAfterLocked rfc now p'"
proof -
  let ?p = "pruneSessionsLocked now p"
  have at: "pick_attempts 2 now session ?p = (None, p')" and retry: "retry = retryAfterLocked rfc now p'"
    using assms by (auto simp: warp_pick_slot_def split: prod.splits option.splits)
  have free: "slot_free now ?p s = slot_free now p s" for s
    by (rule slot_free_same) simp_all
  from at have "(p' = ?p \<or> p' = forget session ?p) \<and>
      (\<forall>slot \<in> set (sn_Slots (wp_snapshot ?p)). \<not> slot_free now ?p slot)"
    by (cases rule: pick_attempts_cases) auto
  then show "\<forall>slot \<in> set (sn_Slots (wp_snapshot p)). \<not> slot_free now p slot"
    and "wp_reserved p' = wp_reserved p" "wp_suspect p' = wp_suspect p" "wp_pending p' = wp_pending p"
    and "wp_snapshot p' = wp_snapshot p" "wp_controlBase p' = wp_controlBase p"
    by (auto simp: free)
  show "retry = retryAfterLocked rfc now p'" by (rule retry)
qed

subsection \<open>A valid snapshot\<close>

lemma fetch_loop_None:
  assumes "fetch_loop n seen slots = None" and "length seen = nat n"
  shows "(\<forall>slot \<in> set slots. 0 \<le> si_Slot slot \<and> si_Slot slot < n \<and> \<not> seen ! nat (si_Slot slot) \<and>
      si_Account slot = ''warp-'' @ Itoa (si_Slot slot)) \<and> distinct (map si_Slot slots)"
  using assms
proof (induction slots arbitrary: seen)
  case (Cons slot rest)
  let ?seen = "seen[nat (si_Slot slot) := True]"
  from Cons.prems have s: "0 \<le> si_Slot slot" "si_Slot slot < n" "\<not> seen ! nat (si_Slot slot)"
    "si_Account slot = ''warp-'' @ Itoa (si_Slot slot)" and rest: "fetch_loop n ?seen rest = None"
    by (auto split: if_splits)
  have IH: "(\<forall>x \<in> set rest. 0 \<le> si_Slot x \<and> si_Slot x < n \<and> \<not> ?seen ! nat (si_Slot x) \<and>
      si_Account x = ''warp-'' @ Itoa (si_Slot x)) \<and> distinct (map si_Slot rest)"
    using Cons.IH [OF rest] Cons.prems(2) by simp
  have away: "si_Slot x \<noteq> si_Slot slot \<and> \<not> seen ! nat (si_Slot x)" if "x \<in> set rest" for x
  proof -
    have "\<not> ?seen ! nat (si_Slot x)" using IH that by blast
    moreover have "nat (si_Slot slot) < length seen" using s Cons.prems(2) by simp
    ultimately show ?thesis by (metis nth_list_update_eq nth_list_update_neq)
  qed
  have "si_Slot slot \<notin> si_Slot ` set rest" using away by force
  with IH s away show ?case by simp
qed simp

lemma fetch_valid:
  assumes "fetch_check snapshot = Inr s"
  shows "s = snapshot" and "distinct (map si_Slot (sn_Slots s))"
    and "\<And>slot. slot \<in> set (sn_Slots s) \<Longrightarrow> 0 \<le> si_Slot slot \<and> si_Slot slot < sn_Size s \<and>
      si_Account slot = ''warp-'' @ Itoa (si_Slot slot)"
    and "int (length (sn_Slots s)) = sn_Size s"
proof -
  show eq: "s = snapshot" using assms by (auto simp: fetch_check_def split: if_splits option.splits)
  have loop: "fetch_loop (sn_Size s) (replicate (nat (sn_Size s)) False) (sn_Slots s) = None"
    using assms eq by (auto simp: fetch_check_def split: if_splits option.splits)
  note valid = fetch_loop_None [OF loop]
  show "distinct (map si_Slot (sn_Slots s))" using valid by simp
  show "int (length (sn_Slots s)) = sn_Size s"
    using assms eq by (auto simp: fetch_check_def split: if_splits)
  show "0 \<le> si_Slot slot \<and> si_Slot slot < sn_Size s \<and> si_Account slot = ''warp-'' @ Itoa (si_Slot slot)"
    if "slot \<in> set (sn_Slots s)" for slot
    using valid that by simp
qed

text \<open>The slot numbers of an accepted snapshot are exactly \<open>0 .. size - 1\<close>, each once.\<close>

lemma fetch_slot_numbers:
  assumes "fetch_check snapshot = Inr s"
  shows "si_Slot ` set (sn_Slots s) = {0..<sn_Size s}"
proof (rule card_subset_eq)
  show "si_Slot ` set (sn_Slots s) \<subseteq> {0..<sn_Size s}"
    using fetch_valid(3) [OF assms] by auto
  have "card (si_Slot ` set (sn_Slots s)) = length (sn_Slots s)"
    using distinct_card [OF fetch_valid(2) [OF assms]] by simp
  then show "card (si_Slot ` set (sn_Slots s)) = card {0..<sn_Size s}"
    using fetch_valid(4) [OF assms] by simp
qed simp

subsection \<open>The invariant of the pool\<close>

definition open_leases :: "warp_world \<Rightarrow> int \<Rightarrow> nat" where
  "open_leases w slot = length (filter (\<lambda>l. wl_slot l = slot \<and> \<not> wl_done l) (ww_leases w))"

definition slot_info_ok :: "warpSlotInfo \<Rightarrow> bool" where
  "slot_info_ok slot \<longleftrightarrow> 0 \<le> si_Slot slot \<and> 0 \<le> si_InFlight slot \<and>
    si_Account slot = ''warp-'' @ Itoa (si_Slot slot)"

definition lease_ok :: "warpSlotLease \<Rightarrow> bool" where
  "lease_ok l \<longleftrightarrow> 0 \<le> wl_slot l \<and> wl_account l = ''warp-'' @ Itoa (wl_slot l)"

definition warp_inv :: "warp_world \<Rightarrow> bool" where
  "warp_inv w \<longleftrightarrow>
    (\<forall>slot. mget0 (wp_reserved (ww_pool w)) slot = int (open_leases w slot) \<and> open_leases w slot \<le> 1) \<and>
    (\<forall>slot \<in> set (sn_Slots (wp_snapshot (ww_pool w))). slot_info_ok slot) \<and>
    (\<forall>l \<in> set (ww_leases w). lease_ok l)"

lemma warp_inv_start [intro, simp]: "warp_inv (warp_start base)"
  by (simp add: warp_inv_def warp_start_def warpSlotPoolFor_new_def open_leases_def)

text \<open>Sections that leave reservations, snapshot and leases alone keep the invariant.\<close>

lemma warp_inv_frame:
  assumes "warp_inv w" and "wp_reserved (ww_pool w') = wp_reserved (ww_pool w)"
    and "wp_snapshot (ww_pool w') = wp_snapshot (ww_pool w)" and "ww_leases w' = ww_leases w"
  shows "warp_inv w'"
  using assms by (simp add: warp_inv_def open_leases_def)

lemma warp_refresh_frame:
  assumes "warp_refresh now answer p = (b, p')"
  shows "wp_reserved p' = wp_reserved p" "wp_pending p' = wp_pending p" "wp_controlBase p' = wp_controlBase p"
    "wp_snapshot p' = wp_snapshot p \<or> (\<exists>s. answer = Some s \<and> fetch_check s = Inr (wp_snapshot p'))"
  using assms by (auto simp: warp_refresh_def refresh_install_def Let_def dest: fetch_valid(1)
      split: if_splits option.splits sum.splits)

lemma refresh_slots_ok:
  assumes "warp_refresh now answer p = (b, p')" and "gateway_counts answer"
    and "\<forall>slot \<in> set (sn_Slots (wp_snapshot p)). slot_info_ok slot"
  shows "\<forall>slot \<in> set (sn_Slots (wp_snapshot p')). slot_info_ok slot"
proof -
  from warp_refresh_frame(4) [OF assms(1)] show ?thesis
  proof
    assume "\<exists>s. answer = Some s \<and> fetch_check s = Inr (wp_snapshot p')"
    then obtain s where s: "answer = Some s" "fetch_check s = Inr (wp_snapshot p')" by blast
    have "list_all (\<lambda>slot. 0 \<le> si_InFlight slot) (sn_Slots (wp_snapshot p'))"
      using assms(2) s(1) fetch_valid(1) [OF s(2)] by (simp add: gateway_counts_def)
    then show ?thesis
      using fetch_valid(3) [OF s(2)] by (simp add: slot_info_ok_def list_all_iff)
  qed (use assms(3) in simp)
qed

lemma free_not_held:
  assumes "warp_inv w" and "slot \<in> set (sn_Slots (wp_snapshot (ww_pool w)))" and "slot_free now (ww_pool w) slot"
  shows "open_leases w (si_Slot slot) = 0"
proof -
  have "0 \<le> si_InFlight slot" using assms(1,2) by (simp add: warp_inv_def slot_info_ok_def)
  moreover have "mget0 (wp_reserved (ww_pool w)) (si_Slot slot) = int (open_leases w (si_Slot slot))"
    using assms(1) by (simp add: warp_inv_def)
  moreover have "\<not> 0 < slot_load (ww_pool w) slot" using assms(3) by (simp add: slot_free_def)
  ultimately show ?thesis by (simp add: slot_load_def)
qed

lemma warp_inv_pick:
  assumes inv: "warp_inv w" and counts: "gateway_counts answer"
  shows "warp_inv (snd (pickWarpSlot rfc now answer channelID session w))"
proof -
  obtain b p where r: "warp_refresh now answer (ww_pool w) = (b, p)" by fastforce
  let ?w = "w\<lparr>ww_pool := p\<rparr>"
  have inv1: "warp_inv ?w"
    using inv refresh_slots_ok [OF r counts] warp_refresh_frame(1) [OF r]
    by (simp add: warp_inv_def open_leases_def)
  show ?thesis
  proof (cases b)
    case False
    with r inv1 show ?thesis by (simp add: pickWarpSlot_def)
  next
    case True
    obtain res p' where pick: "warp_pick_slot rfc now session p = (res, p')" by fastforce
    show ?thesis
    proof (cases res)
      case (Inl retry)
      with pick have "warp_inv (?w\<lparr>ww_pool := p'\<rparr>)"
        using warp_pick_busy [of rfc now session p retry p'] by (intro warp_inv_frame [OF inv1]) simp_all
      with r True pick Inl show ?thesis by (simp add: pickWarpSlot_def)
    next
      case (Inr lease)
      with pick obtain slot where s: "slot \<in> set (sn_Slots (wp_snapshot p))" "slot_free now p slot"
        "lease = lease_of slot" "wp_snapshot p' = wp_snapshot p"
        "wp_reserved p' = mput (si_Slot slot) (mget0 (wp_reserved p) (si_Slot slot) + 1) (wp_reserved p)"
        by (auto elim: warp_pick_lease)
      have "open_leases ?w (si_Slot slot) = 0" using free_not_held [OF inv1] s by simp
      moreover have "slot_info_ok slot" using inv1 s(1) by (simp add: warp_inv_def)
      ultimately have "warp_inv (?w\<lparr>ww_pool := p', ww_leases := ww_leases ?w @ [lease\<lparr>wl_channelID := channelID\<rparr>]\<rparr>)"
        using inv1 s(3-5) by (auto simp: warp_inv_def open_leases_def lease_of_def lease_ok_def slot_info_ok_def)
      with r True pick Inr show ?thesis by (simp add: pickWarpSlot_def)
    qed
  qed
qed

lemma length_filter_changed:
  "i < length xs \<Longrightarrow> P (xs ! i) \<Longrightarrow> \<not> P y \<Longrightarrow> Suc (length (filter P (xs[i := y]))) = length (filter P xs)"
proof (induction xs arbitrary: i)
  case (Cons x xs)
  then show ?case by (cases i) auto
qed simp

lemma length_filter_unchanged:
  "i < length xs \<Longrightarrow> P (xs ! i) = P y \<Longrightarrow> length (filter P (xs[i := y])) = length (filter P xs)"
proof (induction xs arbitrary: i)
  case (Cons x xs)
  then show ?case by (cases i) auto
qed simp

lemma lease_held_release:
  assumes "l < length (ww_leases w)" and "\<not> wl_done (ww_leases w ! l)"
  shows "open_leases (lease_release l w) slot + (if slot = wl_slot (ww_leases w ! l) then 1 else 0) = open_leases w slot"
proof (cases "slot = wl_slot (ww_leases w ! l)")
  case True
  then show ?thesis
    using assms length_filter_changed [of l "ww_leases w" "\<lambda>x. wl_slot x = slot \<and> \<not> wl_done x"
        "(ww_leases w ! l)\<lparr>wl_done := True\<rparr>"]
    by (simp add: open_leases_def lease_release_def)
next
  case False
  then show ?thesis
    using assms length_filter_unchanged [of l "ww_leases w" "\<lambda>x. wl_slot x = slot \<and> \<not> wl_done x"
        "(ww_leases w ! l)\<lparr>wl_done := True\<rparr>"]
    by (simp add: open_leases_def lease_release_def)
qed

lemma warp_inv_release:
  assumes inv: "warp_inv w"
  shows "warp_inv (lease_release l w)"
proof (cases "l < length (ww_leases w) \<and> \<not> wl_done (ww_leases w ! l)")
  case False
  with inv show ?thesis by (auto simp: lease_release_def)
next
  case True
  let ?k = "wl_slot (ww_leases w ! l)"
  have open_leases: "open_leases (lease_release l w) s + (if s = ?k then 1 else 0) = open_leases w s" for s
    using True by (intro lease_held_release) auto
  have res: "mget0 (wp_reserved (ww_pool w)) s = int (open_leases w s)" "open_leases w s \<le> 1" for s
    using inv by (auto simp: warp_inv_def)
  have "open_leases w ?k = 1" using open_leases [of ?k] res(2) [of ?k] by simp
  then have "mget0 (wp_reserved (ww_pool (lease_release l w))) s = int (open_leases (lease_release l w) s)
      \<and> open_leases (lease_release l w) s \<le> 1" for s
    using True open_leases [of s] res [of s] res(1) [of ?k]
    by (auto simp: lease_release_def warp_release_def Let_def)
  moreover have "lease_ok ((ww_leases w ! l)\<lparr>wl_done := True\<rparr>)"
    using inv True by (auto simp: warp_inv_def lease_ok_def)
  then have "\<forall>x \<in> set (ww_leases (lease_release l w)). lease_ok x"
    using inv True set_update_subset_insert [of "ww_leases w" l "(ww_leases w ! l)\<lparr>wl_done := True\<rparr>"]
    by (auto simp: warp_inv_def lease_release_def dest!: subsetD)
  moreover have "\<forall>x \<in> set (sn_Slots (wp_snapshot (ww_pool (lease_release l w)))). slot_info_ok x"
    using inv True by (simp add: warp_inv_def lease_release_def warp_release_def Let_def)
  ultimately show ?thesis by (simp add: warp_inv_def)
qed

lemma take_pending_frame:
  "take_pending slot p = (r, p') \<Longrightarrow> wp_reserved p' = wp_reserved p \<and> wp_snapshot p' = wp_snapshot p \<and>
    wp_controlBase p' = wp_controlBase p \<and> wp_suspect p' = wp_suspect p"
  by (auto simp: take_pending_def split: option.splits if_splits)

lemma penalize_frame [simp]:
  "ww_pool (warpPenalizeEgress slot egress reason channelID w) = ww_pool w"
  "ww_leases (warpPenalizeEgress slot egress reason channelID w) = ww_leases w"
  by (simp_all add: warpPenalizeEgress_def)

lemma finishPending_frame:
  "wp_reserved (ww_pool (finishPending slot w)) = wp_reserved (ww_pool w)"
  "wp_snapshot (ww_pool (finishPending slot w)) = wp_snapshot (ww_pool w)"
  "ww_leases (finishPending slot w) = ww_leases w"
proof -
  obtain r p where t: "take_pending slot (ww_pool w) = (r, p)" by (rule prod.exhaust)
  from take_pending_frame [OF t]
  show "wp_reserved (ww_pool (finishPending slot w)) = wp_reserved (ww_pool w)"
    "wp_snapshot (ww_pool (finishPending slot w)) = wp_snapshot (ww_pool w)"
    "ww_leases (finishPending slot w) = ww_leases w"
    by (cases r; simp add: finishPending_def t Let_def invalidate_def)+
qed

lemma warp_inv_step:
  "warp_step rfc w w' \<Longrightarrow> warp_inv w \<Longrightarrow> warp_inv w'"
proof (induction rule: warp_step.induct)
  case (step_pick answer w now channelID session)
  then show ?case by (intro warp_inv_pick)
next
  case (step_release l w)
  then show ?case by (intro warp_inv_release)
next
  case (step_finish w slot)
  then show ?case by (rule warp_inv_frame) (simp_all add: finishPending_frame)
next
  case (step_success l w)
  show ?case
    by (rule warp_inv_frame [OF step_success(2)])
      (simp_all add: MarkSuccess_def Let_def split: option.splits)
next
  case (step_limited l w now)
  show ?case
    by (rule warp_inv_frame [OF step_limited(2)]) (simp_all add: note_rate_limit_def mark_suspect_def Let_def)
next
  case (step_proxy l w now)
  show ?case
    by (rule warp_inv_frame [OF step_proxy(2)])
      (simp_all add: MarkProxyUnavailable_def invalidate_def mark_suspect_def)
next
  case (step_network l w now reason)
  show ?case
    by (rule warp_inv_frame [OF step_network(2)])
      (simp_all add: MarkNetworkFailure_def invalidate_def mark_suspect_def Let_def)
qed

lemma warp_reachable_inv: "warp_reachable rfc base w \<Longrightarrow> warp_inv w"
  by (induction rule: warp_reachable.induct) (auto intro: warp_inv_step)

lemma two_filtered:
  "i < j \<Longrightarrow> j < length xs \<Longrightarrow> P (xs ! i) \<Longrightarrow> P (xs ! j) \<Longrightarrow> 2 \<le> length (filter P xs)"
proof -
  assume "i < j" "j < length xs" "P (xs ! i)" "P (xs ! j)"
  then have "{i, j} \<subseteq> {k. k < length xs \<and> P (xs ! k)}" by auto
  then have "card {i, j} \<le> card {k. k < length xs \<and> P (xs ! k)}"
    by (rule card_mono [rotated]) simp
  with \<open>i < j\<close> show ?thesis by (simp add: length_filter_conv_card)
qed

text \<open>
  C27. However the requests of a gateway interleave, two leases that have not been given back
  never use the same WARP account, so two requests never leave through the same egress slot.
\<close>

theorem warp_accounts_exclusive:
  assumes "warp_reachable rfc base w"
    and "i < j" and "j < length (ww_leases w)"
    and "\<not> wl_done (ww_leases w ! i)" and "\<not> wl_done (ww_leases w ! j)"
  shows "wl_account (ww_leases w ! i) \<noteq> wl_account (ww_leases w ! j)"
proof
  assume same: "wl_account (ww_leases w ! i) = wl_account (ww_leases w ! j)"
  have inv: "warp_inv w" using assms(1) by (rule warp_reachable_inv)
  have "lease_ok (ww_leases w ! i)" "lease_ok (ww_leases w ! j)"
    using inv assms(2,3) by (auto simp: warp_inv_def)
  with same have "wl_slot (ww_leases w ! i) = wl_slot (ww_leases w ! j)"
    unfolding lease_ok_def by (metis Itoa_inject same_append_eq)
  then have "2 \<le> open_leases w (wl_slot (ww_leases w ! j))"
    unfolding open_leases_def using assms by (intro two_filtered [of i j]) auto
  moreover have "open_leases w (wl_slot (ww_leases w ! j)) \<le> 1" using inv by (simp add: warp_inv_def)
  ultimately show False by simp
qed

definition demo_slot :: "int \<Rightarrow> warpSlotInfo" where
  "demo_slot k = \<lparr>si_Slot = k, si_Account = ''warp-'' @ Itoa k, si_Egress = ''e'', si_Prefix = [],
     si_State = ''active'', si_InFlight = 0, si_CoolingUntil = [], si_Generation = 0\<rparr>"

definition demo_snapshot :: warpSlotsSnapshot where
  "demo_snapshot = \<lparr>sn_Size = 2, sn_UpdatedAt = [], sn_Slots = [demo_slot 0, demo_slot 1]\<rparr>"

definition demo_two :: warp_world where
  "demo_two =
    snd (pickWarpSlot (\<lambda>_. None) 20 (Some demo_snapshot) 7 ''s''
      (snd (pickWarpSlot (\<lambda>_. None) 10 (Some demo_snapshot) 7 ''s'' (warp_start ''b''))))"

lemma demo_two_reachable: "warp_reachable (\<lambda>_. None) ''b'' demo_two"
proof -
  have counts: "gateway_counts (Some demo_snapshot)" by code_simp
  show ?thesis
    unfolding demo_two_def
    by (rule reach_step [OF reach_step [OF reach_start step_pick [OF counts]] step_pick [OF counts]])
qed

lemma demo_two_leases: "map wl_done (ww_leases demo_two) = [False, False]"
  by code_simp

lemma demo_two_facts:
  "length (ww_leases demo_two) = 2" "\<not> wl_done (ww_leases demo_two ! 0)" "\<not> wl_done (ww_leases demo_two ! Suc 0)"
  using demo_two_leases by (auto simp: map_eq_Cons_conv)

theorem warp_accounts_exclusive_witness:
  "wl_account (ww_leases demo_two ! 0) \<noteq> wl_account (ww_leases demo_two ! 1)"
  by (rule warp_accounts_exclusive [OF demo_two_reachable]) (simp_all add: demo_two_facts)

text \<open>
  C28. Picking is exact. A pick answers busy only when no slot of the snapshot is active, idle and
  unsuspected, with a wait between one second and one minute; otherwise it leases such a slot
  and reserves it. A session is given a slot it has used in the last 24 hours only when it has used
  every slot that is free.
\<close>

theorem warp_pick_exact:
  assumes "warp_pick_slot rfc now session p = (r, p')"
  shows "case r of
      Inl retry \<Rightarrow> (\<forall>slot \<in> set (sn_Slots (wp_snapshot p)). \<not> slot_free now p slot) \<and>
        warpSlotsCacheTTL \<le> retry \<and> retry \<le> warpSlotsRetryCap \<and> wp_reserved p' = wp_reserved p
    | Inr lease \<Rightarrow> \<exists>slot \<in> set (sn_Slots (wp_snapshot p)). slot_free now p slot \<and> lease = lease_of slot \<and>
        mget0 (wp_reserved p') (si_Slot slot) = mget0 (wp_reserved p) (si_Slot slot) + 1 \<and>
        (session \<noteq> [] \<longrightarrow>
           mhas (session_used p' session) (si_Slot slot) \<and>
           (mhas (session_used (pruneSessionsLocked now p) session) (si_Slot slot) \<longrightarrow>
              (\<forall>other \<in> set (sn_Slots (wp_snapshot p)). slot_free now p other \<longrightarrow>
                 mhas (session_used (pruneSessionsLocked now p) session) (si_Slot other))))"
proof (cases r)
  case (Inl retry)
  with assms have busy: "warp_pick_slot rfc now session p = (Inl retry, p')" by simp
  note facts = warp_pick_busy [OF busy]
  have "warpSlotsCacheTTL \<le> retry" "retry \<le> warpSlotsRetryCap"
    using retryAfter_bounds [where p = p' and rfc = rfc and now = now] facts(7) by (simp_all add: warpSlotsCacheTTL_def)
  with Inl facts(1,2) show ?thesis by simp
next
  case (Inr lease)
  with assms have "warp_pick_slot rfc now session p = (Inr lease, p')" by simp
  then obtain slot where s: "slot \<in> set (sn_Slots (wp_snapshot p))" "slot_free now p slot" "lease = lease_of slot"
    "wp_reserved p' = mput (si_Slot slot) (mget0 (wp_reserved p) (si_Slot slot) + 1) (wp_reserved p)"
    "session \<noteq> [] \<Longrightarrow> mhas (session_used p' session) (si_Slot slot)"
    "session \<noteq> [] \<Longrightarrow> mhas (session_used (pruneSessionsLocked now p) session) (si_Slot slot) \<Longrightarrow>
      \<forall>other \<in> set (sn_Slots (wp_snapshot p)). slot_free now p other \<longrightarrow>
        mhas (session_used (pruneSessionsLocked now p) session) (si_Slot other)"
    by (rule warp_pick_lease) blast
  show ?thesis
    unfolding Inr sum.case
  proof (rule bexI [OF _ s(1)], intro conjI impI)
    show "mget0 (wp_reserved p') (si_Slot slot) = mget0 (wp_reserved p) (si_Slot slot) + 1"
      by (simp add: s(4))
  qed (fact s(2) s(3) | erule s(5) | erule (1) s(6))+
qed

definition demo_pool :: warpSlotPool where
  "demo_pool = (warpSlotPoolFor_new ''b'')\<lparr>wp_snapshot := demo_snapshot\<rparr>"

lemma demo_pool_pick:
  "warp_pick_slot (\<lambda>_. None) 5 ''s'' demo_pool =
    (Inr (lease_of (demo_slot 0)), snd (warp_pick_slot (\<lambda>_. None) 5 ''s'' demo_pool))"
  by code_simp

theorem warp_pick_exact_witness:
  "slot_free 5 demo_pool (demo_slot 0)"
proof -
  from warp_pick_exact [OF demo_pool_pick]
  obtain slot where "slot \<in> {demo_slot 0, demo_slot 1}" "slot_free 5 demo_pool slot"
    "lease_of (demo_slot 0) = lease_of slot"
    by (auto simp: demo_pool_def demo_snapshot_def)
  moreover from this have "si_Slot slot = 0" by (simp add: lease_of_def demo_slot_def)
  ultimately have "slot = demo_slot 0" by (auto simp: demo_slot_def)
  with \<open>slot_free 5 demo_pool slot\<close> show ?thesis by simp
qed



subsection \<open>Rotating a rate limited egress\<close>

lemma finishPending_cases:
  obtains (none) "ww_penalties (finishPending slot w) = ww_penalties w"
      "map_of (wp_pending (ww_pool w)) slot = None \<or> 0 < mget0 (wp_reserved (ww_pool w)) slot"
      "ww_pool (finishPending slot w) = ww_pool w"
  | (kept) pending where "map_of (wp_pending (ww_pool w)) slot = Some pending"
      "mget0 (wp_reserved (ww_pool w)) slot \<le> 0" "pe_succeeded pending"
      "ww_penalties (finishPending slot w) = ww_penalties w"
      "wp_pending (ww_pool (finishPending slot w)) = mdel slot (wp_pending (ww_pool w))"
  | (rotated) pending where "map_of (wp_pending (ww_pool w)) slot = Some pending"
      "mget0 (wp_reserved (ww_pool w)) slot \<le> 0" "\<not> pe_succeeded pending"
      "ww_penalties (finishPending slot w) = ww_penalties w @
         (if wp_controlBase (ww_pool w) = [] \<or> pe_egress pending = [] then []
          else [\<lparr>wn_slot = slot, wn_base = wp_controlBase (ww_pool w), wn_egress = pe_egress pending,
                 wn_reason = ''429'', wn_channelID = pe_channelID pending\<rparr>])"
      "wp_pending (ww_pool (finishPending slot w)) = mdel slot (wp_pending (ww_pool w))"
      "wp_fetchedAt (ww_pool (finishPending slot w)) = None"
proof (cases "map_of (wp_pending (ww_pool w)) slot = None \<or> 0 < mget0 (wp_reserved (ww_pool w)) slot")
  case True
  then have "take_pending slot (ww_pool w) = (None, ww_pool w)"
    by (auto simp: take_pending_def split: option.splits)
  with True show thesis by (intro none) (simp_all add: finishPending_def)
next
  case False
  then obtain pending where p: "map_of (wp_pending (ww_pool w)) slot = Some pending"
    and idle: "mget0 (wp_reserved (ww_pool w)) slot \<le> 0" by auto
  then have t: "take_pending slot (ww_pool w) =
      (Some pending, (ww_pool w)\<lparr>wp_pending := mdel slot (wp_pending (ww_pool w))\<rparr>)"
    by (simp add: take_pending_def)
  show thesis
  proof (cases "pe_succeeded pending")
    case True
    with p idle t show thesis by (intro kept) (simp_all add: finishPending_def Let_def)
  next
    case False
    with p idle t show thesis
      by (intro rotated [of pending])
        (simp_all add: finishPending_def Let_def warpPenalizeEgress_def invalidate_def)
  qed
qed


definition demo_limited :: warp_world where
  "demo_limited =
    (let w1 = snd (pickWarpSlot (\<lambda>_. None) 10 (Some demo_snapshot) 7 ''s'' (warp_start ''b''));
         w2 = w1\<lparr>ww_pool := note_rate_limit 20 (ww_leases w1 ! 0) (ww_pool w1)\<rparr>
     in lease_release 0 w2)"

lemma demo_limited_reachable: "warp_reachable (\<lambda>_. None) ''b'' demo_limited"
proof -
  let ?w1 = "snd (pickWarpSlot (\<lambda>_. None) 10 (Some demo_snapshot) 7 ''s'' (warp_start ''b''))"
  have "gateway_counts (Some demo_snapshot)" by code_simp
  then have r: "warp_reachable (\<lambda>_. None) ''b'' ?w1" by (rule reach_step [OF reach_start step_pick])
  have "length (ww_leases ?w1) = 1" by code_simp
  then have "ww_leases ?w1 ! 0 \<in> set (ww_leases ?w1)" by simp
  from reach_step [OF reach_step [OF r step_limited [OF this]] step_release]
  show ?thesis unfolding demo_limited_def Let_def .
qed

lemma demo_limited_rotates: "length (ww_penalties (finishPending 0 demo_limited)) = 1"
  by code_simp

lemma demo_limited_clean: "ww_penalties demo_limited = []"
  by code_simp


text \<open>
  Every pool that can be reached is well formed: a slot is reserved exactly as often as it is leased and
  not given back, which is at most once; the slots of the snapshot have the numbers and account names the
  gateway promises and no negative counts; every lease names the account of its slot.
\<close>

lemma warp_pool_wellformed:
  assumes "warp_reachable rfc base w"
  shows "list_all slot_info_ok (sn_Slots (wp_snapshot (ww_pool w))) \<and> list_all lease_ok (ww_leases w) \<and>
    mget0 (wp_reserved (ww_pool w)) slot = int (open_leases w slot) \<and> open_leases w slot \<le> 1"
  using warp_reachable_inv [OF assms] by (simp add: warp_inv_def list_all_iff)

text \<open>
  The comment in \<^verbatim>\<open>pick\<close> says that a session may reuse a slot once it has used up every
  candidate. The memory is also dropped when the slots it has not used are merely busy: here the
  session has used slot 0, slot 1 is active but has a request in flight, and the session gets slot 0 again.
\<close>

definition demo_busy_pool :: warpSlotPool where
  "demo_busy_pool = (warpSlotPoolFor_new ''b'')
     \<lparr>wp_snapshot := demo_snapshot\<lparr>sn_Slots := [demo_slot 0, (demo_slot 1)\<lparr>si_InFlight := 1\<rparr>]\<rparr>,
      wp_sessionUsed := [(''s'', [(0, 1)])]\<rparr>"

lemma warp_session_reuses_early:
  "fst (warp_pick_slot (\<lambda>_. None) 5 ''s'' demo_busy_pool) = Inr (lease_of (demo_slot 0))"
  by code_simp

end
