(* ===== verification/Body_Budget.thy ===== *)
theory Body_Budget
  imports Error_Class
begin

text \<open>
  \<^verbatim>\<open>internal/relay/bodylimit.go\<close> and \<^verbatim>\<open>responselimit.go\<close>: the process-wide byte budget for request
  bodies, the bounded reading and decompression of a body, and the cap on an upstream answer.

  Many requests share the budget, so the reading loop is a machine whose steps are the code's
  sections between two lock operations: a pass of the \<^verbatim>\<open>for\<close> loop of \<^verbatim>\<open>readBudget\<close> up to the first
  test of \<^verbatim>\<open>acquireRelayBodyBudget\<close>, and one pass of the waiting loop inside it. \<^verbatim>\<open>releaseRelayBodyBudget\<close>
  closes the channel the waiters hold and makes a new one; \<open>bb_gen\<close> counts these, so a waiter may
  run again when the number differs from the one it noted.

  Bodies are byte strings. What an \<^verbatim>\<open>io.Reader\<close> returns call by call is a list of results. The
  decompressors are arguments: \<open>decoders\<close> gives what each of them makes of a compressed body.
\<close>

definition maxRelayCompressedBodyBytes :: int where "maxRelayCompressedBodyBytes = 16 * 1024 * 1024"
definition maxRelayDecompressedBodyBytes :: int where "maxRelayDecompressedBodyBytes = 64 * 1024 * 1024"
definition defaultRelayBodyBudgetBytes :: int where "defaultRelayBodyBudgetBytes = 128 * 1024 * 1024"

record relayBodyBudgetState =
  bb_used :: int
  bb_limit :: int
  bb_gen :: nat

definition newRelayBodyBudget :: "int \<Rightarrow> relayBodyBudgetState" where
  "newRelayBodyBudget limit = \<lparr>bb_used = 0, bb_limit = limit, bb_gen = 0\<rparr>"

text \<open>The tests of \<^verbatim>\<open>acquireRelayBodyBudget\<close> under the lock: refused, wait, or taken.\<close>

datatype acquire_result = AcqTooLarge | AcqWait | AcqOK relayBodyBudgetState

definition acquireRelayBodyBudget :: "int \<Rightarrow> relayBodyBudgetState \<Rightarrow> acquire_result" where
  "acquireRelayBodyBudget n b =
    (if n \<le> 0 then AcqOK b
     else if bb_limit b < n then AcqTooLarge
     else if bb_limit b < bb_used b + n then AcqWait
     else AcqOK (b\<lparr>bb_used := bb_used b + n\<rparr>))"

definition tryAcquireRelayBodyBudget :: "int \<Rightarrow> relayBodyBudgetState \<Rightarrow> relayBodyBudgetState option" where
  "tryAcquireRelayBodyBudget n b =
    (if n \<le> 0 then Some b
     else if bb_limit b < bb_used b + n then None
     else Some (b\<lparr>bb_used := bb_used b + n\<rparr>))"

definition releaseRelayBodyBudget :: "int \<Rightarrow> relayBodyBudgetState \<Rightarrow> relayBodyBudgetState" where
  "releaseRelayBodyBudget n b =
    (if n \<le> 0 then b
     else let used = bb_used b - n
          in b\<lparr>bb_used := (if used < 0 then 0 else used), bb_gen := Suc (bb_gen b)\<rparr>)"

subsection \<open>Reading within the budget\<close>

datatype read_end = ReadEOF | ReadErr string

type_synonym read_result = "string \<times> read_end option"

datatype body_error = BodyTooLarge | BodyCtx | BodyText string | BodyWrap string body_error

fun body_too_large :: "body_error \<Rightarrow> bool" where
  "body_too_large BodyTooLarge = True"
| "body_too_large (BodyWrap _ e) = body_too_large e"
| "body_too_large _ = False"

record body_reader =
  rd_src :: "read_result list"
  rd_buf :: string
  rd_charged :: int
  rd_limit :: int

text \<open>How a section of \<^verbatim>\<open>readBudget\<close> leaves the reader; \<open>RdWait\<close> holds the chunk and the noted number.\<close>

datatype read_outcome =
    RdMore body_reader
  | RdWait nat read_result body_reader
  | RdDone string int
  | RdFail body_error

definition read_fail :: "body_error \<Rightarrow> body_reader \<Rightarrow> relayBodyBudgetState \<Rightarrow> read_outcome \<times> relayBodyBudgetState" where
  "read_fail e rd b = (RdFail e, releaseRelayBodyBudget (rd_charged rd) b)"

text \<open>After the reservation: append the chunk, then look at the error the read returned.\<close>

definition take_chunk :: "read_result \<Rightarrow> body_reader \<Rightarrow> relayBodyBudgetState \<Rightarrow> read_outcome \<times> relayBodyBudgetState" where
  "take_chunk chunk rd b =
    (let rd' = rd\<lparr>rd_buf := rd_buf rd @ fst chunk, rd_charged := rd_charged rd + int (length (fst chunk))\<rparr>
     in case snd chunk of
          Some ReadEOF \<Rightarrow> (RdDone (rd_buf rd') (rd_charged rd'), b)
        | Some (ReadErr t) \<Rightarrow> read_fail (BodyText t) rd' b
        | None \<Rightarrow> (RdMore rd', b))"

definition acquire_chunk :: "read_result \<Rightarrow> body_reader \<Rightarrow> relayBodyBudgetState \<Rightarrow> read_outcome \<times> relayBodyBudgetState" where
  "acquire_chunk chunk rd b =
    (case acquireRelayBodyBudget (int (length (fst chunk))) b of
       AcqTooLarge \<Rightarrow> read_fail BodyTooLarge rd b
     | AcqWait \<Rightarrow> (RdWait (bb_gen b) chunk rd, b)
     | AcqOK b' \<Rightarrow> take_chunk chunk rd b')"

definition next_read :: "body_reader \<Rightarrow> read_result \<times> body_reader" where
  "next_read rd =
    (case rd_src rd of
       [] \<Rightarrow> (([], Some ReadEOF), rd)
     | chunk # rest \<Rightarrow> (chunk, rd\<lparr>rd_src := rest\<rparr>))"

text \<open>One pass of the loop: \<open>c1\<close> and \<open>c2\<close> say whether the context is done at its two tests.\<close>

definition read_pass ::
  "bool \<Rightarrow> bool \<Rightarrow> body_reader \<Rightarrow> relayBodyBudgetState \<Rightarrow> read_outcome \<times> relayBodyBudgetState" where
  "read_pass c1 c2 rd b =
    (if c1 then read_fail BodyCtx rd b
     else case next_read rd of (chunk, rd1) \<Rightarrow>
       if fst chunk = [] then take_chunk chunk rd1 b
       else if rd_limit rd1 < int (length (rd_buf rd1)) + int (length (fst chunk)) then read_fail BodyTooLarge rd1 b
       else if c2 then read_fail BodyCtx rd1 b
       else acquire_chunk chunk rd1 b)"

text \<open>One pass of the waiting loop; without cancellation it runs only after a release.\<close>

definition wake_pass ::
  "bool \<Rightarrow> nat \<Rightarrow> read_result \<Rightarrow> body_reader \<Rightarrow> relayBodyBudgetState \<Rightarrow> read_outcome \<times> relayBodyBudgetState" where
  "wake_pass cancelled gen chunk rd b =
    (if cancelled then read_fail BodyCtx rd b
     else if bb_gen b = gen then (RdWait gen chunk rd, b)
     else acquire_chunk chunk rd b)"

subsection \<open>One request\<close>

record decoders =
  dc_gzip :: "string \<Rightarrow> string + read_result list"
  dc_zstd :: "string \<Rightarrow> string + read_result list"
  dc_zlib :: "string \<Rightarrow> read_result list option"
  dc_flate :: "string \<Rightarrow> read_result list"

text \<open>
  The phases of a request: reading the body as sent, reading the decompressed body while the first
  charge is still held, the body ready, the handler running with the copy charged too, the end.
\<close>

datatype body_phase =
    PhRead body_reader "(nat \<times> read_result) option"
  | PhDecode string int body_reader "(nat \<times> read_result) option"
  | PhReady string int
  | PhHeld string int int
  | PhEnd "body_error option"

definition start_read :: "read_result list \<Rightarrow> int \<Rightarrow> body_reader" where
  "start_read src limit = \<lparr>rd_src = src, rd_buf = [], rd_charged = 0, rd_limit = limit\<rparr>"

definition body_fails :: "body_error \<Rightarrow> int \<Rightarrow> relayBodyBudgetState \<Rightarrow> body_phase \<times> relayBodyBudgetState" where
  "body_fails e charge b = (PhEnd (Some e), releaseRelayBodyBudget charge b)"

text \<open>\<^verbatim>\<open>decodeLimitedBodyBudget\<close> up to the decompressor's first byte; \<open>enc\<close> is the header as sent.\<close>

definition decode_start ::
  "decoders \<Rightarrow> string \<Rightarrow> string \<Rightarrow> int \<Rightarrow> relayBodyBudgetState \<Rightarrow> body_phase \<times> relayBodyBudgetState" where
  "decode_start dec enc body charge b =
    (let e = ToLower (TrimSpace enc);
         begin_decode = (\<lambda>name src. (PhDecode name charge (start_read src maxRelayDecompressedBodyBytes) None, b))
     in if e = [] \<or> e = ''identity''
        then if maxRelayDecompressedBodyBytes < int (length body) then body_fails BodyTooLarge charge b
             else (PhReady body charge, b)
        else if e = ''gzip'' \<or> e = ''x-gzip''
        then case dc_gzip dec body of
               Inl t \<Rightarrow> body_fails (BodyText (''failed to create gzip reader: '' @ t)) charge b
             | Inr src \<Rightarrow> begin_decode ''gzip'' src
        else if e = ''deflate''
        then begin_decode ''deflate'' (case dc_zlib dec body of Some src \<Rightarrow> src | None \<Rightarrow> dc_flate dec body)
        else if e = ''zstd''
        then case dc_zstd dec body of
               Inl t \<Rightarrow> body_fails (BodyText (''failed to create zstd decoder: '' @ t)) charge b
             | Inr src \<Rightarrow> begin_decode ''zstd'' src
        else body_fails (BodyText (''unsupported content encoding: '' @ enc)) charge b)"

text \<open>The end of the first reading in \<^verbatim>\<open>readLimitedHTTPRequest\<close>.\<close>

definition after_read ::
  "decoders \<Rightarrow> string \<Rightarrow> read_outcome \<Rightarrow> relayBodyBudgetState \<Rightarrow> body_phase \<times> relayBodyBudgetState" where
  "after_read dec enc r b =
    (case r of
       RdMore rd \<Rightarrow> (PhRead rd None, b)
     | RdWait gen chunk rd \<Rightarrow> (PhRead rd (Some (gen, chunk)), b)
     | RdFail e \<Rightarrow> (PhEnd (Some e), b)
     | RdDone body charge \<Rightarrow>
         if body = [] then (PhReady [] 0, releaseRelayBodyBudget charge b)
         else decode_start dec enc body charge b)"

text \<open>The errors of \<^verbatim>\<open>readDecodedBudget\<close> and of the deflate case.\<close>

definition decode_error :: "string \<Rightarrow> body_error \<Rightarrow> body_error" where
  "decode_error name e =
    (if name = ''deflate'' then BodyWrap ''failed to decompress deflate body: '' e
     else case e of
       BodyTooLarge \<Rightarrow> BodyTooLarge
     | BodyCtx \<Rightarrow> BodyCtx
     | _ \<Rightarrow> BodyWrap (''failed to decompress '' @ name @ '' body: '') e)"

definition after_decode ::
  "string \<Rightarrow> int \<Rightarrow> read_outcome \<Rightarrow> relayBodyBudgetState \<Rightarrow> body_phase \<times> relayBodyBudgetState" where
  "after_decode name charge r b =
    (case r of
       RdMore rd \<Rightarrow> (PhDecode name charge rd None, b)
     | RdWait gen chunk rd \<Rightarrow> (PhDecode name charge rd (Some (gen, chunk)), b)
     | RdFail e \<Rightarrow> body_fails (decode_error name e) charge b
     | RdDone body extra \<Rightarrow> (PhReady body extra, releaseRelayBodyBudget charge b))"

text \<open>The second reservation of the handler, for the copy of the body in the request state.\<close>

definition copy_charge :: "string \<Rightarrow> int \<Rightarrow> relayBodyBudgetState \<Rightarrow> body_phase \<times> relayBodyBudgetState" where
  "copy_charge body charge b =
    (case tryAcquireRelayBodyBudget (int (length body)) b of
       None \<Rightarrow> body_fails BodyTooLarge charge b
     | Some b' \<Rightarrow> (PhHeld body charge (int (length body)), b'))"

record body_request =
  bq_encoding :: string
  bq_phase :: body_phase

record body_world =
  bw_budget :: relayBodyBudgetState
  bw_requests :: "body_request list"

datatype body_event =
    EvArrive string "read_result list"
  | EvPass nat bool bool
  | EvWake nat bool
  | EvCopy nat
  | EvEnd nat

text \<open>What one section of a request does to its phase and the budget; a section that is not next does nothing.\<close>

fun phase_step ::
  "decoders \<Rightarrow> string \<Rightarrow> body_event \<Rightarrow> body_phase \<Rightarrow> relayBodyBudgetState \<Rightarrow> body_phase \<times> relayBodyBudgetState" where
  "phase_step dec enc (EvPass _ c1 c2) (PhRead rd None) b =
     (case read_pass c1 c2 rd b of (r, b') \<Rightarrow> after_read dec enc r b')"
| "phase_step dec enc (EvWake _ c) (PhRead rd (Some (gen, chunk))) b =
     (case wake_pass c gen chunk rd b of (r, b') \<Rightarrow> after_read dec enc r b')"
| "phase_step dec enc (EvPass _ c1 c2) (PhDecode name charge rd None) b =
     (case read_pass c1 c2 rd b of (r, b') \<Rightarrow> after_decode name charge r b')"
| "phase_step dec enc (EvWake _ c) (PhDecode name charge rd (Some (gen, chunk))) b =
     (case wake_pass c gen chunk rd b of (r, b') \<Rightarrow> after_decode name charge r b')"
| "phase_step dec enc (EvCopy _) (PhReady body charge) b = copy_charge body charge b"
| "phase_step dec enc (EvEnd _) (PhHeld body charge copied) b =
     (PhEnd None, releaseRelayBodyBudget charge (releaseRelayBodyBudget copied b))"
| "phase_step dec enc _ ph b = (ph, b)"

definition body_request_step :: "decoders \<Rightarrow> nat \<Rightarrow> body_event \<Rightarrow> body_world \<Rightarrow> body_world" where
  "body_request_step dec i ev w =
    (if i < length (bw_requests w)
     then let q = bw_requests w ! i in
          case phase_step dec (bq_encoding q) ev (bq_phase q) (bw_budget w) of
            (ph, b) \<Rightarrow> w\<lparr>bw_budget := b, bw_requests := (bw_requests w)[i := q\<lparr>bq_phase := ph\<rparr>]\<rparr>
     else w)"

fun body_step :: "decoders \<Rightarrow> body_event \<Rightarrow> body_world \<Rightarrow> body_world" where
  "body_step dec (EvArrive enc src) w =
     w\<lparr>bw_requests := bw_requests w @
         [\<lparr>bq_encoding = enc, bq_phase = PhRead (start_read src maxRelayCompressedBodyBytes) None\<rparr>]\<rparr>"
| "body_step dec (EvPass i c1 c2) w = body_request_step dec i (EvPass i c1 c2) w"
| "body_step dec (EvWake i c) w = body_request_step dec i (EvWake i c) w"
| "body_step dec (EvCopy i) w = body_request_step dec i (EvCopy i) w"
| "body_step dec (EvEnd i) w = body_request_step dec i (EvEnd i) w"

definition body_run :: "decoders \<Rightarrow> body_event list \<Rightarrow> body_world \<Rightarrow> body_world" where
  "body_run dec evs w = fold (body_step dec) evs w"

definition body_start :: "int \<Rightarrow> body_world" where
  "body_start limit = \<lparr>bw_budget = newRelayBodyBudget limit, bw_requests = []\<rparr>"

subsection \<open>Moving bytes between the budget and a request\<close>

text \<open>
  A section that starts with \<open>c\<close> bytes charged to the request and ends with \<open>c'\<close>: the budget moves by
  the difference, stays within its limit, and nothing is given back without a new wake number.
\<close>

definition moves :: "relayBodyBudgetState \<Rightarrow> int \<Rightarrow> relayBodyBudgetState \<Rightarrow> int \<Rightarrow> bool" where
  "moves b c b' c' \<longleftrightarrow>
    (0 \<le> c \<and> c \<le> bb_used b \<and> bb_used b \<le> bb_limit b \<longrightarrow>
      0 \<le> c' \<and> bb_limit b' = bb_limit b \<and> bb_used b' = bb_used b - c + c' \<and> bb_used b' \<le> bb_limit b \<and>
      bb_gen b \<le> bb_gen b' \<and> (bb_gen b' = bb_gen b \<longrightarrow> bb_used b \<le> bb_used b'))"

named_theorems moves_intros \<open>sections move bytes between the budget and a request\<close>

lemma moves_refl [moves_intros]: "moves b c b c"
  by (simp add: moves_def)

lemma moves_trans [trans]: "moves b c b1 c1 \<Longrightarrow> moves b1 c1 b2 c2 \<Longrightarrow> moves b c b2 c2"
  unfolding moves_def by (smt (verit) le_antisym le_trans)

lemma moves_release [moves_intros]:
  "0 \<le> k \<Longrightarrow> c = n + k \<Longrightarrow> 0 \<le> n \<Longrightarrow> moves b c (releaseRelayBodyBudget n b) k"
  by (auto simp: moves_def releaseRelayBodyBudget_def Let_def)

lemma moves_acquire:
  "acquireRelayBodyBudget n b = AcqOK b' \<Longrightarrow> 0 \<le> n \<Longrightarrow> moves b c b' (c + n)"
  by (auto simp: moves_def acquireRelayBodyBudget_def split: if_splits)

lemma moves_try:
  "tryAcquireRelayBodyBudget n b = Some b' \<Longrightarrow> 0 \<le> n \<Longrightarrow> moves b c b' (c + n)"
  by (auto simp: moves_def tryAcquireRelayBodyBudget_def split: if_splits)

fun outcome_charge :: "read_outcome \<Rightarrow> int" where
  "outcome_charge (RdMore rd) = rd_charged rd"
| "outcome_charge (RdWait _ _ rd) = rd_charged rd"
| "outcome_charge (RdDone _ c) = c"
| "outcome_charge (RdFail _) = 0"

text \<open>A reader charges exactly the bytes it holds, and holds no more than its limit.\<close>

definition reader_ok :: "int \<Rightarrow> body_reader \<Rightarrow> bool" where
  "reader_ok limit rd \<longleftrightarrow>
    rd_limit rd = limit \<and> rd_charged rd = int (length (rd_buf rd)) \<and> int (length (rd_buf rd)) \<le> limit"

definition chunk_ok :: "body_reader \<Rightarrow> read_result \<Rightarrow> bool" where
  "chunk_ok rd chunk \<longleftrightarrow> int (length (rd_buf rd)) + int (length (fst chunk)) \<le> rd_limit rd"

definition waiter_ok :: "relayBodyBudgetState \<Rightarrow> nat \<Rightarrow> read_result \<Rightarrow> bool" where
  "waiter_ok b gen chunk \<longleftrightarrow>
    int (length (fst chunk)) \<le> bb_limit b \<and> gen \<le> bb_gen b \<and>
    (gen = bb_gen b \<longrightarrow> bb_limit b < bb_used b + int (length (fst chunk)))"

fun outcome_ok :: "int \<Rightarrow> read_outcome \<Rightarrow> relayBodyBudgetState \<Rightarrow> bool" where
  "outcome_ok limit (RdMore rd) b = reader_ok limit rd"
| "outcome_ok limit (RdWait gen chunk rd) b = (reader_ok limit rd \<and> chunk_ok rd chunk \<and> waiter_ok b gen chunk)"
| "outcome_ok limit (RdDone body c) b = (c = int (length body) \<and> c \<le> limit)"
| "outcome_ok limit (RdFail _) b = True"

definition section_ok :: "int \<Rightarrow> int \<Rightarrow> relayBodyBudgetState \<Rightarrow> read_outcome \<times> relayBodyBudgetState \<Rightarrow> bool" where
  "section_ok limit c b res \<longleftrightarrow> outcome_ok limit (fst res) (snd res) \<and> moves b c (snd res) (outcome_charge (fst res))"

lemma reader_charged: "reader_ok limit rd \<Longrightarrow> 0 \<le> rd_charged rd"
  by (simp add: reader_ok_def)

lemma section_fail:
  "reader_ok limit rd \<Longrightarrow> section_ok limit (rd_charged rd) b (read_fail e rd b)"
  unfolding section_ok_def read_fail_def by (auto intro: moves_release reader_charged)

lemma section_take:
  assumes "reader_ok limit rd" and "chunk_ok rd chunk"
    and moved: "moves b c b' (rd_charged rd + int (length (fst chunk)))"
  shows "section_ok limit c b (take_chunk chunk rd b')"
proof -
  let ?rd = "rd\<lparr>rd_buf := rd_buf rd @ fst chunk, rd_charged := rd_charged rd + int (length (fst chunk))\<rparr>"
  have ok: "reader_ok limit ?rd" using assms(1,2) by (simp add: reader_ok_def chunk_ok_def)
  have mv: "moves b c b' (rd_charged ?rd)" using moved by simp
  have fail: "section_ok limit c b (read_fail e ?rd b')" for e
    using section_fail [OF ok, of b' e] moves_trans [OF mv] unfolding section_ok_def by blast
  show ?thesis
  proof (cases "snd chunk")
    case None
    with ok mv show ?thesis by (simp add: take_chunk_def section_ok_def)
  next
    case (Some e)
    show ?thesis
    proof (cases e)
      case ReadEOF
      with Some ok mv show ?thesis by (simp add: take_chunk_def section_ok_def reader_ok_def)
    next
      case (ReadErr t)
      with Some fail [of "BodyText t"] show ?thesis by (simp add: take_chunk_def)
    qed
  qed
qed

lemma section_acquire:
  assumes "reader_ok limit rd" and "chunk_ok rd chunk"
  shows "section_ok limit (rd_charged rd) b (acquire_chunk chunk rd b)"
proof (cases "acquireRelayBodyBudget (int (length (fst chunk))) b")
  case AcqTooLarge
  then show ?thesis using section_fail [OF assms(1)] by (simp add: acquire_chunk_def)
next
  case AcqWait
  then have "waiter_ok b (bb_gen b) chunk"
    by (auto simp: waiter_ok_def acquireRelayBodyBudget_def split: if_splits)
  with AcqWait assms show ?thesis by (simp add: acquire_chunk_def section_ok_def moves_refl)
next
  case (AcqOK b')
  then show ?thesis using section_take [OF assms moves_acquire [OF AcqOK]] by (simp add: acquire_chunk_def)
qed

lemma section_read:
  assumes "reader_ok limit rd"
  shows "section_ok limit (rd_charged rd) b (read_pass c1 c2 rd b)"
proof -
  obtain chunk rd1 where n: "next_read rd = (chunk, rd1)" by (rule prod.exhaust)
  then have same: "rd_charged rd1 = rd_charged rd" "rd_buf rd1 = rd_buf rd" "rd_limit rd1 = rd_limit rd"
    by (auto simp: next_read_def split: list.splits)
  with assms have ok: "reader_ok limit rd1" by (simp add: reader_ok_def)
  have empty: "fst chunk = [] \<Longrightarrow> chunk_ok rd1 chunk" using ok by (simp add: chunk_ok_def reader_ok_def)
  show ?thesis
    using section_fail [OF assms] section_fail [OF ok] section_acquire [OF ok] same(1)
      section_take [OF ok empty moves_refl [of b "rd_charged rd1", THEN moves_trans]] moves_refl
      section_take [OF ok empty, of b "rd_charged rd1" b]
    by (auto simp: read_pass_def n chunk_ok_def)
qed

lemma section_wake:
  assumes "reader_ok limit rd" and "chunk_ok rd chunk" and "waiter_ok b gen chunk"
  shows "section_ok limit (rd_charged rd) b (wake_pass c gen chunk rd b)"
  using assms section_fail [OF assms(1)] section_acquire [OF assms(1,2)]
  by (auto simp: wake_pass_def section_ok_def moves_refl)

subsection \<open>The invariant of all requests\<close>

fun phase_charge :: "body_phase \<Rightarrow> int" where
  "phase_charge (PhRead rd _) = rd_charged rd"
| "phase_charge (PhDecode _ c rd _) = c + rd_charged rd"
| "phase_charge (PhReady _ c) = c"
| "phase_charge (PhHeld _ c d) = c + d"
| "phase_charge (PhEnd _) = 0"

definition body_pending_ok :: "relayBodyBudgetState \<Rightarrow> body_reader \<Rightarrow> (nat \<times> read_result) option \<Rightarrow> bool" where
  "body_pending_ok b rd wait =
    (case wait of None \<Rightarrow> True | Some (gen, chunk) \<Rightarrow> chunk_ok rd chunk \<and> waiter_ok b gen chunk)"

fun phase_ok :: "relayBodyBudgetState \<Rightarrow> body_phase \<Rightarrow> bool" where
  "phase_ok b (PhRead rd wait) = (reader_ok maxRelayCompressedBodyBytes rd \<and> body_pending_ok b rd wait)"
| "phase_ok b (PhDecode _ c rd wait) = (0 \<le> c \<and> reader_ok maxRelayDecompressedBodyBytes rd \<and> body_pending_ok b rd wait)"
| "phase_ok b (PhReady body c) = (c = int (length body) \<and> c \<le> maxRelayDecompressedBodyBytes)"
| "phase_ok b (PhHeld body c d) = (c = int (length body) \<and> d = c \<and> c \<le> maxRelayDecompressedBodyBytes)"
| "phase_ok b (PhEnd _) = True"

lemma waiter_ok_moves:
  assumes "waiter_ok b gen chunk" and "bb_limit b' = bb_limit b" and "bb_gen b \<le> bb_gen b'"
    and "bb_gen b' = bb_gen b \<longrightarrow> bb_used b \<le> bb_used b'"
  shows "waiter_ok b' gen chunk"
  using assms unfolding waiter_ok_def by (smt (verit) le_antisym le_trans)

lemma phase_ok_moves:
  assumes "phase_ok b ph" and "bb_limit b' = bb_limit b" and "bb_gen b \<le> bb_gen b'"
    and "bb_gen b' = bb_gen b \<longrightarrow> bb_used b \<le> bb_used b'"
  shows "phase_ok b' ph"
  using assms(1) waiter_ok_moves [OF _ assms(2-4)]
  by (cases ph) (auto simp: body_pending_ok_def split: option.splits)

lemma phase_charge_nonneg: "phase_ok b ph \<Longrightarrow> 0 \<le> phase_charge ph"
  by (cases ph) (auto simp: reader_ok_def)

definition phase_result_ok :: "int \<Rightarrow> relayBodyBudgetState \<Rightarrow> body_phase \<times> relayBodyBudgetState \<Rightarrow> bool" where
  "phase_result_ok c b res \<longleftrightarrow> phase_ok (snd res) (fst res) \<and> moves b c (snd res) (phase_charge (fst res))"

lemma result_fails: "0 \<le> c \<Longrightarrow> phase_result_ok c b (body_fails e c b)"
  by (auto simp: phase_result_ok_def body_fails_def intro: moves_release)

lemma start_read_ok: "0 \<le> limit \<Longrightarrow> reader_ok limit (start_read src limit)"
  by (simp add: start_read_def reader_ok_def)

lemma result_decode_start:
  assumes "c = int (length body)"
  shows "phase_result_ok c b (decode_start dec enc body c b)"
proof -
  have begin_ok: "phase_result_ok c b (PhDecode name c (start_read src maxRelayDecompressedBodyBytes) None, b)" for name src
    using assms start_read_ok [of maxRelayDecompressedBodyBytes src]
    by (simp add: phase_result_ok_def body_pending_ok_def maxRelayDecompressedBodyBytes_def start_read_def moves_refl)
  have "int (length body) \<le> maxRelayDecompressedBodyBytes \<Longrightarrow> phase_result_ok c b (PhReady body c, b)"
    using assms by (simp add: phase_result_ok_def moves_refl)
  then show ?thesis
    using begin_ok result_fails [of c b] assms
    by (auto simp: decode_start_def Let_def split: sum.splits)
qed

lemma result_trans: "moves b c b1 c1 \<Longrightarrow> phase_result_ok c1 b1 res \<Longrightarrow> phase_result_ok c b res"
  unfolding phase_result_ok_def using moves_trans by blast

lemma result_after_read:
  assumes "section_ok maxRelayCompressedBodyBytes c b (r, b')"
  shows "phase_result_ok c b (after_read dec enc r b')"
proof (cases r)
  case (RdDone body charge)
  have done_ok: "charge = int (length body)" "moves b c b' charge"
    using assms RdDone by (auto simp: section_ok_def)
  show ?thesis
  proof (cases "body = []")
    case True
    have "moves b' charge (releaseRelayBodyBudget charge b') 0"
      using done_ok(1) by (intro moves_release) auto
    with True RdDone moves_trans [OF done_ok(2)] show ?thesis
      by (simp add: after_read_def phase_result_ok_def maxRelayDecompressedBodyBytes_def)
  next
    case False
    with RdDone result_trans [OF done_ok(2) result_decode_start [OF done_ok(1)]] show ?thesis
      by (simp add: after_read_def)
  qed
qed (use assms in \<open>simp_all add: after_read_def phase_result_ok_def section_ok_def body_pending_ok_def\<close>)

lemma moves_add:
  "moves b c b' c' \<Longrightarrow> 0 \<le> c \<Longrightarrow> 0 \<le> k \<Longrightarrow> moves b (k + c) b' (k + c')"
  unfolding moves_def by (smt (verit))

lemma result_after_decode:
  assumes "section_ok maxRelayDecompressedBodyBytes c b (r, b')" and "0 \<le> k" and "0 \<le> c"
  shows "phase_result_ok (k + c) b (after_decode name k r b')"
proof -
  have mv: "moves b (k + c) b' (k + outcome_charge r)"
    using assms moves_add by (simp add: section_ok_def)
  show ?thesis
  proof (cases r)
    case (RdDone body extra)
    with assms have "extra = int (length body)" "extra \<le> maxRelayDecompressedBodyBytes" by (simp_all add: section_ok_def)
    moreover from this have "moves b' (k + extra) (releaseRelayBodyBudget k b') extra"
      using assms(2) by (intro moves_release) auto
    ultimately show ?thesis
      using RdDone moves_trans [OF mv] by (simp add: after_decode_def phase_result_ok_def)
  next
    case (RdFail e)
    with mv have "moves b (k + c) b' k" by simp
    from result_trans [OF this result_fails [OF assms(2)]] RdFail show ?thesis by (simp add: after_decode_def)
  qed (use assms mv in \<open>simp_all add: after_decode_def phase_result_ok_def section_ok_def body_pending_ok_def\<close>)
qed

lemma result_copy:
  assumes "c = int (length body)" and "c \<le> maxRelayDecompressedBodyBytes"
  shows "phase_result_ok c b (copy_charge body c b)"
proof (cases "tryAcquireRelayBodyBudget (int (length body)) b")
  case None
  with result_fails [of c b BodyTooLarge] assms show ?thesis by (simp add: copy_charge_def)
next
  case (Some b')
  with moves_try [OF Some, of c] assms show ?thesis by (simp add: copy_charge_def phase_result_ok_def)
qed

text \<open>Every section of a request keeps its phase sound and moves the bytes it says.\<close>

lemma result_step:
  assumes "phase_ok b ph"
  shows "phase_result_ok (phase_charge ph) b (phase_step dec enc ev ph b)"
  using assms
proof (induction dec enc ev ph b rule: phase_step.induct)
  case (1 dec enc i c1 c2 rd b)
  obtain r b' where "read_pass c1 c2 rd b = (r, b')" by (rule prod.exhaust)
  with 1 section_read [of maxRelayCompressedBodyBytes rd b c1 c2] show ?case
    by (simp add: result_after_read)
next
  case (2 dec enc i c rd gen chunk b)
  obtain r b' where "wake_pass c gen chunk rd b = (r, b')" by (rule prod.exhaust)
  with 2 section_wake [of maxRelayCompressedBodyBytes rd chunk b gen c] show ?case
    by (simp add: result_after_read body_pending_ok_def)
next
  case (3 dec enc i c1 c2 name charge rd b)
  obtain r b' where "read_pass c1 c2 rd b = (r, b')" by (rule prod.exhaust)
  with 3 section_read [of maxRelayDecompressedBodyBytes rd b c1 c2]
    result_after_decode [of "rd_charged rd" b r b' charge name]
    reader_charged [of maxRelayDecompressedBodyBytes rd] show ?case
    by simp
next
  case (4 dec enc i c name charge rd gen chunk b)
  obtain r b' where "wake_pass c gen chunk rd b = (r, b')" by (rule prod.exhaust)
  with 4 section_wake [of maxRelayDecompressedBodyBytes rd chunk b gen c]
    result_after_decode [of "rd_charged rd" b r b' charge name]
    reader_charged [of maxRelayDecompressedBodyBytes rd] show ?case
    by (simp add: body_pending_ok_def)
next
  case (5 dec enc i body charge b)
  then show ?case by (simp add: result_copy)
next
  case (6 dec enc i body charge copied b)
  then have nn: "0 \<le> charge" "0 \<le> copied" by auto
  then have "moves b (charge + copied) (releaseRelayBodyBudget copied b) charge"
    by (intro moves_release) auto
  moreover have "moves (releaseRelayBodyBudget copied b) charge
      (releaseRelayBodyBudget charge (releaseRelayBodyBudget copied b)) 0"
    using nn by (intro moves_release) auto
  ultimately show ?case by (simp add: phase_result_ok_def moves_trans)
qed (simp_all add: phase_result_ok_def moves_refl)

definition total_charge :: "body_world \<Rightarrow> int" where
  "total_charge w = sum_list (map (\<lambda>q. phase_charge (bq_phase q)) (bw_requests w))"

definition body_inv :: "int \<Rightarrow> body_world \<Rightarrow> bool" where
  "body_inv limit w \<longleftrightarrow>
    bb_limit (bw_budget w) = limit \<and> bb_used (bw_budget w) = total_charge w \<and>
    bb_used (bw_budget w) \<le> limit \<and>
    (\<forall>q \<in> set (bw_requests w). phase_ok (bw_budget w) (bq_phase q))"

lemma sum_list_replace:
  "i < length xs \<Longrightarrow> sum_list (map f (xs[i := y])) = sum_list (map f xs) - f (xs ! i) + (f y :: int)"
proof (induction xs arbitrary: i)
  case (Cons x xs)
  then show ?case by (cases i) auto
qed simp

lemma charge_le_total:
  assumes "q \<in> set qs" and "\<forall>q \<in> set qs. 0 \<le> phase_charge (bq_phase q)"
  shows "phase_charge (bq_phase q) \<le> sum_list (map (\<lambda>q. phase_charge (bq_phase q)) qs)"
  using assms by (intro member_le_sum_list) auto

lemma body_inv_request:
  assumes inv: "body_inv limit w"
  shows "body_inv limit (body_request_step dec i ev w)"
proof (cases "i < length (bw_requests w)")
  case False
  with inv show ?thesis by (simp add: body_request_step_def)
next
  case True
  let ?q = "bw_requests w ! i"
  let ?b = "bw_budget w"
  have mem: "?q \<in> set (bw_requests w)" using True by simp
  obtain ph b where step: "phase_step dec (bq_encoding ?q) ev (bq_phase ?q) ?b = (ph, b)" by (rule prod.exhaust)
  have phases: "\<forall>q \<in> set (bw_requests w). phase_ok ?b (bq_phase q)" using inv by (simp add: body_inv_def)
  then have res: "phase_ok b ph" "moves ?b (phase_charge (bq_phase ?q)) b (phase_charge ph)"
    using result_step [of ?b "bq_phase ?q" dec "bq_encoding ?q" ev] mem step
    by (auto simp: phase_result_ok_def)
  have nonneg: "\<forall>q \<in> set (bw_requests w). 0 \<le> phase_charge (bq_phase q)"
    using phases phase_charge_nonneg by blast
  have b: "bb_limit b = limit" "bb_used b = total_charge w - phase_charge (bq_phase ?q) + phase_charge ph"
    "bb_used b \<le> limit" "bb_gen ?b \<le> bb_gen b" "bb_gen b = bb_gen ?b \<longrightarrow> bb_used ?b \<le> bb_used b"
    using res(2) inv charge_le_total [OF mem nonneg] nonneg mem
    by (auto simp: moves_def body_inv_def total_charge_def)
  have "phase_ok b (bq_phase q)" if "q \<in> set (bw_requests w)" for q
    using phases that b inv phase_ok_moves [of ?b "bq_phase q" b] by (simp add: body_inv_def)
  then have "\<forall>q \<in> set ((bw_requests w)[i := ?q\<lparr>bq_phase := ph\<rparr>]). phase_ok b (bq_phase q)"
    using res(1) set_update_subset_insert [of "bw_requests w" i "?q\<lparr>bq_phase := ph\<rparr>"] by fastforce
  then show ?thesis
    using True step b
    by (simp add: body_request_step_def body_inv_def total_charge_def sum_list_replace)
qed

lemma body_inv_step: "body_inv limit w \<Longrightarrow> body_inv limit (body_step dec ev w)"
proof (cases ev)
  case (EvArrive enc src)
  assume "body_inv limit w"
  with EvArrive show ?thesis
    by (auto simp: body_inv_def total_charge_def start_read_def reader_ok_def body_pending_ok_def
        maxRelayCompressedBodyBytes_def)
qed (simp_all add: body_inv_request)

lemma body_inv_run: "body_inv limit w \<Longrightarrow> body_inv limit (body_run dec evs w)"
  unfolding body_run_def by (induction evs arbitrary: w) (simp_all add: body_inv_step)

lemma body_inv_start: "0 \<le> limit \<Longrightarrow> body_inv limit (body_start limit)"
  by (simp add: body_inv_def body_start_def newRelayBodyBudget_def total_charge_def)


definition demo_decoders :: decoders where
  "demo_decoders = \<lparr>dc_gzip = (\<lambda>b. Inr [(b @ b, Some ReadEOF)]), dc_zstd = (\<lambda>_. Inl ''none''),
     dc_zlib = (\<lambda>_. None), dc_flate = (\<lambda>b. [(b, None)])\<rparr>"

definition demo_events :: "body_event list" where
  "demo_events = [EvArrive [] [(''abc'', None)], EvPass 0 False False, EvArrive ''gzip'' [(''xy'', Some ReadEOF)],
     EvPass 1 False False, EvPass 1 False False, EvPass 0 False False, EvCopy 0, EvCopy 1]"


subsection \<open>A body read alone\<close>

text \<open>All of a request's sections in order, nobody else running: \<open>n\<close> passes and no cancellation.\<close>

fun read_alone :: "nat \<Rightarrow> body_reader \<Rightarrow> relayBodyBudgetState \<Rightarrow> read_outcome \<times> relayBodyBudgetState" where
  "read_alone 0 rd b = (RdMore rd, b)"
| "read_alone (Suc n) rd b =
    (case read_pass False False rd b of
       (RdMore rd', b') \<Rightarrow> read_alone n rd' b'
     | res \<Rightarrow> res)"

definition source_bytes :: "read_result list \<Rightarrow> string" where
  "source_bytes src = concat (map fst src)"

text \<open>
  A body of which every read succeeds and which fits its own limit and the free budget is read in
  full: the result is the concatenation of what the reads returned, charged byte for byte. One more pass
  than there are reads is enough.
\<close>

lemma body_read_whole:
  assumes "list_all (\<lambda>chunk. snd chunk = None) src"
    and "int (length (source_bytes src)) \<le> limit"
    and "bb_used b + int (length (source_bytes src)) \<le> bb_limit b" and "0 \<le> bb_used b"
  shows "read_alone (Suc (length src)) (start_read src limit) b =
    (RdDone (source_bytes src) (int (length (source_bytes src))),
     b\<lparr>bb_used := bb_used b + int (length (source_bytes src))\<rparr>)"
proof -
  have step: "read_alone (Suc (length src)) rd b0 =
      (RdDone (rd_buf rd @ source_bytes src) (rd_charged rd + int (length (source_bytes src))),
       b0\<lparr>bb_used := bb_used b0 + int (length (source_bytes src))\<rparr>)"
    if "rd_src rd = src" "list_all (\<lambda>chunk. snd chunk = None) src"
      "int (length (rd_buf rd)) + int (length (source_bytes src)) \<le> rd_limit rd"
      "bb_used b0 + int (length (source_bytes src)) \<le> bb_limit b0" "0 \<le> bb_used b0" for rd b0
    using that
  proof (induction src arbitrary: rd b0)
    case Nil
    then show ?case by (simp add: read_pass_def next_read_def take_chunk_def source_bytes_def)
  next
    case (Cons chunk src)
    let ?n = "int (length (fst chunk))"
    let ?rd = "rd\<lparr>rd_src := src, rd_buf := rd_buf rd @ fst chunk, rd_charged := rd_charged rd + ?n\<rparr>"
    let ?b = "b0\<lparr>bb_used := bb_used b0 + ?n\<rparr>"
    have split: "source_bytes (chunk # src) = fst chunk @ source_bytes src" by (simp add: source_bytes_def)
    have none: "snd chunk = None" using Cons.prems(2) by simp
    have "read_pass False False rd b0 = (RdMore ?rd, ?b)"
      using Cons.prems none
      by (auto simp: read_pass_def next_read_def take_chunk_def acquire_chunk_def acquireRelayBodyBudget_def split)
    moreover have "read_alone (Suc (length src)) ?rd ?b =
        (RdDone (rd_buf ?rd @ source_bytes src) (rd_charged ?rd + int (length (source_bytes src))),
         ?b\<lparr>bb_used := bb_used ?b + int (length (source_bytes src))\<rparr>)"
      using Cons.prems by (intro Cons.IH) (simp_all add: split)
    ultimately show ?case by (simp add: split)
  qed
  show ?thesis
    using step [of "start_read src limit" b] assms by (simp add: start_read_def)
qed

text \<open>
  Reading holds what it has while it waits for more. Two bodies that together exceed the budget can each
  get part of it and then wait for the other: no section of either can run again without a cancellation,
  although each body alone would fit.
\<close>

definition stuck_events :: "body_event list" where
  "stuck_events = [EvArrive [] [(''aa'', None), (''aa'', None)], EvArrive [] [(''bb'', None), (''bb'', None)],
     EvPass 0 False False, EvPass 1 False False, EvPass 0 False False, EvPass 1 False False]"

definition stuck_world :: "decoders \<Rightarrow> body_world" where
  "stuck_world dec = body_run dec stuck_events (body_start 5)"

lemmas budget_code = acquireRelayBodyBudget_def take_chunk_def acquire_chunk_def read_pass_def next_read_def
  after_read_def start_read_def body_request_step_def

lemma stuck_waits:
  "stuck_world dec = \<lparr>bw_budget = \<lparr>bb_used = 4, bb_limit = 5, bb_gen = 0\<rparr>,
     bw_requests =
       [\<lparr>bq_encoding = [], bq_phase = PhRead \<lparr>rd_src = [], rd_buf = ''aa'', rd_charged = 2,
          rd_limit = maxRelayCompressedBodyBytes\<rparr> (Some (0, (''aa'', None)))\<rparr>,
        \<lparr>bq_encoding = [], bq_phase = PhRead \<lparr>rd_src = [], rd_buf = ''bb'', rd_charged = 2,
          rd_limit = maxRelayCompressedBodyBytes\<rparr> (Some (0, (''bb'', None)))\<rparr>]\<rparr>"
  by (simp add: stuck_world_def stuck_events_def body_run_def body_start_def newRelayBodyBudget_def
      budget_code maxRelayCompressedBodyBytes_def)

definition undisturbed :: "body_event \<Rightarrow> bool" where
  "undisturbed ev \<longleftrightarrow> (case ev of EvArrive _ _ \<Rightarrow> False | EvWake _ c \<Rightarrow> \<not> c | _ \<Rightarrow> True)"

lemma body_budget_deadlock:
  "(\<forall>ev. undisturbed ev \<longrightarrow> body_step dec ev (stuck_world dec) = stuck_world dec) \<and>
   (\<forall>q \<in> set (bw_requests (stuck_world dec)). \<not> (\<exists>e. bq_phase q = PhEnd e))"
proof
  have idle: "body_request_step dec i ev (stuck_world dec) = stuck_world dec"
    if "undisturbed ev" for i ev
    using that less_2_cases [of i]
    by (cases ev) (auto simp: undisturbed_def body_request_step_def stuck_waits wake_pass_def after_read_def less_Suc_eq)
  show "\<forall>ev. undisturbed ev \<longrightarrow> body_step dec ev (stuck_world dec) = stuck_world dec"
  proof (intro allI impI)
    fix ev assume "undisturbed ev"
    then show "body_step dec ev (stuck_world dec) = stuck_world dec"
      using idle [of ev] by (cases ev) (simp_all add: undisturbed_def)
  qed
qed (simp add: stuck_waits)

subsection \<open>The cap on an upstream answer\<close>

text \<open>
  \<^verbatim>\<open>responselimit.go\<close>. An upstream body is its bytes and how it ends; a call of \<^verbatim>\<open>Read\<close> with room for \<open>n\<close>
  bytes returns some of them, at most \<open>n\<close> and as many as the transport has at hand (\<open>k\<close>), and the end
  once they are used up.
\<close>

definition maxRelayResponseBodyBytes :: nat where "maxRelayResponseBodyBytes = 64 * 1024 * 1024"

type_synonym upstream_body = "string \<times> read_end"

definition upstream_read :: "nat \<Rightarrow> nat \<Rightarrow> upstream_body \<Rightarrow> read_result \<times> upstream_body" where
  "upstream_read k n body =
    (if fst body = [] then (([], Some (snd body)), body)
     else ((take (min k n) (fst body), None), (drop (min k n) (fst body), snd body)))"

record responseBodyLimitReader =
  lr_body :: upstream_body
  lr_remaining :: nat

datatype limited_end = LimTooLarge | LimEnd read_end

definition limited_read ::
  "nat \<Rightarrow> nat \<Rightarrow> responseBodyLimitReader \<Rightarrow> (string \<times> limited_end option) \<times> responseBodyLimitReader" where
  "limited_read k n r =
    (if lr_remaining r = 0
     then case upstream_read k 1 (lr_body r) of
            ((data, e), body) \<Rightarrow>
              (if data \<noteq> [] then ([], Some LimTooLarge) else ([], map_option LimEnd e), r\<lparr>lr_body := body\<rparr>)
     else case upstream_read k (if lr_remaining r < n then lr_remaining r else n) (lr_body r) of
            ((data, e), body) \<Rightarrow>
              ((data, map_option LimEnd e), r\<lparr>lr_body := body, lr_remaining := lr_remaining r - length data\<rparr>))"

text \<open>\<^verbatim>\<open>RoundTrip\<close>: an answer that declares more than the limit is refused at once.\<close>

definition RoundTrip_limit :: "nat \<Rightarrow> int \<Rightarrow> upstream_body \<Rightarrow> responseBodyLimitReader option" where
  "RoundTrip_limit limit contentLength body =
    (if int limit < contentLength then None else Some \<lparr>lr_body = body, lr_remaining = limit\<rparr>)"

text \<open>
  A caller reading to the end: the room and the supply of each call, until a call reports an end.
  \<open>None\<close> means that the given calls were not enough.
\<close>

fun limited_read_all ::
  "(nat \<times> nat) list \<Rightarrow> responseBodyLimitReader \<Rightarrow> (string \<times> limited_end) option" where
  "limited_read_all [] r = None"
| "limited_read_all ((k, n) # calls) r =
    (case limited_read k n r of
       ((data, Some e), _) \<Rightarrow> Some (data, e)
     | ((data, None), r') \<Rightarrow>
         (case limited_read_all calls r' of
            None \<Rightarrow> None
          | Some (rest, e) \<Rightarrow> Some (data @ rest, e)))"

definition capped :: "nat \<Rightarrow> upstream_body \<Rightarrow> string \<times> limited_end" where
  "capped limit body =
    (if length (fst body) \<le> limit then (fst body, LimEnd (snd body)) else (take limit (fst body), LimTooLarge))"

lemma limited_read_all_sound:
  "limited_read_all calls r = Some res \<Longrightarrow> res = capped (lr_remaining r) (lr_body r)"
proof (induction calls arbitrary: r res)
  case (Cons call calls)
  obtain k n where call: "call = (k, n)" by (rule prod.exhaust)
  obtain bytes fin where body: "lr_body r = (bytes, fin)" by (rule prod.exhaust)
  show ?case
  proof (cases "bytes = []")
    case True
    with Cons.prems call body show ?thesis
      by (auto simp: limited_read_def upstream_read_def capped_def split: if_splits)
  next
    case False
    note nonempty = False
    show ?thesis
    proof (cases "lr_remaining r = 0")
      case True
      show ?thesis
      proof (cases "take (min k 1) bytes = []")
        case True
        with nonempty have "min k 1 = 0" by (metis take_eq_Nil)
        then have k: "k = 0" by simp
        with Cons.prems call body nonempty \<open>lr_remaining r = 0\<close>
        obtain rest e where "limited_read_all calls (r\<lparr>lr_body := (bytes, fin)\<rparr>) = Some (rest, e)" "res = (rest, e)"
          by (auto simp: limited_read_def upstream_read_def split: option.splits)
        with Cons.IH [of "r\<lparr>lr_body := (bytes, fin)\<rparr>"] body show ?thesis by simp
      next
        case False
        with Cons.prems call body nonempty \<open>lr_remaining r = 0\<close> show ?thesis
          by (auto simp: limited_read_def upstream_read_def capped_def split: if_splits)
      qed
    next
      case False
      let ?m = "min k (if lr_remaining r < n then lr_remaining r else n)"
      let ?r = "r\<lparr>lr_body := (drop ?m bytes, fin), lr_remaining := lr_remaining r - length (take ?m bytes)\<rparr>"
      have m: "?m \<le> lr_remaining r" by auto
      from Cons.prems call body nonempty False
      obtain rest e where more: "limited_read_all calls ?r = Some (rest, e)" and res: "res = (take ?m bytes @ rest, e)"
        by (auto simp: limited_read_def upstream_read_def split: option.splits)
      have whole: "take ?m bytes @ take (lr_remaining r - ?m) (drop ?m bytes) = take (lr_remaining r) bytes"
        using m by (metis le_add_diff_inverse take_add)
      have "(rest, e) = capped (lr_remaining r - length (take ?m bytes)) (drop ?m bytes, fin)"
        using Cons.IH [OF more] by simp
      with res body whole m show ?thesis
        by (auto simp: capped_def min_def split: if_splits)
    qed
  qed
qed simp

lemma limited_read_all_ends:
  assumes "list_all (\<lambda>(k, n). 0 < k \<and> 0 < n) calls" and "length (fst (lr_body r)) < length calls"
  shows "limited_read_all calls r \<noteq> None"
  using assms
proof (induction calls arbitrary: r)
  case (Cons call calls)
  obtain k n where call: "call = (k, n)" by (rule prod.exhaust)
  obtain bytes fin where body: "lr_body r = (bytes, fin)" by (rule prod.exhaust)
  have pos: "0 < k" "0 < n" and rest: "list_all (\<lambda>(k, n). 0 < k \<and> 0 < n) calls" using Cons.prems call by simp_all
  show ?case
  proof (cases "bytes = [] \<or> lr_remaining r = 0")
    case True
    with call body pos show ?thesis by (auto simp: limited_read_def upstream_read_def split: option.splits)
  next
    case False
    let ?m = "min k (if lr_remaining r < n then lr_remaining r else n)"
    let ?r = "r\<lparr>lr_body := (drop ?m bytes, fin), lr_remaining := lr_remaining r - length (take ?m bytes)\<rparr>"
    have "0 < ?m" using pos False by simp
    then have "length (fst (lr_body ?r)) < length calls" using False Cons.prems(2) body by (cases bytes) auto
    with Cons.IH rest have "limited_read_all calls ?r \<noteq> None" by blast
    moreover have one: "limited_read k n r = ((take ?m bytes, None), ?r)"
      using False body by (simp add: limited_read_def upstream_read_def)
    moreover have "limited_read_all (call # calls) r =
        (case limited_read_all calls ?r of None \<Rightarrow> None | Some (rest, e) \<Rightarrow> Some (take ?m bytes @ rest, e))"
      unfolding call limited_read_all.simps(2) one by (simp only: prod.case option.case)
    ultimately show ?thesis by (simp only: option.case_eq_if prod.case_eq_if) simp
  qed
qed simp

text \<open>
  However the transport splits an upstream answer and whatever room the reader gives, reading it to the end
  through the limit gives the whole body with its own end if it has at most \<open>limit\<close> bytes, and otherwise its
  first \<open>limit\<close> bytes with the error that it is too large. Calls that make progress reach the end.
\<close>

lemma response_capped:
  assumes "list_all (\<lambda>(k, n). 0 < k \<and> 0 < n) calls" and "length (fst body) < length calls"
    and "RoundTrip_limit limit contentLength body = Some r"
  shows "limited_read_all calls r = Some (capped limit body)"
proof -
  have r: "lr_body r = body" "lr_remaining r = limit"
    using assms(3) by (auto simp: RoundTrip_limit_def split: if_splits)
  with limited_read_all_ends [OF assms(1), of r] assms(2) obtain res where "limited_read_all calls r = Some res" by auto
  with limited_read_all_sound [OF this] r show ?thesis by simp
qed

end
