(* ===== verification/Proxy_Pool.thy ===== *)
theory Proxy_Pool
  imports Utf8_Text "HOL-Library.Word"
begin

text \<open>
  \<^verbatim>\<open>internal/relay/opencode_proxy_pool.go\<close>: the pool of proxy accounts of a channel. A request gets
  an account that no other session is using, sessions stick to their account, refusals and failures
  cool an account down.

  Every function that holds \<^verbatim>\<open>pool.mu\<close> is one function on the pool. Times are nanoseconds since
  1970, \<open>zero_time\<close> is the zero \<^verbatim>\<open>time.Time\<close>. The rows read from the database and the random name of
  a new account are arguments; what is written to the database afterwards is the list of \<open>oc_save\<close>
  a function returns. Maps from pointers to account states are maps to the states: no pointer
  outlives the locked section that read it.
\<close>

definition oc_second :: int where "oc_second = 10 ^ 9"
definition zero_time :: int where "zero_time = - 62135596800 * oc_second"

definition ocProxyPerAccountLimit :: int where "ocProxyPerAccountLimit = 5"
definition ocProxyPerAccountSessions :: nat where "ocProxyPerAccountSessions = 1"
definition ocProxySuccessTTL :: int where "ocProxySuccessTTL = 7 * 24 * 3600 * oc_second"
definition ocProxyRejectedCooldown :: int where "ocProxyRejectedCooldown = 24 * 3600 * oc_second"
definition ocProxyMaxAccounts :: int where "ocProxyMaxAccounts = 30000"
definition ocPruneInterval :: int where "ocPruneInterval = 600 * oc_second"
definition ocProxySessionTTL :: int where "ocProxySessionTTL = 24 * 3600 * oc_second"
definition ocProxy429VoteWindow :: int where "ocProxy429VoteWindow = 24 * 3600 * oc_second"
definition ocProxy429Quorum :: nat where "ocProxy429Quorum = 2"
definition ocProxyFailureWindow :: int where "ocProxyFailureWindow = 24 * 3600 * oc_second"
definition ocProxyFailureWindowLimit :: int where "ocProxyFailureWindowLimit = 6"

record ocProxyAccount =
  oa_account :: string
  oa_lastSuccessAt :: int
  oa_cooldownUntil :: int
  oa_active :: int
  oa_sessions :: "(string, int) gomap"
  oa_verified :: bool
  oa_consecutiveFailures :: int
  oa_failureWindowStart :: int
  oa_failureWindowCount :: int

record ocSessionBinding =
  sb_account :: string
  sb_at :: int

record ocProxyPool =
  op_loaded :: bool
  op_lastPruneAt :: int
  op_accounts :: "(string, ocProxyAccount) gomap"
  op_sessionBound :: "(string, ocSessionBinding) gomap"
  op_sessionBanned :: "(string, (string, int) gomap) gomap"
  op_rateLimited :: "(string, int) gomap"

definition new_account :: "string \<Rightarrow> ocProxyAccount" where
  "new_account account =
    \<lparr>oa_account = account, oa_lastSuccessAt = zero_time, oa_cooldownUntil = zero_time, oa_active = 0,
     oa_sessions = [], oa_verified = False, oa_consecutiveFailures = 0,
     oa_failureWindowStart = zero_time, oa_failureWindowCount = 0\<rparr>"

definition newOpencodeProxyPool :: ocProxyPool where
  "newOpencodeProxyPool =
    \<lparr>op_loaded = False, op_lastPruneAt = zero_time, op_accounts = [], op_sessionBound = [],
     op_sessionBanned = [], op_rateLimited = []\<rparr>"

subsection \<open>Loading\<close>

record oc_row =
  ow_Account :: string
  ow_LastSuccessAt :: int
  ow_CooldownUntil :: int
  ow_FailureWindowStart :: int
  ow_FailureWindowCount :: int

definition account_of_row :: "int \<Rightarrow> oc_row \<Rightarrow> ocProxyAccount" where
  "account_of_row now row =
    (let state = (new_account (ow_Account row))
           \<lparr>oa_lastSuccessAt := ow_LastSuccessAt row, oa_cooldownUntil := ow_CooldownUntil row,
            oa_verified := (ow_LastSuccessAt row \<noteq> zero_time)\<rparr>
     in if \<not> now < ow_CooldownUntil row
        then state\<lparr>oa_failureWindowStart := ow_FailureWindowStart row,
                   oa_failureWindowCount := ow_FailureWindowCount row\<rparr>
        else state)"

text \<open>\<^verbatim>\<open>loadOpencodeProxyPoolForKey\<close>: \<open>None\<close> is a failing query, after which the pool stays in memory.\<close>

definition loadOpencodeProxyPoolForKey :: "int \<Rightarrow> oc_row list option \<Rightarrow> ocProxyPool \<Rightarrow> ocProxyPool" where
  "loadOpencodeProxyPoolForKey now rows p =
    (if op_loaded p then p
     else case rows of
       None \<Rightarrow> p\<lparr>op_loaded := True\<rparr>
     | Some rs \<Rightarrow> p\<lparr>op_loaded := True,
         op_accounts := fold (\<lambda>row m. mput (ow_Account row) (account_of_row now row) m) rs (op_accounts p)\<rparr>)"

subsection \<open>Which accounts may serve\<close>

definition ocProxyUsable :: "ocProxyAccount \<Rightarrow> int \<Rightarrow> bool" where
  "ocProxyUsable a now =
    (if ocProxyPerAccountLimit \<le> oa_active a then False
     else if now < oa_cooldownUntil a then False
     else if oa_verified a \<and> ocProxySuccessTTL < now - oa_lastSuccessAt a then False
     else True)"

definition ocProxySessionAvailable :: "ocProxyAccount \<Rightarrow> string \<Rightarrow> bool" where
  "ocProxySessionAvailable a session =
    (if session = [] then True
     else if ocProxyPerAccountSessions < length (oa_sessions a) then False
     else if 0 < mget0 (oa_sessions a) session then True
     else length (oa_sessions a) < ocProxyPerAccountSessions)"

definition ocProxyCandidateBetter :: "ocProxyAccount \<Rightarrow> ocProxyAccount \<Rightarrow> bool" where
  "ocProxyCandidateBetter a b =
    (if oa_consecutiveFailures a \<noteq> oa_consecutiveFailures b
     then oa_consecutiveFailures a < oa_consecutiveFailures b
     else if oa_verified a \<noteq> oa_verified b then oa_verified a
     else oa_verified a \<and> oa_lastSuccessAt b < oa_lastSuccessAt a)"

definition oc_prune :: "int \<Rightarrow> ocProxyPool \<Rightarrow> ocProxyPool" where
  "oc_prune now p =
    p\<lparr>op_sessionBound := mkeep (\<lambda>_ binding. \<not> ocProxySessionTTL \<le> now - sb_at binding) (op_sessionBound p),
      op_sessionBanned := mkeep (\<lambda>_ accounts. accounts \<noteq> [])
        (map (\<lambda>(session, accounts). (session, mkeep (\<lambda>_ t. \<not> ocProxySessionTTL \<le> now - t) accounts))
           (op_sessionBanned p)),
      op_rateLimited := mkeep (\<lambda>_ t. \<not> ocProxy429VoteWindow \<le> now - t) (op_rateLimited p)\<rparr>"

definition ocProxyRecency :: "ocProxyAccount \<Rightarrow> int" where
  "ocProxyRecency a =
    (if oa_lastSuccessAt a < oa_cooldownUntil a then oa_cooldownUntil a else oa_lastSuccessAt a)"

definition ocProxyEvictFirst :: "ocProxyAccount \<Rightarrow> ocProxyAccount \<Rightarrow> bool" where
  "ocProxyEvictFirst a b =
    (if oa_verified a \<noteq> oa_verified b then \<not> oa_verified a else ocProxyRecency a < ocProxyRecency b)"

fun oldest_from ::
  "string \<Rightarrow> (string, ocProxyAccount) gomap \<Rightarrow> ocProxyAccount option \<Rightarrow> ocProxyAccount option" where
  "oldest_from keep [] oldest = oldest"
| "oldest_from keep ((_, state) # rest) oldest =
    (if oa_account state = keep then oldest_from keep rest oldest
     else case oldest of
       None \<Rightarrow> oldest_from keep rest (Some state)
     | Some o1 \<Rightarrow> oldest_from keep rest (if ocProxyEvictFirst state o1 then Some state else oldest))"

definition oldest_account :: "string \<Rightarrow> ocProxyPool \<Rightarrow> ocProxyAccount option" where
  "oldest_account keep p = oldest_from keep (op_accounts p) None"

text \<open>\<^verbatim>\<open>trimLocked\<close>: a pass removes one account, so the number of accounts is fuel enough.\<close>

fun oc_trim :: "nat \<Rightarrow> string \<Rightarrow> ocProxyPool \<Rightarrow> ocProxyPool" where
  "oc_trim 0 keep p = p"
| "oc_trim (Suc n) keep p =
    (if \<not> ocProxyMaxAccounts < int (length (op_accounts p)) then p
     else case oldest_account keep p of
       None \<Rightarrow> p
     | Some oldest \<Rightarrow>
         oc_trim n keep
           (p\<lparr>op_accounts := mdel (oa_account oldest) (op_accounts p),
              op_sessionBound := mkeep (\<lambda>_ binding. sb_account binding \<noteq> oa_account oldest) (op_sessionBound p)\<rparr>))"

definition trimLocked :: "string \<Rightarrow> ocProxyPool \<Rightarrow> ocProxyPool" where
  "trimLocked keep p = oc_trim (length (op_accounts p)) keep p"

subsection \<open>Picking an account\<close>

definition banned_of :: "ocProxyPool \<Rightarrow> string \<Rightarrow> (string, int) gomap" where
  "banned_of p session = (case map_of (op_sessionBanned p) session of None \<Rightarrow> [] | Some m \<Rightarrow> m)"

definition bind_oc :: "string \<Rightarrow> string \<Rightarrow> int \<Rightarrow> ocProxyPool \<Rightarrow> ocProxyPool" where
  "bind_oc session account now p =
    (if session = [] then p
     else p\<lparr>op_sessionBound := mput session \<lparr>sb_account = account, sb_at = now\<rparr> (op_sessionBound p)\<rparr>)"

text \<open>The account the session is bound to, if it may still serve it.\<close>

definition bound_account :: "int \<Rightarrow> string \<Rightarrow> ocProxyPool \<Rightarrow> ocProxyAccount option" where
  "bound_account now session p =
    (if session = [] then None
     else case map_of (op_sessionBound p) session of
       None \<Rightarrow> None
     | Some binding \<Rightarrow>
         if mhas (banned_of p session) (sb_account binding) then None
         else case map_of (op_accounts p) (sb_account binding) of
           None \<Rightarrow> None
         | Some a \<Rightarrow> if ocProxyUsable a now \<and> ocProxySessionAvailable a session then Some a else None)"

definition bound_name :: "string \<Rightarrow> ocProxyPool \<Rightarrow> string" where
  "bound_name session p =
    (if session = [] then []
     else case map_of (op_sessionBound p) session of None \<Rightarrow> [] | Some binding \<Rightarrow> sb_account binding)"

definition oc_candidate :: "int \<Rightarrow> string \<Rightarrow> ocProxyPool \<Rightarrow> ocProxyAccount \<Rightarrow> bool" where
  "oc_candidate now session p c \<longleftrightarrow>
    ocProxyUsable c now \<and> ocProxySessionAvailable c session \<and>
    \<not> mhas (banned_of p session) (oa_account c) \<and>
    \<not> (bound_name session p \<noteq> [] \<and> oa_account c = bound_name session p)"

fun best_account ::
  "(ocProxyAccount \<Rightarrow> bool) \<Rightarrow> ocProxyAccount list \<Rightarrow> ocProxyAccount option \<Rightarrow> ocProxyAccount option" where
  "best_account ok [] picked = picked"
| "best_account ok (c # cs) picked =
    (if \<not> ok c then best_account ok cs picked
     else case picked of
       None \<Rightarrow> best_account ok cs (Some c)
     | Some b \<Rightarrow> best_account ok cs (if ocProxyCandidateBetter c b then Some c else picked))"

text \<open>\<^verbatim>\<open>pickLocked\<close>; \<open>fresh\<close> is the name \<^verbatim>\<open>newOpencodeProxyAccount\<close> draws if it is needed.\<close>

definition oc_pickLocked :: "string \<Rightarrow> int \<Rightarrow> string \<Rightarrow> ocProxyPool \<Rightarrow> ocProxyAccount \<times> ocProxyPool" where
  "oc_pickLocked fresh now session p0 =
    (let p = oc_prune now p0 in
     case bound_account now session p of
       Some a \<Rightarrow> (a, bind_oc session (bound_name session p) now p)
     | None \<Rightarrow>
         (case best_account (oc_candidate now session p) (map snd (op_accounts p)) None of
            Some a \<Rightarrow> (a, bind_oc session (oa_account a) now p)
          | None \<Rightarrow>
              let a = new_account fresh;
                  p1 = trimLocked fresh (p\<lparr>op_accounts := mput fresh a (op_accounts p)\<rparr>)
              in (a, bind_oc session fresh now p1)))"

definition oc_state_for :: "string \<Rightarrow> ocProxyPool \<Rightarrow> ocProxyAccount" where
  "oc_state_for account p =
    (case map_of (op_accounts p) account of None \<Rightarrow> new_account account | Some a \<Rightarrow> a)"

definition pickFixedLocked ::
  "int \<Rightarrow> string \<Rightarrow> string \<Rightarrow> ocProxyPool \<Rightarrow> ocProxyAccount option \<times> ocProxyPool" where
  "pickFixedLocked now session account p0 =
    (let p = oc_prune now p0;
         state = oc_state_for account p;
         p1 = (if mhas (op_accounts p) account then p else p\<lparr>op_accounts := mput account state (op_accounts p)\<rparr>)
     in if \<not> ocProxyUsable state now \<or> \<not> ocProxySessionAvailable state session then (None, p1)
        else if mhas (banned_of p1 session) account then (None, p1)
        else (Some state, bind_oc session account now p1))"

text \<open>\<^verbatim>\<open>picked.active++\<close> and \<^verbatim>\<open>picked.sessions[session]++\<close>.\<close>

definition occupy :: "string \<Rightarrow> ocProxyAccount \<Rightarrow> ocProxyAccount" where
  "occupy session a =
    (let a1 = a\<lparr>oa_active := oa_active a + 1\<rparr> in
     if session = [] then a1
     else a1\<lparr>oa_sessions := mput session (mget0 (oa_sessions a) session + 1) (oa_sessions a)\<rparr>)"

definition pickOpencodeProxyAccountForKey ::
  "string \<Rightarrow> int \<Rightarrow> oc_row list option \<Rightarrow> string \<Rightarrow> string \<Rightarrow> ocProxyPool \<Rightarrow> string \<times> ocProxyPool" where
  "pickOpencodeProxyAccountForKey fresh now rows keyID session p0 =
    (let p = loadOpencodeProxyPoolForKey now rows p0 in
     case (if keyID = [] then (case oc_pickLocked fresh now session p of (a, q) \<Rightarrow> (Some a, q))
           else pickFixedLocked now session keyID p) of
       (None, q) \<Rightarrow> ([], q)
     | (Some a, q) \<Rightarrow> (oa_account a, q\<lparr>op_accounts := mput (oa_account a) (occupy session a) (op_accounts q)\<rparr>))"

definition releaseOpencodeProxyAccountForKey :: "string \<Rightarrow> string \<Rightarrow> ocProxyPool \<Rightarrow> ocProxyPool" where
  "releaseOpencodeProxyAccountForKey account session p =
    (case map_of (op_accounts p) account of
       None \<Rightarrow> p
     | Some state \<Rightarrow>
         let s1 = (if 0 < oa_active state then state\<lparr>oa_active := oa_active state - 1\<rparr> else state);
             s2 = (if session = [] then s1
                   else if 1 < mget0 (oa_sessions s1) session
                   then s1\<lparr>oa_sessions := mput session (mget0 (oa_sessions s1) session - 1) (oa_sessions s1)\<rparr>
                   else s1\<lparr>oa_sessions := mdel session (oa_sessions s1)\<rparr>)
         in p\<lparr>op_accounts := mput account s2 (op_accounts p)\<rparr>)"

subsection \<open>Reports\<close>

datatype oc_save =
    SaveSuccess string int bool
  | SaveFailure string
  | SaveCooldown string int
  | PruneAccounts

text \<open>\<^verbatim>\<open>needsPrune\<close> and the prune it triggers after the row is saved.\<close>

definition needsPrune :: "int \<Rightarrow> ocProxyPool \<Rightarrow> bool \<times> ocProxyPool" where
  "needsPrune now p =
    (if int (length (op_accounts p)) < ocProxyMaxAccounts \<or> now - op_lastPruneAt p \<le> ocPruneInterval then (False, p)
     else (True, p\<lparr>op_lastPruneAt := now\<rparr>))"

text \<open>The state of an account a report is about, created when the pool does not hold it.\<close>

definition ensure_account :: "string \<Rightarrow> ocProxyPool \<Rightarrow> ocProxyPool" where
  "ensure_account account p =
    (if mhas (op_accounts p) account then p
     else trimLocked account (p\<lparr>op_accounts := mput account (new_account account) (op_accounts p)\<rparr>))"

definition update_account :: "string \<Rightarrow> (ocProxyAccount \<Rightarrow> ocProxyAccount) \<Rightarrow> ocProxyPool \<Rightarrow> ocProxyPool" where
  "update_account account f p =
    p\<lparr>op_accounts := mput account (f (oc_state_for account p)) (op_accounts p)\<rparr>"

definition oc_success :: "int \<Rightarrow> ocProxyAccount \<Rightarrow> ocProxyAccount" where
  "oc_success now a =
    a\<lparr>oa_verified := True, oa_lastSuccessAt := now, oa_cooldownUntil := zero_time, oa_consecutiveFailures := 0\<rparr>"

definition markOpencodeProxySuccessForKey ::
  "int \<Rightarrow> oc_row list option \<Rightarrow> string \<Rightarrow> bool \<Rightarrow> ocProxyPool \<Rightarrow> oc_save list \<times> ocProxyPool" where
  "markOpencodeProxySuccessForKey now rows account probe p0 =
    (let p = update_account account (oc_success now) (ensure_account account (loadOpencodeProxyPoolForKey now rows p0)) in
     case needsPrune now p of
       (prune, p1) \<Rightarrow> (SaveSuccess account now probe # (if prune then [PruneAccounts] else []), p1))"

definition oc_cool :: "int \<Rightarrow> ocProxyAccount \<Rightarrow> ocProxyAccount" where
  "oc_cool until a =
    a\<lparr>oa_cooldownUntil := until, oa_consecutiveFailures := 0, oa_failureWindowStart := zero_time,
      oa_failureWindowCount := 0\<rparr>"

definition markOpencodeProxyCooldownForKey ::
  "int \<Rightarrow> oc_row list option \<Rightarrow> string \<Rightarrow> int \<Rightarrow> ocProxyPool \<Rightarrow> oc_save list \<times> ocProxyPool" where
  "markOpencodeProxyCooldownForKey now rows account cooldown p0 =
    (let p = update_account account (oc_cool (now + cooldown)) (ensure_account account (loadOpencodeProxyPoolForKey now rows p0)) in
     case needsPrune now p of
       (prune, p1) \<Rightarrow> (SaveCooldown account (now + cooldown) # (if prune then [PruneAccounts] else []), p1))"

text \<open>\<^verbatim>\<open>strconv.Atoi\<close>: an optional sign and decimal digits, within 64 bits.\<close>

definition Atoi :: "string \<Rightarrow> int option" where
  "Atoi s =
    (let body = (if s \<noteq> [] \<and> hd s \<in> {CHR ''-'', CHR ''+''} then tl s else s);
         n = int (digits_val body);
         v = (if s \<noteq> [] \<and> hd s = CHR ''-'' then - n else n)
     in if body = [] \<or> \<not> list_all is_digit body \<or> v < - (2 ^ 63) \<or> 2 ^ 63 \<le> v then None else Some v)"

text \<open>
  \<^verbatim>\<open>opencodeRejectCooldown\<close>. \<^verbatim>\<open>time.Duration(seconds) * time.Second\<close> is a product of two 64-bit integers and
  wraps. \<^verbatim>\<open>Truncate(24 * time.Hour)\<close> rounds down to midnight UTC.
\<close>

definition mul64 :: "int \<Rightarrow> int \<Rightarrow> int" where
  "mul64 a b = sint (word_of_int a * word_of_int b :: 64 word)"

definition utc_midnight_cooldown :: "int \<Rightarrow> int" where
  "utc_midnight_cooldown now =
    (let day = 24 * 3600 * oc_second; cooldown = (now - now mod day + day) - now in
     if 0 < cooldown \<and> cooldown < ocProxyRejectedCooldown then cooldown else ocProxyRejectedCooldown)"

definition opencodeRejectCooldown :: "string \<Rightarrow> int \<Rightarrow> int" where
  "opencodeRejectCooldown retryAfter now =
    (case Atoi (TrimSpace retryAfter) of
       Some seconds \<Rightarrow>
         if 0 < seconds
         then (if mul64 seconds oc_second < ocProxyRejectedCooldown then mul64 seconds oc_second else ocProxyRejectedCooldown)
         else utc_midnight_cooldown now
     | None \<Rightarrow> utc_midnight_cooldown now)"

definition count_failure :: "int \<Rightarrow> ocProxyAccount \<Rightarrow> ocProxyAccount" where
  "count_failure now a =
    (if now < oa_cooldownUntil a then a
     else
       let a1 = a\<lparr>oa_consecutiveFailures := oa_consecutiveFailures a + 1\<rparr> in
       if oa_failureWindowStart a1 = zero_time \<or> ocProxyFailureWindow < now - oa_failureWindowStart a1
       then a1\<lparr>oa_failureWindowStart := now, oa_failureWindowCount := 1\<rparr>
       else a1\<lparr>oa_failureWindowCount := oa_failureWindowCount a1 + 1\<rparr>)"

text \<open>The locked part of \<^verbatim>\<open>markOpencodeProxyRealFailureForKey\<close>: the cooldown, 0 for none, and the new state.\<close>

definition real_failure :: "int \<Rightarrow> ocProxyAccount \<Rightarrow> int \<times> ocProxyAccount" where
  "real_failure now a =
    (let a1 = count_failure now a in
     if \<not> now < oa_cooldownUntil a \<and> ocProxyFailureWindowLimit \<le> oa_failureWindowCount a1
     then (opencodeRejectCooldown [] now, oc_cool (now + opencodeRejectCooldown [] now) a1)
     else (0, a1))"

definition markOpencodeProxyRealFailureForKey ::
  "int \<Rightarrow> int \<Rightarrow> oc_row list option \<Rightarrow> string \<Rightarrow> ocProxyPool \<Rightarrow> oc_save list \<times> ocProxyPool" where
  "markOpencodeProxyRealFailureForKey now later rows account p0 =
    (let p = ensure_account account (loadOpencodeProxyPoolForKey now rows p0);
         cooldown = fst (real_failure now (oc_state_for account p));
         p1 = update_account account (\<lambda>a. snd (real_failure now a)) p
     in if 0 < cooldown
        then (case markOpencodeProxyCooldownForKey later rows account cooldown p1 of
                (saves, p2) \<Rightarrow> (SaveFailure account # saves, p2))
        else ([SaveFailure account], p1))"

definition banOpencodeProxyAccountForKey ::
  "int \<Rightarrow> oc_row list option \<Rightarrow> string \<Rightarrow> string \<Rightarrow> ocProxyPool \<Rightarrow> ocProxyPool" where
  "banOpencodeProxyAccountForKey now rows session account p0 =
    (let p = loadOpencodeProxyPoolForKey now rows p0;
         p1 = p\<lparr>op_sessionBanned := mput session (mput account now (banned_of p session)) (op_sessionBanned p)\<rparr>
     in case map_of (op_sessionBound p1) session of
          None \<Rightarrow> p1
        | Some binding \<Rightarrow>
            if sb_account binding = account then p1\<lparr>op_sessionBound := mdel session (op_sessionBound p1)\<rparr> else p1)"

definition recordRateLimitedLocked :: "string \<Rightarrow> int \<Rightarrow> ocProxyPool \<Rightarrow> bool \<times> ocProxyPool" where
  "recordRateLimitedLocked session now p0 =
    (let p = oc_prune now p0;
         p1 = p\<lparr>op_rateLimited := mput session now (op_rateLimited p)\<rparr>
     in if length (op_rateLimited p1) < ocProxy429Quorum then (False, p1)
        else (True, p1\<lparr>op_rateLimited := []\<rparr>))"

definition markOpencodeProxyRejectedForKey ::
  "int \<Rightarrow> oc_row list option \<Rightarrow> string \<Rightarrow> string \<Rightarrow> ocProxyPool \<Rightarrow> oc_save list \<times> ocProxyPool" where
  "markOpencodeProxyRejectedForKey now rows account retryAfter p =
    markOpencodeProxyCooldownForKey now rows account (opencodeRejectCooldown retryAfter now) p"

definition markOpencodeProxyRateLimitedForKey ::
  "int \<Rightarrow> oc_row list option \<Rightarrow> string \<Rightarrow> string \<Rightarrow> string \<Rightarrow> ocProxyPool \<Rightarrow> oc_save list \<times> ocProxyPool" where
  "markOpencodeProxyRateLimitedForKey now rows account session retryAfter p0 =
    (if session = []
     then markOpencodeProxyCooldownForKey now rows account (opencodeRejectCooldown retryAfter now) p0
     else case recordRateLimitedLocked session now (loadOpencodeProxyPoolForKey now rows p0) of
       (quorum, p) \<Rightarrow>
         if quorum then markOpencodeProxyCooldownForKey now rows account (opencodeRejectCooldown retryAfter now) p
         else ([], p))"

text \<open>What the requests and probes of a channel do to a pool.\<close>

datatype oc_event =
    OcPick string int "oc_row list option" string string
  | OcRelease string string
  | OcSuccess int "oc_row list option" string bool
  | OcFailure int int "oc_row list option" string
  | OcBan int "oc_row list option" string string
  | OcRejected int "oc_row list option" string string
  | OcLimited int "oc_row list option" string string string

fun oc_event_step :: "oc_event \<Rightarrow> ocProxyPool \<Rightarrow> ocProxyPool" where
  "oc_event_step (OcPick fresh now rows keyID session) p = snd (pickOpencodeProxyAccountForKey fresh now rows keyID session p)"
| "oc_event_step (OcRelease account session) p = releaseOpencodeProxyAccountForKey account session p"
| "oc_event_step (OcSuccess now rows account probe) p = snd (markOpencodeProxySuccessForKey now rows account probe p)"
| "oc_event_step (OcFailure now later rows account) p = snd (markOpencodeProxyRealFailureForKey now later rows account p)"
| "oc_event_step (OcBan now rows session account) p = banOpencodeProxyAccountForKey now rows session account p"
| "oc_event_step (OcRejected now rows account retryAfter) p = snd (markOpencodeProxyRejectedForKey now rows account retryAfter p)"
| "oc_event_step (OcLimited now rows account session retryAfter) p =
    snd (markOpencodeProxyRateLimitedForKey now rows account session retryAfter p)"

definition oc_run :: "oc_event list \<Rightarrow> ocProxyPool \<Rightarrow> ocProxyPool" where
  "oc_run evs p = fold oc_event_step evs p"

subsection \<open>The invariant of a pool\<close>

definition account_ok :: "string \<Rightarrow> ocProxyAccount \<Rightarrow> bool" where
  "account_ok k a \<longleftrightarrow>
    oa_account a = k \<and> 0 \<le> oa_active a \<and> oa_active a \<le> ocProxyPerAccountLimit \<and>
    length (oa_sessions a) \<le> ocProxyPerAccountSessions \<and> (\<forall>(s, n) \<in> set (oa_sessions a). 0 < n)"

definition oc_inv :: "ocProxyPool \<Rightarrow> bool" where
  "oc_inv p \<longleftrightarrow>
    mwf (op_accounts p) \<and> (\<forall>(k, a) \<in> set (op_accounts p). account_ok k a) \<and>
    length (op_rateLimited p) < ocProxy429Quorum"

lemma oc_inv_account: "oc_inv p \<Longrightarrow> map_of (op_accounts p) k = Some a \<Longrightarrow> account_ok k a"
  by (auto simp: oc_inv_def dest!: map_of_SomeD)

lemma oc_inv_entry: "oc_inv p \<Longrightarrow> (k, a) \<in> set (op_accounts p) \<Longrightarrow> account_ok k a"
  by (auto simp: oc_inv_def)

lemma oc_inv_frame:
  "oc_inv p \<Longrightarrow> op_accounts p' = op_accounts p \<Longrightarrow> length (op_rateLimited p') \<le> length (op_rateLimited p) \<Longrightarrow> oc_inv p'"
  by (simp add: oc_inv_def)

lemma oc_inv_put:
  assumes "oc_inv p" and "account_ok k a"
  shows "oc_inv (p\<lparr>op_accounts := mput k a (op_accounts p)\<rparr>)"
  using assms set_mput_subset [of k a "op_accounts p"] by (auto simp: oc_inv_def)

lemma new_account_ok: "account_ok k (new_account k)"
  by (simp add: account_ok_def new_account_def ocProxyPerAccountLimit_def)

lemma oc_state_ok: "oc_inv p \<Longrightarrow> account_ok k (oc_state_for k p)"
  by (auto simp: oc_state_for_def new_account_ok oc_inv_account split: option.splits)

lemma oc_inv_update:
  assumes "oc_inv p" and "\<And>a. account_ok k a \<Longrightarrow> account_ok k (f a)"
  shows "oc_inv (update_account k f p)"
  using assms oc_inv_put [of p k "f (oc_state_for k p)"] oc_state_ok [OF assms(1), of k]
  by (simp add: update_account_def)

lemma oc_inv_new: "oc_inv newOpencodeProxyPool"
  by (simp add: oc_inv_def newOpencodeProxyPool_def ocProxy429Quorum_def)

lemma oc_inv_load:
  assumes "oc_inv p"
  shows "oc_inv (loadOpencodeProxyPoolForKey now rows p)"
proof -
  have row: "account_ok (ow_Account row) (account_of_row now row)" for row
    by (simp add: account_of_row_def Let_def account_ok_def new_account_def ocProxyPerAccountLimit_def)
  have "mwf m \<Longrightarrow> (\<forall>(k, a) \<in> set m. account_ok k a) \<Longrightarrow>
      mwf (fold (\<lambda>row m. mput (ow_Account row) (account_of_row now row) m) rs m) \<and>
      (\<forall>(k, a) \<in> set (fold (\<lambda>row m. mput (ow_Account row) (account_of_row now row) m) rs m). account_ok k a)" for rs m
  proof (induction rs arbitrary: m)
    case (Cons row rs)
    have "\<forall>(k, a) \<in> set (mput (ow_Account row) (account_of_row now row) m). account_ok k a"
      using Cons.prems(2) row set_mput_subset [of "ow_Account row" "account_of_row now row" m] by auto
    from Cons.IH [OF mwf_mput [OF Cons.prems(1)] this] show ?case by simp
  qed simp
  from this [of "op_accounts p"] show ?thesis
    using assms by (simp add: loadOpencodeProxyPoolForKey_def oc_inv_def split: option.splits)
qed

lemma oc_prune_fields [simp]: "op_accounts (oc_prune now p) = op_accounts p" "op_loaded (oc_prune now p) = op_loaded p"
  by (simp_all add: oc_prune_def)

lemma oc_inv_prune: "oc_inv p \<Longrightarrow> oc_inv (oc_prune now p)"
  using length_mkeep_le [of "\<lambda>_ t. \<not> ocProxy429VoteWindow \<le> now - t" "op_rateLimited p"]
  by (simp add: oc_prune_def oc_inv_def)

lemma oc_inv_trim: "oc_inv p \<Longrightarrow> oc_inv (oc_trim n keep p)"
proof (induction n keep p rule: oc_trim.induct)
  case (2 n keep p)
  have "oc_inv (p\<lparr>op_accounts := mdel k (op_accounts p), op_sessionBound := m\<rparr>)" for k m
    using 2(2) set_mdel_subset [of k "op_accounts p"] by (auto simp: oc_inv_def)
  with 2 show ?case by (auto split: option.splits)
qed simp

lemma oldest_None:
  "oldest_account keep p = None \<longleftrightarrow> (\<forall>(k, a) \<in> set (op_accounts p). oa_account a = keep)"
proof -
  have "oldest_from keep xs acc = None \<longleftrightarrow> acc = None \<and> (\<forall>(k, a) \<in> set xs. oa_account a = keep)" for xs acc
    by (induction keep xs acc rule: oldest_from.induct)
      (auto simp del: not_None_eq not_Some_eq split: option.splits)
  then show ?thesis by (simp add: oldest_account_def)
qed

lemma oldest_Some:
  assumes "oldest_account keep p = Some a"
  shows "oa_account a \<noteq> keep \<and> (\<exists>k. (k, a) \<in> set (op_accounts p))"
proof -
  have "oldest_from keep xs acc = Some a \<Longrightarrow> acc = Some a \<or> oa_account a \<noteq> keep \<and> (\<exists>k. (k, a) \<in> set xs)" for xs acc
  proof (induction keep xs acc rule: oldest_from.induct)
    case (2 keep k state rest oldest)
    then show ?case by (cases "oa_account state = keep"; cases oldest) (auto split: if_splits)
  qed simp
  then show ?thesis using assms by (auto simp: oldest_account_def)
qed

lemma oc_trim_bound:
  "oc_inv p \<Longrightarrow> int (length (op_accounts p)) \<le> ocProxyMaxAccounts + int n \<Longrightarrow>
    int (length (op_accounts (oc_trim n keep p))) \<le> ocProxyMaxAccounts"
proof (induction n keep p rule: oc_trim.induct)
  case (2 n keep p)
  show ?case
  proof (cases "ocProxyMaxAccounts < int (length (op_accounts p))")
    case False
    then show ?thesis by simp
  next
    case over: True
    obtain oldest where oldest: "oldest_account keep p = Some oldest"
    proof (cases "oldest_account keep p")
      case None
      then have "\<forall>(k, a) \<in> set (op_accounts p). k = keep"
        using 2(2) unfolding oldest_None by (auto simp: oc_inv_def account_ok_def)
      then have "fst ` set (op_accounts p) \<subseteq> {keep}" by auto
      then have "card (fst ` set (op_accounts p)) \<le> card {keep}" by (intro card_mono) simp_all
      moreover have "card (fst ` set (op_accounts p)) = length (op_accounts p)"
        using 2(2) mwf_card_keys by (auto simp: oc_inv_def)
      ultimately show thesis using over by (simp add: ocProxyMaxAccounts_def)
    qed blast
    let ?p = "p\<lparr>op_accounts := mdel (oa_account oldest) (op_accounts p),
       op_sessionBound := mkeep (\<lambda>_ binding. sb_account binding \<noteq> oa_account oldest) (op_sessionBound p)\<rparr>"
    have inv: "oc_inv ?p"
      using 2(2) set_mdel_subset [of "oa_account oldest" "op_accounts p"] by (auto simp: oc_inv_def)
    obtain k where "(k, oldest) \<in> set (op_accounts p)" using oldest_Some [OF oldest] by blast
    moreover from oc_inv_entry [OF 2(2) this] have "k = oa_account oldest" by (simp add: account_ok_def)
    ultimately have "mhas (op_accounts p) (oa_account oldest)" unfolding mhas_keys by force
    with 2(2) have "Suc (length (op_accounts ?p)) = length (op_accounts p)"
      by (simp add: oc_inv_def length_mdel_wf)
    with 2(3) have len: "int (length (op_accounts ?p)) \<le> ocProxyMaxAccounts + int n" by simp
    have "int (length (op_accounts (oc_trim n keep ?p))) \<le> ocProxyMaxAccounts"
      using over len by (intro 2(1) [OF _ oldest inv]) simp_all
    moreover have "oc_trim (Suc n) keep p = oc_trim n keep ?p" using over oldest by simp
    ultimately show ?thesis by metis
  qed
qed simp

lemma oc_trim_keeps:
  "map_of (op_accounts (oc_trim n keep p)) keep = map_of (op_accounts p) keep"
proof (induction n keep p rule: oc_trim.induct)
  case (2 n keep p)
  then show ?case using oldest_Some [of keep p] by (auto split: option.splits)
qed simp

subsection \<open>The choice of an account\<close>

lemma better_trans: "ocProxyCandidateBetter a b \<Longrightarrow> ocProxyCandidateBetter b c \<Longrightarrow> ocProxyCandidateBetter a c"
  by (auto simp: ocProxyCandidateBetter_def split: if_splits)

lemma better_asym: "ocProxyCandidateBetter a b \<Longrightarrow> \<not> ocProxyCandidateBetter b a"
  by (auto simp: ocProxyCandidateBetter_def split: if_splits)

lemma best_account_None: "best_account ok cs picked = None \<longleftrightarrow> picked = None \<and> (\<forall>c \<in> set cs. \<not> ok c)"
  by (induction ok cs picked rule: best_account.induct)
    (auto simp del: not_None_eq not_Some_eq split: option.splits)

lemma best_account_Some:
  assumes "best_account ok cs picked = Some a" and "\<And>b. picked = Some b \<Longrightarrow> \<forall>x \<in> seen. \<not> ocProxyCandidateBetter x b"
    and "picked = None \<Longrightarrow> seen = {}"
  shows "(picked = Some a \<or> a \<in> set cs \<and> ok a) \<and>
    (\<forall>x \<in> seen \<union> {c \<in> set cs. ok c}. \<not> ocProxyCandidateBetter x a)"
  using assms
proof (induction ok cs picked arbitrary: seen rule: best_account.induct)
  case (2 ok c cs picked)
  show ?case
  proof (cases "ok c")
    case False
    then have "{x \<in> set (c # cs). ok x} = {x \<in> set cs. ok x}" by auto
    with 2(1) [OF False, of seen] 2(4-6) False show ?thesis by auto
  next
    case True
    have ok_set: "{x \<in> set (c # cs). ok x} = insert c {x \<in> set cs. ok x}" using True by auto
    show ?thesis
    proof (cases picked)
      case None
      have "\<not> ocProxyCandidateBetter c c" using better_asym by blast
      with 2(2) [of "{c}"] 2(4-6) True None show ?thesis unfolding ok_set by auto
    next
      case (Some b)
      let ?p = "if ocProxyCandidateBetter c b then Some c else picked"
      have old: "\<not> ocProxyCandidateBetter x b" if "x \<in> seen" for x using 2(5) [OF Some] that by blast
      have seen: "\<forall>x \<in> insert c (insert b seen). \<not> ocProxyCandidateBetter x y" if "?p = Some y" for y
      proof (cases "ocProxyCandidateBetter c b")
        case True
        with that have "y = c" by simp
        with True old better_asym better_trans show ?thesis by blast
      next
        case False
        with that Some have "y = b" by simp
        with False old better_asym show ?thesis by blast
      qed
      have rest: "best_account ok cs ?p = Some a"
        using 2(4) True Some by (cases "ocProxyCandidateBetter c b") simp_all
      have "(?p = Some a \<or> a \<in> set cs \<and> ok a) \<and>
          (\<forall>x \<in> insert c (insert b seen) \<union> {c \<in> set cs. ok c}. \<not> ocProxyCandidateBetter x a)"
      proof (rule 2(3))
        show "\<not> \<not> ok c" using True by simp
        show "picked = Some b" by (rule Some)
        show "best_account ok cs ?p = Some a" by (rule rest)
        show "\<forall>x \<in> insert c (insert b seen). \<not> ocProxyCandidateBetter x y" if "?p = Some y" for y
          using that by (rule seen)
        show "insert c (insert b seen) = {}" if "?p = None" using that Some by (simp split: if_splits)
      qed
      moreover have "?p = Some a \<longrightarrow> a = c \<or> picked = Some a" by auto
      ultimately show ?thesis unfolding ok_set using True by auto
    qed
  qed
qed auto

lemma bound_account_Some:
  assumes "bound_account now session p = Some a"
  shows "session \<noteq> [] \<and> map_of (op_accounts p) (bound_name session p) = Some a \<and>
    \<not> mhas (banned_of p session) (bound_name session p) \<and> ocProxyUsable a now \<and> ocProxySessionAvailable a session"
  using assms by (auto simp: bound_account_def bound_name_def split: if_splits option.splits)

lemma bind_oc_fields [simp]:
  "op_accounts (bind_oc session k now p) = op_accounts p" "op_rateLimited (bind_oc session k now p) = op_rateLimited p"
  "op_sessionBanned (bind_oc session k now p) = op_sessionBanned p"
  by (simp_all add: bind_oc_def)

text \<open>What \<open>oc_pickLocked\<close> returns: the bound account, the best candidate, or a new account.\<close>

lemma oc_pick_cases:
  assumes "oc_pickLocked fresh now session p0 = (a, q)" and inv: "oc_inv p0"
  obtains (bound) "session \<noteq> []" "oa_account a = bound_name session (oc_prune now p0)"
      "map_of (op_accounts p0) (oa_account a) = Some a" "op_accounts q = op_accounts p0"
      "\<not> mhas (banned_of (oc_prune now p0) session) (oa_account a)"
      "ocProxyUsable a now" "ocProxySessionAvailable a session" "bound_account now session (oc_prune now p0) = Some a"
  | (candidate) "map_of (op_accounts p0) (oa_account a) = Some a" "op_accounts q = op_accounts p0"
      "bound_account now session (oc_prune now p0) = None"
      "oc_candidate now session (oc_prune now p0) a"
      "\<forall>(k, c) \<in> set (op_accounts p0). oc_candidate now session (oc_prune now p0) c \<longrightarrow> \<not> ocProxyCandidateBetter c a"
  | (created) "a = new_account fresh" "bound_account now session (oc_prune now p0) = None"
      "\<forall>(k, c) \<in> set (op_accounts p0). \<not> oc_candidate now session (oc_prune now p0) c"
      "op_accounts q = op_accounts (trimLocked fresh ((oc_prune now p0)\<lparr>op_accounts := mput fresh a (op_accounts p0)\<rparr>))"
proof -
  let ?p = "oc_prune now p0"
  let ?best = "best_account (oc_candidate now session ?p) (map snd (op_accounts p0)) None"
  show thesis
  proof (cases "bound_account now session ?p")
    case (Some b)
    note b = bound_account_Some [OF Some]
    from b inv have "oa_account b = bound_name session ?p" using oc_inv_account [OF inv] by (simp add: account_ok_def)
    with b Some assms(1) show thesis by (intro bound) (auto simp: oc_pickLocked_def Let_def)
  next
    case None
    note unbound = None
    show thesis
    proof (cases ?best)
      case (Some b)
      from best_account_Some [OF this, of "{}"]
      have b: "b \<in> snd ` set (op_accounts p0)" "oc_candidate now session ?p b"
        "\<forall>c \<in> snd ` set (op_accounts p0). oc_candidate now session ?p c \<longrightarrow> \<not> ocProxyCandidateBetter c b" by auto
      from b(1) obtain k where k: "(k, b) \<in> set (op_accounts p0)" by auto
      with oc_inv_entry [OF inv k] have "(oa_account b, b) \<in> set (op_accounts p0)" by (simp add: account_ok_def)
      then have "map_of (op_accounts p0) (oa_account b) = Some b"
        using inv by (simp add: oc_inv_def mwf_def)
      with b unbound Some assms(1) show thesis by (intro candidate) (auto simp: oc_pickLocked_def Let_def)
    next
      case None
      then have "\<forall>(k, c) \<in> set (op_accounts p0). \<not> oc_candidate now session ?p c" unfolding best_account_None by auto
      with None unbound assms(1) show thesis by (intro created) (auto simp: oc_pickLocked_def Let_def)
    qed
  qed
qed

subsection \<open>Every operation keeps the invariant\<close>

lemma trimLocked_inv: "oc_inv p \<Longrightarrow> oc_inv (trimLocked keep p)"
  by (simp add: trimLocked_def oc_inv_trim)

lemma trimLocked_bound: "oc_inv p \<Longrightarrow> int (length (op_accounts (trimLocked keep p))) \<le> ocProxyMaxAccounts"
  unfolding trimLocked_def by (rule oc_trim_bound) (simp_all add: ocProxyMaxAccounts_def)

lemma trimLocked_keeps: "map_of (op_accounts (trimLocked keep p)) keep = map_of (op_accounts p) keep"
  by (simp add: trimLocked_def oc_trim_keeps)

lemma oc_inv_ensure: "oc_inv p \<Longrightarrow> oc_inv (ensure_account k p)"
  by (simp add: ensure_account_def trimLocked_inv oc_inv_put new_account_ok)

lemma oc_inv_needsPrune: "oc_inv p \<Longrightarrow> oc_inv (snd (needsPrune now p))"
  by (simp add: needsPrune_def oc_inv_def)

lemma account_ok_occupy:
  assumes "account_ok k a" and "ocProxyUsable a now" and "ocProxySessionAvailable a session"
  shows "account_ok k (occupy session a)"
proof -
  have active: "oa_active a < ocProxyPerAccountLimit" using assms(2) by (auto simp: ocProxyUsable_def split: if_splits)
  show ?thesis
  proof (cases "session = []")
    case True
    with assms(1) active show ?thesis by (simp add: occupy_def account_ok_def)
  next
    case False
    have has: "mhas (oa_sessions a) session \<or> length (oa_sessions a) < ocProxyPerAccountSessions"
      using assms(3) False mget0_pos_has by (auto simp: ocProxySessionAvailable_def split: if_splits)
    have "0 \<le> mget0 (oa_sessions a) session"
      using assms(1) mget0_not_has [of "oa_sessions a" session] mget0_in_set [of "oa_sessions a" session]
      by (cases "mhas (oa_sessions a) session") (auto simp: account_ok_def)
    then have "\<forall>(s, n) \<in> set (mput session (mget0 (oa_sessions a) session + 1) (oa_sessions a)). 0 < n"
      using assms(1) set_mput_subset [of session "mget0 (oa_sessions a) session + 1" "oa_sessions a"]
      by (fastforce simp: account_ok_def)
    moreover have "length (mput session n (oa_sessions a)) \<le> ocProxyPerAccountSessions" for n
      using has assms(1) by (auto simp: length_mput account_ok_def)
    ultimately show ?thesis using False assms(1) active by (simp add: occupy_def account_ok_def)
  qed
qed

lemma new_account_usable: "zero_time \<le> now \<Longrightarrow> ocProxyUsable (new_account k) now"
  by (simp add: ocProxyUsable_def new_account_def ocProxyPerAccountLimit_def)

lemma new_account_available: "ocProxySessionAvailable (new_account k) session"
  by (simp add: ocProxySessionAvailable_def new_account_def ocProxyPerAccountSessions_def)

lemma account_ok_occupy_new: "account_ok k (occupy session (new_account k))"
  by (simp add: account_ok_def occupy_def Let_def new_account_def ocProxyPerAccountLimit_def ocProxyPerAccountSessions_def)

lemma pickLocked_rateLimited:
  "length (op_rateLimited (snd (oc_pickLocked fresh now session p))) \<le> length (op_rateLimited p)"
proof -
  have trim: "op_rateLimited (oc_trim n keep q) = op_rateLimited q" for n keep q
    by (induction n keep q rule: oc_trim.induct) (simp_all split: option.splits)
  have "length (op_rateLimited (oc_prune now p)) \<le> length (op_rateLimited p)"
    by (simp add: oc_prune_def length_mkeep_le del: not_le)
  then show ?thesis
    by (simp add: oc_pickLocked_def Let_def trimLocked_def trim split: option.splits)
qed

lemma oc_inv_pickLocked:
  assumes inv: "oc_inv p" and pick: "oc_pickLocked fresh now session p = (a, q)"
  shows "oc_inv q" and "account_ok (oa_account a) (occupy session a)"
proof -
  have rate: "length (op_rateLimited q) < ocProxy429Quorum"
    using pickLocked_rateLimited [of fresh now session p] pick inv by (simp add: oc_inv_def)
  from pick inv show "oc_inv q"
  proof (cases rule: oc_pick_cases)
    case created
    have "oc_inv (trimLocked fresh ((oc_prune now p)\<lparr>op_accounts := mput fresh a (op_accounts p)\<rparr>))"
      using oc_inv_put [OF oc_inv_prune [OF inv, of now] new_account_ok [of fresh]] created(1) by (simp add: trimLocked_inv)
    with created(4) rate show ?thesis by (simp add: oc_inv_def)
  qed (use inv rate in \<open>simp_all add: oc_inv_def\<close>)
  from pick inv show "account_ok (oa_account a) (occupy session a)"
  proof (cases rule: oc_pick_cases)
    case bound
    then show ?thesis using account_ok_occupy oc_inv_account [OF inv] by blast
  next
    case candidate
    then show ?thesis using account_ok_occupy oc_inv_account [OF inv] by (auto simp: oc_candidate_def)
  next
    case created
    then show ?thesis using account_ok_occupy_new [of fresh session] by (simp add: new_account_def)
  qed
qed

lemma oc_inv_pickFixed:
  assumes inv: "oc_inv p" and pick: "pickFixedLocked now session k p = (r, q)"
  shows "oc_inv q" and "r = Some a \<Longrightarrow> oa_account a = k \<and> account_ok k (occupy session a)"
proof -
  let ?p = "oc_prune now p"
  let ?p1 = "if mhas (op_accounts ?p) k then ?p else ?p\<lparr>op_accounts := mput k (oc_state_for k ?p) (op_accounts ?p)\<rparr>"
  have ok: "account_ok k (oc_state_for k ?p)" by (rule oc_state_ok [OF oc_inv_prune [OF inv]])
  have p1: "oc_inv ?p1" using oc_inv_prune [OF inv] oc_inv_put [OF oc_inv_prune [OF inv] ok] by simp
  have bind: "oc_inv (bind_oc session k now ?p1)" using p1 by (rule oc_inv_frame) simp_all
  from pick p1 bind show "oc_inv q" by (auto simp: pickFixedLocked_def Let_def split: if_splits)
  show "r = Some a \<Longrightarrow> oa_account a = k \<and> account_ok k (occupy session a)"
    using pick ok account_ok_occupy [OF ok] by (auto simp: pickFixedLocked_def Let_def account_ok_def split: if_splits)
qed

lemma oc_inv_pick:
  assumes "oc_inv p"
  shows "oc_inv (snd (pickOpencodeProxyAccountForKey fresh now rows keyID session p))"
proof -
  let ?p = "loadOpencodeProxyPoolForKey now rows p"
  have inv: "oc_inv ?p" using assms by (rule oc_inv_load)
  show ?thesis
  proof (cases "keyID = []")
    case True
    obtain a q where pick: "oc_pickLocked fresh now session ?p = (a, q)" by (rule prod.exhaust)
    from oc_inv_put [OF oc_inv_pickLocked [OF inv pick]] show ?thesis
      using True pick by (simp add: pickOpencodeProxyAccountForKey_def)
  next
    case False
    obtain r q where pick: "pickFixedLocked now session keyID ?p = (r, q)" by (rule prod.exhaust)
    note facts = oc_inv_pickFixed [OF inv pick]
    show ?thesis
    proof (cases r)
      case None
      with False pick facts(1) show ?thesis by (simp add: pickOpencodeProxyAccountForKey_def)
    next
      case (Some a)
      with False pick oc_inv_put [OF facts(1)] facts(2) [OF Some] show ?thesis
        by (simp add: pickOpencodeProxyAccountForKey_def)
    qed
  qed
qed

lemma account_ok_sessions:
  "account_ok k a \<Longrightarrow> length m \<le> length (oa_sessions a) \<Longrightarrow> \<forall>(s, n) \<in> set m. 0 < n \<Longrightarrow>
    account_ok k (a\<lparr>oa_sessions := m\<rparr>)"
  by (simp add: account_ok_def)

lemma oc_inv_release:
  assumes "oc_inv p"
  shows "oc_inv (releaseOpencodeProxyAccountForKey k session p)"
proof (cases "map_of (op_accounts p) k")
  case None
  with assms show ?thesis by (simp add: releaseOpencodeProxyAccountForKey_def)
next
  case (Some a)
  define s1 where "s1 = (if 0 < oa_active a then a\<lparr>oa_active := oa_active a - 1\<rparr> else a)"
  have ok: "account_ok k s1" using oc_inv_account [OF assms Some] by (auto simp: account_ok_def s1_def)
  then have pos: "\<forall>(s, n) \<in> set (oa_sessions s1). 0 < n" by (simp add: account_ok_def)
  have del: "account_ok k (s1\<lparr>oa_sessions := mdel session (oa_sessions s1)\<rparr>)"
    using pos set_mdel_subset [of session "oa_sessions s1"]
    by (intro account_ok_sessions [OF ok] length_mdel_le) blast
  have dec: "account_ok k (s1\<lparr>oa_sessions := mput session (mget0 (oa_sessions s1) session - 1) (oa_sessions s1)\<rparr>)"
    if "1 < mget0 (oa_sessions s1) session"
  proof (rule account_ok_sessions [OF ok])
    have "mhas (oa_sessions s1) session" using that by (intro mget0_pos_has) simp
    then show "length (mput session (mget0 (oa_sessions s1) session - 1) (oa_sessions s1)) \<le> length (oa_sessions s1)"
      by (simp add: length_mput)
    show "\<forall>(s, n) \<in> set (mput session (mget0 (oa_sessions s1) session - 1) (oa_sessions s1)). 0 < n"
      using pos that set_mput_subset [of session "mget0 (oa_sessions s1) session - 1" "oa_sessions s1"] by auto
  qed
  have "releaseOpencodeProxyAccountForKey k session p = p\<lparr>op_accounts := mput k
      (if session = [] then s1
       else if 1 < mget0 (oa_sessions s1) session
       then s1\<lparr>oa_sessions := mput session (mget0 (oa_sessions s1) session - 1) (oa_sessions s1)\<rparr>
       else s1\<lparr>oa_sessions := mdel session (oa_sessions s1)\<rparr>) (op_accounts p)\<rparr>"
    unfolding releaseOpencodeProxyAccountForKey_def Some option.case Let_def s1_def ..
  with ok del dec show ?thesis by (auto intro!: oc_inv_put [OF assms])
qed

lemma oc_inv_cooldown: "oc_inv p \<Longrightarrow> oc_inv (snd (markOpencodeProxyCooldownForKey now rows k c p))"
proof -
  assume "oc_inv p"
  then have "oc_inv (update_account k (oc_cool (now + c)) (ensure_account k (loadOpencodeProxyPoolForKey now rows p)))"
    by (intro oc_inv_update oc_inv_ensure oc_inv_load) (simp_all add: oc_cool_def account_ok_def)
  from oc_inv_needsPrune [OF this, of now] show ?thesis
    by (simp add: markOpencodeProxyCooldownForKey_def Let_def case_prod_unfold)
qed

lemma oc_inv_success: "oc_inv p \<Longrightarrow> oc_inv (snd (markOpencodeProxySuccessForKey now rows k probe p))"
proof -
  assume "oc_inv p"
  then have "oc_inv (update_account k (oc_success now) (ensure_account k (loadOpencodeProxyPoolForKey now rows p)))"
    by (intro oc_inv_update oc_inv_ensure oc_inv_load) (simp_all add: oc_success_def account_ok_def)
  from oc_inv_needsPrune [OF this, of now] show ?thesis
    by (simp add: markOpencodeProxySuccessForKey_def Let_def case_prod_unfold)
qed

lemma real_failure_ok: "account_ok k a \<Longrightarrow> account_ok k (snd (real_failure now a))"
  by (simp add: real_failure_def count_failure_def oc_cool_def account_ok_def Let_def)

lemma oc_inv_failure: "oc_inv p \<Longrightarrow> oc_inv (snd (markOpencodeProxyRealFailureForKey now later rows k p))"
proof -
  assume inv: "oc_inv p"
  let ?p = "ensure_account k (loadOpencodeProxyPoolForKey now rows p)"
  have "oc_inv (update_account k (\<lambda>a. snd (real_failure now a)) ?p)"
    using inv by (intro oc_inv_update oc_inv_ensure oc_inv_load real_failure_ok)
  with oc_inv_cooldown [OF this, of later rows k "fst (real_failure now (oc_state_for k ?p))"] show ?thesis
    by (simp add: markOpencodeProxyRealFailureForKey_def Let_def case_prod_unfold)
qed

lemma oc_inv_record:
  "oc_inv p \<Longrightarrow> recordRateLimitedLocked session now p = (b, q) \<Longrightarrow> oc_inv q"
  using oc_inv_prune [of p now] by (auto simp: recordRateLimitedLocked_def Let_def oc_inv_def ocProxy429Quorum_def split: if_splits)

lemma oc_inv_event: "oc_inv p \<Longrightarrow> oc_inv (oc_event_step ev p)"
proof (cases ev)
  case (OcBan now rows session account)
  assume "oc_inv p"
  then have "oc_inv (loadOpencodeProxyPoolForKey now rows p)" by (rule oc_inv_load)
  with OcBan show ?thesis
    by (auto simp: banOpencodeProxyAccountForKey_def Let_def oc_inv_def split: option.splits)
next
  case (OcLimited now rows account session retryAfter)
  assume inv: "oc_inv p"
  obtain b q where r: "recordRateLimitedLocked session now (loadOpencodeProxyPoolForKey now rows p) = (b, q)"
    by (rule prod.exhaust)
  have "oc_inv q" using oc_inv_record [OF oc_inv_load [OF inv] r] .
  with OcLimited inv r show ?thesis
    by (simp add: markOpencodeProxyRateLimitedForKey_def oc_inv_cooldown)
qed (simp_all add: oc_inv_pick oc_inv_release oc_inv_success oc_inv_failure markOpencodeProxyRejectedForKey_def oc_inv_cooldown)

lemma oc_inv_run: "oc_inv p \<Longrightarrow> oc_inv (oc_run evs p)"
  unfolding oc_run_def by (induction evs arbitrary: p) (simp_all add: oc_inv_event)


definition demo_oc_events :: "oc_event list" where
  "demo_oc_events = [OcPick ''a1'' 5 (Some []) [] ''s'', OcPick ''a2'' 6 None [] ''t'', OcPick ''a3'' 7 None [] ''s'',
     OcLimited 8 None ''a1'' ''s'' ''30'', OcRelease ''a2'' ''t'']"


subsection \<open>What a pick promises\<close>

text \<open>
  C32. The account a session gets (\<^verbatim>\<open>pickLocked\<close>) is usable and not taken by another session. It is the account the
  session is bound to if that one may still serve it; otherwise the best account that may, by failures, then
  verification, then the latest success, never the one it leaves nor one banned for the session; and a new
  account only if there is none. The order in which Go visits the map does not matter for this.
\<close>

theorem oc_pick_best:
  assumes "p = oc_run evs newOpencodeProxyPool" and "zero_time \<le> now"
    and "oc_pickLocked fresh now session p = (a, q)"
  shows "ocProxyUsable a now \<and> ocProxySessionAvailable a session \<and>
    (case bound_account now session (oc_prune now p) of
       Some b \<Rightarrow> a = b
     | None \<Rightarrow>
         if \<exists>(k, c) \<in> set (op_accounts p). oc_candidate now session (oc_prune now p) c
         then oc_candidate now session (oc_prune now p) a \<and> map_of (op_accounts p) (oa_account a) = Some a \<and>
           (\<forall>(k, c) \<in> set (op_accounts p). oc_candidate now session (oc_prune now p) c \<longrightarrow>
              \<not> ocProxyCandidateBetter c a)
         else a = new_account fresh)"
proof -
  have inv: "oc_inv p" using assms(1) oc_inv_run [OF oc_inv_new] by simp
  from assms(3) inv show ?thesis
  proof (cases rule: oc_pick_cases)
    case candidate
    have "(oa_account a, a) \<in> set (op_accounts p)" using candidate(1) by (rule map_of_SomeD)
    with candidate show ?thesis by (auto simp: oc_candidate_def)
  next
    case created
    with assms(2) show ?thesis by (auto simp: new_account_usable new_account_available)
  qed simp
qed

lemma demo_oc_pick:
  "oc_pickLocked ''a9'' 20 ''t'' (oc_run demo_oc_events newOpencodeProxyPool) =
    (new_account ''a2'', snd (oc_pickLocked ''a9'' 20 ''t'' (oc_run demo_oc_events newOpencodeProxyPool)))"
  by code_simp

theorem oc_pick_best_witness:
  "ocProxyUsable (new_account ''a2'') 20 \<and>
   bound_account 20 ''t'' (oc_prune 20 (oc_run demo_oc_events newOpencodeProxyPool)) = Some (new_account ''a2'')"
proof -
  have bound: "bound_account 20 ''t'' (oc_prune 20 (oc_run demo_oc_events newOpencodeProxyPool)) = Some (new_account ''a2'')"
    by code_simp
  have "zero_time \<le> 20" by (simp add: zero_time_def oc_second_def)
  from oc_pick_best [OF refl this demo_oc_pick] bound show ?thesis by simp
qed

subsection \<open>Cooling down\<close>

lemma mul64_small:
  assumes "0 < s" and "s \<le> 9223372036"
  shows "mul64 s oc_second = s * oc_second"
proof -
  have "s * 1000000000 < 2 ^ 63" "- (2 ^ 63) \<le> s * 1000000000" using assms by simp_all
  then have "signed_take_bit 63 (s * 1000000000) = s * 1000000000"
    by (intro signed_take_bit_int_eq_self) simp_all
  moreover have "mul64 s oc_second = sint (word_of_int (s * 1000000000) :: 64 word)"
    by (simp add: mul64_def oc_second_def)
  moreover have "sint (word_of_int (s * 1000000000) :: 64 word) = signed_take_bit 63 (s * 1000000000)"
    by (subst sint_sbintrunc') simp
  ultimately show ?thesis by (simp add: oc_second_def)
qed

lemma midnight_cooldown_bounds:
  "0 < utc_midnight_cooldown now" "utc_midnight_cooldown now \<le> ocProxyRejectedCooldown"
  by (simp_all add: utc_midnight_cooldown_def Let_def ocProxyRejectedCooldown_def oc_second_def)

lemma midnight_cooldown_aligned: "(now + utc_midnight_cooldown now) mod (24 * 3600 * oc_second) = 0"
proof -
  let ?day = "24 * 3600 * oc_second"
  have pos: "0 < ?day" by (simp add: oc_second_def)
  have "now mod ?day < ?day" "0 \<le> now mod ?day" using pos by simp_all
  then have "utc_midnight_cooldown now = ?day - now mod ?day"
    by (auto simp: utc_midnight_cooldown_def Let_def ocProxyRejectedCooldown_def)
  then have "now + utc_midnight_cooldown now = (now - now mod ?day) + ?day" by simp
  also have "\<dots> = (now div ?day + 1) * ?day" by (simp add: minus_mod_eq_div_mult algebra_simps)
  finally show ?thesis by simp
qed

text \<open>
  A refused account cools for more than nothing and at most 24 hours: for the seconds the upstream asks for,
  capped, or else exactly until the next midnight UTC. This needs the number of seconds to fit a
  \<^verbatim>\<open>time.Duration\<close> (see the lemma after it).
\<close>

lemma reject_cooldown_bounds:
  assumes "\<And>seconds. Atoi (TrimSpace retryAfter) = Some seconds \<Longrightarrow> seconds \<le> 9223372036"
  shows "0 < opencodeRejectCooldown retryAfter now \<and> opencodeRejectCooldown retryAfter now \<le> 24 * 3600 * oc_second \<and>
    (case Atoi (TrimSpace retryAfter) of
       Some seconds \<Rightarrow> 0 < seconds \<longrightarrow>
         opencodeRejectCooldown retryAfter now = min (seconds * oc_second) (24 * 3600 * oc_second)
     | None \<Rightarrow> (now + opencodeRejectCooldown retryAfter now) mod (24 * 3600 * oc_second) = 0)"
proof (cases "Atoi (TrimSpace retryAfter)")
  case None
  then have "opencodeRejectCooldown retryAfter now = utc_midnight_cooldown now" by (simp add: opencodeRejectCooldown_def)
  with None midnight_cooldown_bounds [of now] midnight_cooldown_aligned [of now] show ?thesis
    by (simp add: ocProxyRejectedCooldown_def)
next
  case (Some seconds)
  show ?thesis
  proof (cases "0 < seconds")
    case True
    have "opencodeRejectCooldown retryAfter now = min (seconds * oc_second) (24 * 3600 * oc_second)"
      using Some True mul64_small [OF True assms [OF Some]]
      by (simp add: opencodeRejectCooldown_def ocProxyRejectedCooldown_def min_def)
    moreover have "0 < min (seconds * oc_second) (24 * 3600 * oc_second)" using True by (simp add: oc_second_def)
    ultimately show ?thesis using Some by simp
  next
    case False
    with Some have "opencodeRejectCooldown retryAfter now = utc_midnight_cooldown now" by (simp add: opencodeRejectCooldown_def)
    with Some False midnight_cooldown_bounds [of now] show ?thesis by (simp add: ocProxyRejectedCooldown_def)
  qed
qed

lemma Atoi_30: "Atoi (TrimSpace '' 30'') = Some 30"
  by code_simp

text \<open>A larger number of seconds wraps around: ten thousand million of them give no cooldown at all.\<close>

lemma reject_cooldown_wraps: "opencodeRejectCooldown ''10000000000'' now < 0"
proof -
  have "TrimSpace ''10000000000'' = ''10000000000''" by code_simp
  moreover have "Atoi ''10000000000'' = Some 10000000000"
    by (simp add: Atoi_def is_digit_def of_char_Char)
  moreover have "mul64 10000000000 oc_second = - 8446744073709551616"
  proof -
    have "mul64 10000000000 oc_second = sint (word_of_int 10000000000000000000 :: 64 word)"
      by (simp add: mul64_def oc_second_def)
    also have "\<dots> = signed_take_bit 63 10000000000000000000" by (subst sint_sbintrunc') simp
    also have "\<dots> = - 8446744073709551616" by code_simp
    finally show ?thesis .
  qed
  ultimately show ?thesis by (simp add: opencodeRejectCooldown_def ocProxyRejectedCooldown_def oc_second_def)
qed



text \<open>
  The votes are counted for the pool, not for the account: session \<open>s\<close> was limited on account \<open>a1\<close>, and the first
  report of session \<open>t\<close>, about account \<open>a2\<close>, cools \<open>a2\<close> although no other session met a limit on it.
\<close>

lemma quorum_across_accounts:
  "map_option oa_cooldownUntil (map_of (op_accounts (oc_event_step (OcLimited 50 None ''a2'' ''t'' ''30'')
     (oc_run demo_oc_events newOpencodeProxyPool))) ''a2'') = Some (50 + 30 * oc_second)"
  by code_simp

subsection \<open>Six failures\<close>

definition failures_at :: "int list \<Rightarrow> ocProxyAccount \<Rightarrow> ocProxyAccount" where
  "failures_at ts a = fold (\<lambda>t a. snd (real_failure t a)) ts a"

definition in_failure_window :: "int \<Rightarrow> ocProxyAccount \<Rightarrow> int \<Rightarrow> bool" where
  "in_failure_window t0 a t \<longleftrightarrow> t0 \<le> t \<and> t - t0 \<le> ocProxyFailureWindow \<and> oa_cooldownUntil a \<le> t"

lemma failures_counted:
  assumes "oa_failureWindowStart a = zero_time" and "zero_time < t0"
    and "list_all (in_failure_window t0 a) (t0 # ts)" and "length ts < 5"
  shows "oa_failureWindowStart (failures_at (t0 # ts) a) = t0 \<and>
    oa_failureWindowCount (failures_at (t0 # ts) a) = int (length ts) + 1 \<and>
    oa_cooldownUntil (failures_at (t0 # ts) a) = oa_cooldownUntil a"
  using assms
proof (induction ts rule: rev_induct)
  case Nil
  then show ?case
    by (simp add: failures_at_def real_failure_def count_failure_def in_failure_window_def
        ocProxyFailureWindowLimit_def Let_def)
next
  case (snoc t ts)
  let ?a = "failures_at (t0 # ts) a"
  have IH: "oa_failureWindowStart ?a = t0" "oa_failureWindowCount ?a = int (length ts) + 1"
    "oa_cooldownUntil ?a = oa_cooldownUntil a" using snoc by simp_all
  have "failures_at (t0 # ts @ [t]) a = snd (real_failure t ?a)" by (simp add: failures_at_def)
  with IH snoc.prems show ?case
    by (simp add: real_failure_def count_failure_def in_failure_window_def ocProxyFailureWindowLimit_def Let_def)
qed

text \<open>
  Of the failures of one account within 24 hours of the first, the first five leave it in use and the sixth
  cools it until the next midnight UTC and starts the count anew.
\<close>

lemma sixth_failure_cools:
  assumes "oa_failureWindowStart a = zero_time" and "zero_time < t0"
    and "list_all (in_failure_window t0 a) (t0 # ts @ [t])" and "length ts \<le> 4"
  shows "let last = real_failure t (failures_at (t0 # ts) a) in
    if length ts = 4
    then 0 < fst last \<and> oa_cooldownUntil (snd last) = t + utc_midnight_cooldown t \<and> oa_failureWindowCount (snd last) = 0
    else fst last = 0 \<and> oa_cooldownUntil (snd last) = oa_cooldownUntil a \<and>
      oa_failureWindowCount (snd last) = int (length ts) + 2"
proof -
  have none: "Atoi (TrimSpace []) = None" by code_simp
  then have cooldown: "opencodeRejectCooldown [] t = utc_midnight_cooldown t" by (simp add: opencodeRejectCooldown_def)
  have "oa_failureWindowStart (failures_at (t0 # ts) a) = t0"
    "oa_failureWindowCount (failures_at (t0 # ts) a) = int (length ts) + 1"
    "oa_cooldownUntil (failures_at (t0 # ts) a) = oa_cooldownUntil a"
    using failures_counted [OF assms(1,2), of ts] assms(3,4) by simp_all
  with assms(2-4) midnight_cooldown_bounds [of t] show ?thesis
    by (auto simp: real_failure_def count_failure_def in_failure_window_def ocProxyFailureWindowLimit_def
        oc_cool_def cooldown Let_def)
qed

end
