(* ===== verification/Shard_Cache.thy ===== *)
theory Shard_Cache
  imports Relay_Prelude
begin

unbundle bit_operations_syntax

text \<open>
  \<^verbatim>\<open>internal/utils/cache\<close>: the sharded cache the \<^verbatim>\<open>op\<close> package keeps its groups, channels and keys
  in. A generation is a list of shards, each a Go map; a key lives in the shard its hash selects. The
  hash (xxhash of the printed key) is the argument \<open>hash\<close>. Every operation locks one shard or swaps the
  generation, so each is one function.

  The locale \<open>key_value_store\<close> says what the users of the cache rely on, and the refinement at the end
  says that the shards do not show: driven by the same operations the cache and a plain map answer alike.
\<close>

subsection \<open>The number of shards\<close>

text \<open>The rounding loop of \<^verbatim>\<open>New\<close>; \<open>n\<close> bounds the number of passes.\<close>

fun round_shards :: "nat \<Rightarrow> nat \<Rightarrow> nat" where
  "round_shards 0 s = s"
| "round_shards (Suc n) s = (if s AND (s - 1) \<noteq> 0 then round_shards n ((s OR (s - 1)) + 1) else s)"

definition shard_count :: "int \<Rightarrow> nat" where
  "shard_count shards = (let s = (if shards \<le> 0 then 1024 else nat shards) in round_shards s s)"

lemma power2_if_and_zero: "0 < s \<Longrightarrow> s AND (s - 1) = 0 \<Longrightarrow> \<exists>k. s = (2::nat) ^ k"
proof (induction s rule: less_induct)
  case (less s)
  show ?case
  proof (cases "even s")
    case True
    then obtain m where m: "s = 2 * m" by blast
    with less.prems have pos: "0 < m" by simp
    have "s - 1 = 1 + 2 * (m - 1)" using m pos by simp
    then have "s AND (s - 1) = 2 * (m AND (m - 1))" using m by (simp add: and_rec [of "2 * m"])
    with less.prems have "m AND (m - 1) = 0" by simp
    with less.IH [of m] m pos obtain k where "m = 2 ^ k" by auto
    with m have "s = 2 ^ Suc k" by simp
    then show ?thesis by blast
  next
    case False
    then obtain m where m: "s = 2 * m + 1" using oddE by blast
    then have "s AND (s - 1) = 2 * m" by (simp add: and_rec [of "Suc (2 * m)"])
    with less.prems m have "s = 2 ^ 0" by simp
    then show ?thesis by blast
  qed
qed

lemma or_pred_bound:
  assumes "s < 2 ^ n"
  shows "(s OR (s - 1)) + 1 \<le> (2 ^ n :: nat)"
proof -
  have "take_bit n (s OR (s - 1)) = s OR (s - 1)"
    using assms by (simp add: take_bit_nat_eq_self)
  then have "s OR (s - 1) < 2 ^ n" by (metis take_bit_nat_less_exp)
  then show ?thesis by simp
qed

lemma or_pred_grows: "s < (s OR (s - 1)) + (1::nat)"
proof -
  have "int s \<le> int s OR int (s - 1)" by (rule or_greater_eq) simp
  then have "int s \<le> int (s OR (s - 1))" by (simp only: of_nat_or_eq)
  then show ?thesis by simp
qed

lemma round_shards_power2:
  assumes "0 < s" and "s \<le> 2 ^ n" and "2 ^ n - s < f"
  shows "(\<exists>k. round_shards f s = 2 ^ k) \<and> s \<le> round_shards f s \<and> round_shards f s \<le> 2 ^ n"
  using assms
proof (induction f s rule: round_shards.induct)
  case (2 f s)
  show ?case
  proof (cases "s AND (s - 1) = 0")
    case True
    with power2_if_and_zero [OF 2(2) True] 2(3) show ?thesis by simp
  next
    case False
    let ?s = "(s OR (s - 1)) + 1"
    have "s \<noteq> 2 ^ n"
    proof
      assume "s = 2 ^ n"
      then have "s AND (s - 1) = take_bit n (2 ^ n)"
        by (simp add: take_bit_eq_mask mask_eq_exp_minus_1)
      with False show False by simp
    qed
    with 2(3) have "s < 2 ^ n" by simp
    then have "?s \<le> 2 ^ n" by (rule or_pred_bound)
    moreover have "s < ?s" by (rule or_pred_grows)
    moreover from this 2(4) have "2 ^ n - ?s < f" using \<open>s < 2 ^ n\<close> by linarith
    ultimately show ?thesis using 2(1) [OF False] False 2(2) by (simp del: One_nat_def)
  qed
qed simp

lemma le_power2: "s \<le> (2::nat) ^ s"
  by (rule less_imp_le) (rule less_exp)

lemma close_power2: "0 < s \<Longrightarrow> \<exists>n. s \<le> 2 ^ n \<and> 2 ^ n < 2 * (s::nat)"
proof (cases "s = 1")
  case True
  then show ?thesis by (intro exI [of _ 0]) simp
next
  case False
  moreover assume "0 < s"
  ultimately obtain n where "2 ^ n < s" "s \<le> 2 ^ (n + 1)" using ex_power_ivl2 [of 2 s] by auto
  then show ?thesis by (intro exI [of _ "n + 1"]) simp
qed

text \<open>The number of shards is the least power of two that is not below the number asked for.\<close>

lemma shard_count_power2:
  "\<exists>k. shard_count n = 2 ^ k"
  "0 < n \<Longrightarrow> nat n \<le> shard_count n \<and> shard_count n < 2 * nat n"
proof -
  have main: "(\<exists>k. round_shards s s = 2 ^ k) \<and> s \<le> round_shards s s \<and> round_shards s s < 2 * s" if "0 < s" for s
  proof -
    note pos = that
    obtain m where m: "s \<le> 2 ^ m" "2 ^ m < 2 * s" using close_power2 [OF pos] by blast
    then show ?thesis using round_shards_power2 [OF pos m(1), of s] pos by (metis le_less_trans less_diff_conv2 m(1) mult_2)
  qed
  show "\<exists>k. shard_count n = 2 ^ k" using main by (simp add: shard_count_def Let_def)
  show "0 < n \<Longrightarrow> nat n \<le> shard_count n \<and> shard_count n < 2 * nat n"
    using main [of "nat n"] by (simp add: shard_count_def Let_def)
qed

subsection \<open>The operations\<close>

record ('k, 'v) shard_cache =
  sc_shards :: "('k, 'v) gomap list"
  sc_mask :: nat

definition newGeneration :: "nat \<Rightarrow> ('k, 'v) gomap list" where
  "newGeneration shards = replicate shards []"

definition cache_New :: "int \<Rightarrow> ('k, 'v) shard_cache" where
  "cache_New shards = \<lparr>sc_shards = newGeneration (shard_count shards), sc_mask = shard_count shards - 1\<rparr>"

definition getShard :: "('k \<Rightarrow> nat) \<Rightarrow> ('k, 'v) shard_cache \<Rightarrow> 'k \<Rightarrow> nat" where
  "getShard hash c k = hash k AND sc_mask c"

definition cache_Set :: "('k \<Rightarrow> nat) \<Rightarrow> 'k \<Rightarrow> 'v \<Rightarrow> ('k, 'v) shard_cache \<Rightarrow> ('k, 'v) shard_cache" where
  "cache_Set hash k v c =
    (let i = getShard hash c k in c\<lparr>sc_shards := (sc_shards c)[i := mput k v (sc_shards c ! i)]\<rparr>)"

definition cache_Get :: "('k \<Rightarrow> nat) \<Rightarrow> ('k, 'v) shard_cache \<Rightarrow> 'k \<Rightarrow> 'v option" where
  "cache_Get hash c k = map_of (sc_shards c ! getShard hash c k) k"

definition shard_del :: "'k \<Rightarrow> ('k, 'v) gomap \<Rightarrow> nat \<times> ('k, 'v) gomap" where
  "shard_del k m = (if mhas m k then (1, mdel k m) else (0, m))"

fun cache_Del :: "('k \<Rightarrow> nat) \<Rightarrow> 'k list \<Rightarrow> ('k, 'v) shard_cache \<Rightarrow> nat \<times> ('k, 'v) shard_cache" where
  "cache_Del hash [] c = (0, c)"
| "cache_Del hash (k # ks) c =
    (let i = getShard hash c k; (n, m) = shard_del k (sc_shards c ! i);
         (count, c') = cache_Del hash ks (c\<lparr>sc_shards := (sc_shards c)[i := m]\<rparr>)
     in (n + count, c'))"

definition cache_GetAll :: "('k, 'v) shard_cache \<Rightarrow> ('k, 'v) gomap" where
  "cache_GetAll c = fold (\<lambda>(k, v) m. mput k v m) (concat (sc_shards c)) []"

definition cache_Len :: "('k, 'v) shard_cache \<Rightarrow> nat" where
  "cache_Len c = sum_list (map length (sc_shards c))"

definition cache_Clear :: "('k, 'v) shard_cache \<Rightarrow> ('k, 'v) shard_cache" where
  "cache_Clear c = c\<lparr>sc_shards := newGeneration (sc_mask c + 1)\<rparr>"

definition cache_RefreshAll :: "('k \<Rightarrow> nat) \<Rightarrow> ('k, 'v) gomap \<Rightarrow> ('k, 'v) shard_cache \<Rightarrow> ('k, 'v) shard_cache" where
  "cache_RefreshAll hash target c =
    fold (\<lambda>(k, v) c. cache_Set hash k v c) target (c\<lparr>sc_shards := newGeneration (sc_mask c + 1)\<rparr>)"

subsection \<open>The invariant\<close>

text \<open>There are a power of two shards; each is a map, and a key lies in the shard of its hash.\<close>

definition shards_ok :: "('k \<Rightarrow> nat) \<Rightarrow> ('k, 'v) shard_cache \<Rightarrow> bool" where
  "shards_ok hash c \<longleftrightarrow>
    (\<exists>n. sc_mask c = mask n \<and> length (sc_shards c) = 2 ^ n) \<and>
    (\<forall>i < length (sc_shards c). mwf (sc_shards c ! i) \<and> (\<forall>k \<in> mkeys (sc_shards c ! i). getShard hash c k = i))"

lemma getShard_less: "shards_ok hash c \<Longrightarrow> getShard hash c k < length (sc_shards c)"
  by (auto simp: shards_ok_def getShard_def simp flip: take_bit_eq_mask)

lemma cache_ok_New: "shards_ok hash (cache_New shards)"
proof -
  obtain n where "shard_count shards = 2 ^ n" using shard_count_power2(1) by blast
  then show ?thesis
    by (auto simp: shards_ok_def cache_New_def newGeneration_def mask_eq_exp_minus_1 intro!: exI [of _ n])
qed

lemma cache_ok_update:
  assumes "shards_ok hash c" and "mwf m" and "\<forall>k \<in> mkeys m. getShard hash c k = i"
  shows "shards_ok hash (c\<lparr>sc_shards := (sc_shards c)[i := m]\<rparr>)"
proof -
  let ?c = "c\<lparr>sc_shards := (sc_shards c)[i := m]\<rparr>"
  have same: "getShard hash ?c k = getShard hash c k" for k by (simp add: getShard_def)
  have "mwf (sc_shards ?c ! j) \<and> (\<forall>k \<in> mkeys (sc_shards ?c ! j). getShard hash ?c k = j)"
    if "j < length (sc_shards ?c)" for j
  proof (cases "j = i")
    case True
    with that assms(2,3) show ?thesis by (simp add: same)
  next
    case False
    with that assms(1) show ?thesis unfolding same by (simp add: shards_ok_def)
  qed
  with assms(1) show ?thesis by (simp add: shards_ok_def)
qed

lemma shard_ok:
  "shards_ok hash c \<Longrightarrow> i < length (sc_shards c) \<Longrightarrow> mwf (sc_shards c ! i) \<and> (\<forall>k \<in> mkeys (sc_shards c ! i). getShard hash c k = i)"
  by (simp add: shards_ok_def)

lemma mkeys_mput: "mkeys (mput k v m) = insert k (mkeys m)"
proof -
  have "dom (map_of (mput k v m)) = insert k (dom (map_of m))" by (auto simp: dom_def)
  then show ?thesis by (simp only: dom_map_of_conv_image_fst)
qed

lemma mkeys_mdel: "mkeys (mdel k m) = mkeys m - {k}"
proof -
  have "dom (map_of (mdel k m)) = dom (map_of m) - {k}" by (auto simp: dom_def)
  then show ?thesis by (simp only: dom_map_of_conv_image_fst)
qed

lemma cache_ok_Set: "shards_ok hash c \<Longrightarrow> shards_ok hash (cache_Set hash k v c)"
  using shard_ok [of hash c "getShard hash c k"] getShard_less [of hash c k]
  unfolding cache_Set_def Let_def by (intro cache_ok_update) (auto simp: mkeys_mput)

lemma cache_ok_del1:
  "shards_ok hash c \<Longrightarrow> shards_ok hash (c\<lparr>sc_shards := (sc_shards c)[getShard hash c k := snd (shard_del k (sc_shards c ! getShard hash c k))]\<rparr>)"
  using shard_ok [of hash c "getShard hash c k"] getShard_less [of hash c k]
    set_mdel_subset [of k "sc_shards c ! getShard hash c k"]
  by (intro cache_ok_update) (auto simp: shard_del_def)

lemma cache_ok_Del: "shards_ok hash c \<Longrightarrow> shards_ok hash (snd (cache_Del hash ks c))"
proof (induction ks arbitrary: c)
  case (Cons k ks)
  from Cons.IH [OF cache_ok_del1 [OF Cons.prems, of k]] show ?case by (simp add: Let_def case_prod_unfold)
qed simp

lemma cache_ok_Clear: "shards_ok hash c \<Longrightarrow> shards_ok hash (cache_Clear c)"
proof -
  assume "shards_ok hash c"
  then obtain n where n: "sc_mask c = mask n" "length (sc_shards c) = 2 ^ n" by (auto simp: shards_ok_def)
  then have "sc_mask c + 1 = 2 ^ n" by (simp add: mask_eq_exp_minus_1)
  then have "sc_shards (cache_Clear c) = replicate (2 ^ n) []" by (simp only: cache_Clear_def newGeneration_def) simp
  moreover have "sc_mask (cache_Clear c) = mask n" using n by (simp add: cache_Clear_def)
  ultimately show ?thesis unfolding shards_ok_def by auto
qed

lemma cache_ok_RefreshAll: "shards_ok hash c \<Longrightarrow> shards_ok hash (cache_RefreshAll hash target c)"
proof -
  have "shards_ok hash c \<Longrightarrow> shards_ok hash (fold (\<lambda>(k, v) c. cache_Set hash k v c) target c)" for c
    by (induction target arbitrary: c) (auto simp: cache_ok_Set)
  then show "shards_ok hash c \<Longrightarrow> shards_ok hash (cache_RefreshAll hash target c)"
    using cache_ok_Clear by (auto simp: cache_RefreshAll_def cache_Clear_def)
qed

subsection \<open>What a user sees\<close>

lemma Get_Set:
  assumes "shards_ok hash c"
  shows "cache_Get hash (cache_Set hash k v c) k' = (if k' = k then Some v else cache_Get hash c k')"
proof (cases "getShard hash c k' = getShard hash c k")
  case True
  with getShard_less [OF assms, of k] show ?thesis
    by (simp add: cache_Get_def cache_Set_def getShard_def Let_def)
next
  case False
  then have "k' \<noteq> k" by auto
  with False show ?thesis by (simp add: cache_Get_def cache_Set_def getShard_def Let_def)
qed

lemma Get_del1:
  assumes "shards_ok hash c"
  shows "cache_Get hash (c\<lparr>sc_shards := (sc_shards c)[getShard hash c k := snd (shard_del k (sc_shards c ! getShard hash c k))]\<rparr>) k'
    = (if k' = k then None else cache_Get hash c k')"
proof (cases "getShard hash c k' = getShard hash c k")
  case True
  with getShard_less [OF assms, of k] show ?thesis
    by (auto simp: cache_Get_def shard_del_def getShard_def mhas_def)
next
  case False
  then have "k' \<noteq> k" by auto
  with False show ?thesis by (simp add: cache_Get_def getShard_def)
qed

lemma Get_Del:
  "shards_ok hash c \<Longrightarrow>
    cache_Get hash (snd (cache_Del hash ks c)) k' = (if k' \<in> set ks then None else cache_Get hash c k')"
proof (induction ks arbitrary: c)
  case (Cons k ks)
  from Cons.IH [OF cache_ok_del1 [OF Cons.prems, of k]] Get_del1 [OF Cons.prems, of k]
  show ?case by (simp add: Let_def case_prod_unfold)
qed simp

lemma concat_shards:
  assumes "shards_ok hash c"
  shows "mwf (concat (sc_shards c)) \<and> map_of (concat (sc_shards c)) k = cache_Get hash c k"
proof -
  have part: "mwf (concat ms) \<and> map_of (concat ms) k = (if j + length ms \<le> h k \<or> h k < j then None else map_of (ms ! (h k - j)) k)"
    if "\<forall>i < length ms. mwf (ms ! i) \<and> (\<forall>k \<in> mkeys (ms ! i). h k = j + i)"
    for ms :: "('a, 'b) gomap list" and h :: "'a \<Rightarrow> nat" and j
    using that
  proof (induction ms arbitrary: j)
    case (Cons m ms)
    have m: "mwf m" "\<And>k. k \<in> mkeys m \<Longrightarrow> h k = j" using Cons.prems by fastforce+
    have "\<forall>i < length ms. mwf (ms ! i) \<and> (\<forall>k \<in> mkeys (ms ! i). h k = Suc j + i)"
      using Cons.prems by (metis (no_types, lifting) Suc_less_eq add_Suc_shift length_Cons nth_Cons_Suc)
    note IH = Cons.IH [OF this]
    have later: "h k \<noteq> j" if "k \<in> mkeys (concat ms)" for k
    proof -
      from that obtain m' where "m' \<in> set ms" "k \<in> mkeys m'" by auto
      then obtain i where "i < length ms" "k \<in> mkeys (ms ! i)" by (metis in_set_conv_nth)
      with Cons.prems have "h k = j + Suc i" by (metis Suc_less_eq length_Cons nth_Cons_Suc)
      then show ?thesis by simp
    qed
    have "mwf (concat (m # ms))"
      using m IH later unfolding mwf_def by fastforce
    moreover have "map_of m k = None" if "h k \<noteq> j"
      using m(2) [of k] that by (auto simp: map_of_eq_None_iff)
    moreover have "map_of (concat ms) k = None" if "h k = j"
      using later [of k] that by (auto simp: map_of_eq_None_iff)
    ultimately show ?case using IH
      by (cases "h k = j") (auto simp: map_add_def nth_Cons' split: option.splits)
  qed (auto simp: mwf_def)
  have "\<forall>i < length (sc_shards c). mwf (sc_shards c ! i) \<and> (\<forall>k \<in> mkeys (sc_shards c ! i). getShard hash c k = 0 + i)"
    using assms by (simp add: shards_ok_def)
  from part [OF this] getShard_less [OF assms, of k] show ?thesis by (simp add: cache_Get_def)
qed

lemma fold_mput: "map_of (fold (\<lambda>(k, v) m. mput k v m) xs m) k = (case map_of (rev xs) k of None \<Rightarrow> map_of m k | Some v \<Rightarrow> Some v)"
  by (induction xs arbitrary: m) (auto simp: map_add_def split: option.splits)

lemma mwf_fold_mput: "mwf m \<Longrightarrow> mwf (fold (\<lambda>(k, v) m. mput k v m) xs m)"
  by (induction xs arbitrary: m) auto

lemma map_of_rev: "mwf m \<Longrightarrow> map_of (rev m) k = map_of m k"
  by (metis distinct_rev map_of_eqI map_of_inject_set mwf_def rev_map set_map set_rev)

lemma GetAll_map:
  assumes "shards_ok hash c"
  shows "mwf (cache_GetAll c)" and "map_of (cache_GetAll c) k = cache_Get hash c k"
  using concat_shards [OF assms, of k]
  by (auto simp: cache_GetAll_def mwf_fold_mput fold_mput map_of_rev split: option.splits)

lemma Len_count:
  assumes "shards_ok hash c"
  shows "cache_Len c = card {k. cache_Get hash c k \<noteq> None}"
proof -
  let ?m = "concat (sc_shards c)"
  have "{k. cache_Get hash c k \<noteq> None} = mkeys ?m"
  proof (rule set_eqI)
    fix k
    have "map_of ?m k = cache_Get hash c k" using concat_shards [OF assms] by blast
    then show "k \<in> {k. cache_Get hash c k \<noteq> None} \<longleftrightarrow> k \<in> mkeys ?m"
      by (metis map_of_eq_None_iff mem_Collect_eq)
  qed
  moreover have "card (mkeys ?m) = length ?m" using concat_shards [OF assms] mwf_card_keys by blast
  ultimately show ?thesis by (simp add: cache_Len_def length_concat)
qed

subsection \<open>The contract of a key-value store\<close>

datatype ('k, 'v) store_op = StSet 'k 'v | StDel "'k list" | StClear | StRefresh "('k, 'v) gomap"

fun op_effect :: "('k, 'v) store_op \<Rightarrow> ('k \<rightharpoonup> 'v) \<Rightarrow> ('k \<rightharpoonup> 'v)" where
  "op_effect (StSet k v) m = m(k \<mapsto> v)"
| "op_effect (StDel ks) m = (\<lambda>k. if k \<in> set ks then None else m k)"
| "op_effect StClear m = Map.empty"
| "op_effect (StRefresh target) m = map_of (rev target)"

locale key_value_store =
  fixes invar :: "'s \<Rightarrow> bool"
    and get :: "'s \<Rightarrow> 'k \<Rightarrow> 'v option"
    and step :: "('k, 'v) store_op \<Rightarrow> 's \<Rightarrow> 's"
    and entries :: "'s \<Rightarrow> ('k, 'v) gomap"
  assumes step_invar: "invar s \<Longrightarrow> invar (step ev s)"
    and get_step: "invar s \<Longrightarrow> get (step ev s) = op_effect ev (get s)"
    and entries_wf: "invar s \<Longrightarrow> mwf (entries s)"
    and entries_get: "invar s \<Longrightarrow> map_of (entries s) k = get s k"
begin

lemma run_invar: "invar s \<Longrightarrow> invar (fold step evs s)"
  by (induction evs arbitrary: s) (simp_all add: step_invar)

lemma get_run: "invar s \<Longrightarrow> get (fold step evs s) = fold op_effect evs (get s)"
  by (induction evs arbitrary: s) (simp_all add: step_invar get_step)

lemma entries_count: "invar s \<Longrightarrow> length (entries s) = card (dom (get s))"
proof -
  assume inv: "invar s"
  have "dom (map_of (entries s)) = dom (get s)" using entries_get [OF inv] by (simp add: dom_def)
  then have "mkeys (entries s) = dom (get s)" by (simp only: dom_map_of_conv_image_fst)
  then show ?thesis using mwf_card_keys [OF entries_wf [OF inv]] by simp
qed

lemma entries_subset: "invar s \<Longrightarrow> (k, v) \<in> set (entries s) \<longleftrightarrow> get s k = Some v"
  using entries_wf [of s] entries_get [of s k] by (auto simp: mwf_def)

end

text \<open>A Go map is such a store, and so is the sharded cache.\<close>

fun plain_step :: "('k, 'v) store_op \<Rightarrow> ('k, 'v) gomap \<Rightarrow> ('k, 'v) gomap" where
  "plain_step (StSet k v) m = mput k v m"
| "plain_step (StDel ks) m = fold mdel ks m"
| "plain_step StClear m = []"
| "plain_step (StRefresh target) m = fold (\<lambda>(k, v) m. mput k v m) target []"

fun cache_step :: "('k \<Rightarrow> nat) \<Rightarrow> ('k, 'v) store_op \<Rightarrow> ('k, 'v) shard_cache \<Rightarrow> ('k, 'v) shard_cache" where
  "cache_step hash (StSet k v) c = cache_Set hash k v c"
| "cache_step hash (StDel ks) c = snd (cache_Del hash ks c)"
| "cache_step hash StClear c = cache_Clear c"
| "cache_step hash (StRefresh target) c = cache_RefreshAll hash target c"

lemma fold_mdel: "map_of (fold mdel ks m) k = (if k \<in> set ks then None else map_of m k)"
  by (induction ks arbitrary: m) auto

lemma mwf_fold_mdel: "mwf m \<Longrightarrow> mwf (fold mdel ks m)"
  by (induction ks arbitrary: m) auto

interpretation plain: key_value_store mwf map_of plain_step "\<lambda>m. m"
proof
  fix m :: "('a, 'b) gomap" and ev :: "('a, 'b) store_op" and k
  assume wf: "mwf m"
  show "mwf (plain_step ev m)" using wf by (cases ev) (auto simp: mwf_fold_mdel mwf_fold_mput)
  show "map_of (plain_step ev m) = op_effect ev (map_of m)"
    by (cases ev) (auto simp: fun_eq_iff fold_mdel fold_mput split: option.splits)
qed simp_all

lemma Get_Clear: "shards_ok hash c \<Longrightarrow> cache_Get hash (cache_Clear c) k = None"
proof -
  assume ok: "shards_ok hash c"
  have "getShard hash (cache_Clear c) k < length (sc_shards (cache_Clear c))"
    by (rule getShard_less [OF cache_ok_Clear [OF ok]])
  then show ?thesis by (simp add: cache_Get_def cache_Clear_def newGeneration_def nth_replicate del: replicate.simps)
qed

lemma Get_RefreshAll:
  assumes "shards_ok hash c"
  shows "cache_Get hash (cache_RefreshAll hash target c) k = map_of (rev target) k"
proof -
  have "shards_ok hash c \<Longrightarrow> cache_Get hash (fold (\<lambda>(k, v) c. cache_Set hash k v c) target c) k =
      (case map_of (rev target) k of None \<Rightarrow> cache_Get hash c k | Some v \<Rightarrow> Some v)" for c
  proof (induction target arbitrary: c)
    case (Cons p target)
    obtain k' v where p: "p = (k', v)" by (rule prod.exhaust)
    from Cons.IH [OF cache_ok_Set [OF Cons.prems, of k' v]] Get_Set [OF Cons.prems, of k' v k] show ?case
      by (auto simp: p map_add_def split: option.splits)
  qed simp
  from this [OF cache_ok_Clear [OF assms]] Get_Clear [OF assms, of k] show ?thesis
    by (simp add: cache_RefreshAll_def cache_Clear_def split: option.splits)
qed

interpretation sharded: key_value_store "shards_ok hash" "cache_Get hash" "cache_step hash" cache_GetAll for hash
proof
  fix c :: "('a, 'b) shard_cache" and ev :: "('a, 'b) store_op" and k
  assume ok: "shards_ok hash c"
  show "shards_ok hash (cache_step hash ev c)"
    using ok by (cases ev) (simp_all add: cache_ok_Set cache_ok_Del cache_ok_Clear cache_ok_RefreshAll)
  show "cache_Get hash (cache_step hash ev c) = op_effect ev (cache_Get hash c)"
    using ok by (cases ev) (simp_all add: fun_eq_iff Get_Set Get_Del Get_Clear Get_RefreshAll)
  show "mwf (cache_GetAll c)" "map_of (cache_GetAll c) k = cache_Get hash c k"
    using GetAll_map [OF ok] by auto
qed

lemma Get_New: "cache_Get hash (cache_New shards :: ('k, 'v) shard_cache) k = None"
proof -
  let ?c = "cache_New shards :: ('k, 'v) shard_cache"
  have "getShard hash ?c k < length (sc_shards ?c)"
    by (rule getShard_less [OF cache_ok_New])
  then show ?thesis by (simp add: cache_Get_def cache_New_def newGeneration_def del: replicate.simps)
qed

text \<open>
  C34. The sharded cache refines a plain map. For any number of shards, any hash and any sequence of operations,
  refreshes included, a lookup, the listing of all entries and the count are those of the map that was driven by
  the same operations.
\<close>

theorem cache_refines_map:
  "let c = fold (cache_step hash) evs (cache_New shards :: ('k, 'v) shard_cache); m = fold plain_step evs [] in
    cache_Get hash c k = map_of m k \<and> map_of (cache_GetAll c) k = map_of m k \<and>
    set (cache_GetAll c) = set m \<and> cache_Len c = length m"
proof -
  let ?new = "cache_New shards :: ('k, 'v) shard_cache"
  let ?c = "fold (cache_step hash) evs ?new"
  let ?m = "fold plain_step evs []"
  have ok: "shards_ok hash ?c" by (rule sharded.run_invar [OF cache_ok_New])
  have wf: "mwf ?m" by (rule plain.run_invar) simp
  have "cache_Get hash ?new = map_of []" by (rule ext) (simp add: Get_New)
  then have get: "cache_Get hash ?c = map_of ?m"
    unfolding sharded.get_run [OF cache_ok_New] plain.get_run [OF mwf_Nil] by simp
  have "p \<in> set (cache_GetAll ?c) \<longleftrightarrow> p \<in> set ?m" for p
    using sharded.entries_subset [OF ok, of "fst p" "snd p"] plain.entries_subset [OF wf, of "fst p" "snd p"] get by simp
  then have "set (cache_GetAll ?c) = set ?m" by blast
  moreover have "cache_Len ?c = length ?m"
    using Len_count [OF ok] plain.entries_count [OF wf] get by (simp add: dom_def)
  ultimately show ?thesis using get sharded.entries_get [OF ok] by (simp add: Let_def)
qed

end
