(* ===== verification/Group_Admin.thy ===== *)
theory Group_Admin
  imports Group_Model Utf8_Text Shard_Cache "HOL-Library.Multiset"
begin

text \<open>
  \<^verbatim>\<open>internal/op/group.go\<close>: creating, changing and deleting groups, with the checks of their members and of the
  references between groups. The caches of groups, of group names and of channel models are the maps that
  \<open>Shard_Cache\<close> shows the sharded caches to be. The database behind them is an argument: the numbers it gives to
  new rows, or that it fails; that it keeps names unique and numbers fresh, as the model's tags ask for, is
  a premise of the step relation \<open>admin_step\<close>.
\<close>

datatype group_error =
    ErrGroupNameRequired
  | ErrGroupNotFound
  | ErrGroupRefTargetMissing string
  | ErrGroupReferencedBy string
  | ErrGroupItemMissingTarget
  | ErrGroupDuplicateRef string
  | ErrGroupDuplicateMember
  | ErrGroupSelfReference string
  | ErrGroupRefDepthExceeded
  | ErrGroupRefCycle string
  | ErrGroupItemNotFound
  | ErrDatabase

record group_store =
  gs_groups :: "(int, Group) gomap"
  gs_index :: "(string, int) gomap"
  gs_models :: "(int, ChannelModel) gomap"

definition groupSnapshot :: "group_store \<Rightarrow> Group \<Rightarrow> Group" where
  "groupSnapshot s g =
    g\<lparr>g_Items := map (\<lambda>item. item\<lparr>it_ChannelModel := map_of (gs_models s) (it_ChannelModelID item)\<rparr>) (g_Items g)\<rparr>"

definition GroupGetByName :: "group_store \<Rightarrow> string \<Rightarrow> Group option" where
  "GroupGetByName s name =
    (case map_of (gs_index s) name of
       None \<Rightarrow> None
     | Some k \<Rightarrow> map_option (groupSnapshot s) (map_of (gs_groups s) k))"

text \<open>\<^verbatim>\<open>sort.Slice\<close> by priority, then number: the numbers are distinct, so two stable sorts do the same.\<close>

definition sortGroupItems :: "GroupItem list \<Rightarrow> GroupItem list" where
  "sortGroupItems items = sort_key it_Priority (sort_key it_ID items)"

subsection \<open>Checks\<close>

definition trim_ref :: "GroupItem \<Rightarrow> GroupItem" where
  "trim_ref item = item\<lparr>it_RefGroupName := TrimSpace (it_RefGroupName item)\<rparr>"

fun normalizeAndValidateGroupItems :: "group_store \<Rightarrow> GroupItem list \<Rightarrow> group_error + GroupItem list" where
  "normalizeAndValidateGroupItems s [] = Inr []"
| "normalizeAndValidateGroupItems s (i # items) =
    (let item = trim_ref i in
     if \<not> IsGroupRef item \<and> (it_ChannelModelID item = 0 \<or> \<not> mhas (gs_models s) (it_ChannelModelID item))
     then Inl ErrGroupItemMissingTarget
     else case normalizeAndValidateGroupItems s items of
            Inl e \<Rightarrow> Inl e
          | Inr rest \<Rightarrow> Inr (item # rest))"

fun check_duplicates :: "int list \<Rightarrow> string list \<Rightarrow> GroupItem list \<Rightarrow> group_error option" where
  "check_duplicates models refs [] = None"
| "check_duplicates models refs (item # items) =
    (if IsGroupRef item
     then if it_RefGroupName item \<in> set refs then Some (ErrGroupDuplicateRef (it_RefGroupName item))
          else check_duplicates models (it_RefGroupName item # refs) items
     else if it_ChannelModelID item = 0 then Some ErrGroupDuplicateMember
     else if it_ChannelModelID item \<in> set models then Some ErrGroupDuplicateMember
     else check_duplicates (it_ChannelModelID item # models) refs items)"

definition validateGroupItemDuplicates :: "GroupItem list \<Rightarrow> group_error option" where
  "validateGroupItemDuplicates items = check_duplicates [] [] items"

fun ref_targets :: "string list \<Rightarrow> GroupItem list \<Rightarrow> string list" where
  "ref_targets seen [] = []"
| "ref_targets seen (item # items) =
    (if \<not> IsGroupRef item \<or> it_RefGroupName item = [] then ref_targets seen items
     else if it_RefGroupName item \<in> set seen then ref_targets seen items
     else it_RefGroupName item # ref_targets (it_RefGroupName item # seen) items)"

definition groupRefTargetNames :: "GroupItem list \<Rightarrow> string list" where
  "groupRefTargetNames items = ref_targets [] items"

text \<open>
  \<^verbatim>\<open>walkGroupRefChain\<close> and its loop. \<open>visited\<close> is the Go map the calls share; a success returns it as the calls
  left it.
\<close>

definition walk_size :: "nat \<Rightarrow> nat" where
  "walk_size depth = (if MaxGroupRefDepth < depth then 0 else 2 * (9 - depth))"

function walkGroupRefChain ::
    "group_store \<Rightarrow> int \<Rightarrow> string \<Rightarrow> Group \<Rightarrow> int list \<Rightarrow> nat \<Rightarrow> group_error + int list"
  and walk_names :: "group_store \<Rightarrow> int \<Rightarrow> string \<Rightarrow> string list \<Rightarrow> int list \<Rightarrow> nat \<Rightarrow> group_error + int list" where
  "walkGroupRefChain s selfID selfName current visited depth =
    (if g_ID current = selfID \<or> selfID = 0 \<and> selfName \<noteq> [] \<and> g_Name current = selfName
     then Inl (ErrGroupSelfReference (g_Name current))
     else if MaxGroupRefDepth < depth then Inl ErrGroupRefDepthExceeded
     else walk_names s selfID selfName (groupRefTargetNames (g_Items current)) visited depth)"
| "walk_names s selfID selfName [] visited depth = Inr visited"
| "walk_names s selfID selfName (name # names) visited depth =
    (case GroupGetByName s name of
       None \<Rightarrow> walk_names s selfID selfName names visited depth
     | Some nxt \<Rightarrow>
         if g_ID nxt \<in> set visited then Inl (ErrGroupRefCycle (g_Name nxt))
         else case walkGroupRefChain s selfID selfName nxt (g_ID nxt # visited) (depth + 1) of
                Inl e \<Rightarrow> Inl e
              | Inr visited' \<Rightarrow> walk_names s selfID selfName names visited' depth)"
  by pat_completeness auto
termination
  by (relation "measures
      [\<lambda>x. case x of Inl (_, _, _, _, _, depth) \<Rightarrow> walk_size depth
                   | Inr (_, _, _, _, _, depth) \<Rightarrow> max 1 (walk_size depth - 1),
       \<lambda>x. case x of Inl _ \<Rightarrow> 0 | Inr (_, _, _, names, _, _) \<Rightarrow> length names]")
    (auto simp: walk_size_def MaxGroupRefDepth_def)

declare walkGroupRefChain.simps [simp del] walk_names.simps [simp del]

fun validate_refs :: "group_store \<Rightarrow> int \<Rightarrow> string \<Rightarrow> string list \<Rightarrow> group_error option" where
  "validate_refs s selfID selfName [] = None"
| "validate_refs s selfID selfName (name # names) =
    (case GroupGetByName s name of
       None \<Rightarrow> Some (ErrGroupRefTargetMissing name)
     | Some target \<Rightarrow>
         (case walkGroupRefChain s selfID selfName target [g_ID target] 1 of
            Inl e \<Rightarrow> Some e
          | Inr _ \<Rightarrow> validate_refs s selfID selfName names))"

definition validateGroupReferences :: "group_store \<Rightarrow> int \<Rightarrow> string \<Rightarrow> GroupItem list \<Rightarrow> group_error option" where
  "validateGroupReferences s selfID selfName items = validate_refs s selfID selfName (groupRefTargetNames items)"

definition refers_to :: "string \<Rightarrow> Group \<Rightarrow> bool" where
  "refers_to name g = list_ex (\<lambda>item. IsGroupRef item \<and> it_RefGroupName item = name) (g_Items g)"

text \<open>The name of the first other group with a reference, the empty string if there is none.\<close>

definition firstGroupReferrer :: "group_store \<Rightarrow> string \<Rightarrow> int \<Rightarrow> string" where
  "firstGroupReferrer s groupName excludeID =
    (case find (\<lambda>(_, g). g_ID g \<noteq> excludeID \<and> refers_to groupName g) (gs_groups s) of
       None \<Rightarrow> []
     | Some (_, g) \<Rightarrow> g_Name g)"

subsection \<open>Changes\<close>

definition store_group :: "Group \<Rightarrow> group_store \<Rightarrow> group_store" where
  "store_group g s =
    s\<lparr>gs_groups := mput (g_ID g) (groupSnapshot s g) (gs_groups s), gs_index := mput (g_Name g) (g_ID g) (gs_index s)\<rparr>"

text \<open>What the database answers: the number of a new group and those of the new members, or a failure.\<close>

definition number_items :: "int \<Rightarrow> int list \<Rightarrow> GroupItem list \<Rightarrow> GroupItem list" where
  "number_items groupID ids items = map (\<lambda>(k, item). item\<lparr>it_ID := k, it_GroupID := groupID\<rparr>) (zip ids items)"

definition GroupCreate :: "(int \<times> int list) option \<Rightarrow> Group \<Rightarrow> group_store \<Rightarrow> group_error option \<times> group_store" where
  "GroupCreate db req s =
    (let name = TrimSpace (g_Name req);
         items = map (\<lambda>item. (trim_ref item)\<lparr>it_ID := 0, it_GroupID := 0, it_ChannelModel := None\<rparr>) (g_Items req)
     in if name = [] then (Some ErrGroupNameRequired, s)
        else case normalizeAndValidateGroupItems s items of
          Inl e \<Rightarrow> (Some e, s)
        | Inr items \<Rightarrow>
            (case validateGroupItemDuplicates items of
               Some e \<Rightarrow> (Some e, s)
             | None \<Rightarrow>
                 (case validateGroupReferences s 0 name items of
                    Some e \<Rightarrow> (Some e, s)
                  | None \<Rightarrow>
                      (case db of
                         None \<Rightarrow> (Some ErrDatabase, s)
                       | Some (k, itemIDs) \<Rightarrow>
                           (None, store_group
                              (req\<lparr>g_ID := k, g_Name := name, g_ActiveItemID := 0,
                                     g_RelayConfig := NormalizeGroupRelayConfig (g_RelayConfig req),
                                     g_Items := sortGroupItems (number_items k itemIDs items)\<rparr>) s)))))"

record GroupUpdateRequest =
  up_ID :: int
  up_Name :: "string option"
  up_Mode :: "GroupMode option"
  up_DisplayOrder :: "int option"
  up_RelayConfig :: "GroupRelayConfig option"
  up_ItemsToAdd :: "GroupItem list"
  up_ItemsToUpdate :: "(int \<times> int) list"
  up_ItemsToDelete :: "int list"

text \<open>The group the transaction writes and reads back.\<close>

definition updated_group :: "GroupUpdateRequest \<Rightarrow> Group \<Rightarrow> GroupItem list \<Rightarrow> int list \<Rightarrow> Group" where
  "updated_group req g newItems itemIDs =
    (let kept = filter (\<lambda>item. it_ID item \<notin> set (up_ItemsToDelete req)) (g_Items g);
         ranked = map (\<lambda>item. case map_of (up_ItemsToUpdate req) (it_ID item) of
                          None \<Rightarrow> item | Some p \<Rightarrow> item\<lparr>it_Priority := p\<rparr>) kept;
         gone = list_ex (\<lambda>item. it_ID item = g_ActiveItemID g \<and> it_ID item \<in> set (up_ItemsToDelete req)) (g_Items g)
     in g\<lparr>g_Name := (case up_Name req of None \<Rightarrow> g_Name g | Some n \<Rightarrow> TrimSpace n),
          g_Mode := (case up_Mode req of None \<Rightarrow> g_Mode g | Some m \<Rightarrow> m),
          g_RelayConfig := (case up_RelayConfig req of None \<Rightarrow> g_RelayConfig g | Some c \<Rightarrow> NormalizeGroupRelayConfig c),
          g_DisplayOrder := (case up_DisplayOrder req of None \<Rightarrow> g_DisplayOrder g | Some d \<Rightarrow> d),
          g_ActiveItemID := (if gone then 0 else g_ActiveItemID g),
          g_Items := sortGroupItems (ranked @ number_items (g_ID g) itemIDs newItems)\<rparr>)"

definition GroupUpdate :: "int list option \<Rightarrow> GroupUpdateRequest \<Rightarrow> group_store \<Rightarrow> group_error option \<times> group_store" where
  "GroupUpdate db req s =
    (case map_of (gs_groups s) (up_ID req) of
       None \<Rightarrow> (Some ErrGroupNotFound, s)
     | Some oldGroup \<Rightarrow>
         let name = (case up_Name req of None \<Rightarrow> g_Name oldGroup | Some n \<Rightarrow> TrimSpace n);
             referrer = firstGroupReferrer s (g_Name oldGroup) (up_ID req)
         in if name = [] \<and> up_Name req \<noteq> None then (Some ErrGroupNameRequired, s)
            else if name \<noteq> g_Name oldGroup \<and> referrer \<noteq> [] then (Some (ErrGroupReferencedBy referrer), s)
            else case normalizeAndValidateGroupItems s (map trim_ref (up_ItemsToAdd req)) of
              Inl e \<Rightarrow> (Some e, s)
            | Inr newItems \<Rightarrow>
                let effective = filter (\<lambda>item. it_ID item \<notin> set (up_ItemsToDelete req)) (g_Items oldGroup) @ newItems
                in case validateGroupItemDuplicates effective of
                     Some e \<Rightarrow> (Some e, s)
                   | None \<Rightarrow>
                       (case validateGroupReferences s (up_ID req) (g_Name oldGroup) effective of
                          Some e \<Rightarrow> (Some e, s)
                        | None \<Rightarrow>
                            (case db of
                               None \<Rightarrow> (Some ErrDatabase, s)
                             | Some itemIDs \<Rightarrow>
                                 let s1 = store_group (updated_group req oldGroup newItems itemIDs) s
                                 in (None, if g_Name oldGroup \<noteq> name
                                           then s1\<lparr>gs_index := mdel (g_Name oldGroup) (gs_index s1)\<rparr> else s1))))"

definition GroupActiveItemUpdate :: "bool \<Rightarrow> int \<Rightarrow> int option \<Rightarrow> group_store \<Rightarrow> group_error option \<times> group_store" where
  "GroupActiveItemUpdate db groupID itemID s =
    (case map_of (gs_groups s) groupID of
       None \<Rightarrow> (Some ErrGroupNotFound, s)
     | Some g \<Rightarrow>
         let item = (case itemID of None \<Rightarrow> 0 | Some i \<Rightarrow> i)
         in if item \<noteq> 0 \<and> \<not> list_ex (\<lambda>i. it_ID i = item) (g_Items g) then (Some ErrGroupItemNotFound, s)
            else if \<not> db then (Some ErrDatabase, s)
            else (None, s\<lparr>gs_groups := mput groupID (groupSnapshot s (g\<lparr>g_ActiveItemID := item\<rparr>)) (gs_groups s)\<rparr>))"

definition GroupDel :: "bool \<Rightarrow> int \<Rightarrow> group_store \<Rightarrow> group_error option \<times> group_store" where
  "GroupDel db k s =
    (case map_of (gs_groups s) k of
       None \<Rightarrow> (Some ErrGroupNotFound, s)
     | Some g \<Rightarrow>
         let referrer = firstGroupReferrer s (g_Name g) k
         in if referrer \<noteq> [] then (Some (ErrGroupReferencedBy referrer), s)
            else if \<not> db then (Some ErrDatabase, s)
            else (None, s\<lparr>gs_groups := mdel k (gs_groups s), gs_index := mdel (g_Name g) (gs_index s)\<rparr>))"

text \<open>What an administrator does, with a database that keeps names unique and numbers new.\<close>

definition db_creates :: "(int \<times> int list) option \<Rightarrow> Group \<Rightarrow> group_store \<Rightarrow> bool" where
  "db_creates db req s =
    (case db of None \<Rightarrow> True
     | Some (k, ids) \<Rightarrow> k \<noteq> 0 \<and> \<not> mhas (gs_groups s) k \<and> \<not> mhas (gs_index s) (TrimSpace (g_Name req)))"

definition db_updates :: "int list option \<Rightarrow> GroupUpdateRequest \<Rightarrow> group_store \<Rightarrow> bool" where
  "db_updates db req s =
    (case db of None \<Rightarrow> True
     | Some ids \<Rightarrow>
         (case up_Name req of None \<Rightarrow> True
          | Some n \<Rightarrow> map_of (gs_index s) (TrimSpace n) \<in> {None, Some (up_ID req)}))"

inductive admin_step :: "group_store \<Rightarrow> group_store \<Rightarrow> bool" where
  adm_create: "db_creates db req s \<Longrightarrow> admin_step s (snd (GroupCreate db req s))"
| adm_update: "db_updates db req s \<Longrightarrow> admin_step s (snd (GroupUpdate db req s))"
| adm_active: "admin_step s (snd (GroupActiveItemUpdate ok k itemID s))"
| adm_delete: "admin_step s (snd (GroupDel ok k s))"
| adm_models: "admin_step s (s\<lparr>gs_models := models\<rparr>)"

definition empty_store :: group_store where
  "empty_store = \<lparr>gs_groups = [], gs_index = [], gs_models = []\<rparr>"

inductive admin_reachable :: "group_store \<Rightarrow> bool" where
  adm_start: "admin_reachable empty_store"
| adm_next: "admin_reachable s \<Longrightarrow> admin_step s s' \<Longrightarrow> admin_reachable s'"

subsection \<open>References as a graph\<close>

definition member_key :: "GroupItem \<Rightarrow> string + int" where
  "member_key item = (if IsGroupRef item then Inl (it_RefGroupName item) else Inr (it_ChannelModelID item))"

definition ref_names :: "GroupItem list \<Rightarrow> string set" where
  "ref_names items = {n. Inl n \<in> member_key ` set items}"

definition ref_edges :: "group_store \<Rightarrow> (int \<times> int) set" where
  "ref_edges s = {(k, k'). \<exists>g n. map_of (gs_groups s) k = Some g \<and> n \<in> ref_names (g_Items g) \<and>
     map_of (gs_index s) n = Some k'}"

definition group_ok :: "group_store \<Rightarrow> int \<Rightarrow> Group \<Rightarrow> bool" where
  "group_ok s k g \<longleftrightarrow>
    g_ID g = k \<and> k \<noteq> 0 \<and> g_Name g \<noteq> [] \<and> map_of (gs_index s) (g_Name g) = Some k \<and>
    distinct (map member_key (g_Items g)) \<and> (\<forall>n \<in> ref_names (g_Items g). mhas (gs_index s) n)"

definition catalog_ok :: "group_store \<Rightarrow> bool" where
  "catalog_ok s \<longleftrightarrow>
    (\<forall>k g. map_of (gs_groups s) k = Some g \<longrightarrow> group_ok s k g) \<and>
    (\<forall>n k. map_of (gs_index s) n = Some k \<longrightarrow> (\<exists>g. map_of (gs_groups s) k = Some g \<and> g_Name g = n)) \<and>
    acyclic (ref_edges s)"

lemma catalog_ok_group: "catalog_ok s \<Longrightarrow> map_of (gs_groups s) k = Some g \<Longrightarrow> group_ok s k g"
  by (simp add: catalog_ok_def)

lemma catalog_ok_index:
  "catalog_ok s \<Longrightarrow> map_of (gs_index s) n = Some k \<Longrightarrow> \<exists>g. map_of (gs_groups s) k = Some g \<and> g_Name g = n"
  by (simp add: catalog_ok_def)

lemma snapshot_fields [simp]:
  "g_ID (groupSnapshot s g) = g_ID g" "g_Name (groupSnapshot s g) = g_Name g"
  "ref_names (g_Items (groupSnapshot s g)) = ref_names (g_Items g)"
  "map member_key (g_Items (groupSnapshot s g)) = map member_key (g_Items g)"
proof -
  show keys: "map member_key (g_Items (groupSnapshot s g)) = map member_key (g_Items g)"
    by (simp add: groupSnapshot_def IsGroupRef_def member_key_def)
  then have "member_key ` set (g_Items (groupSnapshot s g)) = member_key ` set (g_Items g)" by (metis set_map)
  then show "ref_names (g_Items (groupSnapshot s g)) = ref_names (g_Items g)" by (simp add: ref_names_def)
qed (simp_all add: groupSnapshot_def)

lemma ref_targets_set: "set (ref_targets seen items) = ref_names items - set seen"
  by (induction seen items rule: ref_targets.induct) (auto simp: ref_names_def IsGroupRef_def member_key_def)

lemma target_names_set [simp]: "set (groupRefTargetNames items) = ref_names items"
  by (simp add: groupRefTargetNames_def ref_targets_set)

lemma get_by_name:
  assumes "catalog_ok s"
  shows "GroupGetByName s n = Some nxt \<Longrightarrow> \<exists>g. map_of (gs_index s) n = Some (g_ID nxt) \<and>
      map_of (gs_groups s) (g_ID nxt) = Some g \<and> nxt = groupSnapshot s g"
    and "map_of (gs_index s) n = Some k \<Longrightarrow> \<exists>g. GroupGetByName s n = Some (groupSnapshot s g) \<and>
      map_of (gs_groups s) k = Some g"
  using catalog_ok_index [OF assms, of n] catalog_ok_group [OF assms]
  by (auto simp: GroupGetByName_def group_ok_def split: option.splits)

subsection \<open>A successful walk\<close>

text \<open>The group walked and every group its references lead to is another group than the one checked.\<close>

definition walk_passes :: "group_store \<Rightarrow> int \<Rightarrow> string \<Rightarrow> Group \<Rightarrow> bool" where
  "walk_passes s selfID selfName g \<longleftrightarrow> (\<exists>v d v'. walkGroupRefChain s selfID selfName g v d = Inr v')"

lemma walk_names_passes:
  "walk_names s selfID selfName names v d = Inr v' \<Longrightarrow> n \<in> set names \<Longrightarrow> GroupGetByName s n = Some nxt \<Longrightarrow>
    walk_passes s selfID selfName nxt"
proof (induction names arbitrary: v)
  case (Cons name names)
  show ?case
  proof (cases "GroupGetByName s name")
    case None
    with Cons show ?thesis by (auto simp: walk_names.simps)
  next
    case (Some g)
    with Cons.prems(1) obtain v1 where first: "walkGroupRefChain s selfID selfName g (g_ID g # v) (d + 1) = Inr v1"
      and rest: "walk_names s selfID selfName names v1 d = Inr v'"
      by (auto simp: walk_names.simps split: if_splits sum.splits)
    from first have "walk_passes s selfID selfName g" unfolding walk_passes_def by blast
    with Cons.IH [OF rest _ Cons.prems(3)] Cons.prems(2,3) Some show ?thesis by auto
  qed
qed simp

lemma walk_passes_step:
  assumes "walk_passes s selfID selfName g"
  shows "g_ID g \<noteq> selfID" and "n \<in> ref_names (g_Items g) \<Longrightarrow> GroupGetByName s n = Some nxt \<Longrightarrow> walk_passes s selfID selfName nxt"
proof -
  from assms obtain v d v' where "walkGroupRefChain s selfID selfName g v d = Inr v'" unfolding walk_passes_def by blast
  then have "g_ID g \<noteq> selfID \<and> walk_names s selfID selfName (groupRefTargetNames (g_Items g)) v d = Inr v'"
    by (auto simp: walkGroupRefChain.simps split: if_splits)
  then show "g_ID g \<noteq> selfID" "n \<in> ref_names (g_Items g) \<Longrightarrow> GroupGetByName s n = Some nxt \<Longrightarrow> walk_passes s selfID selfName nxt"
    using walk_names_passes by auto
qed

lemma walk_avoids_self:
  assumes ok: "catalog_ok s" and "walk_passes s selfID selfName (groupSnapshot s g)"
    and "map_of (gs_groups s) k = Some g" and "(k, k') \<in> (ref_edges s)\<^sup>*"
  shows "k' \<noteq> selfID"
proof -
  from assms(4) have "\<exists>g'. map_of (gs_groups s) k' = Some g' \<and> walk_passes s selfID selfName (groupSnapshot s g')"
  proof (induction rule: rtrancl_induct)
    case base
    then show ?case using assms(2,3) by blast
  next
    case (step y z)
    then obtain g' where g': "map_of (gs_groups s) y = Some g'" "walk_passes s selfID selfName (groupSnapshot s g')" by blast
    from step(2) g'(1) obtain n where n: "n \<in> ref_names (g_Items g')" "map_of (gs_index s) n = Some z"
      by (auto simp: ref_edges_def)
    from get_by_name(2) [OF ok n(2)] obtain h where h: "GroupGetByName s n = Some (groupSnapshot s h)"
      "map_of (gs_groups s) z = Some h" by blast
    with walk_passes_step(2) [OF g'(2), of n "groupSnapshot s h"] n(1) show ?case by auto
  qed
  then obtain g' where g': "map_of (gs_groups s) k' = Some g'" "walk_passes s selfID selfName (groupSnapshot s g')" by blast
  from walk_passes_step(1) [OF g'(2)] catalog_ok_group [OF ok g'(1)] show ?thesis by (simp add: group_ok_def)
qed

lemma validate_refs_ok:
  assumes ok: "catalog_ok s" and "validate_refs s selfID selfName names = None" and "n \<in> set names"
  shows "\<exists>k. map_of (gs_index s) n = Some k \<and> (\<forall>k'. (k, k') \<in> (ref_edges s)\<^sup>* \<longrightarrow> k' \<noteq> selfID)"
  using assms(2,3)
proof (induction names)
  case (Cons name names)
  from Cons.prems(1) obtain target v where t: "GroupGetByName s name = Some target"
    "walkGroupRefChain s selfID selfName target [g_ID target] 1 = Inr v" "validate_refs s selfID selfName names = None"
    by (auto split: option.splits sum.splits)
  show ?case
  proof (cases "n = name")
    case True
    from get_by_name(1) [OF ok t(1)] obtain g where g: "map_of (gs_index s) name = Some (g_ID target)"
      "map_of (gs_groups s) (g_ID target) = Some g" "target = groupSnapshot s g" by blast
    from t(2) have "walk_passes s selfID selfName (groupSnapshot s g)" unfolding walk_passes_def g(3) by blast
    from walk_avoids_self [OF ok this g(2)] g(1) True show ?thesis by auto
  next
    case False
    with Cons t(3) show ?thesis by simp
  qed
qed simp

subsection \<open>Adding edges from one group\<close>

lemma acyclic_from:
  assumes acyclic: "acyclic E" and sub: "E' \<subseteq> {(a, b) \<in> E. a \<noteq> k} \<union> {k} \<times> T"
    and away: "\<And>t. t \<in> T \<Longrightarrow> (t, k) \<notin> E\<^sup>*"
  shows "acyclic E'"
proof -
  have reach: "(t, y) \<in> E\<^sup>* \<and> y \<noteq> k" if "(t, y) \<in> E'\<^sup>*" "t \<in> T" for t y
    using that
  proof (induction rule: rtrancl_induct)
    case base
    then show ?case using away by auto
  next
    case (step y z)
    then have "(t, y) \<in> E\<^sup>*" "(y, z) \<in> E" using sub by auto
    then have "(t, z) \<in> E\<^sup>*" by simp
    with away step.prems show ?case by auto
  qed
  have self: "(k, k) \<notin> E'\<^sup>+"
  proof
    assume "(k, k) \<in> E'\<^sup>+"
    then obtain t where "(k, t) \<in> E'" "(t, k) \<in> E'\<^sup>*" by (meson tranclD)
    with sub reach show False by auto
  qed
  have split: "(x, y) \<in> E\<^sup>+ \<or> (x, k) \<in> E'\<^sup>* \<and> (k, y) \<in> E'\<^sup>+" if "(x, y) \<in> E'\<^sup>+" for x y
    using that
  proof (induction rule: trancl_induct)
    case (base y)
    then show ?case using sub by (cases "x = k") auto
  next
    case (step y z)
    show ?case
    proof (cases "y = k")
      case True
      with step.hyps show ?thesis by (auto intro: trancl_into_rtrancl)
    next
      case False
      with step.hyps(2) sub have "(y, z) \<in> E" by auto
      with step show ?thesis by (auto intro: trancl_into_trancl)
    qed
  qed
  show ?thesis
    unfolding acyclic_def
  proof (intro allI notI)
    fix x assume "(x, x) \<in> E'\<^sup>+"
    with split [OF this] acyclic self show False
      by (auto simp: acyclic_def dest: rtrancl_trancl_trancl trancl_rtrancl_trancl)
  qed
qed

subsection \<open>Every change keeps the store sound\<close>

lemma check_duplicates_None:
  "check_duplicates models refs items = None \<Longrightarrow>
    distinct (map member_key items) \<and> (\<forall>x \<in> set models. Inr x \<notin> member_key ` set items) \<and>
    (\<forall>n \<in> set refs. Inl n \<notin> member_key ` set items)"
proof (induction models refs items rule: check_duplicates.induct)
  case (2 models refs item items)
  show ?case
  proof (cases "IsGroupRef item")
    case True
    with 2 show ?thesis by (auto simp: member_key_def split: if_splits)
  next
    case False
    with 2 show ?thesis by (auto simp: member_key_def split: if_splits)
  qed
qed simp

lemma mset_sortGroupItems: "mset (sortGroupItems items) = mset items"
  by (simp add: sortGroupItems_def)

lemma sorted_keys:
  "distinct (map member_key (sortGroupItems items)) = distinct (map member_key items)"
  "ref_names (sortGroupItems items) = ref_names items"
proof -
  have "mset (map member_key (sortGroupItems items)) = mset (map member_key items)"
    by (simp add: mset_sortGroupItems)
  then show "distinct (map member_key (sortGroupItems items)) = distinct (map member_key items)"
    by (metis mset_eq_imp_distinct_iff)
  have "set (sortGroupItems items) = set items" by (metis mset_sortGroupItems set_mset_mset)
  then show "ref_names (sortGroupItems items) = ref_names items" by (simp add: ref_names_def)
qed

lemma number_items_keys: "map member_key (number_items k ids items) = take (length ids) (map member_key items)"
proof (induction items arbitrary: ids)
  case Nil
  then show ?case by (simp add: number_items_def)
next
  case (Cons item items)
  then show ?case by (cases ids) (auto simp: number_items_def member_key_def IsGroupRef_def)
qed

lemma keys_append: "map member_key (xs @ number_items k ids items) = map member_key xs @ take (length ids) (map member_key items)"
  by (simp add: number_items_keys)

lemma distinct_append_take: "distinct (xs @ ys) \<Longrightarrow> distinct (xs @ take n ys)"
  using set_take_subset [of n ys] by auto

text \<open>Putting a group into the store: what the other groups need of the change.\<close>

lemma catalog_ok_put:
  assumes ok: "catalog_ok s"
    and groups: "\<And>j. map_of (gs_groups s') j = (if j = k then Some g else map_of (gs_groups s) j)"
    and g: "g_ID g = k" "k \<noteq> 0" "g_Name g \<noteq> []" "distinct (map member_key (g_Items g))"
    and index: "map_of (gs_index s') (g_Name g) = Some k"
    and other: "\<And>n j. n \<noteq> g_Name g \<Longrightarrow> map_of (gs_index s') n = Some j \<longleftrightarrow> map_of (gs_index s) n = Some j \<and> j \<noteq> k"
    and taken: "map_of (gs_index s) (g_Name g) \<in> {None, Some k}"
    and renamed: "\<And>old j h. map_of (gs_index s) old = Some k \<Longrightarrow> old \<noteq> g_Name g \<Longrightarrow> map_of (gs_groups s) j = Some h \<Longrightarrow>
      j \<noteq> k \<Longrightarrow> old \<notin> ref_names (g_Items h)"
    and refs: "\<And>n. n \<in> ref_names (g_Items g) \<Longrightarrow>
      \<exists>j. map_of (gs_index s) n = Some j \<and> (\<forall>j'. (j, j') \<in> (ref_edges s)\<^sup>* \<longrightarrow> j' \<noteq> k)"
  shows "catalog_ok s'"
proof -
  have target: "map_of (gs_index s') n = map_of (gs_index s) n"
    if h: "map_of (gs_groups s) j = Some h" "j \<noteq> k" and n: "n \<in> ref_names (g_Items h)" for j h n
  proof -
    obtain i where i: "map_of (gs_index s) n = Some i"
      using catalog_ok_group [OF ok h(1)] n by (auto simp: group_ok_def mhas_def)
    show ?thesis
    proof (cases "n = g_Name g")
      case True
      with i taken index show ?thesis by auto
    next
      case False
      with renamed [of n j h] h n i have "i \<noteq> k" by auto
      with other [OF False] i show ?thesis by simp
    qed
  qed
  have own: "map_of (gs_index s') n = map_of (gs_index s) n \<and> (\<exists>j. map_of (gs_index s) n = Some j \<and> (j, k) \<notin> (ref_edges s)\<^sup>*)"
    if n: "n \<in> ref_names (g_Items g)" for n
  proof -
    from refs [OF n] obtain j where j: "map_of (gs_index s) n = Some j" "\<forall>j'. (j, j') \<in> (ref_edges s)\<^sup>* \<longrightarrow> j' \<noteq> k" by blast
    then have "j \<noteq> k" by auto
    with taken j(1) have "n \<noteq> g_Name g" by auto
    with other j \<open>j \<noteq> k\<close> show ?thesis by auto
  qed
  have sub: "ref_edges s' \<subseteq> {(a, b) \<in> ref_edges s. a \<noteq> k} \<union> {k} \<times> {j. \<exists>n \<in> ref_names (g_Items g). map_of (gs_index s) n = Some j}"
  proof
    fix p assume "p \<in> ref_edges s'"
    then obtain a b h n where p: "p = (a, b)" "map_of (gs_groups s') a = Some h" "n \<in> ref_names (g_Items h)"
      "map_of (gs_index s') n = Some b" by (auto simp: ref_edges_def)
    show "p \<in> {(a, b) \<in> ref_edges s. a \<noteq> k} \<union> {k} \<times> {j. \<exists>n \<in> ref_names (g_Items g). map_of (gs_index s) n = Some j}"
    proof (cases "a = k")
      case True
      with p groups have "h = g" by auto
      with p own True show ?thesis by auto
    next
      case False
      with p groups have h: "map_of (gs_groups s) a = Some h" by auto
      from target [OF h False p(3)] p(4) have "map_of (gs_index s) n = Some b" by simp
      with h p(1,3) False show ?thesis by (auto simp: ref_edges_def)
    qed
  qed
  have "acyclic (ref_edges s')"
  proof (rule acyclic_from [OF _ sub])
    show "acyclic (ref_edges s)" using ok by (simp add: catalog_ok_def)
    show "(t, k) \<notin> (ref_edges s)\<^sup>*" if "t \<in> {j. \<exists>n \<in> ref_names (g_Items g). map_of (gs_index s) n = Some j}" for t
      using that own by fastforce
  qed
  moreover have "group_ok s' j h" if "map_of (gs_groups s') j = Some h" for j h
  proof (cases "j = k")
    case True
    with that groups have "h = g" by simp
    with True g index own show ?thesis by (auto simp: group_ok_def mhas_def)
  next
    case False
    with that groups have h: "map_of (gs_groups s) j = Some h" by simp
    note hok = catalog_ok_group [OF ok h]
    have "map_of (gs_index s') (g_Name h) = Some j"
    proof (cases "g_Name h = g_Name g")
      case True
      with hok taken False show ?thesis by (auto simp: group_ok_def)
    next
      case ne: False
      with hok other [OF ne] False show ?thesis by (auto simp: group_ok_def)
    qed
    with hok target [OF h False] show ?thesis by (auto simp: group_ok_def mhas_def)
  qed
  moreover have "\<exists>h. map_of (gs_groups s') j = Some h \<and> g_Name h = n" if "map_of (gs_index s') n = Some j" for n j
  proof (cases "n = g_Name g")
    case True
    with that index groups show ?thesis by auto
  next
    case False
    with that other have "map_of (gs_index s) n = Some j" "j \<noteq> k" by auto
    with catalog_ok_index [OF ok] groups show ?thesis by auto
  qed
  ultimately show ?thesis by (simp add: catalog_ok_def)
qed

lemma normalize_keys:
  "normalizeAndValidateGroupItems s items = Inr items' \<Longrightarrow> map member_key items' = map member_key (map trim_ref items)"
  by (induction s items arbitrary: items' rule: normalizeAndValidateGroupItems.induct)
    (auto simp: Let_def split: if_splits sum.splits)

lemma names_append: "ref_names (xs @ ys) = ref_names xs \<union> ref_names ys"
  by (auto simp: ref_names_def)

lemma number_items_names: "ref_names (number_items k ids items) \<subseteq> ref_names items"
proof -
  have "member_key ` set (number_items k ids items) = set (take (length ids) (map member_key items))"
    using number_items_keys [of k ids items] by (metis set_map)
  also have "\<dots> \<subseteq> member_key ` set items" by (metis set_map set_take_subset)
  finally show ?thesis by (auto simp: ref_names_def)
qed

lemma number_items_distinct:
  "distinct (map member_key (xs @ items)) \<Longrightarrow> distinct (map member_key (xs @ number_items k ids items))"
proof -
  assume "distinct (map member_key (xs @ items))"
  then have "distinct (map member_key xs @ map member_key items)" by simp
  from distinct_append_take [OF this, of "length ids"] show ?thesis unfolding keys_append .
qed

lemma validate_names:
  assumes "catalog_ok s" and "validateGroupReferences s selfID selfName items = None" and "n \<in> ref_names items"
  shows "\<exists>j. map_of (gs_index s) n = Some j \<and> (\<forall>j'. (j, j') \<in> (ref_edges s)\<^sup>* \<longrightarrow> j' \<noteq> selfID)"
  using validate_refs_ok [OF assms(1), of selfID selfName "groupRefTargetNames items" n] assms(2,3)
  by (simp add: validateGroupReferences_def)

lemma duplicates_distinct: "validateGroupItemDuplicates items = None \<Longrightarrow> distinct (map member_key items)"
  using check_duplicates_None [of "[]" "[]" items] by (simp add: validateGroupItemDuplicates_def)

lemma edges_from_group: "catalog_ok s \<Longrightarrow> (a, b) \<in> ref_edges s \<Longrightarrow> mhas (gs_groups s) b"
  using catalog_ok_index by (fastforce simp: ref_edges_def mhas_def)

lemma store_group_maps:
  "map_of (gs_groups (store_group g s)) j = (if j = g_ID g then Some (groupSnapshot s g) else map_of (gs_groups s) j)"
  "map_of (gs_index (store_group g s)) n = (if n = g_Name g then Some (g_ID g) else map_of (gs_index s) n)"
  by (simp_all add: store_group_def)

lemma catalog_ok_create:
  assumes ok: "catalog_ok s" and db: "db_creates db req s"
  shows "catalog_ok (snd (GroupCreate db req s))"
proof -
  let ?name = "TrimSpace (g_Name req)"
  let ?raw = "map (\<lambda>item. (trim_ref item)\<lparr>it_ID := 0, it_GroupID := 0, it_ChannelModel := None\<rparr>) (g_Items req)"
  show ?thesis
  proof (cases "fst (GroupCreate db req s)")
    case (Some e)
    then show ?thesis using ok
      by (auto simp: GroupCreate_def Let_def split: if_splits sum.splits option.splits)
  next
    case None
    then obtain items k ids where c: "?name \<noteq> []" "normalizeAndValidateGroupItems s ?raw = Inr items"
      "validateGroupItemDuplicates items = None" "validateGroupReferences s 0 ?name items = None" "db = Some (k, ids)"
      by (auto simp: GroupCreate_def Let_def split: if_splits sum.splits option.splits)
    let ?g = "req\<lparr>g_ID := k, g_Name := ?name, g_ActiveItemID := 0,
       g_RelayConfig := NormalizeGroupRelayConfig (g_RelayConfig req),
       g_Items := sortGroupItems (number_items k ids items)\<rparr>"
    have res: "snd (GroupCreate db req s) = store_group ?g s"
      using c by (simp add: GroupCreate_def Let_def)
    have new: "k \<noteq> 0" "map_of (gs_groups s) k = None" "map_of (gs_index s) ?name = None"
      using db c(5) by (auto simp: db_creates_def mhas_def)
    have no_index: "map_of (gs_index s) n \<noteq> Some k" for n
      using catalog_ok_index [OF ok, of n k] new(2) by auto
    have distinct: "distinct (map member_key (sortGroupItems (number_items k ids items)))"
      using number_items_distinct [of "[]" items k ids] duplicates_distinct [OF c(3)] by (simp add: sorted_keys)
    have unreachable: "(j, k) \<notin> (ref_edges s)\<^sup>*" if "mhas (gs_groups s) j" for j
    proof
      assume "(j, k) \<in> (ref_edges s)\<^sup>*"
      then show False
      proof (cases rule: rtranclE)
        case base
        with that new(2) show ?thesis by (simp add: mhas_def)
      next
        case (step y)
        from edges_from_group [OF ok step(2)] new(2) show ?thesis by (simp add: mhas_def)
      qed
    qed
    show ?thesis
      unfolding res
    proof (rule catalog_ok_put [OF ok, of _ k "groupSnapshot s ?g"])
      show "map_of (gs_groups (store_group ?g s)) j = (if j = k then Some (groupSnapshot s ?g) else map_of (gs_groups s) j)" for j
        by (simp add: store_group_maps)
      show "map_of (gs_index (store_group ?g s)) n = Some j \<longleftrightarrow> map_of (gs_index s) n = Some j \<and> j \<noteq> k"
        if "n \<noteq> g_Name (groupSnapshot s ?g)" for n j
        using that no_index [of n] by (auto simp: store_group_maps)
      show "\<exists>j. map_of (gs_index s) n = Some j \<and> (\<forall>j'. (j, j') \<in> (ref_edges s)\<^sup>* \<longrightarrow> j' \<noteq> k)"
        if "n \<in> ref_names (g_Items (groupSnapshot s ?g))" for n
      proof -
        from that have "n \<in> ref_names items" using number_items_names [of k ids items] by (auto simp: sorted_keys)
        from validate_names [OF ok c(4) this] obtain j where j: "map_of (gs_index s) n = Some j" by blast
        then have "mhas (gs_groups s) j" using catalog_ok_index [OF ok] by (auto simp: mhas_def)
        with j unreachable show ?thesis by blast
      qed
    qed (use c(1) new no_index distinct in \<open>simp_all add: store_group_maps\<close>)
  qed
qed

lemma no_referrer:
  assumes ok: "catalog_ok s" and wf: "mwf (gs_groups s)" and none: "firstGroupReferrer s name k = []"
    and h: "map_of (gs_groups s) j = Some h" "j \<noteq> k"
  shows "name \<notin> ref_names (g_Items h)"
proof
  assume "name \<in> ref_names (g_Items h)"
  then have refers: "refers_to name h"
    by (auto simp: ref_names_def refers_to_def list_ex_iff member_key_def split: if_splits)
  have mem: "(j, h) \<in> set (gs_groups s)" using h(1) by (rule map_of_SomeD)
  have "g_ID h = j" using catalog_ok_group [OF ok h(1)] by (simp add: group_ok_def)
  with refers mem h(2) have "find (\<lambda>(_, g). g_ID g \<noteq> k \<and> refers_to name g) (gs_groups s) \<noteq> None"
    by (auto simp: find_None_iff)
  then obtain j' g where found: "find (\<lambda>(_, g). g_ID g \<noteq> k \<and> refers_to name g) (gs_groups s) = Some (j', g)" by auto
  then have "(j', g) \<in> set (gs_groups s)" by (auto dest: find_SomeD)
  then have "map_of (gs_groups s) j' = Some g" using wf by (simp add: mwf_def)
  from catalog_ok_group [OF ok this] found none show False by (simp add: group_ok_def firstGroupReferrer_def)
qed

lemma ref_names_keys: "map member_key xs = map member_key ys \<Longrightarrow> ref_names xs = ref_names ys"
  unfolding ref_names_def by (metis set_map)

lemma ranked_keys:
  "map member_key (map (\<lambda>item. case map_of ps (it_ID item) of None \<Rightarrow> item | Some p \<Rightarrow> item\<lparr>it_Priority := p\<rparr>) items) =
    map member_key items"
proof (induction items)
  case (Cons item items)
  then show ?case by (cases "map_of ps (it_ID item)") (simp_all add: member_key_def IsGroupRef_def)
qed simp

lemma updated_names:
  "ref_names (g_Items (updated_group req g items ids)) \<subseteq>
     ref_names (filter (\<lambda>item. it_ID item \<notin> set (up_ItemsToDelete req)) (g_Items g) @ items)"
  "distinct (map member_key (filter (\<lambda>item. it_ID item \<notin> set (up_ItemsToDelete req)) (g_Items g) @ items)) \<Longrightarrow>
     distinct (map member_key (g_Items (updated_group req g items ids)))"
proof -
  let ?kept = "filter (\<lambda>item. it_ID item \<notin> set (up_ItemsToDelete req)) (g_Items g)"
  let ?ranked = "map (\<lambda>item. case map_of (up_ItemsToUpdate req) (it_ID item) of
      None \<Rightarrow> item | Some p \<Rightarrow> item\<lparr>it_Priority := p\<rparr>) ?kept"
  have keys: "map member_key ?ranked = map member_key ?kept" by (rule ranked_keys)
  have names: "ref_names ?ranked = ref_names ?kept" by (rule ref_names_keys [OF keys])
  have items: "g_Items (updated_group req g items ids) = sortGroupItems (?ranked @ number_items (g_ID g) ids items)"
    by (simp add: updated_group_def Let_def)
  show "ref_names (g_Items (updated_group req g items ids)) \<subseteq> ref_names (?kept @ items)"
    unfolding items sorted_keys names_append names using number_items_names by blast
  assume "distinct (map member_key (?kept @ items))"
  then have "distinct (map member_key (?ranked @ items))" unfolding map_append keys .
  from number_items_distinct [OF this] show "distinct (map member_key (g_Items (updated_group req g items ids)))"
    unfolding items sorted_keys .
qed

text \<open>A refused update changes nothing; an accepted one passed every check.\<close>

lemma GroupUpdate_cases:
  obtains (refused) e where "GroupUpdate db req s = (Some e, s)"
  | (accepted) g name items ids where "map_of (gs_groups s) (up_ID req) = Some g"
      "name = (case up_Name req of None \<Rightarrow> g_Name g | Some n \<Rightarrow> TrimSpace n)"
      "\<not> (name = [] \<and> up_Name req \<noteq> None)"
      "\<not> (name \<noteq> g_Name g \<and> firstGroupReferrer s (g_Name g) (up_ID req) \<noteq> [])"
      "validateGroupItemDuplicates (filter (\<lambda>item. it_ID item \<notin> set (up_ItemsToDelete req)) (g_Items g) @ items) = None"
      "validateGroupReferences s (up_ID req) (g_Name g)
         (filter (\<lambda>item. it_ID item \<notin> set (up_ItemsToDelete req)) (g_Items g) @ items) = None"
      "db = Some ids"
      "GroupUpdate db req s = (None,
         let s1 = store_group (updated_group req g items ids) s
         in if g_Name g \<noteq> name then s1\<lparr>gs_index := mdel (g_Name g) (gs_index s1)\<rparr> else s1)"
proof (cases "map_of (gs_groups s) (up_ID req)")
  case None
  then show thesis by (intro refused) (simp add: GroupUpdate_def)
next
  case (Some g)
  define name where "name = (case up_Name req of None \<Rightarrow> g_Name g | Some n \<Rightarrow> TrimSpace n)"
  let ?kept = "filter (\<lambda>item. it_ID item \<notin> set (up_ItemsToDelete req)) (g_Items g)"
  let ?norm = "normalizeAndValidateGroupItems s (map trim_ref (up_ItemsToAdd req))"
  note body = GroupUpdate_def [of db req s, unfolded Some option.case Let_def, folded name_def]
  show thesis
  proof (cases "name = [] \<and> up_Name req \<noteq> None")
    case True
    then show thesis by (intro refused) (simp add: body)
  next
    case c1: False
    show thesis
    proof (cases "name \<noteq> g_Name g \<and> firstGroupReferrer s (g_Name g) (up_ID req) \<noteq> []")
      case True
      show thesis by (rule refused) (simp only: body if_not_P [OF c1] if_P [OF True])
    next
      case c2: False
      note body2 = body [unfolded if_not_P [OF c1] if_not_P [OF c2]]
      show thesis
      proof (cases ?norm)
        case (Inl e)
        show thesis by (rule refused) (simp only: body2 Inl sum.case)
      next
        case (Inr items)
        note body3 = body2 [unfolded Inr sum.case]
        show thesis
        proof (cases "validateGroupItemDuplicates (?kept @ items)")
          case (Some e)
          show thesis by (rule refused) (simp only: body3 Some option.case)
        next
          case c4: None
          show thesis
          proof (cases "validateGroupReferences s (up_ID req) (g_Name g) (?kept @ items)")
            case (Some e)
            show thesis by (rule refused) (simp only: body3 c4 Some option.case)
          next
            case c5: None
            show thesis
            proof (cases db)
              case None
              show thesis by (rule refused [of ErrDatabase], simp only: body3 c4 c5 option.case, simp only: None option.case)
            next
              case c6: (Some ids)
              show thesis
                by (rule accepted [OF Some name_def c1 c2 c4 c5 c6]) (simp only: body3 c4 c5 option.case, simp only: c6 option.case Let_def)
            qed
          qed
        qed
      qed
    qed
  qed
qed

lemma catalog_ok_update:
  assumes ok: "catalog_ok s" and wf: "mwf (gs_groups s)" and db: "db_updates db req s"
  shows "catalog_ok (snd (GroupUpdate db req s))"
proof (cases rule: GroupUpdate_cases [of db req s])
  case (refused e)
  with ok show ?thesis by simp
next
  case (accepted g name items ids)
  let ?k = "up_ID req"
  note old = accepted(1) and name_def = accepted(2) and c1 = accepted(3) and c2 = accepted(4)
    and c4 = accepted(5) and c5 = accepted(6) and c6 = accepted(7)
  note gok = catalog_ok_group [OF ok old]
  let ?g = "updated_group req g items ids"
  let ?s1 = "store_group ?g s"
  let ?s' = "if g_Name g \<noteq> name then ?s1\<lparr>gs_index := mdel (g_Name g) (gs_index ?s1)\<rparr> else ?s1"
  have res: "snd (GroupUpdate db req s) = ?s'"
    unfolding accepted(8) snd_conv Let_def ..
  have gname: "g_Name ?g = name" "g_ID ?g = ?k"
    using gok by (simp_all add: updated_group_def Let_def name_def group_ok_def)
  have name_ne: "name \<noteq> []" using c1 gok by (auto simp: name_def group_ok_def)
  have taken: "map_of (gs_index s) name \<in> {None, Some ?k}"
    using db c6 gok by (auto simp: db_updates_def name_def group_ok_def split: option.splits)
  have owner: "n = g_Name g" if "map_of (gs_index s) n = Some ?k" for n
  proof -
    from catalog_ok_index [OF ok that] obtain g' where "map_of (gs_groups s) ?k = Some g'" "g_Name g' = n" by blast
    with old show ?thesis by simp
  qed
  define g' where "g' = groupSnapshot s ?g"
  have g': "g_Name g' = name" "g_ID g' = ?k" "ref_names (g_Items g') = ref_names (g_Items ?g)"
    "map member_key (g_Items g') = map member_key (g_Items ?g)"
    unfolding g'_def snapshot_fields gname by (rule refl)+
  define s' where "s' = ?s'"
  have groups: "map_of (gs_groups s') j = (if j = ?k then Some g' else map_of (gs_groups s) j)" for j
    by (simp add: s'_def g'_def store_group_maps gname)
  have index: "map_of (gs_index s') n = (if n = name then Some ?k else if n = g_Name g then None else map_of (gs_index s) n)" for n
    by (simp add: s'_def store_group_maps gname)
  have oldname: "map_of (gs_index s) (g_Name g) = Some ?k" "?k \<noteq> 0"
    using gok by (simp_all add: group_ok_def)
  have "catalog_ok s'"
  proof (rule catalog_ok_put [OF ok groups g'(2)])
    show "?k \<noteq> 0" by (rule oldname)
    show "g_Name g' \<noteq> []" unfolding g'(1) by (rule name_ne)
    show "distinct (map member_key (g_Items g'))"
      unfolding g'(4) by (rule updated_names(2) [OF duplicates_distinct [OF c4]])
    show "map_of (gs_index s') (g_Name g') = Some ?k" unfolding g'(1) index by simp
    show "map_of (gs_index s) (g_Name g') \<in> {None, Some ?k}" unfolding g'(1) by (rule taken)
    show "map_of (gs_index s') n = Some j \<longleftrightarrow> map_of (gs_index s) n = Some j \<and> j \<noteq> ?k" if "n \<noteq> g_Name g'" for n j
    proof (cases "n = g_Name g")
      case True
      have "map_of (gs_index s') n = None" using that unfolding g'(1) index True by simp
      moreover have "map_of (gs_index s) n = Some ?k" unfolding True by (rule oldname)
      ultimately show ?thesis by simp
    next
      case False
      have "map_of (gs_index s') n = map_of (gs_index s) n" using that False unfolding g'(1) index by simp
      with owner [of n] False show ?thesis by auto
    qed
    show "old \<notin> ref_names (g_Items h)"
      if "map_of (gs_index s) old = Some ?k" "old \<noteq> g_Name g'" "map_of (gs_groups s) j = Some h" "j \<noteq> ?k" for old j h
    proof -
      from owner [OF that(1)] that(2) g'(1) c2 have "old = g_Name g" "firstGroupReferrer s (g_Name g) ?k = []" by auto
      with no_referrer [OF ok wf _ that(3,4)] show ?thesis by blast
    qed
    show "\<exists>j. map_of (gs_index s) n = Some j \<and> (\<forall>j'. (j, j') \<in> (ref_edges s)\<^sup>* \<longrightarrow> j' \<noteq> ?k)"
      if "n \<in> ref_names (g_Items g')" for n
    proof (rule validate_names [OF ok c5])
      from that have "n \<in> ref_names (g_Items ?g)" unfolding g'(3) .
      with updated_names(1) show "n \<in> ref_names (filter (\<lambda>item. it_ID item \<notin> set (up_ItemsToDelete req)) (g_Items g) @ items)"
        by blast
    qed
  qed
  then show ?thesis unfolding res s'_def .
qed


subsection \<open>Reachable stores\<close>

lemma catalog_ok_switch:
  assumes ok: "catalog_ok s" and index: "gs_index s' = gs_index s"
    and same: "\<And>j. map_option (\<lambda>g. (g_ID g, g_Name g, map member_key (g_Items g))) (map_of (gs_groups s') j) =
      map_option (\<lambda>g. (g_ID g, g_Name g, map member_key (g_Items g))) (map_of (gs_groups s) j)"
  shows "catalog_ok s'"
proof -
  have old: "\<exists>g. map_of (gs_groups s) j = Some g \<and> g_ID g = g_ID h \<and> g_Name g = g_Name h \<and>
      map member_key (g_Items g) = map member_key (g_Items h)" if "map_of (gs_groups s') j = Some h" for j h
    using same [of j] that by (cases "map_of (gs_groups s) j") auto
  have new: "\<exists>h. map_of (gs_groups s') j = Some h \<and> g_Name h = g_Name g" if "map_of (gs_groups s) j = Some g" for j g
    using same [of j] that by (cases "map_of (gs_groups s') j") auto
  have "group_ok s' j h" if h: "map_of (gs_groups s') j = Some h" for j h
  proof -
    from old [OF h] obtain g where g: "map_of (gs_groups s) j = Some g" "g_ID g = g_ID h" "g_Name g = g_Name h"
      "map member_key (g_Items g) = map member_key (g_Items h)" by blast
    from catalog_ok_group [OF ok g(1)] g(2,3) g(4) ref_names_keys [OF g(4)] show ?thesis
      unfolding group_ok_def index by simp
  qed
  moreover have "\<exists>h. map_of (gs_groups s') j = Some h \<and> g_Name h = n" if "map_of (gs_index s') n = Some j" for n j
    using catalog_ok_index [OF ok, of n j] that new index by metis
  moreover have "ref_edges s' \<subseteq> ref_edges s"
  proof
    fix p assume "p \<in> ref_edges s'"
    then obtain a b h n where p: "p = (a, b)" "map_of (gs_groups s') a = Some h" "n \<in> ref_names (g_Items h)"
      "map_of (gs_index s') n = Some b" by (auto simp: ref_edges_def)
    from old [OF p(2)] obtain g where g: "map_of (gs_groups s) a = Some g"
      "map member_key (g_Items g) = map member_key (g_Items h)" by blast
    with p(1,3,4) ref_names_keys [OF g(2)] index show "p \<in> ref_edges s" by (auto simp: ref_edges_def)
  qed
  ultimately show ?thesis using ok acyclic_subset by (auto simp: catalog_ok_def)
qed

lemma catalog_ok_active: "catalog_ok s \<Longrightarrow> catalog_ok (snd (GroupActiveItemUpdate db k itemID s))"
proof (cases "map_of (gs_groups s) k")
  case (Some g)
  assume ok: "catalog_ok s"
  let ?s' = "snd (GroupActiveItemUpdate db k itemID s)"
  have "?s' = s \<or> (\<exists>a. ?s' = s\<lparr>gs_groups := mput k (groupSnapshot s (g\<lparr>g_ActiveItemID := a\<rparr>)) (gs_groups s)\<rparr>)"
    by (simp add: GroupActiveItemUpdate_def Some Let_def split: option.splits) blast
  then show ?thesis
  proof
    assume "\<exists>a. ?s' = s\<lparr>gs_groups := mput k (groupSnapshot s (g\<lparr>g_ActiveItemID := a\<rparr>)) (gs_groups s)\<rparr>"
    then obtain a where s': "?s' = s\<lparr>gs_groups := mput k (groupSnapshot s (g\<lparr>g_ActiveItemID := a\<rparr>)) (gs_groups s)\<rparr>" ..
    show ?thesis
      unfolding s' by (rule catalog_ok_switch [OF ok]) (simp_all add: Some)
  qed (use ok in simp)
qed (simp add: GroupActiveItemUpdate_def)

lemma catalog_ok_delete:
  assumes ok: "catalog_ok s" and wf: "mwf (gs_groups s)"
  shows "catalog_ok (snd (GroupDel db k s))"
proof (cases "fst (GroupDel db k s) = None")
  case False
  with ok show ?thesis by (auto simp: GroupDel_def Let_def split: option.splits)
next
  case True
  then obtain g where g: "map_of (gs_groups s) k = Some g" and none: "firstGroupReferrer s (g_Name g) k = []"
    by (auto simp: GroupDel_def Let_def split: option.splits if_splits)
  define s' where "s' = s\<lparr>gs_groups := mdel k (gs_groups s), gs_index := mdel (g_Name g) (gs_index s)\<rparr>"
  have res: "snd (GroupDel db k s) = s'" using True g none
    by (auto simp: GroupDel_def Let_def s'_def split: if_splits)
  have groups: "map_of (gs_groups s') j = (if j = k then None else map_of (gs_groups s) j)" for j
    by (simp add: s'_def)
  have index: "map_of (gs_index s') n = (if n = g_Name g then None else map_of (gs_index s) n)" for n
    by (simp add: s'_def)
  have gok: "map_of (gs_index s) (g_Name g) = Some k" using catalog_ok_group [OF ok g] by (simp add: group_ok_def)
  have unreferred: "g_Name g \<notin> ref_names (g_Items h)" if "map_of (gs_groups s) j = Some h" "j \<noteq> k" for j h
    by (rule no_referrer [OF ok wf none that])
  have "group_ok s' j h" if "map_of (gs_groups s') j = Some h" for j h
  proof -
    from that groups have h: "map_of (gs_groups s) j = Some h" "j \<noteq> k" by (auto split: if_splits)
    from catalog_ok_group [OF ok h(1)] have hok: "group_ok s j h" .
    with gok h(2) have "g_Name h \<noteq> g_Name g" by (auto simp: group_ok_def)
    with hok unreferred [OF h] show ?thesis by (auto simp: group_ok_def mhas_def index)
  qed
  moreover have "\<exists>h. map_of (gs_groups s') j = Some h \<and> g_Name h = n" if "map_of (gs_index s') n = Some j" for n j
    using catalog_ok_index [OF ok, of n j] that gok g by (auto simp: index groups split: if_splits)
  moreover have "ref_edges s' \<subseteq> ref_edges s"
    by (auto simp: ref_edges_def groups index split: if_splits)
  ultimately show ?thesis unfolding res using ok acyclic_subset by (auto simp: catalog_ok_def)
qed

lemma groups_wf_step: "admin_step s s' \<Longrightarrow> mwf (gs_groups s) \<Longrightarrow> mwf (gs_groups s')"
proof (induction rule: admin_step.induct)
  case (adm_create db req s)
  then show ?case by (simp add: GroupCreate_def Let_def store_group_def split: option.splits sum.splits)
next
  case (adm_update db req s)
  then show ?case by (cases rule: GroupUpdate_cases [of db req s]) (simp_all add: Let_def store_group_def)
next
  case (adm_active ok k itemID s)
  then show ?case by (simp add: GroupActiveItemUpdate_def Let_def split: option.splits)
next
  case (adm_delete ok k s)
  then show ?case by (simp add: GroupDel_def Let_def split: option.splits)
qed simp

lemma admin_invariant: "admin_reachable s \<Longrightarrow> catalog_ok s \<and> mwf (gs_groups s)"
proof (induction rule: admin_reachable.induct)
  case adm_start
  show ?case by (simp add: empty_store_def catalog_ok_def ref_edges_def acyclic_def mwf_def)
next
  case (adm_next s s')
  from adm_next.hyps(2) adm_next.IH have "catalog_ok s'"
  proof (cases rule: admin_step.cases)
    case (adm_models models)
    with adm_next.IH show ?thesis by (auto intro!: catalog_ok_switch [of s])
  qed (auto intro: catalog_ok_create catalog_ok_update catalog_ok_active catalog_ok_delete)
  with groups_wf_step [OF adm_next.hyps(2)] adm_next.IH show ?case by blast
qed


lemma ref_resolves:
  assumes ok: "catalog_ok s" and g: "map_of (gs_groups s) k = Some g" and n: "n \<in> ref_names (g_Items g)"
  shows "\<exists>target. GroupGetByName s n = Some target \<and> g_Name target = n \<and> (k, g_ID target) \<in> ref_edges s"
proof -
  from catalog_ok_group [OF ok g] n obtain j where j: "map_of (gs_index s) n = Some j" by (auto simp: group_ok_def mhas_def)
  from get_by_name(2) [OF ok j] obtain h where h: "GroupGetByName s n = Some (groupSnapshot s h)" "map_of (gs_groups s) j = Some h" by blast
  from catalog_ok_index [OF ok j] h(2) have "g_Name h = n" by simp
  moreover have "g_ID h = j" using catalog_ok_group [OF ok h(2)] by (simp add: group_ok_def)
  moreover have "(k, j) \<in> ref_edges s" unfolding ref_edges_def using g n j by blast
  ultimately show ?thesis using h(1) by simp
qed

definition demo_ref :: "string \<Rightarrow> GroupItem" where
  "demo_ref n = zero_GroupItem\<lparr>it_RefGroupName := n\<rparr>"

definition demo_new :: "string \<Rightarrow> GroupItem list \<Rightarrow> Group" where
  "demo_new n items = \<lparr>g_ID = 0, g_Name = n, g_Mode = GroupModeFailover, g_ActiveItemID = 0,
     g_RelayConfig = DefaultGroupRelayConfig, g_DisplayOrder = 0, g_Items = items\<rparr>"

definition demo_store1 :: group_store where
  "demo_store1 = snd (GroupCreate (Some (1, [])) (demo_new ''a'' []) empty_store)"

definition demo_store2 :: group_store where
  "demo_store2 = snd (GroupCreate (Some (2, [5])) (demo_new ''b'' [demo_ref ''a'']) demo_store1)"

definition add_ref :: "int \<Rightarrow> string \<Rightarrow> GroupUpdateRequest" where
  "add_ref k n = \<lparr>up_ID = k, up_Name = None, up_Mode = None, up_DisplayOrder = None, up_RelayConfig = None,
     up_ItemsToAdd = [demo_ref n], up_ItemsToUpdate = [], up_ItemsToDelete = []\<rparr>"

lemma demo_stores_reachable: "admin_reachable demo_store2"
proof -
  have "admin_step empty_store demo_store1" unfolding demo_store1_def
    by (rule adm_create) (simp add: db_creates_def empty_store_def)
  moreover have "admin_step demo_store1 demo_store2" unfolding demo_store2_def
    by (rule adm_create) code_simp
  ultimately show ?thesis using adm_start by (meson adm_next)
qed

lemma demo_store2_groups: "map_option g_Name (map_of (gs_groups demo_store2) 2) = Some ''b''"
  by code_simp



text \<open>
  The operations hold no lock between their checks and their writes. Two updates checked against the same store
  both pass, and the store after both writes has a cycle.
\<close>

definition demo_apart :: group_store where
  "demo_apart = snd (GroupCreate (Some (2, [])) (demo_new ''b'' []) demo_store1)"

definition write_ref :: "int \<Rightarrow> string \<Rightarrow> group_store \<Rightarrow> group_store" where
  "write_ref k n s = (case map_of (gs_groups s) k of
     None \<Rightarrow> s | Some g \<Rightarrow> store_group (updated_group (add_ref k n) g [demo_ref n] [k + 10]) s)"

lemma unlocked_updates_cycle:
  "fst (GroupUpdate (Some [11]) (add_ref 1 ''b'') demo_apart) = None"
  "fst (GroupUpdate (Some [12]) (add_ref 2 ''a'') demo_apart) = None"
  "map_option (map it_RefGroupName \<circ> g_Items) (map_of (gs_groups (write_ref 2 ''a'' (write_ref 1 ''b'' demo_apart))) 1) = Some [''b'']"
  "map_option (map it_RefGroupName \<circ> g_Items) (map_of (gs_groups (write_ref 2 ''a'' (write_ref 1 ''b'' demo_apart))) 2) = Some [''a'']"
  by (code_simp, code_simp, code_simp, code_simp)

text \<open>A diamond is refused as a cycle, because \<^verbatim>\<open>visited\<close> is not restored on the way back.\<close>

definition demo_store3 :: group_store where
  "demo_store3 = snd (GroupCreate (Some (3, [6])) (demo_new ''c'' [demo_ref ''a'']) demo_store2)"

definition demo_store4 :: group_store where
  "demo_store4 = snd (GroupCreate (Some (4, [7, 8])) (demo_new ''d'' [demo_ref ''b'', demo_ref ''c'']) demo_store3)"

lemma diamond_refused:
  "fst (GroupCreate (Some (5, [9])) (demo_new ''e'' [demo_ref ''d'']) demo_store4) = Some (ErrGroupRefCycle ''a'')"
  by code_simp

end
