(* ===== verification/Eval_Rank.thy ===== *)
theory Eval_Rank
  imports Group_Model Utf8_Text "HOL-Library.Multiset"
begin

text \<open>
  \<^verbatim>\<open>internal/op/model_eval_rank.go\<close>: the persistent ranking of evaluated models. The table is the list of its
  rows with the next automatic key. Every writer holds \<^verbatim>\<open>modelEvalRankMu\<close> and writes in one statement or one
  transaction, so each operation is one function; a failing database leaves the table as it was. The times of a
  row are left out. What the regular expressions of \<^verbatim>\<open>redactSensitiveText\<close> hide is the argument \<open>redact\<close>.
\<close>

datatype ModelEvalOutcome = ModelEvalOK | ModelEvalViolation | ModelEvalError | ModelEvalManual

record ModelEvalRank =
  rk_ID :: int
  rk_ChannelID :: int
  rk_ChannelModelID :: int
  rk_ChannelName :: string
  rk_ChannelType :: string
  rk_ModelName :: string
  rk_Outcome :: ModelEvalOutcome
  rk_Error :: string
  rk_Content :: string
  rk_ContentTruncated :: bool
  rk_PromptTokens :: int
  rk_CompletionTokens :: int
  rk_LatencyMS :: int
  rk_SourceEvalID :: int
  rk_Position :: int

record rank_table =
  rt_rows :: "ModelEvalRank list"
  rt_next :: int

datatype rank_error =
    ErrEvalRankNotFound
  | ErrEvalRankMoveBounds
  | ErrEvalRankInvalidPosition
  | ErrEvalRankMoveErrorOutcome
  | ErrEvalRankModelUnavailable
  | ErrEvalRankErrorOutcome
  | ErrRankDatabase

definition isRankableOutcome :: "ModelEvalOutcome \<Rightarrow> bool" where
  "isRankableOutcome outcome \<longleftrightarrow> outcome \<in> {ModelEvalOK, ModelEvalViolation, ModelEvalManual}"

definition ModelEvalMaxContentBytes :: nat where
  "ModelEvalMaxContentBytes = 1024 * 1024"

text \<open>\<^verbatim>\<open>WHERE outcome IN ... ORDER BY position ASC, id ASC\<close>.\<close>

definition ModelEvalRankList :: "rank_table \<Rightarrow> ModelEvalRank list" where
  "ModelEvalRankList t =
    sort_key rk_Position (sort_key rk_ID (filter (\<lambda>r. isRankableOutcome (rk_Outcome r)) (rt_rows t)))"

definition max_position :: "rank_table \<Rightarrow> int" where
  "max_position t =
    foldr max (map rk_Position (filter (\<lambda>r. isRankableOutcome (rk_Outcome r) \<and> 0 \<le> rk_Position r) (rt_rows t))) (-1)"

definition nextRankablePosition :: "rank_table \<Rightarrow> int" where
  "nextRankablePosition t = max_position t + 1"

definition rank_key :: "ModelEvalRank \<Rightarrow> int \<times> string" where
  "rank_key r = (rk_ChannelID r, rk_ModelName r)"

definition insert_rank :: "ModelEvalRank \<Rightarrow> rank_table \<Rightarrow> rank_table" where
  "insert_rank r t = t\<lparr>rt_rows := rt_rows t @ [r\<lparr>rk_ID := rt_next t\<rparr>], rt_next := rt_next t + 1\<rparr>"

definition ModelEvalRankUpsert ::
    "(string \<Rightarrow> string) \<Rightarrow> bool \<Rightarrow> ModelEvalRank \<Rightarrow> rank_table \<Rightarrow> rank_error option \<times> rank_table" where
  "ModelEvalRankUpsert redact db rank t =
    (if \<not> isRankableOutcome (rk_Outcome rank) then (None, t)
     else
       let cutoff = ModelEvalMaxContentBytes < length (rk_Content rank);
           rank = (if cutoff then rank\<lparr>rk_Content := truncateUTF8Bytes (rk_Content rank) ModelEvalMaxContentBytes,
                                     rk_ContentTruncated := True\<rparr> else rank);
           rank = rank\<lparr>rk_Error := truncateUTF8Bytes (redact (rk_Error rank)) 4096\<rparr>
       in if \<not> db then (Some ErrRankDatabase, t)
          else case find (\<lambda>r. rank_key r = rank_key rank) (rt_rows t) of
            Some existing \<Rightarrow>
              let rank = rank\<lparr>rk_Position :=
                    (if isRankableOutcome (rk_Outcome existing) \<and> 0 \<le> rk_Position existing
                     then rk_Position existing else nextRankablePosition t)\<rparr>
              in (None, t\<lparr>rt_rows := map (\<lambda>r. if rk_ID r = rk_ID existing then rank\<lparr>rk_ID := rk_ID r\<rparr> else r) (rt_rows t)\<rparr>)
          | None \<Rightarrow> (None, insert_rank (rank\<lparr>rk_Position := nextRankablePosition t\<rparr>) t))"

subsection \<open>Moving an entry\<close>

text \<open>Go's \<^verbatim>\<open>copy(xs[d:d+n], xs[s:s+n])\<close>.\<close>

definition go_copy :: "'a list \<Rightarrow> nat \<Rightarrow> nat \<Rightarrow> nat \<Rightarrow> 'a list" where
  "go_copy xs d s n = take d xs @ take n (drop s xs) @ drop (d + n) xs"

definition shift_row :: "nat \<Rightarrow> nat \<Rightarrow> 'a list \<Rightarrow> 'a list" where
  "shift_row idx nxt xs =
    (let moving = xs ! idx;
         shifted = (if nxt < idx then go_copy xs (nxt + 1) nxt (idx - nxt)
                    else if idx < nxt then go_copy xs idx (idx + 1) (nxt - idx) else xs)
     in shifted[nxt := moving])"

fun find_index :: "('a \<Rightarrow> bool) \<Rightarrow> 'a list \<Rightarrow> nat option" where
  "find_index P [] = None"
| "find_index P (x # xs) = (if P x then Some 0 else map_option Suc (find_index P xs))"

text \<open>The updates of the last loop: a row whose position is already its index is left alone.\<close>

definition write_position :: "int \<times> ModelEvalRank \<Rightarrow> ModelEvalRank list \<Rightarrow> ModelEvalRank list" where
  "write_position p rows =
    (if rk_Position (snd p) = fst p then rows
     else map (\<lambda>r. if rk_ID r = rk_ID (snd p) then r\<lparr>rk_Position := fst p\<rparr> else r) rows)"

definition modelEvalRankReorder :: "bool \<Rightarrow> int \<Rightarrow> int \<Rightarrow> int \<Rightarrow> rank_table \<Rightarrow> rank_error option \<times> rank_table" where
  "modelEvalRankReorder db k direction position t =
    (if \<not> db then (Some ErrRankDatabase, t)
     else case find (\<lambda>r. rk_ID r = k) (rt_rows t) of
       None \<Rightarrow> (Some ErrEvalRankNotFound, t)
     | Some target \<Rightarrow>
         if \<not> isRankableOutcome (rk_Outcome target) then (Some ErrEvalRankMoveErrorOutcome, t)
         else let rankable = ModelEvalRankList t in
           case find_index (\<lambda>r. rk_ID r = k) rankable of
             None \<Rightarrow> (Some ErrEvalRankNotFound, t)
           | Some idx \<Rightarrow>
               let nxt = (if 0 < position then min position (int (length rankable)) - 1 else int idx + direction)
               in if nxt < 0 \<or> int (length rankable) \<le> nxt then (Some ErrEvalRankMoveBounds, t)
                  else let moved = shift_row idx (nat nxt) rankable
                       in (None, t\<lparr>rt_rows := fold write_position (zip (map int [0..<length moved]) moved) (rt_rows t)\<rparr>))"

definition ModelEvalRankMove :: "bool \<Rightarrow> int \<Rightarrow> int \<Rightarrow> rank_table \<Rightarrow> rank_error option \<times> rank_table" where
  "ModelEvalRankMove db k direction t =
    (if direction \<noteq> -1 \<and> direction \<noteq> 1 then (Some ErrEvalRankMoveBounds, t)
     else modelEvalRankReorder db k direction 0 t)"

definition ModelEvalRankSetPosition :: "bool \<Rightarrow> int \<Rightarrow> int \<Rightarrow> rank_table \<Rightarrow> rank_error option \<times> rank_table" where
  "ModelEvalRankSetPosition db k position t =
    (if position < 1 then (Some ErrEvalRankInvalidPosition, t) else modelEvalRankReorder db k 0 position t)"

definition ModelEvalRankRemove :: "bool \<Rightarrow> int \<Rightarrow> rank_table \<Rightarrow> rank_error option \<times> rank_table" where
  "ModelEvalRankRemove db k t =
    (if db then (None, t\<lparr>rt_rows := filter (\<lambda>r. rk_ID r \<noteq> k) (rt_rows t)\<rparr>) else (Some ErrRankDatabase, t))"

definition deleteEvalRanksByIDs :: "int list \<Rightarrow> rank_table \<Rightarrow> rank_table" where
  "deleteEvalRanksByIDs rankIDs t = t\<lparr>rt_rows := filter (\<lambda>r. rk_ID r \<notin> set rankIDs) (rt_rows t)\<rparr>"

subsection \<open>Adding entries\<close>

text \<open>The caches of channels and channel models the entries are resolved with.\<close>

type_synonym channel_caches = "(int, Channel) gomap \<times> (int, ChannelModel) gomap"

definition live_target :: "channel_caches \<Rightarrow> int \<Rightarrow> (Channel \<times> ChannelModel) option" where
  "live_target caches cmID =
    (case map_of (snd caches) cmID of
       None \<Rightarrow> None
     | Some cm \<Rightarrow>
         (case map_of (fst caches) (cm_ChannelID cm) of
            None \<Rightarrow> None
          | Some channel \<Rightarrow> if ch_Enabled channel then Some (channel, cm) else None))"

text \<open>
  The text \<^verbatim>\<open>"%d:%s"\<close> of the source determines channel and model, because a number holds no colon, so the pair
  stands for it.
\<close>

fun manual_candidates :: "channel_caches \<Rightarrow> (int \<times> string) list \<Rightarrow> int list \<Rightarrow> rank_error + ModelEvalRank list" where
  "manual_candidates caches seen [] = Inr []"
| "manual_candidates caches seen (cmID # ids) =
    (case live_target caches cmID of
       None \<Rightarrow> Inl ErrEvalRankModelUnavailable
     | Some (channel, cm) \<Rightarrow>
         let key = (ch_ID channel, cm_Name cm) in
         if key \<in> set seen then manual_candidates caches seen ids
         else case manual_candidates caches (key # seen) ids of
                Inl e \<Rightarrow> Inl e
              | Inr cands \<Rightarrow>
                  Inr (\<lparr>rk_ID = 0, rk_ChannelID = ch_ID channel, rk_ChannelModelID = cm_ID cm, rk_ChannelName = ch_Name channel,
                        rk_ChannelType = ch_Type channel, rk_ModelName = cm_Name cm, rk_Outcome = ModelEvalManual,
                        rk_Error = [], rk_Content = [], rk_ContentTruncated = False, rk_PromptTokens = 0,
                        rk_CompletionTokens = 0, rk_LatencyMS = 0, rk_SourceEvalID = 0, rk_Position = 0\<rparr> # cands))"

fun number_manual :: "(int \<times> string) list \<Rightarrow> int \<Rightarrow> ModelEvalRank list \<Rightarrow> ModelEvalRank list" where
  "number_manual existing pos [] = []"
| "number_manual existing pos (c # cands) =
    (if rank_key c \<in> set existing then number_manual existing pos cands
     else c\<lparr>rk_Position := pos + 1\<rparr> # number_manual existing (pos + 1) cands)"

definition ModelEvalRankManualAdd ::
    "bool \<Rightarrow> channel_caches \<Rightarrow> int list \<Rightarrow> rank_table \<Rightarrow> (rank_error + ModelEvalRank list) \<times> rank_table" where
  "ModelEvalRankManualAdd db caches ids t =
    (if ids = [] then (Inr [], t)
     else case manual_candidates caches [] ids of
       Inl e \<Rightarrow> (Inl e, t)
     | Inr cands \<Rightarrow>
         if cands = [] then (Inr [], t)
         else if \<not> db then (Inl ErrRankDatabase, t)
         else let toCreate = number_manual (map rank_key (rt_rows t)) (max_position t) cands;
                  t' = fold insert_rank toCreate t
              in (Inr (ModelEvalRankList t'), t'))"

text \<open>The history record an entry is copied from, \<open>None\<close> when it is gone; its number is \<open>rk_SourceEvalID\<close>.\<close>

definition ModelEvalRankFromHistory ::
    "(string \<Rightarrow> string) \<Rightarrow> bool \<Rightarrow> channel_caches \<Rightarrow> ModelEvalRank option \<Rightarrow> rank_table \<Rightarrow>
      (rank_error + ModelEvalRank list) \<times> rank_table" where
  "ModelEvalRankFromHistory redact db caches history t =
    (case history of
       None \<Rightarrow> (Inl ErrEvalRankNotFound, t)
     | Some rec \<Rightarrow>
         if \<not> isRankableOutcome (rk_Outcome rec) then (Inl ErrEvalRankErrorOutcome, t)
         else if \<not> mhas (snd caches) (rk_ChannelModelID rec) then (Inl ErrEvalRankModelUnavailable, t)
         else case map_of (fst caches) (rk_ChannelID rec) of
                None \<Rightarrow> (Inl ErrEvalRankModelUnavailable, t)
              | Some channel \<Rightarrow>
                  if \<not> ch_Enabled channel then (Inl ErrEvalRankModelUnavailable, t)
                  else case ModelEvalRankUpsert redact db rec t of
                         (Some e, t') \<Rightarrow> (Inl e, t')
                       | (None, t') \<Rightarrow> (Inr (ModelEvalRankList t'), t'))"

text \<open>The operations as steps of the table.\<close>

datatype rank_op =
    op_upsert ModelEvalRank
  | op_reorder int int int
  | op_remove int
  | op_prune "int list"
  | op_manual channel_caches "int list"
  | op_history channel_caches "ModelEvalRank option"

fun rank_step :: "(string \<Rightarrow> string) \<Rightarrow> rank_op \<times> bool \<Rightarrow> rank_table \<Rightarrow> rank_table" where
  "rank_step redact (op_upsert r, db) t = snd (ModelEvalRankUpsert redact db r t)"
| "rank_step redact (op_reorder k d p, db) t = snd (modelEvalRankReorder db k d p t)"
| "rank_step redact (op_remove k, db) t = snd (ModelEvalRankRemove db k t)"
| "rank_step redact (op_prune ids, db) t = deleteEvalRanksByIDs ids t"
| "rank_step redact (op_manual caches ids, db) t = snd (ModelEvalRankManualAdd db caches ids t)"
| "rank_step redact (op_history caches h, db) t = snd (ModelEvalRankFromHistory redact db caches h t)"

definition empty_ranks :: rank_table where
  "empty_ranks = \<lparr>rt_rows = [], rt_next = 1\<rparr>"


subsection \<open>Invariant of the table\<close>

definition rank_row_ok :: "ModelEvalRank \<Rightarrow> bool" where
  "rank_row_ok r \<longleftrightarrow>
    isRankableOutcome (rk_Outcome r) \<and> 0 \<le> rk_Position r \<and> length (rk_Content r) \<le> ModelEvalMaxContentBytes \<and>
    length (rk_Error r) \<le> 4096"

definition ranks_ok :: "rank_table \<Rightarrow> bool" where
  "ranks_ok t \<longleftrightarrow>
    (\<forall>r \<in> set (rt_rows t). rank_row_ok r \<and> rk_ID r < rt_next t) \<and>
    distinct (map rk_ID (rt_rows t)) \<and> distinct (map rank_key (rt_rows t)) \<and> distinct (map rk_Position (rt_rows t))"

lemma rank_update_fields [simp]:
  "rank_key (r\<lparr>rk_ID := k\<rparr>) = rank_key r" "rank_key (r\<lparr>rk_Position := p\<rparr>) = rank_key r"
  "rank_key (r\<lparr>rk_Error := e\<rparr>) = rank_key r"
  "rank_key (r\<lparr>rk_Content := c, rk_ContentTruncated := b\<rparr>) = rank_key r"
  "rank_row_ok (r\<lparr>rk_ID := k\<rparr>) = rank_row_ok r"
  by (simp_all add: rank_key_def rank_row_ok_def)

lemma foldr_max_ge: "x \<in> set xs \<Longrightarrow> x \<le> foldr max xs (d :: int)"
  by (induction xs) auto

lemma foldr_max_default: "d \<le> foldr max xs (d :: int)"
  by (induction xs) auto

lemma max_position_ge: "ranks_ok t \<Longrightarrow> r \<in> set (rt_rows t) \<Longrightarrow> rk_Position r \<le> max_position t"
  unfolding max_position_def by (rule foldr_max_ge) (auto simp: ranks_ok_def rank_row_ok_def)

lemma max_position_default: "-1 \<le> max_position t"
  unfolding max_position_def by (rule foldr_max_default)

lemma ranks_ok_insert:
  assumes "ranks_ok t" and "rank_row_ok r" and "rank_key r \<notin> rank_key ` set (rt_rows t)"
    and "\<And>r'. r' \<in> set (rt_rows t) \<Longrightarrow> rk_Position r' < rk_Position r"
  shows "ranks_ok (insert_rank r t)"
  using assms by (fastforce simp: ranks_ok_def insert_rank_def)

lemma ranks_ok_filter: "ranks_ok t \<Longrightarrow> ranks_ok (t\<lparr>rt_rows := filter P (rt_rows t)\<rparr>)"
  by (auto simp: ranks_ok_def distinct_map intro: inj_on_subset)

lemma distinct_map_replace:
  assumes "distinct (map f xs)" and "distinct (map key xs)" and "x \<in> set xs" and "f (g x) = f x"
  shows "map f (map (\<lambda>y. if key y = key x then g y else y) xs) = map f xs"
  using assms by (auto simp: distinct_map inj_on_def)

lemma ranks_ok_replace:
  assumes ok: "ranks_ok t" and x: "x \<in> set (rt_rows t)"
    and new: "rank_row_ok r" "rank_key r = rank_key x" "rk_Position r = rk_Position x"
  shows "ranks_ok (t\<lparr>rt_rows := map (\<lambda>y. if rk_ID y = rk_ID x then r\<lparr>rk_ID := rk_ID y\<rparr> else y) (rt_rows t)\<rparr>)"
proof -
  let ?rows = "map (\<lambda>y. if rk_ID y = rk_ID x then r\<lparr>rk_ID := rk_ID y\<rparr> else y) (rt_rows t)"
  have d: "distinct (map rk_ID (rt_rows t))" "distinct (map rank_key (rt_rows t))" "distinct (map rk_Position (rt_rows t))"
    using ok by (simp_all add: ranks_ok_def)
  have "map rk_ID ?rows = map rk_ID (rt_rows t)" by (simp cong: map_cong)
  moreover have "map rank_key ?rows = map rank_key (rt_rows t)"
    by (rule distinct_map_replace [OF d(2) d(1) x]) (simp add: new)
  moreover have "map rk_Position ?rows = map rk_Position (rt_rows t)"
    by (rule distinct_map_replace [OF d(3) d(1) x]) (simp add: new)
  moreover have "rank_row_ok y \<and> rk_ID y < rt_next t" if "y \<in> set ?rows" for y
    using that ok new(1) by (auto simp: ranks_ok_def)
  ultimately show ?thesis using d unfolding ranks_ok_def by (simp del: map_map map_eq_conv set_map)
qed

lemma ranks_ok_upsert: "ranks_ok t \<Longrightarrow> ranks_ok (snd (ModelEvalRankUpsert redact db rank t))"
proof -
  assume ok: "ranks_ok t"
  define r where "r = (if ModelEvalMaxContentBytes < length (rk_Content rank)
      then rank\<lparr>rk_Content := truncateUTF8Bytes (rk_Content rank) ModelEvalMaxContentBytes, rk_ContentTruncated := True\<rparr>
      else rank)\<lparr>rk_Error := truncateUTF8Bytes (redact (rk_Error rank)) 4096\<rparr>"
  have key: "rank_key r = rank_key rank" and out: "rk_Outcome r = rk_Outcome rank"
    by (simp_all add: r_def)
  have bounds: "length (rk_Content r) \<le> ModelEvalMaxContentBytes" "length (rk_Error r) \<le> 4096"
    using truncate_length by (auto simp: r_def)
  show ?thesis
  proof (cases "isRankableOutcome (rk_Outcome rank) \<and> db")
    case False
    with ok show ?thesis by (auto simp: ModelEvalRankUpsert_def Let_def)
  next
    case True
    then have res: "ModelEvalRankUpsert redact db rank t =
      (case find (\<lambda>r'. rank_key r' = rank_key r) (rt_rows t) of
         Some ex \<Rightarrow> (None, t\<lparr>rt_rows := map (\<lambda>r'. if rk_ID r' = rk_ID ex
             then r\<lparr>rk_Position := (if isRankableOutcome (rk_Outcome ex) \<and> 0 \<le> rk_Position ex then rk_Position ex
                                   else nextRankablePosition t), rk_ID := rk_ID r'\<rparr> else r') (rt_rows t)\<rparr>)
       | None \<Rightarrow> (None, insert_rank (r\<lparr>rk_Position := nextRankablePosition t\<rparr>) t))"
      by (auto simp: ModelEvalRankUpsert_def Let_def r_def split: option.splits)
    show ?thesis
    proof (cases "find (\<lambda>r'. rank_key r' = rank_key r) (rt_rows t)")
      case None
      then have "rank_key r \<notin> rank_key ` set (rt_rows t)" by (auto simp: find_None_iff)
      moreover have "rk_Position r' < nextRankablePosition t" if "r' \<in> set (rt_rows t)" for r'
        using max_position_ge [OF ok that] by (simp add: nextRankablePosition_def)
      moreover have "rank_row_ok (r\<lparr>rk_Position := nextRankablePosition t\<rparr>)"
        using True bounds out max_position_default [of t] by (simp add: rank_row_ok_def nextRankablePosition_def)
      ultimately show ?thesis unfolding res None option.case snd_conv
        by (intro ranks_ok_insert [OF ok]) simp_all
    next
      case (Some ex)
      from find_SomeD [OF Some] have ex: "ex \<in> set (rt_rows t)" "rank_key ex = rank_key r" by auto
      with ok have "isRankableOutcome (rk_Outcome ex)" "0 \<le> rk_Position ex" by (auto simp: ranks_ok_def rank_row_ok_def)
      then have res': "snd (ModelEvalRankUpsert redact db rank t) =
        t\<lparr>rt_rows := map (\<lambda>r'. if rk_ID r' = rk_ID ex then (r\<lparr>rk_Position := rk_Position ex\<rparr>)\<lparr>rk_ID := rk_ID r'\<rparr> else r') (rt_rows t)\<rparr>"
        unfolding res Some by simp
      show ?thesis unfolding res' using True bounds out ex \<open>0 \<le> rk_Position ex\<close>
        by (intro ranks_ok_replace [OF ok ex(1)]) (simp_all add: rank_row_ok_def)
    qed
  qed
qed

subsection \<open>Moving a row\<close>

text \<open>The specification: take the row out and put it back at its new index.\<close>

definition place :: "nat \<Rightarrow> 'a \<Rightarrow> 'a list \<Rightarrow> 'a list" where
  "place n x xs = take n xs @ x # drop n xs"

lemma shift_row_place:
  assumes "idx < length xs" and "nxt < length xs"
  shows "shift_row idx nxt xs = place nxt (xs ! idx) (take idx xs @ drop (Suc idx) xs)"
proof (rule nth_equalityI)
  show len: "length (shift_row idx nxt xs) = length (place nxt (xs ! idx) (take idx xs @ drop (Suc idx) xs))"
    using assms by (auto simp: shift_row_def go_copy_def place_def Let_def)
  fix i assume "i < length (shift_row idx nxt xs)"
  then have "i < length xs" using assms by (auto simp: shift_row_def go_copy_def Let_def split: if_splits)
  then show "shift_row idx nxt xs ! i = place nxt (xs ! idx) (take idx xs @ drop (Suc idx) xs) ! i"
    using assms by (auto simp: shift_row_def go_copy_def place_def Let_def nth_append nth_list_update nth_Cons' min_def)
qed

lemma mset_place: "mset (place n x xs) = add_mset x (mset xs)"
  unfolding place_def by (simp, metis append_take_drop_id mset_append)

lemma mset_shift_row:
  assumes "idx < length xs" and "nxt < length xs"
  shows "mset (shift_row idx nxt xs) = mset xs"
  unfolding shift_row_place [OF assms] mset_place
  using id_take_nth_drop [OF assms(1)] by (metis mset_append mset.simps(2) union_mset_add_mset_right)

lemma find_index_Some: "find_index P xs = Some i \<Longrightarrow> i < length xs \<and> P (xs ! i)"
  by (induction xs arbitrary: i) (auto split: if_splits)

lemma find_index_exists: "x \<in> set xs \<Longrightarrow> P x \<Longrightarrow> find_index P xs \<noteq> None"
  by (induction xs) auto

lemma write_positions:
  "distinct (map (rk_ID \<circ> snd) ps) \<Longrightarrow>
    (\<And>p r. p \<in> set ps \<Longrightarrow> r \<in> set rows \<Longrightarrow> rk_ID r = rk_ID (snd p) \<Longrightarrow> rk_Position r = rk_Position (snd p)) \<Longrightarrow>
    fold write_position ps rows =
      map (\<lambda>r. case find (\<lambda>p. rk_ID (snd p) = rk_ID r) ps of None \<Rightarrow> r | Some p \<Rightarrow> r\<lparr>rk_Position := fst p\<rparr>) rows"
proof (induction ps arbitrary: rows)
  case (Cons p ps)
  have first: "write_position p rows = map (\<lambda>r. if rk_ID r = rk_ID (snd p) then r\<lparr>rk_Position := fst p\<rparr> else r) rows"
    using Cons.prems(2) [of p] by (auto simp: write_position_def intro!: map_idI [symmetric])
  have "fold write_position ps (write_position p rows) =
      map (\<lambda>r. case find (\<lambda>p. rk_ID (snd p) = rk_ID r) ps of None \<Rightarrow> r | Some p \<Rightarrow> r\<lparr>rk_Position := fst p\<rparr>) (write_position p rows)"
  proof (rule Cons.IH)
    show "distinct (map (rk_ID \<circ> snd) ps)" using Cons.prems(1) by (simp del: comp_apply)
    show "rk_Position r = rk_Position (snd q)"
      if "q \<in> set ps" "r \<in> set (write_position p rows)" "rk_ID r = rk_ID (snd q)" for q r
    proof -
      from that(2) obtain r0 where r0: "r0 \<in> set rows"
        "r = (if rk_ID r0 = rk_ID (snd p) then r0\<lparr>rk_Position := fst p\<rparr> else r0)" by (auto simp: first)
      have ne: "rk_ID (snd q) \<noteq> rk_ID (snd p)" using Cons.prems(1) that(1) by (auto simp: image_iff)
      have "rk_ID r = rk_ID r0" unfolding r0(2) by simp
      with ne that(3) have "rk_ID r0 \<noteq> rk_ID (snd p)" by simp
      then have "r = r0" unfolding r0(2) by simp
      with Cons.prems(2) [of q r0] r0(1) that show ?thesis by simp
    qed
  qed
  moreover have "find (\<lambda>q. rk_ID (snd q) = rk_ID (snd p)) ps = None"
    using Cons.prems(1) by (force simp: find_None_iff image_iff)
  ultimately show ?case by (auto simp: first)
qed simp


text \<open>In a table that keeps its invariant, the positions the loop writes are the indices of the new order.\<close>

definition renumbered :: "ModelEvalRank list \<Rightarrow> ModelEvalRank list" where
  "renumbered rows = map (\<lambda>(i, r). r\<lparr>rk_Position := int i\<rparr>) (enumerate 0 rows)"

lemma renumbered_fields:
  "map rk_Position (renumbered rows) = map int [0..<length rows]"
  "map rk_ID (renumbered rows) = map rk_ID rows" "map rank_key (renumbered rows) = map rank_key rows"
  "map (rk_Position_update (\<lambda>_. p)) (renumbered rows) = map (rk_Position_update (\<lambda>_. p)) rows"
  by (rule nth_equalityI; simp add: renumbered_def nth_enumerate_eq rank_key_def)+

lemma renumbered_member: "r \<in> set (renumbered rows) \<Longrightarrow> \<exists>r0 \<in> set rows. \<exists>i. r = r0\<lparr>rk_Position := int i\<rparr>"
  by (auto simp: renumbered_def in_set_enumerate_eq)

lemma all_rankable: "ranks_ok t \<Longrightarrow> filter (\<lambda>r. isRankableOutcome (rk_Outcome r)) (rt_rows t) = rt_rows t"
  by (auto simp: ranks_ok_def rank_row_ok_def)

lemma mset_rank_list: "ranks_ok t \<Longrightarrow> mset (ModelEvalRankList t) = mset (rt_rows t)"
  by (simp add: ModelEvalRankList_def all_rankable)

lemma rank_list_keys:
  assumes ok: "ranks_ok t" and m: "mset xs = mset (rt_rows t)"
  shows "distinct (map rk_ID xs)" "distinct (map rank_key xs)" "set xs = set (rt_rows t)" "length xs = length (rt_rows t)"
proof -
  have "mset (map f xs) = mset (map f (rt_rows t))" for f :: "ModelEvalRank \<Rightarrow> 'b" using m by simp
  then show "distinct (map rk_ID xs)" "distinct (map rank_key xs)"
    using ok by (metis mset_eq_imp_distinct_iff ranks_ok_def)+
  show "set xs = set (rt_rows t)" "length xs = length (rt_rows t)" using m by (metis set_mset_mset, metis size_mset)
qed

lemma written_rows:
  assumes ok: "ranks_ok t" and m: "mset moved = mset (rt_rows t)"
  shows "mset (fold write_position (zip (map int [0..<length moved]) moved) (rt_rows t)) = mset (renumbered moved)"
proof -
  let ?ps = "zip (map int [0..<length moved]) moved"
  let ?g = "\<lambda>r. case find (\<lambda>p. rk_ID (snd p) = rk_ID r) ?ps of None \<Rightarrow> r | Some p \<Rightarrow> r\<lparr>rk_Position := fst p\<rparr>"
  note keys = rank_list_keys [OF ok m]
  have snd: "map snd ?ps = moved" by simp
  have ids: "distinct (map (rk_ID \<circ> snd) ?ps)" using keys(1) snd by (simp flip: map_map)
  have "fold write_position ?ps (rt_rows t) = map ?g (rt_rows t)"
  proof (rule write_positions [OF ids])
    fix p r assume p: "p \<in> set ?ps" and r: "r \<in> set (rt_rows t)" "rk_ID r = rk_ID (snd p)"
    have "snd p \<in> set (map snd ?ps)" unfolding set_map using p by (rule imageI)
    then have "snd p \<in> set (rt_rows t)" unfolding snd keys(3) .
    have "inj_on rk_ID (set (rt_rows t))" using ok by (simp add: ranks_ok_def distinct_map)
    from inj_onD [OF this r(2) r(1) \<open>snd p \<in> set (rt_rows t)\<close>] have "r = snd p" .
    then show "rk_Position r = rk_Position (snd p)" by simp
  qed
  also have "mset \<dots> = mset (map ?g moved)" using m by simp
  also have "map ?g moved = renumbered moved"
  proof (rule nth_equalityI)
    fix i assume "i < length (map ?g moved)"
    then have i: "i < length moved" by simp
    have "find (\<lambda>p. rk_ID (snd p) = rk_ID (moved ! i)) ?ps = Some (int i, moved ! i)"
    proof -
      have "?ps ! i = (int i, moved ! i)" "i < length ?ps" using i by simp_all
      moreover have "rk_ID (snd (?ps ! j)) \<noteq> rk_ID (moved ! i)" if "j < i" for j
        using keys(1) that i nth_eq_iff_index_eq [of "map rk_ID moved" j i] by simp
      ultimately show ?thesis by (subst find_Some_iff) (auto intro!: exI [of _ i])
    qed
    with i show "map ?g moved ! i = renumbered moved ! i" by (simp add: renumbered_def nth_enumerate_eq)
  qed (simp add: renumbered_def)
  finally show ?thesis .
qed


lemma sorted_renumbered: "sort_key rk_Position (sort_key rk_ID (renumbered rows)) = renumbered rows"
proof (rule sort_key_inj_key_eq)
  show "mset (sort_key rk_ID (renumbered rows)) = mset (renumbered rows)" by simp
  have "distinct (map rk_Position (renumbered rows))"
    by (simp add: renumbered_fields distinct_map)
  then show "inj_on rk_Position (set (sort_key rk_ID (renumbered rows)))" by (simp add: distinct_map)
  show "sorted (map rk_Position (renumbered rows))" by (simp add: renumbered_fields sorted_map)
qed

lemma sort_two_mset:
  assumes "mset xs = mset ys" and "distinct (map rk_ID ys)"
  shows "sort_key rk_Position (sort_key rk_ID xs) = sort_key rk_Position (sort_key rk_ID ys)"
proof -
  have "set xs = set ys" using assms(1) by (metis set_mset_mset)
  then have "inj_on rk_ID (set xs)" using assms(2) by (simp add: distinct_map)
  then have "sort_key rk_ID xs = sort_key rk_ID ys"
    by (intro sort_key_inj_key_eq) (simp_all add: assms(1))
  then show ?thesis by simp
qed

lemma reorder_accepts:
  assumes "modelEvalRankReorder db k direction position t = (None, t')"
  obtains target idx nxt where "find (\<lambda>r. rk_ID r = k) (rt_rows t) = Some target"
    "isRankableOutcome (rk_Outcome target)" "find_index (\<lambda>r. rk_ID r = k) (ModelEvalRankList t) = Some idx"
    "nxt = (if 0 < position then min position (int (length (ModelEvalRankList t))) - 1 else int idx + direction)"
    "0 \<le> nxt" "nxt < int (length (ModelEvalRankList t))"
    "t' = t\<lparr>rt_rows := fold write_position (zip (map int [0..<length (shift_row idx (nat nxt) (ModelEvalRankList t))])
      (shift_row idx (nat nxt) (ModelEvalRankList t))) (rt_rows t)\<rparr>"
  using assms by (auto simp: modelEvalRankReorder_def Let_def split: option.splits if_splits)

lemma reordered:
  assumes ok: "ranks_ok t" and res: "modelEvalRankReorder db k direction position t = (None, t')"
  obtains idx nxt where "idx < length (ModelEvalRankList t)" "rk_ID (ModelEvalRankList t ! idx) = k"
    "nxt = (if 0 < position then min position (int (length (ModelEvalRankList t))) - 1 else int idx + direction)"
    "0 \<le> nxt" "nxt < int (length (ModelEvalRankList t))"
    "ModelEvalRankList t' = renumbered (shift_row idx (nat nxt) (ModelEvalRankList t))"
    "mset (rt_rows t') = mset (renumbered (shift_row idx (nat nxt) (ModelEvalRankList t)))"
    "mset (shift_row idx (nat nxt) (ModelEvalRankList t)) = mset (rt_rows t)" "rt_next t' = rt_next t"
proof -
  from reorder_accepts [OF res] obtain idx nxt where a: "find_index (\<lambda>r. rk_ID r = k) (ModelEvalRankList t) = Some idx"
    "nxt = (if 0 < position then min position (int (length (ModelEvalRankList t))) - 1 else int idx + direction)"
    "0 \<le> nxt" "nxt < int (length (ModelEvalRankList t))"
    "t' = t\<lparr>rt_rows := fold write_position (zip (map int [0..<length (shift_row idx (nat nxt) (ModelEvalRankList t))])
      (shift_row idx (nat nxt) (ModelEvalRankList t))) (rt_rows t)\<rparr>" by metis
  let ?moved = "shift_row idx (nat nxt) (ModelEvalRankList t)"
  from find_index_Some [OF a(1)] have idx: "idx < length (ModelEvalRankList t)" "rk_ID (ModelEvalRankList t ! idx) = k" by auto
  have nxt: "nat nxt < length (ModelEvalRankList t)" using a(3,4) by simp
  have m: "mset ?moved = mset (rt_rows t)"
    using mset_shift_row [OF idx(1) nxt] mset_rank_list [OF ok] by simp
  have rows: "mset (rt_rows t') = mset (renumbered ?moved)"
    using written_rows [OF ok m] a(5) by simp
  have "set (rt_rows t') = set (renumbered ?moved)" using rows by (metis set_mset_mset)
  moreover have "isRankableOutcome (rk_Outcome r)" if "r \<in> set (renumbered ?moved)" for r
    using that rank_list_keys(3) [OF ok m] ok
    by (auto simp: renumbered_def ranks_ok_def rank_row_ok_def in_set_enumerate_eq) (metis nth_mem)
  ultimately have all: "filter (\<lambda>r. isRankableOutcome (rk_Outcome r)) (rt_rows t') = rt_rows t'" by auto
  have "distinct (map rk_ID (renumbered ?moved))"
    using rank_list_keys(1) [OF ok m] by (simp only: renumbered_fields)
  from sort_two_mset [OF rows this] sorted_renumbered [of ?moved]
  have "ModelEvalRankList t' = renumbered ?moved" by (simp add: ModelEvalRankList_def all)
  with that [OF idx a(2-4)] rows m a(5) show thesis by simp
qed


lemma distinct_mset_map: "mset xs = mset ys \<Longrightarrow> distinct (map f xs) = distinct (map f ys)"
  by (rule mset_eq_imp_distinct_iff) simp

lemma reorder_refused: "fst (modelEvalRankReorder db k direction position t) = Some e \<longrightarrow> snd (modelEvalRankReorder db k direction position t) = t"
  unfolding modelEvalRankReorder_def Let_def
  by (simp only: fst_conv snd_conv option.simps if_True if_False simp_thms split: if_split option.split)

lemma ranks_ok_reorder: "ranks_ok t \<Longrightarrow> ranks_ok (snd (modelEvalRankReorder db k direction position t))"
proof (cases "fst (modelEvalRankReorder db k direction position t)")
  case (Some e)
  assume "ranks_ok t"
  with Some reorder_refused show ?thesis by metis
next
  case None
  assume ok: "ranks_ok t"
  define t' where "t' = snd (modelEvalRankReorder db k direction position t)"
  with None have "modelEvalRankReorder db k direction position t = (None, t')" by (simp add: prod_eq_iff)
  from reordered [OF ok this] obtain moved where m: "mset (rt_rows t') = mset (renumbered moved)"
    "mset moved = mset (rt_rows t)" "rt_next t' = rt_next t" by metis
  note keys = rank_list_keys [OF ok m(2)]
  have "distinct (map rk_ID (rt_rows t'))" "distinct (map rank_key (rt_rows t'))"
    unfolding distinct_mset_map [OF m(1)] renumbered_fields by (fact keys(1,2))+
  moreover have "distinct (map rk_Position (rt_rows t'))"
    unfolding distinct_mset_map [OF m(1)] renumbered_fields by (simp add: distinct_map)
  moreover have "rank_row_ok r \<and> rk_ID r < rt_next t'" if "r \<in> set (rt_rows t')" for r
  proof -
    from that m(1) have "r \<in> set (renumbered moved)" by (metis set_mset_mset)
    from renumbered_member [OF this] obtain r0 i where r0: "r0 \<in> set moved" "r = r0\<lparr>rk_Position := int i\<rparr>" by blast
    with keys(3) ok have "rank_row_ok r0 \<and> rk_ID r0 < rt_next t" by (auto simp: ranks_ok_def)
    with r0(2) m(3) show ?thesis by (auto simp: rank_row_ok_def)
  qed
  ultimately show ?thesis unfolding t'_def [symmetric] by (simp add: ranks_ok_def)
qed

lemma manual_candidates_ok:
  "manual_candidates caches seen ids = Inr cands \<Longrightarrow>
    distinct (map rank_key cands) \<and> rank_key ` set cands \<inter> set seen = {} \<and>
    (\<forall>c \<in> set cands. rk_Outcome c = ModelEvalManual \<and> rk_Content c = [] \<and> rk_Error c = [])"
proof (induction caches seen ids arbitrary: cands rule: manual_candidates.induct)
  case (2 caches seen cmID ids)
  from 2(3) obtain channel cm where target: "live_target caches cmID = Some (channel, cm)"
    by (auto split: option.splits)
  show ?case
  proof (cases "(ch_ID channel, cm_Name cm) \<in> set seen")
    case True
    with 2(1) [OF target refl refl True] 2(3) target show ?thesis by simp
  next
    case False
    with 2(3) target obtain rest c where rest: "manual_candidates caches ((ch_ID channel, cm_Name cm) # seen) ids = Inr rest"
      "cands = c # rest" "rank_key c = (ch_ID channel, cm_Name cm)" "rk_Outcome c = ModelEvalManual" "rk_Content c = []" "rk_Error c = []"
      by (auto simp: rank_key_def split: sum.splits)
    with 2(2) [OF target refl refl False rest(1)] False show ?thesis by auto
  qed
qed simp

lemma ranks_ok_manual:
  assumes "ranks_ok t" and "\<And>r. r \<in> set (rt_rows t) \<Longrightarrow> rk_Position r \<le> p" and "-1 \<le> p"
    and "distinct (map rank_key cands)"
    and "\<And>c. c \<in> set cands \<Longrightarrow> rk_Outcome c = ModelEvalManual \<and> rk_Content c = [] \<and> rk_Error c = []"
    and "\<And>c. c \<in> set cands \<Longrightarrow> rank_key c \<notin> set existing \<Longrightarrow> rank_key c \<notin> rank_key ` set (rt_rows t)"
  shows "ranks_ok (fold insert_rank (number_manual existing p cands) t)"
  using assms
proof (induction existing p cands arbitrary: t rule: number_manual.induct)
  case (2 existing p c cands)
  show ?case
  proof (cases "rank_key c \<in> set existing")
    case True
    with "2.IH"(1) [OF True "2.prems"(1-3)] "2.prems"(4-6) show ?thesis by simp
  next
    case False
    let ?t = "insert_rank (c\<lparr>rk_Position := p + 1\<rparr>) t"
    have "ranks_ok ?t"
    proof (rule ranks_ok_insert [OF "2.prems"(1)])
      show "rank_row_ok (c\<lparr>rk_Position := p + 1\<rparr>)"
        using "2.prems"(3) "2.prems"(5) [of c] by (simp add: rank_row_ok_def isRankableOutcome_def)
      show "rank_key (c\<lparr>rk_Position := p + 1\<rparr>) \<notin> rank_key ` set (rt_rows t)"
        using "2.prems"(6) [of c] False by simp
      show "rk_Position r < rk_Position (c\<lparr>rk_Position := p + 1\<rparr>)" if "r \<in> set (rt_rows t)" for r
        using "2.prems"(2) [OF that] by simp
    qed
    moreover have "rk_Position r \<le> p + 1" if "r \<in> set (rt_rows ?t)" for r
    proof -
      from that have "r \<in> set (rt_rows t) \<or> rk_Position r = p + 1" by (auto simp: insert_rank_def)
      with "2.prems"(2) [of r] show ?thesis by auto
    qed
    moreover have "rank_key c' \<notin> rank_key ` set (rt_rows ?t)" if "c' \<in> set cands" "rank_key c' \<notin> set existing" for c'
      using that "2.prems"(4) "2.prems"(6) [of c'] by (simp add: insert_rank_def image_iff) metis
    ultimately have "ranks_ok (fold insert_rank (number_manual existing (p + 1) cands) ?t)"
      using "2.prems"(3,4) "2.prems"(5) by (intro "2.IH"(2) [OF False]) simp_all
    with False show ?thesis by simp
  qed
qed simp

lemma ranks_ok_step: "ranks_ok t \<Longrightarrow> ranks_ok (rank_step redact op t)"
proof (induction redact op t rule: rank_step.induct)
  case (3 redact k db t)
  then show ?case by (simp add: ModelEvalRankRemove_def ranks_ok_filter)
next
  case (4 redact ids db t)
  then show ?case by (simp add: deleteEvalRanksByIDs_def ranks_ok_filter)
next
  case (5 redact caches ids db t)
  show ?case
  proof (cases "manual_candidates caches [] ids")
    case (Inl e)
    with 5 show ?thesis by (simp add: ModelEvalRankManualAdd_def)
  next
    case (Inr cands)
    have "ranks_ok (fold insert_rank (number_manual (map rank_key (rt_rows t)) (max_position t) cands) t)"
    proof (rule ranks_ok_manual [OF 5])
      show "rk_Position r \<le> max_position t" if "r \<in> set (rt_rows t)" for r by (rule max_position_ge [OF 5 that])
      show "-1 \<le> max_position t" by (rule max_position_default)
    qed (use manual_candidates_ok [OF Inr] in simp_all)
    with 5 Inr show ?thesis by (simp add: ModelEvalRankManualAdd_def Let_def)
  qed
next
  case (6 redact caches h db t)
  have "ranks_ok (snd (ModelEvalRankUpsert redact db r t))" for r by (rule ranks_ok_upsert [OF 6])
  with 6 show ?case
    by (auto simp: ModelEvalRankFromHistory_def split: option.splits prod.splits) (metis snd_conv)+
qed (simp_all add: ranks_ok_upsert ranks_ok_reorder)

lemma ranks_ok_run: "ranks_ok (fold (rank_step redact) ops empty_ranks)"
proof -
  have "ranks_ok t \<Longrightarrow> ranks_ok (fold (rank_step redact) ops t)" for t
    by (induction ops arbitrary: t) (simp_all add: ranks_ok_step)
  moreover have "ranks_ok empty_ranks" by (simp add: ranks_ok_def empty_ranks_def)
  ultimately show ?thesis by blast
qed


lemma enumerate_positions_distinct: "ranks_ok t \<Longrightarrow> distinct (map rk_Position (ModelEvalRankList t))"
  using distinct_mset_map [OF mset_rank_list, of t rk_Position] by (simp add: ranks_ok_def)

text \<open>
  C36. After any sequence of operations on the ranking, each possibly failing in the database, no two entries
  stand for the same model of the same channel, no two share a position, and the list the administrator
  sees is in strictly increasing position; every entry is one that may be ranked, with its reply cut to
  1 MiB and its error text to 4096 bytes.
\<close>

theorem ranking_wellformed:
  "\<forall>ops redact. let t = fold (rank_step redact) ops empty_ranks in
     distinct (map rank_key (rt_rows t)) \<and> distinct (map rk_ID (rt_rows t)) \<and>
     sorted_wrt (<) (map rk_Position (ModelEvalRankList t)) \<and>
     list_all rank_row_ok (rt_rows t) \<and> mset (ModelEvalRankList t) = mset (rt_rows t)"
proof (intro allI)
  fix ops redact
  define t where "t = fold (rank_step redact) ops empty_ranks"
  have ok: "ranks_ok t" unfolding t_def by (rule ranks_ok_run)
  have "sorted (map rk_Position (ModelEvalRankList t))" by (simp add: ModelEvalRankList_def)
  then have "sorted_wrt (<) (map rk_Position (ModelEvalRankList t))"
    using enumerate_positions_distinct [OF ok] by (simp add: strict_sorted_iff)
  with ok mset_rank_list [OF ok] show "let t = fold (rank_step redact) ops empty_ranks in
     distinct (map rank_key (rt_rows t)) \<and> distinct (map rk_ID (rt_rows t)) \<and>
     sorted_wrt (<) (map rk_Position (ModelEvalRankList t)) \<and>
     list_all rank_row_ok (rt_rows t) \<and> mset (ModelEvalRankList t) = mset (rt_rows t)"
    unfolding t_def [symmetric] Let_def by (auto simp: ranks_ok_def list_all_iff)
qed


lemma moved_ids:
  assumes "distinct ids" and "idx < length ids"
  shows "take idx ids @ drop (Suc idx) ids = remove1 (ids ! idx) ids"
proof -
  have "ids ! idx \<notin> set (take idx ids)"
    using assms by (auto simp: in_set_conv_nth nth_eq_iff_index_eq)
  then show ?thesis
    using id_take_nth_drop [OF assms(2)] by (metis remove1_append remove1.simps(2))
qed

lemma reorder_ids:
  assumes ok: "ranks_ok t" and res: "modelEvalRankReorder db k direction position t = (None, t')"
  obtains idx nxt where "idx < length (ModelEvalRankList t)" "map rk_ID (ModelEvalRankList t) ! idx = k"
    "nxt = (if 0 < position then min position (int (length (ModelEvalRankList t))) - 1 else int idx + direction)"
    "map rk_ID (ModelEvalRankList t') = place (nat nxt) k (remove1 k (map rk_ID (ModelEvalRankList t)))"
    "map rk_Position (ModelEvalRankList t') = map int [0..<length (ModelEvalRankList t)]"
    "mset (map (rk_Position_update (\<lambda>_. 0)) (rt_rows t')) = mset (map (rk_Position_update (\<lambda>_. 0)) (rt_rows t))"
proof -
  from reordered [OF ok res] obtain idx nxt where a: "idx < length (ModelEvalRankList t)" "rk_ID (ModelEvalRankList t ! idx) = k"
    "nxt = (if 0 < position then min position (int (length (ModelEvalRankList t))) - 1 else int idx + direction)"
    "0 \<le> nxt" "nxt < int (length (ModelEvalRankList t))"
    "ModelEvalRankList t' = renumbered (shift_row idx (nat nxt) (ModelEvalRankList t))"
    "mset (rt_rows t') = mset (renumbered (shift_row idx (nat nxt) (ModelEvalRankList t)))"
    "mset (shift_row idx (nat nxt) (ModelEvalRankList t)) = mset (rt_rows t)" by metis
  let ?ids = "map rk_ID (ModelEvalRankList t)"
  have nxt: "nat nxt < length (ModelEvalRankList t)" using a(4,5) by simp
  have d: "distinct ?ids" using rank_list_keys(1) [OF ok mset_rank_list [OF ok]] .
  have k: "?ids ! idx = k" using a(1,2) by simp
  have "map rk_ID (ModelEvalRankList t') = place (nat nxt) k (take idx ?ids @ drop (Suc idx) ?ids)"
    using a(1,2) unfolding a(6) renumbered_fields shift_row_place [OF a(1) nxt]
    by (simp add: place_def take_map drop_map)
  also have "take idx ?ids @ drop (Suc idx) ?ids = remove1 k ?ids"
    using moved_ids [OF d] a(1) k by simp
  finally have ids: "map rk_ID (ModelEvalRankList t') = place (nat nxt) k (remove1 k ?ids)" .
  have "length (shift_row idx (nat nxt) (ModelEvalRankList t)) = length (ModelEvalRankList t)"
    using mset_shift_row [OF a(1) nxt] by (rule mset_eq_length)
  then have pos: "map rk_Position (ModelEvalRankList t') = map int [0..<length (ModelEvalRankList t)]"
    unfolding a(6) renumbered_fields by simp
  have "mset (map (rk_Position_update (\<lambda>_. 0)) (rt_rows t')) =
      mset (map (rk_Position_update (\<lambda>_. 0)) (renumbered (shift_row idx (nat nxt) (ModelEvalRankList t))))"
    using a(7) by simp
  also have "\<dots> = mset (map (rk_Position_update (\<lambda>_. 0)) (rt_rows t))"
    unfolding renumbered_fields using a(8) by simp
  finally show thesis using that [OF a(1) k a(3) ids pos] by blast
qed

definition demo_caches :: channel_caches where
  "demo_caches =
    ([(7, \<lparr>ch_ID = 7, ch_Name = ''c'', ch_Type = ''openai'', ch_Enabled = True, ch_IsFree = False, ch_Builtin = False, ch_BaseURL = [], ch_Key = [], ch_Keys = [],
        ch_FixedReply = [], ch_Proxy = False, ch_AutoSync = False, ch_OpencodeCompat = False,
     ch_OpencodeLane = [], ch_Keyed = False, ch_CustomHeader = [], ch_ParamOverride = None, ch_MatchRegex = None, ch_Tags = [], ch_Sort = 0,
     ch_PassThroughBodyEnabled = False, ch_ChannelProxy = None, ch_ModelLimits = [], ch_RateLimitRPM = 0, ch_MaxConcurrent = 0\<rparr>)],
     map (\<lambda>(k, n). (k, \<lparr>cm_ID = k, cm_ChannelID = 7, cm_Name = n, cm_Source = ''auto'', cm_UpstreamProtocol = [],
     cm_ContextWindow = 0, cm_MaxOutput = 0, cm_Reasoning = False, cm_ToolCall = False, cm_InputModalities = [], cm_MaxReasoningEffort = []\<rparr>)) [(11, ''a''), (12, ''b''), (13, ''c''), (14, ''d'')])"

definition demo_rank_ops :: "(rank_op \<times> bool) list" where
  "demo_rank_ops = [(op_manual demo_caches [11, 12, 13, 14], True), (op_remove 2, True)]"

lemma demo_ids: "map rk_ID (ModelEvalRankList (fold (rank_step id) demo_rank_ops empty_ranks)) = [1, 3, 4]"
  by code_simp

lemma demo_move: "fst (ModelEvalRankSetPosition True 4 1 (fold (rank_step id) demo_rank_ops empty_ranks)) = None"
  by code_simp

text \<open>
  C37. An accepted move takes the entry out of the list and puts it back at the requested rank (one up or one
  down, or the given rank cut to the number of entries), leaves the order of the others, and makes the
  positions the indices 0, 1, ... of the list, closing gaps; the entries are otherwise as before.
\<close>

theorem rank_move_exact:
  assumes t: "t = fold (rank_step redact) ops empty_ranks" and ids: "ids = map rk_ID (ModelEvalRankList t)"
    and res: "ModelEvalRankMove db k d t = (None, t') \<and> (\<exists>i < length ids. ids ! i = k \<and> n = nat (int i + d)) \<or>
      ModelEvalRankSetPosition db k p t = (None, t') \<and> n = nat (min p (int (length ids)) - 1)"
  shows "map rk_ID (ModelEvalRankList t') = place n k (remove1 k ids) \<and>
    map rk_Position (ModelEvalRankList t') = map int [0..<length ids] \<and>
    mset (map (rk_Position_update (\<lambda>_. 0)) (rt_rows t')) = mset (map (rk_Position_update (\<lambda>_. 0)) (rt_rows t))"
proof -
  have ok: "ranks_ok t" unfolding t by (rule ranks_ok_run)
  have len: "length ids = length (ModelEvalRankList t)" unfolding ids by simp
  have d: "distinct ids" unfolding ids using rank_list_keys(1) [OF ok mset_rank_list [OF ok]] .
  from res show ?thesis
  proof
    assume "ModelEvalRankMove db k d t = (None, t') \<and> (\<exists>i < length ids. ids ! i = k \<and> n = nat (int i + d))"
    then obtain i where "modelEvalRankReorder db k d 0 t = (None, t')" and i: "i < length ids" "ids ! i = k" "n = nat (int i + d)"
      by (auto simp: ModelEvalRankMove_def split: if_splits)
    from reorder_ids [OF ok this(1)] obtain idx where "idx < length ids" "ids ! idx = k" and r:
      "map rk_ID (ModelEvalRankList t') = place (nat (int idx + d)) k (remove1 k ids)"
      "map rk_Position (ModelEvalRankList t') = map int [0..<length ids]"
      "mset (map (rk_Position_update (\<lambda>_. 0)) (rt_rows t')) = mset (map (rk_Position_update (\<lambda>_. 0)) (rt_rows t))"
      unfolding len unfolding ids by (metis less_irrefl)
    then have "idx = i" using d i by (metis nth_eq_iff_index_eq)
    with r i(3) show ?thesis by simp
  next
    assume a: "ModelEvalRankSetPosition db k p t = (None, t') \<and> n = nat (min p (int (length ids)) - 1)"
    then have "0 < p" "modelEvalRankReorder db k 0 p t = (None, t')"
      by (auto simp: ModelEvalRankSetPosition_def split: if_splits)
    with reorder_ids [OF ok this(2)] a show ?thesis unfolding len unfolding ids by metis
  qed
qed

theorem rank_move_exact_witness:
  "map rk_ID (ModelEvalRankList (snd (ModelEvalRankSetPosition True 4 1
     (fold (rank_step id) demo_rank_ops empty_ranks)))) = [4, 1, 3]"
proof -
  let ?t = "fold (rank_step id) demo_rank_ops empty_ranks"
  have res: "ModelEvalRankSetPosition True 4 1 ?t = (None, snd (ModelEvalRankSetPosition True 4 1 ?t))"
    using demo_move by (simp add: prod_eq_iff)
  from rank_move_exact [OF refl refl disjI2 [OF conjI [OF res refl]]] show ?thesis
    by (simp add: demo_ids place_def)
qed

end
