(* ===== verification/Eval_Queue.thy ===== *)
theory Eval_Queue
  imports Eval_Rank
begin

text \<open>
  \<^verbatim>\<open>internal/op/model_eval_queue.go\<close> and the scheduler that drives it (\<^verbatim>\<open>internal/eval/scheduler.go\<close>): a queue of
  evaluations in a database table, which several instances of the program may share. A statement that changes
  rows under a condition is atomic; operations that read first and write later are cut in two, and
  \<open>eval_step\<close> lets the parts of all instances interleave. Times are nanoseconds, \<open>None\<close> is the zero time. The world also
  records what no table holds: which instance's worker runs which task (\<open>ew_workers\<close>), the pops under way and the
  ids a scheduler would give back when it stops (\<open>ew_inflight\<close>).
\<close>

datatype QueueTaskStatus = QueueTaskQueued | QueueTaskRunning | QueueTaskDone | QueueTaskStopped

record ModelEvalQueueTask =
  qt_ID :: int
  qt_ChannelID :: int
  qt_ChannelModelID :: int
  qt_ChannelName :: string
  qt_ChannelType :: string
  qt_ModelName :: string
  qt_Status :: QueueTaskStatus
  qt_Error :: string
  qt_EvalID :: int
  qt_Position :: int
  qt_CreatedAt :: int
  qt_StartedAt :: "int option"
  qt_CompletedAt :: "int option"

datatype queue_error =
    ErrEvalQueueModelUnavailable
  | ErrEvalQueueTaskNotFound
  | ErrEvalQueueTaskConflict
  | ErrEvalQueueMoveBounds

definition eval_second :: int where "eval_second = 1000000000"

definition evalQueueRunningLease :: int where
  "evalQueueRunningLease = 15 * 60 * eval_second"

definition EvalConcurrency :: nat where "EvalConcurrency = 4"

definition task_active :: "ModelEvalQueueTask \<Rightarrow> bool" where
  "task_active t \<longleftrightarrow> qt_Status t = QueueTaskQueued \<or> qt_Status t = QueueTaskRunning"

definition task_key :: "ModelEvalQueueTask \<Rightarrow> int \<times> string" where
  "task_key t = (qt_ChannelID t, qt_ModelName t)"

definition by_position :: "ModelEvalQueueTask list \<Rightarrow> ModelEvalQueueTask list" where
  "by_position rows = sort_key qt_Position (sort_key qt_ID rows)"

definition ModelEvalQueueList :: "ModelEvalQueueTask list \<Rightarrow> ModelEvalQueueTask list" where
  "ModelEvalQueueList rows = by_position (filter task_active rows)"

definition queued_list :: "ModelEvalQueueTask list \<Rightarrow> ModelEvalQueueTask list" where
  "queued_list rows = by_position (filter (\<lambda>t. qt_Status t = QueueTaskQueued) rows)"

text \<open>A conditional \<^verbatim>\<open>UPDATE\<close> of the row with a key; \<open>hit\<close> is \<^verbatim>\<open>RowsAffected\<close> being one.\<close>

definition row_hit :: "int \<Rightarrow> QueueTaskStatus \<Rightarrow> ModelEvalQueueTask list \<Rightarrow> bool" where
  "row_hit k status rows = list_ex (\<lambda>t. qt_ID t = k \<and> qt_Status t = status) rows"

definition update_rows ::
    "(ModelEvalQueueTask \<Rightarrow> bool) \<Rightarrow> (ModelEvalQueueTask \<Rightarrow> ModelEvalQueueTask) \<Rightarrow> ModelEvalQueueTask list \<Rightarrow> ModelEvalQueueTask list" where
  "update_rows P f rows = map (\<lambda>t. if P t then f t else t) rows"

subsection \<open>Entering the queue\<close>

fun queue_candidates ::
    "channel_caches \<Rightarrow> int \<Rightarrow> (int \<times> string) list \<Rightarrow> int list \<Rightarrow> queue_error + ModelEvalQueueTask list" where
  "queue_candidates caches now seen [] = Inr []"
| "queue_candidates caches now seen (cmID # ids) =
    (case live_target caches cmID of
       None \<Rightarrow> Inl ErrEvalQueueModelUnavailable
     | Some (channel, cm) \<Rightarrow>
         let key = (ch_ID channel, cm_Name cm) in
         if key \<in> set seen then queue_candidates caches now seen ids
         else case queue_candidates caches now (key # seen) ids of
                Inl e \<Rightarrow> Inl e
              | Inr cands \<Rightarrow>
                  Inr (\<lparr>qt_ID = 0, qt_ChannelID = ch_ID channel, qt_ChannelModelID = cm_ID cm, qt_ChannelName = ch_Name channel,
                        qt_ChannelType = ch_Type channel, qt_ModelName = cm_Name cm, qt_Status = QueueTaskQueued, qt_Error = [],
                        qt_EvalID = 0, qt_Position = 0, qt_CreatedAt = now, qt_StartedAt = None, qt_CompletedAt = None\<rparr> # cands))"

text \<open>The two queries of the transaction: the keys of the active tasks, the largest position.\<close>

definition enqueue_read :: "ModelEvalQueueTask list \<Rightarrow> (int \<times> string) list \<times> int" where
  "enqueue_read rows = (map task_key (filter task_active rows), foldr max (map qt_Position rows) (-1))"

fun number_tasks :: "(int \<times> string) list \<Rightarrow> int \<Rightarrow> ModelEvalQueueTask list \<Rightarrow> ModelEvalQueueTask list" where
  "number_tasks dup pos [] = []"
| "number_tasks dup pos (c # cands) =
    (if task_key c \<in> set dup then number_tasks dup pos cands
     else c\<lparr>qt_Position := pos + 1\<rparr> # number_tasks (task_key c # dup) (pos + 1) cands)"

definition insert_tasks :: "ModelEvalQueueTask list \<Rightarrow> int \<Rightarrow> ModelEvalQueueTask list \<Rightarrow> ModelEvalQueueTask list" where
  "insert_tasks rows nxt tasks = rows @ map (\<lambda>(i, t). t\<lparr>qt_ID := nxt + int i\<rparr>) (enumerate 0 tasks)"

text \<open>\<^verbatim>\<open>ModelEvalQueueEnqueue\<close> without interference: candidates, the two queries, the insertion.\<close>

definition ModelEvalQueueEnqueue ::
    "channel_caches \<Rightarrow> int \<Rightarrow> int list \<Rightarrow> ModelEvalQueueTask list \<times> int \<Rightarrow>
      (queue_error + ModelEvalQueueTask list) \<times> ModelEvalQueueTask list \<times> int" where
  "ModelEvalQueueEnqueue caches now ids q =
    (case queue_candidates caches now [] ids of
       Inl e \<Rightarrow> (Inl e, q)
     | Inr cands \<Rightarrow>
         (case enqueue_read (fst q) of
            (dup, maxPos) \<Rightarrow>
              let tasks = number_tasks dup maxPos cands
              in (Inr tasks, insert_tasks (fst q) (snd q) tasks, snd q + int (length tasks))))"

subsection \<open>Taking tasks\<close>

definition pop_read :: "int \<Rightarrow> ModelEvalQueueTask list \<Rightarrow> ModelEvalQueueTask list" where
  "pop_read limit rows = take (nat (if limit \<le> 0 then 1 else limit)) (queued_list rows)"

definition claim_row :: "int \<Rightarrow> int \<Rightarrow> ModelEvalQueueTask list \<Rightarrow> ModelEvalQueueTask list" where
  "claim_row now k rows =
    update_rows (\<lambda>t. qt_ID t = k \<and> qt_Status t = QueueTaskQueued)
      (\<lambda>t. t\<lparr>qt_Status := QueueTaskRunning, qt_StartedAt := Some now\<rparr>) rows"

text \<open>One pass of the loop: the row is kept only if the update hit it.\<close>

definition pop_claim ::
    "int \<Rightarrow> ModelEvalQueueTask \<Rightarrow> ModelEvalQueueTask list \<times> ModelEvalQueueTask list \<Rightarrow> ModelEvalQueueTask list \<times> ModelEvalQueueTask list" where
  "pop_claim now t kr =
    (case kr of (kept, rows) \<Rightarrow>
       if row_hit (qt_ID t) QueueTaskQueued rows
       then (kept @ [t\<lparr>qt_Status := QueueTaskRunning, qt_StartedAt := Some now\<rparr>], claim_row now (qt_ID t) rows)
       else (kept, rows))"

definition ModelEvalQueuePopNext :: "int \<Rightarrow> int \<Rightarrow> ModelEvalQueueTask list \<Rightarrow> ModelEvalQueueTask list \<times> ModelEvalQueueTask list" where
  "ModelEvalQueuePopNext now limit rows = fold (pop_claim now) (pop_read limit rows) ([], rows)"

subsection \<open>Giving tasks back\<close>

definition lease_over :: "int \<Rightarrow> ModelEvalQueueTask \<Rightarrow> bool" where
  "lease_over now t = (case qt_StartedAt t of None \<Rightarrow> True | Some s \<Rightarrow> s < now - evalQueueRunningLease)"

definition ModelEvalQueueResetRunning :: "int \<Rightarrow> ModelEvalQueueTask list \<Rightarrow> ModelEvalQueueTask list" where
  "ModelEvalQueueResetRunning now rows =
    update_rows (\<lambda>t. qt_Status t = QueueTaskRunning \<and> lease_over now t) (\<lambda>t. t\<lparr>qt_Status := QueueTaskQueued\<rparr>) rows"

definition ModelEvalQueueResetRunningOnStart :: "bool \<Rightarrow> int \<Rightarrow> ModelEvalQueueTask list \<Rightarrow> ModelEvalQueueTask list" where
  "ModelEvalQueueResetRunningOnStart multi now rows =
    (if multi then ModelEvalQueueResetRunning now rows
     else update_rows (\<lambda>t. qt_Status t = QueueTaskRunning) (\<lambda>t. t\<lparr>qt_Status := QueueTaskQueued, qt_StartedAt := None\<rparr>) rows)"

definition ModelEvalQueueRequeueRunning :: "int list \<Rightarrow> ModelEvalQueueTask list \<Rightarrow> ModelEvalQueueTask list" where
  "ModelEvalQueueRequeueRunning ids rows =
    update_rows (\<lambda>t. qt_ID t \<in> set ids \<and> qt_Status t = QueueTaskRunning)
      (\<lambda>t. t\<lparr>qt_Status := QueueTaskQueued, qt_StartedAt := None\<rparr>) rows"

subsection \<open>Orders of the user\<close>

text \<open>\<^verbatim>\<open>ModelEvalQueueMoveUp\<close>: what it reads, then the transaction that swaps if both rows still wait.\<close>

definition move_read ::
    "int \<Rightarrow> ModelEvalQueueTask list \<Rightarrow> queue_error + ModelEvalQueueTask \<times> ModelEvalQueueTask" where
  "move_read k rows =
    (case find (\<lambda>t. qt_ID t = k) rows of
       None \<Rightarrow> Inl ErrEvalQueueTaskNotFound
     | Some target \<Rightarrow>
         if qt_Status target \<noteq> QueueTaskQueued then Inl ErrEvalQueueTaskConflict
         else case find_index (\<lambda>t. qt_ID t = k) (queued_list rows) of
                None \<Rightarrow> Inl ErrEvalQueueMoveBounds
              | Some 0 \<Rightarrow> Inl ErrEvalQueueMoveBounds
              | Some (Suc i) \<Rightarrow> Inr (target, queued_list rows ! i))"

definition set_position :: "int \<Rightarrow> int \<Rightarrow> ModelEvalQueueTask list \<Rightarrow> ModelEvalQueueTask list" where
  "set_position k p rows =
    update_rows (\<lambda>t. qt_ID t = k \<and> qt_Status t = QueueTaskQueued) (\<lambda>t. t\<lparr>qt_Position := p\<rparr>) rows"

definition move_write ::
    "ModelEvalQueueTask \<times> ModelEvalQueueTask \<Rightarrow> ModelEvalQueueTask list \<Rightarrow> queue_error option \<times> ModelEvalQueueTask list" where
  "move_write tn rows =
    (case tn of (target, neighbor) \<Rightarrow>
       if \<not> row_hit (qt_ID target) QueueTaskQueued rows then (Some ErrEvalQueueTaskConflict, rows)
       else let rows1 = set_position (qt_ID target) (qt_Position neighbor) rows
            in if \<not> row_hit (qt_ID neighbor) QueueTaskQueued rows1 then (Some ErrEvalQueueTaskConflict, rows)
               else (None, set_position (qt_ID neighbor) (qt_Position target) rows1))"

definition ModelEvalQueueMoveUp :: "int \<Rightarrow> ModelEvalQueueTask list \<Rightarrow> queue_error option \<times> ModelEvalQueueTask list" where
  "ModelEvalQueueMoveUp k rows =
    (case move_read k rows of Inl e \<Rightarrow> (Some e, rows) | Inr tn \<Rightarrow> move_write tn rows)"

definition stop_write :: "int \<Rightarrow> int \<Rightarrow> ModelEvalQueueTask list \<Rightarrow> ModelEvalQueueTask list" where
  "stop_write now k rows =
    update_rows (\<lambda>t. qt_ID t = k \<and> qt_Status t = QueueTaskQueued)
      (\<lambda>t. t\<lparr>qt_Status := QueueTaskStopped, qt_CompletedAt := Some now\<rparr>) rows"

text \<open>\<open>read\<close> is the table at the first query, \<open>rows\<close> the one at the update.\<close>

definition ModelEvalQueueStop ::
    "int \<Rightarrow> int \<Rightarrow> ModelEvalQueueTask list \<Rightarrow> ModelEvalQueueTask list \<Rightarrow> queue_error option \<times> ModelEvalQueueTask list" where
  "ModelEvalQueueStop now k read rows =
    (case find (\<lambda>t. qt_ID t = k) read of
       None \<Rightarrow> (Some ErrEvalQueueTaskNotFound, rows)
     | Some target \<Rightarrow>
         if qt_Status target \<noteq> QueueTaskQueued then (Some ErrEvalQueueTaskConflict, rows)
         else if row_hit k QueueTaskQueued rows then (None, stop_write now k rows)
         else (Some ErrEvalQueueTaskConflict, stop_write now k rows))"

definition ModelEvalQueueClear :: "ModelEvalQueueTask list \<Rightarrow> int \<times> ModelEvalQueueTask list" where
  "ModelEvalQueueClear rows =
    (int (length (filter (\<lambda>t. qt_Status t = QueueTaskQueued) rows)),
     filter (\<lambda>t. qt_Status t \<noteq> QueueTaskQueued) rows)"

definition ModelEvalQueueMarkDone ::
    "(string \<Rightarrow> string) \<Rightarrow> int \<Rightarrow> int \<Rightarrow> int \<Rightarrow> string \<Rightarrow> ModelEvalQueueTask list \<Rightarrow> ModelEvalQueueTask list" where
  "ModelEvalQueueMarkDone redact now k evalID errMsg rows =
    update_rows (\<lambda>t. qt_ID t = k)
      (\<lambda>t. t\<lparr>qt_Status := QueueTaskDone, qt_EvalID := evalID, qt_Error := truncateUTF8Bytes (redact errMsg) 4096,
            qt_CompletedAt := Some now\<rparr>) rows"


subsection \<open>Instances, workers and their interleaving\<close>

record pop_state =
  pp_time :: int
  pp_left :: "ModelEvalQueueTask list"
  pp_kept :: "ModelEvalQueueTask list"

record eval_world =
  ew_rows :: "ModelEvalQueueTask list"
  ew_next :: int
  ew_now :: int
  ew_lock :: "(ModelEvalQueueTask list \<times> (int \<times> string) list \<times> int) option"
  ew_moves :: "(ModelEvalQueueTask \<times> ModelEvalQueueTask) list"
  ew_pops :: "(int, pop_state) gomap"
  ew_workers :: "(int \<times> int \<times> int) list"
  ew_inflight :: "(int \<times> int) list"

text \<open>The tasks in somebody's hands, with the time of their claim.\<close>

definition pop_holds :: "pop_state \<Rightarrow> (int \<times> int) list" where
  "pop_holds p = map (\<lambda>t. (qt_ID t, pp_time p)) (pp_kept p)"

definition holds :: "eval_world \<Rightarrow> (int \<times> int) list" where
  "holds w = map snd (ew_workers w) @ concat (map (\<lambda>(_, p). pop_holds p) (ew_pops w))"

definition workers_of :: "int \<Rightarrow> eval_world \<Rightarrow> nat" where
  "workers_of i w = length (filter (\<lambda>x. fst x = i) (ew_workers w))"

text \<open>
  \<open>ev_tick\<close> states the assumption of the lease: a worker (ten minutes and the time to save) and a transaction are
  over before it is. \<open>ev_requeue\<close> asks that no instance runs a task that the stopping one gives back; an example at the
  end shows what happens otherwise.
\<close>

inductive eval_step :: "eval_world \<Rightarrow> eval_world \<Rightarrow> bool" where
  ev_tick: "ew_now w \<le> t \<Longrightarrow> (\<And>k s. (k, s) \<in> set (holds w) \<Longrightarrow> t \<le> s + evalQueueRunningLease) \<Longrightarrow>
    (\<And>i p. map_of (ew_pops w) i = Some p \<Longrightarrow> t \<le> pp_time p + evalQueueRunningLease) \<Longrightarrow> eval_step w (w\<lparr>ew_now := t\<rparr>)"
| ev_enqueue: "ew_lock w = None \<Longrightarrow> queue_candidates caches (ew_now w) [] ids = Inr cands \<Longrightarrow>
    eval_step w (w\<lparr>ew_lock := Some (cands, enqueue_read (ew_rows w))\<rparr>)"
| ev_enqueued: "ew_lock w = Some (cands, dup, maxPos) \<Longrightarrow> tasks = number_tasks dup maxPos cands \<Longrightarrow>
    eval_step w (w\<lparr>ew_lock := None, ew_rows := insert_tasks (ew_rows w) (ew_next w) tasks,
                    ew_next := ew_next w + int (length tasks)\<rparr>)"
| ev_abort: "eval_step w (w\<lparr>ew_lock := None\<rparr>)"
| ev_pop: "map_of (ew_pops w) i = None \<Longrightarrow> workers_of i w < EvalConcurrency \<Longrightarrow>
    eval_step w (w\<lparr>ew_pops := mput i \<lparr>pp_time = ew_now w,
        pp_left = pop_read (int EvalConcurrency - int (workers_of i w)) (ew_rows w), pp_kept = []\<rparr> (ew_pops w)\<rparr>)"
| ev_claim: "map_of (ew_pops w) i = Some p \<Longrightarrow> pp_left p = t # ts \<Longrightarrow>
    pop_claim (pp_time p) t (pp_kept p, ew_rows w) = (kept, rows) \<Longrightarrow>
    eval_step w (w\<lparr>ew_pops := mput i (p\<lparr>pp_left := ts, pp_kept := kept\<rparr>) (ew_pops w), ew_rows := rows\<rparr>)"
| ev_dispatch: "map_of (ew_pops w) i = Some p \<Longrightarrow> pp_left p = [] \<Longrightarrow>
    eval_step w (w\<lparr>ew_pops := mdel i (ew_pops w),
        ew_workers := map (\<lambda>t. (i, qt_ID t, pp_time p)) (pp_kept p) @ ew_workers w,
        ew_inflight := map (\<lambda>t. (i, qt_ID t)) (pp_kept p) @ ew_inflight w\<rparr>)"
| ev_move: "move_read k (ew_rows w) = Inr tn \<Longrightarrow> eval_step w (w\<lparr>ew_moves := tn # ew_moves w\<rparr>)"
| ev_moved: "tn \<in> set (ew_moves w) \<Longrightarrow>
    eval_step w (w\<lparr>ew_moves := remove1 tn (ew_moves w), ew_rows := snd (move_write tn (ew_rows w))\<rparr>)"
| ev_stop: "eval_step w (w\<lparr>ew_rows := stop_write (ew_now w) k (ew_rows w)\<rparr>)"
| ev_clear: "eval_step w (w\<lparr>ew_rows := snd (ModelEvalQueueClear (ew_rows w))\<rparr>)"
| ev_reap: "eval_step w (w\<lparr>ew_rows := ModelEvalQueueResetRunning (ew_now w) (ew_rows w)\<rparr>)"
| ev_start: "ew_workers w = [] \<Longrightarrow> ew_pops w = [] \<Longrightarrow>
    eval_step w (w\<lparr>ew_rows := ModelEvalQueueResetRunningOnStart multi (ew_now w) (ew_rows w)\<rparr>)"
| ev_done: "(i, k, s) \<in> set (ew_workers w) \<Longrightarrow>
    eval_step w (w\<lparr>ew_workers := remove1 (i, k, s) (ew_workers w), ew_inflight := filter (\<lambda>x. x \<noteq> (i, k)) (ew_inflight w),
                    ew_rows := ModelEvalQueueMarkDone redact (ew_now w) k evalID errMsg (ew_rows w)\<rparr>)"
| ev_abandon: "x \<in> set (ew_workers w) \<Longrightarrow> eval_step w (w\<lparr>ew_workers := remove1 x (ew_workers w)\<rparr>)"
| ev_crash: "eval_step w (w\<lparr>ew_workers := filter (\<lambda>x. fst x \<noteq> i) (ew_workers w), ew_pops := mdel i (ew_pops w),
    ew_inflight := filter (\<lambda>x. fst x \<noteq> i) (ew_inflight w)\<rparr>)"
| ev_requeue: "workers_of i w = 0 \<Longrightarrow> (\<And>k s. (k, s) \<in> set (holds w) \<Longrightarrow> (i, k) \<notin> set (ew_inflight w)) \<Longrightarrow>
    eval_step w (w\<lparr>ew_rows := ModelEvalQueueRequeueRunning (map snd (filter (\<lambda>x. fst x = i) (ew_inflight w))) (ew_rows w),
                    ew_inflight := filter (\<lambda>x. fst x \<noteq> i) (ew_inflight w)\<rparr>)"

definition empty_queue :: eval_world where
  "empty_queue = \<lparr>ew_rows = [], ew_next = 1, ew_now = 0, ew_lock = None, ew_moves = [], ew_pops = [], ew_workers = [],
     ew_inflight = []\<rparr>"

inductive eval_reachable :: "eval_world \<Rightarrow> bool" where
  er_start: "eval_reachable empty_queue"
| er_next: "eval_reachable w \<Longrightarrow> eval_step w w' \<Longrightarrow> eval_reachable w'"

subsection \<open>The rows\<close>

text \<open>What every update of the queue leaves of a row: its key, its target, and that it is over once it is.\<close>

definition row_below :: "ModelEvalQueueTask \<Rightarrow> ModelEvalQueueTask \<Rightarrow> bool" where
  "row_below t' t \<longleftrightarrow> qt_ID t' = qt_ID t \<and> task_key t' = task_key t \<and> (task_active t' \<longrightarrow> task_active t)"

definition rows_below :: "ModelEvalQueueTask list \<Rightarrow> ModelEvalQueueTask list \<Rightarrow> bool" where
  "rows_below rows' rows = list_all2 row_below rows' rows"

definition row_held :: "ModelEvalQueueTask list \<Rightarrow> int \<times> int \<Rightarrow> bool" where
  "row_held rows h \<longleftrightarrow>
    (\<exists>t \<in> set rows. qt_ID t = fst h \<and> qt_Status t = QueueTaskRunning \<and> qt_StartedAt t = Some (snd h))"

definition rows_ok :: "int \<Rightarrow> ModelEvalQueueTask list \<Rightarrow> bool" where
  "rows_ok nxt rows \<longleftrightarrow>
    distinct (map qt_ID rows) \<and> (\<forall>t \<in> set rows. qt_ID t < nxt) \<and> distinct (map task_key (filter task_active rows))"

lemma rows_below_refl: "rows_below rows rows"
  by (simp add: rows_below_def row_below_def list_all2_refl)

lemma rows_below_trans: "rows_below a b \<Longrightarrow> rows_below b c \<Longrightarrow> rows_below a c"
  unfolding rows_below_def by (rule list_all2_trans [of row_below row_below row_below]) (auto simp: row_below_def)

lemma rows_below_ids: "rows_below rows' rows \<Longrightarrow> map qt_ID rows' = map qt_ID rows"
  unfolding rows_below_def by (induction rule: list_all2_induct) (simp_all add: row_below_def)

lemma rows_below_active:
  "rows_below rows' rows \<Longrightarrow> distinct (map task_key (filter task_active rows)) \<Longrightarrow>
    distinct (map task_key (filter task_active rows')) \<and>
    task_key ` set (filter task_active rows') \<subseteq> task_key ` set (filter task_active rows)"
  unfolding rows_below_def
proof (induction rule: list_all2_induct)
  case (Cons x xs y ys)
  show ?case
  proof (cases "task_active x")
    case True
    with Cons.hyps(1) have "task_active y" "task_key x = task_key y" by (simp_all add: row_below_def)
    with Cons.prems Cons.IH have "task_key x \<notin> task_key ` set (filter task_active xs)"
      "distinct (map task_key (filter task_active xs))"
      "task_key ` set (filter task_active xs) \<subseteq> task_key ` set (filter task_active ys)" by auto
    with True \<open>task_active y\<close> \<open>task_key x = task_key y\<close> show ?thesis by auto
  next
    case False
    with Cons show ?thesis by (cases "task_active y") auto
  qed
qed simp

lemma rows_ok_below: "rows_ok nxt rows \<Longrightarrow> rows_below rows' rows \<Longrightarrow> rows_ok nxt rows'"
  unfolding rows_ok_def using rows_below_ids [of rows' rows] rows_below_active [of rows' rows]
  by (metis (no_types, lifting) image_iff list.set_map)

lemma update_rows_below:
  "(\<And>t. P t \<Longrightarrow> qt_ID (f t) = qt_ID t \<and> task_key (f t) = task_key t \<and> (task_active (f t) \<longrightarrow> task_active t)) \<Longrightarrow>
    rows_below (update_rows P f rows) rows"
  by (auto simp: rows_below_def update_rows_def list_all2_conv_all_nth row_below_def)

lemma update_rows_held:
  "row_held rows h \<Longrightarrow>
    (\<And>t. t \<in> set rows \<Longrightarrow> P t \<Longrightarrow> qt_ID t = fst h \<Longrightarrow> qt_Status t = QueueTaskRunning \<Longrightarrow> qt_StartedAt t = Some (snd h) \<Longrightarrow> False) \<Longrightarrow>
    row_held (update_rows P f rows) h"
  unfolding row_held_def update_rows_def by (auto intro!: bexI)

lemma task_update_fields [simp]:
  "task_key (t\<lparr>qt_Status := s\<rparr>) = task_key t" "task_key (t\<lparr>qt_StartedAt := st\<rparr>) = task_key t"
  "task_key (t\<lparr>qt_Position := p\<rparr>) = task_key t" "task_key (t\<lparr>qt_CompletedAt := c\<rparr>) = task_key t"
  "task_key (t\<lparr>qt_EvalID := e\<rparr>) = task_key t" "task_key (t\<lparr>qt_Error := m\<rparr>) = task_key t" "task_key (t\<lparr>qt_ID := k\<rparr>) = task_key t"
  "task_active (t\<lparr>qt_StartedAt := st\<rparr>) = task_active t" "task_active (t\<lparr>qt_Position := p\<rparr>) = task_active t"
  "task_active (t\<lparr>qt_ID := k\<rparr>) = task_active t" "task_active (t\<lparr>qt_CompletedAt := c\<rparr>) = task_active t"
  "task_active (t\<lparr>qt_Status := QueueTaskQueued\<rparr>)" "task_active (t\<lparr>qt_Status := QueueTaskRunning\<rparr>)"
  "\<not> task_active (t\<lparr>qt_Status := QueueTaskStopped\<rparr>)" "\<not> task_active (t\<lparr>qt_Status := QueueTaskDone\<rparr>)"
  by (simp_all add: task_key_def task_active_def)

lemma queue_below [intro]:
  "rows_below (claim_row now k rows) rows" "rows_below (set_position k p rows) rows" "rows_below (stop_write now k rows) rows"
  "rows_below (ModelEvalQueueResetRunning now rows) rows" "rows_below (ModelEvalQueueResetRunningOnStart multi now rows) rows"
  "rows_below (ModelEvalQueueRequeueRunning ids rows) rows"
  "rows_below (ModelEvalQueueMarkDone redact now k evalID errMsg rows) rows"
  unfolding claim_row_def set_position_def stop_write_def ModelEvalQueueResetRunning_def
    ModelEvalQueueResetRunningOnStart_def ModelEvalQueueRequeueRunning_def ModelEvalQueueMarkDone_def
  by (auto intro!: update_rows_below simp: task_active_def task_key_def)

lemma move_below: "rows_below (snd (move_write tn rows)) rows"
  by (auto simp: move_write_def Let_def rows_below_refl split: prod.splits
      intro: rows_below_trans [OF queue_below(2) queue_below(2)])

lemma pop_claim_below: "pop_claim now t (kept, rows) = (kept', rows') \<Longrightarrow> rows_below rows' rows"
  by (auto simp: pop_claim_def rows_below_refl split: if_splits)


subsection \<open>Invariant\<close>

definition pop_at :: "int \<Rightarrow> eval_world \<Rightarrow> nat" where
  "pop_at i w = (case map_of (ew_pops w) i of None \<Rightarrow> 0 | Some p \<Rightarrow> length (pp_left p) + length (pp_kept p))"

definition eval_inv :: "eval_world \<Rightarrow> bool" where
  "eval_inv w \<longleftrightarrow>
    rows_ok (ew_next w) (ew_rows w) \<and>
    (\<forall>cands dup m. ew_lock w = Some (cands, dup, m) \<longrightarrow> task_key ` set (filter task_active (ew_rows w)) \<subseteq> set dup) \<and>
    distinct (map fst (holds w)) \<and>
    (\<forall>h \<in> set (holds w). row_held (ew_rows w) h \<and> snd h \<le> ew_now w \<and> ew_now w \<le> snd h + evalQueueRunningLease) \<and>
    mwf (ew_pops w) \<and>
    (\<forall>i p. map_of (ew_pops w) i = Some p \<longrightarrow> pp_time p \<le> ew_now w \<and> ew_now w \<le> pp_time p + evalQueueRunningLease) \<and>
    (\<forall>i. workers_of i w + pop_at i w \<le> EvalConcurrency)"

lemma distinct_submset: "mset xs \<subseteq># mset ys \<Longrightarrow> distinct ys \<Longrightarrow> distinct xs"
proof -
  assume sub: "mset xs \<subseteq># mset ys" and d: "distinct ys"
  from sub obtain zs where "mset ys = mset (xs @ zs)" by (metis ex_mset mset_append mset_subset_eq_exists_conv)
  then have "distinct (xs @ zs)" using d by (metis mset_eq_imp_distinct_iff)
  then show "distinct xs" by simp
qed

lemma lease_positive: "0 < evalQueueRunningLease"
  by (simp add: evalQueueRunningLease_def eval_second_def)

text \<open>Steps that change rows only: nobody's row may be touched.\<close>

lemma eval_inv_table:
  assumes inv: "eval_inv w" and rows: "rows_ok (ew_next w) rows"
    and active: "task_key ` set (filter task_active rows) \<subseteq> task_key ` set (filter task_active (ew_rows w))"
    and held: "\<And>h. h \<in> set (holds w) \<Longrightarrow> row_held rows h"
  shows "eval_inv (w\<lparr>ew_rows := rows\<rparr>)"
proof -
  have "holds (w\<lparr>ew_rows := rows\<rparr>) = holds w" "pop_at i (w\<lparr>ew_rows := rows\<rparr>) = pop_at i w"
    "workers_of i (w\<lparr>ew_rows := rows\<rparr>) = workers_of i w" for i
    by (simp_all add: holds_def pop_at_def workers_of_def)
  with rows active show ?thesis
    using inv held unfolding eval_inv_def
    by (auto simp del: set_filter list.set_map simp: subset_eq)
qed

lemma eval_inv_rows:
  assumes inv: "eval_inv w" and below: "rows_below rows (ew_rows w)"
    and held: "\<And>h. h \<in> set (holds w) \<Longrightarrow> row_held rows h"
  shows "eval_inv (w\<lparr>ew_rows := rows\<rparr>)"
proof (rule eval_inv_table [OF inv _ _ held])
  show "rows_ok (ew_next w) rows" using rows_ok_below [OF _ below] inv by (simp add: eval_inv_def)
  show "task_key ` set (filter task_active rows) \<subseteq> task_key ` set (filter task_active (ew_rows w))"
    using rows_below_active [OF below] inv by (simp add: eval_inv_def rows_ok_def)
qed

lemma eval_inv_frame:
  assumes "eval_inv w" and "ew_rows w' = ew_rows w" "ew_next w' = ew_next w" "ew_now w' = ew_now w"
    and "ew_lock w' = ew_lock w" and "ew_pops w' = ew_pops w" "ew_workers w' = ew_workers w"
  shows "eval_inv w'"
  using assms by (simp add: eval_inv_def holds_def pop_at_def workers_of_def)

text \<open>Steps after which fewer tasks are in somebody's hands.\<close>

lemma eval_inv_drop:
  assumes inv: "eval_inv w" and same: "ew_rows w' = ew_rows w" "ew_next w' = ew_next w" "ew_now w' = ew_now w" "ew_lock w' = ew_lock w"
    and sub: "mset (holds w') \<subseteq># mset (holds w)" and pops: "ew_pops w' = ew_pops w \<or> (\<exists>i. ew_pops w' = mdel i (ew_pops w))"
    and workers: "\<And>i. workers_of i w' \<le> workers_of i w"
  shows "eval_inv w'"
proof -
  have "mset (map fst (holds w')) \<subseteq># mset (map fst (holds w))" using sub by (simp add: image_mset_subseteq_mono)
  then have "distinct (map fst (holds w'))"
    by (rule distinct_submset) (use inv in \<open>simp add: eval_inv_def\<close>)
  moreover have "set (holds w') \<subseteq> set (holds w)" using sub by (metis set_mset_mset set_mset_mono)
  moreover have "workers_of i w' + pop_at i w' \<le> EvalConcurrency" for i
  proof -
    have "pop_at i w' \<le> pop_at i w" using pops by (auto simp: pop_at_def)
    with workers [of i] inv show ?thesis by (simp add: eval_inv_def) (meson add_mono le_trans)
  qed
  moreover have "mwf (ew_pops w')" "map_of (ew_pops w') i = Some p \<Longrightarrow> map_of (ew_pops w) i = Some p" for i p
    using pops inv by (auto simp: eval_inv_def split: if_splits)
  ultimately show ?thesis using inv unfolding eval_inv_def same by (intro conjI) blast+
qed

text \<open>The tasks in the hands of one instance's pop, and those of everybody else.\<close>

lemma holds_del_put:
  assumes "mwf m" and "map_of m i = Some p"
  shows "mset (concat (map (\<lambda>(_, p). pop_holds p) m)) =
      mset (pop_holds p) + mset (concat (map (\<lambda>(_, p). pop_holds p) (mdel i m)))"
    and "mset (concat (map (\<lambda>(_, p). pop_holds p) (mput i q m))) =
      mset (pop_holds q) + mset (concat (map (\<lambda>(_, p). pop_holds p) (mdel i m)))"
  using assms
proof (induction m)
  case (Cons x m)
  obtain j r where x: "x = (j, r)" by (rule prod.exhaust)
  { case 1
    show ?case
    proof (cases "j = i")
      case True
      then have "\<not> mhas m i" using 1 x by (auto simp: mwf_def mhas_keys)
      with 1 x True show ?thesis by (simp add: mdel_absent)
    next
      case False
      with Cons.IH(1) 1 x show ?thesis by (simp add: mwf_def)
    qed
  }
  { case 2
    show ?case
    proof (cases "j = i")
      case True
      then have "\<not> mhas m i" using 2 x by (auto simp: mwf_def mhas_keys)
      with 2 x True show ?thesis by (simp add: mdel_absent)
    next
      case False
      with Cons.IH(2) 2 x show ?thesis by (simp add: mwf_def)
    qed
  }
qed simp_all

lemma holds_put:
  assumes "mwf (ew_pops w)" and "map_of (ew_pops w) i = Some p" and "ew_workers w' = ew_workers w" and "ew_pops w' = mput i q (ew_pops w)"
  shows "mset (holds w) + mset (pop_holds q) = mset (holds w') + mset (pop_holds p)"
  using holds_del_put [OF assms(1,2)] assms(3,4) by (simp add: holds_def)

lemma mput_absent: "\<not> mhas m i \<Longrightarrow> mput i q m = m @ [(i, q)]"
  by (induction m) (auto simp: mhas_def split: if_splits)


subsection \<open>Every step keeps the invariant\<close>

lemma held_distinct_row:
  assumes "distinct (map qt_ID rows)" and "row_held rows h" and "t \<in> set rows" and "qt_ID t = fst h"
  shows "qt_Status t = QueueTaskRunning \<and> qt_StartedAt t = Some (snd h)"
  using assms unfolding row_held_def by (metis distinct_map inj_onD)

text \<open>An update that spares running rows within their lease spares everybody's row.\<close>

lemma update_spares:
  assumes inv: "eval_inv w" and h: "h \<in> set (holds w)"
    and spare: "\<And>t. t \<in> set (ew_rows w) \<Longrightarrow> P t \<Longrightarrow> qt_ID t = fst h \<Longrightarrow> qt_Status t = QueueTaskRunning \<Longrightarrow>
      qt_StartedAt t = Some (snd h) \<Longrightarrow> False"
  shows "row_held (update_rows P f (ew_rows w)) h"
  using inv h by (intro update_rows_held spare) (auto simp: eval_inv_def)

lemma queued_spares:
  assumes inv: "eval_inv w" and h: "h \<in> set (holds w)"
  shows "row_held (claim_row now k (ew_rows w)) h" "row_held (stop_write now k (ew_rows w)) h"
  unfolding claim_row_def stop_write_def by (rule update_spares [OF inv h], simp)+

lemma move_spares:
  assumes "row_held rows h"
  shows "row_held (snd (move_write tn rows)) h"
proof -
  have "row_held (set_position k p rows') h" if "row_held rows' h" for k p rows'
    unfolding set_position_def by (rule update_rows_held [OF that]) simp
  with assms show ?thesis by (simp add: move_write_def Let_def split: prod.splits)
qed

lemma reset_spares:
  assumes inv: "eval_inv w" and h: "h \<in> set (holds w)"
  shows "row_held (ModelEvalQueueResetRunning (ew_now w) (ew_rows w)) h"
  unfolding ModelEvalQueueResetRunning_def
proof (rule update_spares [OF inv h])
  fix t
  assume "qt_Status t = QueueTaskRunning \<and> lease_over (ew_now w) t" "qt_StartedAt t = Some (snd h)"
  then have "snd h < ew_now w - evalQueueRunningLease" by (simp add: lease_over_def)
  moreover have "ew_now w \<le> snd h + evalQueueRunningLease" using inv h by (simp add: eval_inv_def)
  ultimately show False by simp
qed

lemma enqueue_keys:
  "distinct (map task_key (number_tasks dup p cands)) \<and>
    task_key ` set (number_tasks dup p cands) \<inter> set dup = {} \<and> length (number_tasks dup p cands) \<le> length cands"
  by (induction dup p cands rule: number_tasks.induct) auto

lemma insert_ids: "map qt_ID (insert_tasks rows nxt tasks) = map qt_ID rows @ map (\<lambda>i. nxt + int i) [0..<length tasks]"
  by (simp add: insert_tasks_def) (rule nth_equalityI; simp add: nth_enumerate_eq)

lemma insert_members: "t \<in> set (insert_tasks rows nxt tasks) \<longleftrightarrow>
    t \<in> set rows \<or> (\<exists>i < length tasks. t = (tasks ! i)\<lparr>qt_ID := nxt + int i\<rparr>)"
proof -
  have "t \<in> set (map (\<lambda>(i, t). t\<lparr>qt_ID := nxt + int i\<rparr>) (enumerate 0 tasks)) \<longleftrightarrow>
      (\<exists>i < length tasks. t = (tasks ! i)\<lparr>qt_ID := nxt + int i\<rparr>)"
  proof
    assume "\<exists>i < length tasks. t = (tasks ! i)\<lparr>qt_ID := nxt + int i\<rparr>"
    then obtain i where i: "i < length tasks" "t = (tasks ! i)\<lparr>qt_ID := nxt + int i\<rparr>" by blast
    then have "(i, tasks ! i) \<in> set (enumerate 0 tasks)" by (simp add: in_set_enumerate_eq)
    then show "t \<in> set (map (\<lambda>(i, t). t\<lparr>qt_ID := nxt + int i\<rparr>) (enumerate 0 tasks))" using i by force
  qed (auto simp: in_set_enumerate_eq)
  then show ?thesis by (simp only: insert_tasks_def set_append Un_iff)
qed

lemma insert_active:
  "map task_key (filter task_active (insert_tasks rows nxt tasks)) =
    map task_key (filter task_active rows) @ map task_key (filter task_active tasks)"
proof -
  have "map task_key (filter task_active (map (\<lambda>(i, t). t\<lparr>qt_ID := nxt + int i\<rparr>) (enumerate n tasks))) =
      map task_key (filter task_active tasks)" for n
    by (induction tasks arbitrary: n) simp_all
  then show ?thesis by (simp add: insert_tasks_def)
qed

lemma rows_ok_insert:
  assumes ok: "rows_ok nxt rows" and dup: "task_key ` set (filter task_active rows) \<subseteq> set dup"
    and tasks: "tasks = number_tasks dup p cands"
  shows "rows_ok (nxt + int (length tasks)) (insert_tasks rows nxt tasks)"
proof -
  have keys: "distinct (map task_key tasks)" "task_key ` set tasks \<inter> set dup = {}"
    unfolding tasks using enqueue_keys by blast+
  have "distinct (map qt_ID (insert_tasks rows nxt tasks))"
    unfolding insert_ids distinct_append
  proof (intro conjI)
    show "distinct (map qt_ID rows)" using ok by (simp add: rows_ok_def)
    show "distinct (map (\<lambda>i. nxt + int i) [0..<length tasks])" by (simp add: distinct_map inj_on_def)
    have "k < nxt" if "k \<in> set (map qt_ID rows)" for k using that ok by (auto simp: rows_ok_def)
    then show "set (map qt_ID rows) \<inter> set (map (\<lambda>i. nxt + int i) [0..<length tasks]) = {}" by fastforce
  qed
  moreover have "\<forall>t \<in> set (insert_tasks rows nxt tasks). qt_ID t < nxt + int (length tasks)"
    using ok by (fastforce simp: insert_members rows_ok_def)
  moreover have tk: "distinct (map task_key (filter task_active tasks))" using keys(1) by (rule distinct_map_filter)
  moreover have "distinct (map task_key (filter task_active rows) @ map task_key (filter task_active tasks))"
  proof -
    have "set (map task_key (filter task_active rows)) \<subseteq> set dup" using dup by simp
    moreover have "set (map task_key (filter task_active tasks)) \<subseteq> task_key ` set tasks" by auto
    ultimately show ?thesis using keys ok tk unfolding distinct_append rows_ok_def by blast
  qed
  ultimately show ?thesis unfolding rows_ok_def insert_active by blast
qed

lemma eval_inv_start: "eval_inv empty_queue"
  by (simp add: eval_inv_def empty_queue_def rows_ok_def holds_def workers_of_def pop_at_def)

lemma inv_tick:
  assumes inv: "eval_inv w" and t: "ew_now w \<le> t" and h: "\<And>k s. (k, s) \<in> set (holds w) \<Longrightarrow> t \<le> s + evalQueueRunningLease"
    and p: "\<And>i p. map_of (ew_pops w) i = Some p \<Longrightarrow> t \<le> pp_time p + evalQueueRunningLease"
  shows "eval_inv (w\<lparr>ew_now := t\<rparr>)"
proof -
  have same: "holds (w\<lparr>ew_now := t\<rparr>) = holds w" "pop_at i (w\<lparr>ew_now := t\<rparr>) = pop_at i w"
    "workers_of i (w\<lparr>ew_now := t\<rparr>) = workers_of i w" for i
    by (simp_all add: holds_def pop_at_def workers_of_def)
  have "\<forall>h \<in> set (holds w). row_held (ew_rows w) h \<and> snd h \<le> t \<and> t \<le> snd h + evalQueueRunningLease"
  proof (intro ballI conjI)
    fix x assume x: "x \<in> set (holds w)"
    then have "row_held (ew_rows w) x \<and> snd x \<le> ew_now w" using inv by (simp add: eval_inv_def)
    with t show "row_held (ew_rows w) x" "snd x \<le> t" by auto
    show "t \<le> snd x + evalQueueRunningLease" using h [of "fst x" "snd x"] x by simp
  qed
  moreover have "\<forall>i p. map_of (ew_pops w) i = Some p \<longrightarrow> pp_time p \<le> t \<and> t \<le> pp_time p + evalQueueRunningLease"
  proof (intro allI impI conjI)
    fix i q assume q: "map_of (ew_pops w) i = Some q"
    then have "pp_time q \<le> ew_now w" using inv by (simp add: eval_inv_def)
    with t show "pp_time q \<le> t" by simp
    show "t \<le> pp_time q + evalQueueRunningLease" by (rule p [OF q])
  qed
  ultimately show ?thesis using inv unfolding eval_inv_def same by simp
qed


lemma inv_pop:
  assumes inv: "eval_inv w" and free: "map_of (ew_pops w) i = None" and workers: "workers_of i w < EvalConcurrency"
  shows "eval_inv (w\<lparr>ew_pops := mput i \<lparr>pp_time = ew_now w,
      pp_left = pop_read (int EvalConcurrency - int (workers_of i w)) (ew_rows w), pp_kept = []\<rparr> (ew_pops w)\<rparr>)"
    (is "eval_inv ?w'")
proof -
  let ?p = "\<lparr>pp_time = ew_now w, pp_left = pop_read (int EvalConcurrency - int (workers_of i w)) (ew_rows w), pp_kept = []\<rparr>"
  have "\<not> mhas (ew_pops w) i" using free by (simp add: mhas_def)
  then have "holds ?w' = holds w" by (simp add: holds_def mput_absent pop_holds_def)
  moreover have "workers_of j ?w' + pop_at j ?w' \<le> EvalConcurrency" for j
  proof (cases "j = i")
    case True
    have "length (pp_left ?p) \<le> EvalConcurrency - workers_of i w"
      using workers by (simp add: pop_read_def nat_diff_distrib)
    with True workers show ?thesis by (simp add: pop_at_def workers_of_def)
  next
    case False
    then have "pop_at j ?w' = pop_at j w" by (simp add: pop_at_def)
    with inv show ?thesis by (simp add: eval_inv_def workers_of_def)
  qed
  ultimately show ?thesis
    using inv lease_positive unfolding eval_inv_def by (simp add: workers_of_def)
qed

text \<open>A claim that hits takes a row nobody holds.\<close>

lemma claim_new:
  assumes inv: "eval_inv w" and hit: "row_hit k QueueTaskQueued (ew_rows w)"
  shows "k \<notin> set (map fst (holds w))" and "row_held (claim_row s k (ew_rows w)) (k, s)"
proof -
  from hit obtain t where t: "t \<in> set (ew_rows w)" "qt_ID t = k" "qt_Status t = QueueTaskQueued"
    by (auto simp: row_hit_def list_ex_iff)
  have d: "distinct (map qt_ID (ew_rows w))" using inv by (simp add: eval_inv_def rows_ok_def)
  show "k \<notin> set (map fst (holds w))"
  proof
    assume "k \<in> set (map fst (holds w))"
    then obtain h where h: "h \<in> set (holds w)" "fst h = k" by auto
    then have "row_held (ew_rows w) h" using inv by (simp add: eval_inv_def)
    from held_distinct_row [OF d this t(1)] t h show False by simp
  qed
  show "row_held (claim_row s k (ew_rows w)) (k, s)"
  proof -
    let ?t = "t\<lparr>qt_Status := QueueTaskRunning, qt_StartedAt := Some s\<rparr>"
    have "?t \<in> set (claim_row s k (ew_rows w))" using t by (force simp: claim_row_def update_rows_def)
    then show ?thesis using t(2) unfolding row_held_def by (intro bexI [of _ ?t]) simp_all
  qed
qed

lemma inv_claim:
  assumes inv: "eval_inv w" and p: "map_of (ew_pops w) i = Some p" and left: "pp_left p = t # ts"
    and res: "pop_claim (pp_time p) t (pp_kept p, ew_rows w) = (kept, rows)"
  shows "eval_inv (w\<lparr>ew_pops := mput i (p\<lparr>pp_left := ts, pp_kept := kept\<rparr>) (ew_pops w), ew_rows := rows\<rparr>)"
    (is "eval_inv ?w'")
proof -
  let ?q = "p\<lparr>pp_left := ts, pp_kept := kept\<rparr>"
  have below: "rows_below rows (ew_rows w)" by (rule pop_claim_below [OF res])
  have pt: "pp_time p \<le> ew_now w" "ew_now w \<le> pp_time p + evalQueueRunningLease"
    using inv p by (auto simp: eval_inv_def)
  have wf: "mwf (ew_pops w)" using inv by (simp add: eval_inv_def)
  have rowheld: "row_held rows h" if "h \<in> set (holds w)" for h
    using res queued_spares(1) [OF inv that] inv that
    by (auto simp: pop_claim_def eval_inv_def split: if_splits)
  have len: "length kept \<le> Suc (length (pp_kept p))" using res by (auto simp: pop_claim_def split: if_splits)
  have ms: "mset (holds w) + mset (pop_holds ?q) = mset (holds ?w') + mset (pop_holds p)"
    by (rule holds_put [OF wf p]) simp_all
  have holds: "distinct (map fst (holds ?w')) \<and> (\<forall>h \<in> set (holds ?w'). row_held rows h \<and> snd h \<le> ew_now w \<and> ew_now w \<le> snd h + evalQueueRunningLease)"
  proof (cases "row_hit (qt_ID t) QueueTaskQueued (ew_rows w)")
    case False
    then have "kept = pp_kept p" using res by (simp add: pop_claim_def)
    then have "mset (holds ?w') = mset (holds w)" using ms by (simp add: pop_holds_def)
    then have "distinct (map fst (holds ?w')) = distinct (map fst (holds w))" "set (holds ?w') = set (holds w)"
      by (rule distinct_mset_map, metis set_mset_mset)
    with inv rowheld show ?thesis by (simp add: eval_inv_def)
  next
    case True
    then have k: "kept = pp_kept p @ [t\<lparr>qt_Status := QueueTaskRunning, qt_StartedAt := Some (pp_time p)\<rparr>]"
      "rows = claim_row (pp_time p) (qt_ID t) (ew_rows w)" using res by (simp_all add: pop_claim_def)
    then have "pop_holds ?q = pop_holds p @ [(qt_ID t, pp_time p)]" by (simp add: pop_holds_def)
    then have m: "mset (holds ?w') = mset ((qt_ID t, pp_time p) # holds w)" using ms by simp
    have "distinct (map fst (holds ?w')) = distinct (map fst ((qt_ID t, pp_time p) # holds w))"
      "set (holds ?w') = set ((qt_ID t, pp_time p) # holds w)"
      by (rule distinct_mset_map [OF m], metis m set_mset_mset)
    with claim_new [OF inv True] inv rowheld pt k(2) show ?thesis by (auto simp: eval_inv_def)
  qed
  have conc: "workers_of j ?w' + pop_at j ?w' \<le> EvalConcurrency" for j
  proof (cases "j = i")
    case True
    have "workers_of i w + (Suc (length ts) + length (pp_kept p)) \<le> EvalConcurrency"
      using inv p left unfolding eval_inv_def pop_at_def by (metis length_Cons option.simps(5))
    with True len show ?thesis by (simp add: pop_at_def workers_of_def)
  next
    case False
    then have "pop_at j ?w' = pop_at j w" by (simp add: pop_at_def)
    with inv show ?thesis by (simp add: eval_inv_def workers_of_def)
  qed
  have rows: "rows_ok (ew_next w) rows" using rows_ok_below [OF _ below] inv by (simp add: eval_inv_def)
  have active: "task_key ` set (filter task_active rows) \<subseteq> task_key ` set (filter task_active (ew_rows w))"
    using rows_below_active [OF below] inv by (simp add: eval_inv_def rows_ok_def)
  show ?thesis
    unfolding eval_inv_def
  proof (intro conjI)
    show "rows_ok (ew_next ?w') (ew_rows ?w')" using rows by simp
    show "\<forall>cands dup m. ew_lock ?w' = Some (cands, dup, m) \<longrightarrow> task_key ` set (filter task_active (ew_rows ?w')) \<subseteq> set dup"
    proof (intro allI impI)
      fix cands dup m assume "ew_lock ?w' = Some (cands, dup, m)"
      then have "ew_lock w = Some (cands, dup, m)" by simp
      with inv have "task_key ` set (filter task_active (ew_rows w)) \<subseteq> set dup" unfolding eval_inv_def by blast
      with active show "task_key ` set (filter task_active (ew_rows ?w')) \<subseteq> set dup" by simp
    qed
    show "\<forall>j q. map_of (ew_pops ?w') j = Some q \<longrightarrow> pp_time q \<le> ew_now ?w' \<and> ew_now ?w' \<le> pp_time q + evalQueueRunningLease"
      using inv pt by (auto simp: eval_inv_def)
  qed (use holds conc wf in simp_all)
qed


lemma inv_dispatch:
  assumes inv: "eval_inv w" and p: "map_of (ew_pops w) i = Some p" and left: "pp_left p = []"
  shows "eval_inv (w\<lparr>ew_pops := mdel i (ew_pops w),
      ew_workers := map (\<lambda>t. (i, qt_ID t, pp_time p)) (pp_kept p) @ ew_workers w,
      ew_inflight := map (\<lambda>t. (i, qt_ID t)) (pp_kept p) @ ew_inflight w\<rparr>)"
    (is "eval_inv ?w'")
proof -
  have wf: "mwf (ew_pops w)" using inv by (simp add: eval_inv_def)
  have m: "mset (holds ?w') = mset (holds w)"
    using holds_del_put(1) [OF wf p] by (simp add: holds_def pop_holds_def comp_def)
  have sets: "set (holds ?w') = set (holds w)" "distinct (map fst (holds ?w')) = distinct (map fst (holds w))"
    by (metis m set_mset_mset, rule distinct_mset_map [OF m])
  have "workers_of j ?w' + pop_at j ?w' \<le> EvalConcurrency" for j
  proof (cases "j = i")
    case True
    have "workers_of i w + length (pp_kept p) \<le> EvalConcurrency"
      using inv p left unfolding eval_inv_def pop_at_def by (metis add_0 list.size(3) option.simps(5))
    with True show ?thesis by (simp add: pop_at_def workers_of_def comp_def)
  next
    case False
    then have "pop_at j ?w' = pop_at j w" "workers_of j ?w' = workers_of j w"
      by (simp_all add: pop_at_def workers_of_def comp_def)
    with inv show ?thesis by (simp add: eval_inv_def)
  qed
  then show ?thesis
    using inv wf unfolding eval_inv_def sets by simp
qed

lemma number_tasks_ok:
  assumes inv: "eval_inv w" and lock: "ew_lock w = Some (cands, dup, m)" and tasks: "tasks = number_tasks dup m cands"
  shows "eval_inv (w\<lparr>ew_lock := None, ew_rows := insert_tasks (ew_rows w) (ew_next w) tasks,
      ew_next := ew_next w + int (length tasks)\<rparr>)"
    (is "eval_inv ?w'")
proof -
  have same: "holds ?w' = holds w" "pop_at i ?w' = pop_at i w" "workers_of i ?w' = workers_of i w" for i
    by (simp_all add: holds_def pop_at_def workers_of_def)
  have "task_key ` set (filter task_active (ew_rows w)) \<subseteq> set dup" using inv lock unfolding eval_inv_def by blast
  then have "rows_ok (ew_next ?w') (ew_rows ?w')"
    using rows_ok_insert [OF _ _ tasks, of "ew_next w" "ew_rows w"] inv by (simp add: eval_inv_def)
  moreover have "row_held (ew_rows ?w') h" if "row_held (ew_rows w) h" for h
    using that by (auto simp: row_held_def insert_tasks_def)
  ultimately show ?thesis using inv unfolding eval_inv_def same by simp
qed

lemma remove_holds:
  assumes "x \<in> set (ew_workers w)" and "ew_workers w' = remove1 x (ew_workers w)" and "ew_pops w' = ew_pops w"
  shows "mset (holds w) = mset (snd x # holds w')"
  using assms by (simp add: holds_def) (metis image_mset_add_mset insert_DiffM mset_map set_mset_mset)

lemma remove_workers: "workers_of i w' \<le> workers_of i w" if "ew_workers w' = remove1 x (ew_workers w)"
  unfolding workers_of_def that by (simp add: filter_remove1 length_remove1)

lemma inv_abandon:
  assumes inv: "eval_inv w" and x: "x \<in> set (ew_workers w)"
    and w': "ew_workers w' = remove1 x (ew_workers w)" "ew_pops w' = ew_pops w" "ew_rows w' = ew_rows w" "ew_next w' = ew_next w"
      "ew_now w' = ew_now w" "ew_lock w' = ew_lock w"
  shows "eval_inv w'" and "snd x \<notin> set (holds w')" and "fst (snd x) \<notin> set (map fst (holds w'))"
proof -
  note m = remove_holds [OF x w'(1,2)]
  show "eval_inv w'"
    by (rule eval_inv_drop [OF inv w'(3-6)]) (use m w' remove_workers [OF w'(1)] in auto)
  have "distinct (map fst (snd x # holds w'))"
    using inv distinct_mset_map [OF m, of fst] by (simp add: eval_inv_def)
  then show "fst (snd x) \<notin> set (map fst (holds w'))" "snd x \<notin> set (holds w')" by auto
qed

lemma inv_done:
  assumes inv: "eval_inv w" and x: "(i, k, s) \<in> set (ew_workers w)"
  shows "eval_inv (w\<lparr>ew_workers := remove1 (i, k, s) (ew_workers w), ew_inflight := inflight,
      ew_rows := ModelEvalQueueMarkDone redact now k evalID errMsg (ew_rows w)\<rparr>)"
proof -
  define w1 where "w1 = w\<lparr>ew_workers := remove1 (i, k, s) (ew_workers w), ew_inflight := inflight\<rparr>"
  have w1: "ew_workers w1 = remove1 (i, k, s) (ew_workers w)" "ew_pops w1 = ew_pops w" "ew_rows w1 = ew_rows w"
    "ew_next w1 = ew_next w" "ew_now w1 = ew_now w" "ew_lock w1 = ew_lock w"
    by (simp_all add: w1_def)
  note a = inv_abandon [OF inv x w1]
  have "eval_inv (w1\<lparr>ew_rows := ModelEvalQueueMarkDone redact now k evalID errMsg (ew_rows w1)\<rparr>)"
  proof (rule eval_inv_rows [OF a(1) queue_below(7)])
    fix h assume h: "h \<in> set (holds w1)"
    then have "fst h \<noteq> k" using a(3) by auto
    then show "row_held (ModelEvalQueueMarkDone redact now k evalID errMsg (ew_rows w1)) h"
      unfolding ModelEvalQueueMarkDone_def by (intro update_spares [OF a(1) h]) simp
  qed
  then show ?thesis by (simp add: w1_def)
qed

lemma inv_clear: "eval_inv w \<Longrightarrow> eval_inv (w\<lparr>ew_rows := snd (ModelEvalQueueClear (ew_rows w))\<rparr>)"
proof -
  assume inv: "eval_inv w"
  let ?rows = "filter (\<lambda>t. qt_Status t \<noteq> QueueTaskQueued) (ew_rows w)"
  have ok: "rows_ok (ew_next w) (ew_rows w)" using inv by (simp add: eval_inv_def)
  have "filter task_active ?rows = filter (\<lambda>t. qt_Status t \<noteq> QueueTaskQueued) (filter task_active (ew_rows w))"
    by (simp add: conj_commute)
  then have "distinct (map task_key (filter task_active ?rows))"
    using ok distinct_map_filter by (metis rows_ok_def)
  then have "rows_ok (ew_next w) ?rows" using ok distinct_map_filter by (auto simp: rows_ok_def)
  moreover have "row_held ?rows h" if "h \<in> set (holds w)" for h
  proof -
    have "row_held (ew_rows w) h" using that inv by (simp add: eval_inv_def)
    then obtain t where t: "t \<in> set (ew_rows w)" "qt_ID t = fst h" "qt_Status t = QueueTaskRunning" "qt_StartedAt t = Some (snd h)"
      unfolding row_held_def by blast
    then have "t \<in> set ?rows" by simp
    with t show ?thesis unfolding row_held_def by blast
  qed
  ultimately have "eval_inv (w\<lparr>ew_rows := ?rows\<rparr>)" by (intro eval_inv_table [OF inv]) auto
  then show ?thesis by (simp add: ModelEvalQueueClear_def)
qed

lemma inv_crash:
  assumes inv: "eval_inv w"
  shows "eval_inv (w\<lparr>ew_workers := filter (\<lambda>x. fst x \<noteq> i) (ew_workers w), ew_pops := mdel i (ew_pops w), ew_inflight := inflight\<rparr>)"
    (is "eval_inv ?w'")
proof (rule eval_inv_drop [OF inv])
  have wf: "mwf (ew_pops w)" using inv by (simp add: eval_inv_def)
  have "mset (concat (map (\<lambda>(_, p). pop_holds p) (mdel i (ew_pops w)))) \<subseteq># mset (concat (map (\<lambda>(_, p). pop_holds p) (ew_pops w)))"
  proof (cases "map_of (ew_pops w) i")
    case None
    then show ?thesis by (simp add: mdel_absent mhas_def)
  next
    case (Some p)
    then show ?thesis using holds_del_put(1) [OF wf Some] by simp
  qed
  moreover have "mset (map snd (filter (\<lambda>x. fst x \<noteq> i) (ew_workers w))) \<subseteq># mset (map snd (ew_workers w))"
    by (simp add: image_mset_subseteq_mono multiset_filter_subset)
  ultimately show "mset (holds ?w') \<subseteq># mset (holds w)" by (simp add: holds_def subset_mset.add_mono)
  show "workers_of j ?w' \<le> workers_of j w" for j
  proof -
    have "filter (\<lambda>x. fst x = j) (filter (\<lambda>x. fst x \<noteq> i) (ew_workers w)) =
        filter (\<lambda>x. fst x \<noteq> i) (filter (\<lambda>x. fst x = j) (ew_workers w))" by (simp add: conj_commute)
    then show ?thesis by (simp add: workers_of_def length_filter_le del: filter_filter)
  qed
qed auto

lemma inv_start:
  assumes inv: "eval_inv w" and idle: "ew_workers w = []" "ew_pops w = []"
  shows "eval_inv (w\<lparr>ew_rows := ModelEvalQueueResetRunningOnStart multi now (ew_rows w)\<rparr>)"
  by (rule eval_inv_rows [OF inv queue_below(5)]) (simp add: holds_def idle)

lemma inv_requeue:
  assumes inv: "eval_inv w" and apart: "\<And>k s. (k, s) \<in> set (holds w) \<Longrightarrow> (i, k) \<notin> set (ew_inflight w)"
  shows "eval_inv (w\<lparr>ew_rows := ModelEvalQueueRequeueRunning (map snd (filter (\<lambda>x. fst x = i) (ew_inflight w))) (ew_rows w),
    ew_inflight := inflight\<rparr>)"
proof -
  let ?ids = "map snd (filter (\<lambda>x. fst x = i) (ew_inflight w))"
  have "eval_inv (w\<lparr>ew_rows := ModelEvalQueueRequeueRunning ?ids (ew_rows w)\<rparr>)"
  proof (rule eval_inv_rows [OF inv queue_below(6)])
    fix h assume h: "h \<in> set (holds w)"
    then have "fst h \<notin> set ?ids" using apart [of "fst h" "snd h"] by auto
    then show "row_held (ModelEvalQueueRequeueRunning ?ids (ew_rows w)) h"
      unfolding ModelEvalQueueRequeueRunning_def by (intro update_spares [OF inv h]) simp
  qed
  then show ?thesis by (rule eval_inv_frame) simp_all
qed

lemma eval_inv_step: "eval_step w w' \<Longrightarrow> eval_inv w \<Longrightarrow> eval_inv w'"
proof (induction rule: eval_step.induct)
  case (ev_tick w t)
  then show ?case by (intro inv_tick) auto
next
  case (ev_enqueue w caches ids cands)
  then show ?case by (auto simp: eval_inv_def holds_def pop_at_def workers_of_def enqueue_read_def)
next
  case (ev_enqueued w cands dup maxPos tasks)
  then show ?case by (intro number_tasks_ok) auto
next
  case (ev_abort w)
  then show ?case by (auto simp: eval_inv_def holds_def pop_at_def workers_of_def)
next
  case (ev_pop w i)
  then show ?case by (intro inv_pop) auto
next
  case (ev_claim w i p t ts kept rows)
  show ?case by (rule inv_claim [OF ev_claim(4) ev_claim(1-3)])
next
  case (ev_dispatch w i p)
  show ?case by (rule inv_dispatch [OF ev_dispatch(3) ev_dispatch(1,2)])
next
  case (ev_move k w tn)
  show ?case by (rule eval_inv_frame [OF ev_move(2)]) simp_all
next
  case (ev_moved tn w)
  have "eval_inv (w\<lparr>ew_rows := snd (move_write tn (ew_rows w))\<rparr>)"
    by (rule eval_inv_rows [OF ev_moved(2) move_below]) (use ev_moved(2) in \<open>auto simp: eval_inv_def intro: move_spares\<close>)
  then show ?case by (rule eval_inv_frame) simp_all
next
  case (ev_stop w k)
  show ?case by (rule eval_inv_rows [OF ev_stop queue_below(3) queued_spares(2) [OF ev_stop]])
next
  case (ev_clear w)
  then show ?case by (rule inv_clear)
next
  case (ev_reap w)
  show ?case by (rule eval_inv_rows [OF ev_reap queue_below(4) reset_spares [OF ev_reap]])
next
  case (ev_start w multi)
  show ?case by (rule inv_start [OF ev_start(3,1,2)])
next
  case (ev_done i k s w redact evalID errMsg)
  show ?case by (rule inv_done [OF ev_done(2,1)])
next
  case (ev_abandon x w)
  show ?case by (rule inv_abandon(1) [OF ev_abandon(2,1)]) simp_all
next
  case (ev_crash w i)
  then show ?case by (rule inv_crash)
next
  case (ev_requeue i w)
  show ?case by (rule inv_requeue [OF ev_requeue(3,2)])
qed

lemma eval_reachable_inv: "eval_reachable w \<Longrightarrow> eval_inv w"
  by (induction rule: eval_reachable.induct) (auto intro: eval_inv_start eval_inv_step)


subsection \<open>What the queue guarantees\<close>

text \<open>A run of two instances: the first takes a task and gives it up without a result, after the lease the second takes it.\<close>

definition demo_cands :: "ModelEvalQueueTask list" where
  "demo_cands = (case queue_candidates demo_caches 0 [] [11] of Inl _ \<Rightarrow> [] | Inr cands \<Rightarrow> cands)"

definition demo_queued :: eval_world where
  "demo_queued = empty_queue\<lparr>ew_rows := insert_tasks [] 1 (number_tasks [] (-1) demo_cands), ew_next := 2\<rparr>"

definition demo_takes :: "int \<Rightarrow> eval_world \<Rightarrow> eval_world" where
  "demo_takes i w =
    (case ModelEvalQueuePopNext (ew_now w) 4 (ew_rows w) of
       (kept, rows) \<Rightarrow> w\<lparr>ew_rows := rows, ew_workers := map (\<lambda>t. (i, qt_ID t, ew_now w)) kept @ ew_workers w,
          ew_inflight := map (\<lambda>t. (i, qt_ID t)) kept @ ew_inflight w\<rparr>)"

definition demo_running :: eval_world where "demo_running = demo_takes 1 demo_queued"

definition demo_reaped :: eval_world where
  "demo_reaped = (let now = evalQueueRunningLease + 1 in
     demo_running\<lparr>ew_workers := [], ew_now := now, ew_rows := ModelEvalQueueResetRunning now (ew_rows demo_running)\<rparr>)"

definition demo_second :: eval_world where "demo_second = demo_takes 2 demo_reaped"

lemma demo_takes_reachable:
  assumes w: "eval_reachable w" and idle: "ew_pops w = []" "workers_of i w = 0" and one: "pop_read 4 (ew_rows w) = [t]"
    and queued: "row_hit (qt_ID t) QueueTaskQueued (ew_rows w)"
  shows "eval_reachable (demo_takes i w)"
proof -
  have limit: "int EvalConcurrency - int (workers_of i w) = 4" using idle by (simp add: EvalConcurrency_def)
  let ?p = "\<lparr>pp_time = ew_now w, pp_left = [t], pp_kept = []\<rparr>"
  let ?t = "t\<lparr>qt_Status := QueueTaskRunning, qt_StartedAt := Some (ew_now w)\<rparr>"
  let ?w1 = "w\<lparr>ew_pops := [(i, ?p)]\<rparr>"
  let ?w2 = "?w1\<lparr>ew_pops := [(i, ?p\<lparr>pp_left := [], pp_kept := [?t]\<rparr>)], ew_rows := claim_row (ew_now w) (qt_ID t) (ew_rows w)\<rparr>"
  have "eval_step w ?w1" using ev_pop [of w i] idle one limit by (simp add: EvalConcurrency_def)
  moreover have "eval_step ?w1 ?w2"
    using ev_claim [of ?w1 i ?p t "[]" "[?t]" "claim_row (ew_now w) (qt_ID t) (ew_rows w)"] queued
    by (simp add: pop_claim_def)
  moreover have "eval_step ?w2 (demo_takes i w)"
  proof -
    have "demo_takes i w = ?w2\<lparr>ew_pops := mdel i (ew_pops ?w2), ew_workers := map (\<lambda>t. (i, qt_ID t, ew_now w)) [?t] @ ew_workers ?w2,
        ew_inflight := map (\<lambda>t. (i, qt_ID t)) [?t] @ ew_inflight ?w2\<rparr>"
      using idle one queued by (cases w) (simp add: demo_takes_def ModelEvalQueuePopNext_def pop_claim_def)
    then show ?thesis using ev_dispatch [of ?w2 i "?p\<lparr>pp_left := [], pp_kept := [?t]\<rparr>"] by simp
  qed
  ultimately show ?thesis using w by (meson er_next)
qed

lemma demo_number: "length (number_tasks [] (-1) demo_cands) = 1"
  by code_simp

lemma demo_queued_reachable: "eval_reachable demo_queued"
proof -
  have cands: "queue_candidates demo_caches (ew_now empty_queue) [] [11] = Inr demo_cands" by code_simp
  have "eval_step empty_queue (empty_queue\<lparr>ew_lock := Some (demo_cands, enqueue_read (ew_rows empty_queue))\<rparr>)"
    by (rule ev_enqueue [OF _ cands]) (simp add: empty_queue_def)
  moreover have "eval_step (empty_queue\<lparr>ew_lock := Some (demo_cands, enqueue_read (ew_rows empty_queue))\<rparr>) demo_queued"
    using ev_enqueued [of "empty_queue\<lparr>ew_lock := Some (demo_cands, enqueue_read (ew_rows empty_queue))\<rparr>" demo_cands "[]" "-1"]
    by (simp add: demo_queued_def empty_queue_def enqueue_read_def demo_number)
  ultimately show ?thesis using er_start by (meson er_next)
qed


lemma demo_pop1: "ew_pops demo_queued = [] \<and> workers_of 1 demo_queued = 0 \<and> length (pop_read 4 (ew_rows demo_queued)) = 1 \<and>
    row_hit (qt_ID (hd (pop_read 4 (ew_rows demo_queued)))) QueueTaskQueued (ew_rows demo_queued)"
  by code_simp

lemma demo_pop2: "ew_pops demo_reaped = [] \<and> workers_of 2 demo_reaped = 0 \<and> length (pop_read 4 (ew_rows demo_reaped)) = 1 \<and>
    row_hit (qt_ID (hd (pop_read 4 (ew_rows demo_reaped)))) QueueTaskQueued (ew_rows demo_reaped)"
  by code_simp

lemma demo_run_facts: "ew_workers demo_running = [(1, 1, 0)] \<and> ew_pops demo_running = [] \<and> ew_now demo_running = 0"
  by code_simp

lemma single_hd: "length xs = 1 \<Longrightarrow> xs = [hd xs]"
  by (cases xs) auto

lemma demo_running_reachable: "eval_reachable demo_running"
  unfolding demo_running_def
  by (rule demo_takes_reachable [OF demo_queued_reachable _ _ single_hd]) (use demo_pop1 in blast)+

lemma demo_second_reachable: "eval_reachable demo_second"
proof -
  let ?w1 = "demo_running\<lparr>ew_workers := []\<rparr>"
  let ?w2 = "?w1\<lparr>ew_now := evalQueueRunningLease + 1\<rparr>"
  have "eval_step demo_running ?w1"
    using ev_abandon [of "(1, 1, 0)" demo_running] demo_run_facts by simp
  moreover have "eval_step ?w1 ?w2"
    by (rule ev_tick) (use demo_run_facts in \<open>simp_all add: holds_def evalQueueRunningLease_def eval_second_def\<close>)
  moreover have "eval_step ?w2 demo_reaped"
    using ev_reap [of ?w2] by (simp add: demo_reaped_def Let_def)
  ultimately have "eval_reachable demo_reaped" using demo_running_reachable by (meson er_next)
  then show ?thesis
    unfolding demo_second_def by (rule demo_takes_reachable [OF _ _ _ single_hd]) (use demo_pop2 in blast)+
qed

lemma demo_second_facts: "ew_workers demo_second = [(2, 1, evalQueueRunningLease + 1)]" "ew_inflight demo_second = [(2, 1), (1, 1)]"
  by (code_simp, code_simp)

text \<open>
  C38. However the instances' pops, workers, crashes, give-backs and the orders of users interleave: no two workers, of one
  instance or of several, run the same task; the row of a task a worker runs says so, with the time it was
  claimed; and no instance has more than four workers and tasks under way.
\<close>

theorem queue_exclusive:
  assumes "eval_reachable w"
  shows "distinct (map (fst \<circ> snd) (ew_workers w)) \<and>
    list_all (\<lambda>(i, k, s). row_held (ew_rows w) (k, s)) (ew_workers w) \<and>
    workers_of i w + pop_at i w \<le> EvalConcurrency"
proof -
  note inv = eval_reachable_inv [OF assms]
  have "mset (map snd (ew_workers w)) \<subseteq># mset (holds w)" by (simp add: holds_def)
  then have "mset (map fst (map snd (ew_workers w))) \<subseteq># mset (map fst (holds w))"
    using image_mset_subseteq_mono by (metis mset_map)
  then have "distinct (map fst (map snd (ew_workers w)))"
    by (rule distinct_submset) (use inv in \<open>simp add: eval_inv_def\<close>)
  moreover have "list_all (\<lambda>(i, k, s). row_held (ew_rows w) (k, s)) (ew_workers w)"
    unfolding list_all_iff
  proof (intro ballI)
    fix x assume "x \<in> set (ew_workers w)"
    then have "snd x \<in> set (holds w)" by (simp add: holds_def)
    with inv have "row_held (ew_rows w) (snd x)" by (simp add: eval_inv_def)
    then show "case x of (i, k, s) \<Rightarrow> row_held (ew_rows w) (k, s)" by (simp add: case_prod_unfold)
  qed
  ultimately show ?thesis using inv by (simp add: eval_inv_def)
qed

theorem queue_exclusive_witness:
  "row_held (ew_rows demo_second) (1, evalQueueRunningLease + 1) \<and> workers_of 2 demo_second + pop_at 2 demo_second \<le> 4"
  using queue_exclusive [OF demo_second_reachable, of 2] by (simp add: demo_second_facts EvalConcurrency_def)

text \<open>
  C39. However enqueuing requests interleave with everything else, the table never holds two tasks for the same model of
  the same channel that are both waiting or running, and no two rows have the same number.
\<close>

theorem queue_no_duplicates:
  assumes "eval_reachable w"
  shows "distinct (map task_key (filter task_active (ew_rows w))) \<and> distinct (map qt_ID (ew_rows w))"
  using eval_reachable_inv [OF assms] by (simp add: eval_inv_def rows_ok_def)

theorem queue_no_duplicates_witness:
  "distinct (map task_key (filter task_active (ew_rows demo_second)))"
  using queue_no_duplicates [OF demo_second_reachable] by blast

text \<open>
  A scheduler that stops gives back every task it once gave up without a result, even if another instance runs it
  by now: the row becomes waiting again and a third worker may take it.
\<close>

lemma stop_steals_task:
  "eval_reachable demo_second" "workers_of 1 demo_second = 0" "(2, 1, evalQueueRunningLease + 1) \<in> set (ew_workers demo_second)"
  "row_hit 1 QueueTaskQueued
     (ModelEvalQueueRequeueRunning (map snd (filter (\<lambda>x. fst x = 1) (ew_inflight demo_second))) (ew_rows demo_second))"
  by (rule demo_second_reachable, code_simp, simp add: demo_second_facts, code_simp)

subsection \<open>Taking the first tasks\<close>

lemma queued_claim: "queued_list (claim_row now k rows) = filter (\<lambda>t. qt_ID t \<noteq> k) (queued_list rows)"
proof -
  have "filter (\<lambda>t. qt_Status t = QueueTaskQueued) (claim_row now k rows) =
      filter (\<lambda>t. qt_ID t \<noteq> k) (filter (\<lambda>t. qt_Status t = QueueTaskQueued) rows)"
    by (induction rows) (auto simp: claim_row_def update_rows_def)
  then show ?thesis by (simp add: queued_list_def by_position_def filter_sort)
qed

lemma queued_members: "set (queued_list rows) = {t \<in> set rows. qt_Status t = QueueTaskQueued}"
  by (simp add: queued_list_def by_position_def)

lemma pop_fold:
  "distinct (map qt_ID ts) \<Longrightarrow> set ts \<subseteq> set (queued_list rows) \<Longrightarrow>
    fold (pop_claim now) ts (kept, rows) =
      (kept @ map (\<lambda>t. t\<lparr>qt_Status := QueueTaskRunning, qt_StartedAt := Some now\<rparr>) ts, fold (\<lambda>t. claim_row now (qt_ID t)) ts rows) \<and>
    queued_list (fold (\<lambda>t. claim_row now (qt_ID t)) ts rows) = filter (\<lambda>t. qt_ID t \<notin> qt_ID ` set ts) (queued_list rows)"
proof (induction ts arbitrary: kept rows)
  case (Cons t ts)
  have "row_hit (qt_ID t) QueueTaskQueued rows"
    using Cons.prems(2) by (auto simp: row_hit_def list_ex_iff queued_members)
  then have first: "pop_claim now t (kept, rows) =
      (kept @ [t\<lparr>qt_Status := QueueTaskRunning, qt_StartedAt := Some now\<rparr>], claim_row now (qt_ID t) rows)"
    by (simp add: pop_claim_def)
  have "set ts \<subseteq> set (queued_list (claim_row now (qt_ID t) rows))"
    unfolding queued_claim using Cons.prems by (auto simp: image_iff)
  from Cons.IH [OF _ this] Cons.prems(1) show ?case by (simp add: first queued_claim filter_filter conj_commute)
qed simp


lemma claims_keep: "fold (\<lambda>t. claim_row now (qt_ID t)) ts rows = map (\<lambda>r. if qt_ID r \<in> qt_ID ` set ts \<and> qt_Status r = QueueTaskQueued
    then r\<lparr>qt_Status := QueueTaskRunning, qt_StartedAt := Some now\<rparr> else r) rows"
  by (induction ts arbitrary: rows) (auto simp: claim_row_def update_rows_def)

text \<open>
  C40. Without interference a pop takes the first tasks of the waiting line, as many as asked for (at least one), in
  the order of the line, marks exactly their rows as running since now, and leaves the rest of the line as it was.
\<close>

theorem pop_takes_first:
  assumes "distinct (map qt_ID rows)" and "n = nat (if limit \<le> 0 then 1 else limit)"
  shows "fst (ModelEvalQueuePopNext now limit rows) =
      map (\<lambda>t. t\<lparr>qt_Status := QueueTaskRunning, qt_StartedAt := Some now\<rparr>) (take n (queued_list rows)) \<and>
    queued_list (snd (ModelEvalQueuePopNext now limit rows)) = drop n (queued_list rows) \<and>
    snd (ModelEvalQueuePopNext now limit rows) =
      map (\<lambda>r. if qt_ID r \<in> qt_ID ` set (take n (queued_list rows)) \<and> qt_Status r = QueueTaskQueued
        then r\<lparr>qt_Status := QueueTaskRunning, qt_StartedAt := Some now\<rparr> else r) rows"
proof -
  let ?ts = "take n (queued_list rows)"
  have "mset (queued_list rows) \<subseteq># mset rows" by (simp add: queued_list_def by_position_def multiset_filter_subset)
  then have "mset (map qt_ID (queued_list rows)) \<subseteq># mset (map qt_ID rows)" by (simp add: image_mset_subseteq_mono)
  then have d: "distinct (map qt_ID (queued_list rows))" by (rule distinct_submset [OF _ assms(1)])
  have ids: "distinct (map qt_ID ?ts)" using d by (simp add: take_map [symmetric])
  have "filter (\<lambda>t. qt_ID t \<notin> qt_ID ` set ?ts) (queued_list rows) = drop n (queued_list rows)"
  proof -
    have "distinct (map qt_ID (?ts @ drop n (queued_list rows)))" using d by simp
    then have "qt_ID ` set ?ts \<inter> qt_ID ` set (drop n (queued_list rows)) = {}" by (simp del: append_take_drop_id)
    then have "filter (\<lambda>t. qt_ID t \<notin> qt_ID ` set ?ts) (drop n (queued_list rows)) = drop n (queued_list rows)"
      by (intro filter_True) blast
    moreover have "filter (\<lambda>t. qt_ID t \<notin> qt_ID ` set ?ts) ?ts = []" by (intro filter_False) blast
    ultimately show ?thesis by (metis append_Nil append_take_drop_id filter_append)
  qed
  with pop_fold [OF ids set_take_subset, of now "[]"] show ?thesis
    by (simp add: ModelEvalQueuePopNext_def pop_read_def assms(2) claims_keep)
qed

theorem pop_takes_first_witness:
  "queued_list (snd (ModelEvalQueuePopNext 7 0 (ew_rows demo_queued))) = []"
proof -
  have "distinct (map qt_ID (ew_rows demo_queued))" and none: "drop 1 (queued_list (ew_rows demo_queued)) = []"
    by code_simp+
  then have "queued_list (snd (ModelEvalQueuePopNext 7 0 (ew_rows demo_queued))) = drop 1 (queued_list (ew_rows demo_queued))"
    by (intro pop_takes_first [THEN conjunct2, THEN conjunct1]) simp_all
  then show ?thesis using none by (rule trans)
qed

text \<open>
  Two users move two tasks up at the same time: both transactions find their rows still waiting, and two tasks
  end with the same position.
\<close>

definition demo_line :: "ModelEvalQueueTask list" where
  "demo_line = insert_tasks [] 1 (number_tasks [] (-1)
     (case queue_candidates demo_caches 0 [] [11, 12, 13] of Inl _ \<Rightarrow> [] | Inr cands \<Rightarrow> cands))"

definition demo_moves :: "ModelEvalQueueTask list" where
  "demo_moves = (case (move_read 3 demo_line, move_read 2 demo_line) of
     (Inr a, Inr b) \<Rightarrow> snd (move_write b (snd (move_write a demo_line))) | _ \<Rightarrow> [])"

lemma moves_collide: "map (\<lambda>t. (qt_ID t, qt_Position t)) demo_moves = [(1, 1), (2, 0), (3, 1)]"
  by code_simp

end
